(* ===== verification/Prelude.thy ===== *)
theory Prelude
  imports Main "HOL-Library.AList" "HOL-Library.List_Lexorder" "HOL-Library.Sublist"
begin

text \<open>
  Shared vocabulary of the development: Python text as lists of code points, Python dictionaries
  as association lists in insertion order, results that are either a raised exception or a value,
  and the generic locale of invariants of a transition system.  Every component theory imports
  this one.
\<close>

section \<open>Text\<close>

text \<open>
  A Python \<^verbatim>\<open>str\<close> is a sequence of Unicode code points; it is compared lexicographically by code
  point, which is the order \<^verbatim>\<open>List_Lexorder\<close> gives to \<open>nat list\<close>.
\<close>

type_synonym pystr = "nat list"

definition lit :: "string \<Rightarrow> pystr" where
  "lit s = map of_char s"

lemma lit_eq_iff [simp]: "lit s = lit t \<longleftrightarrow> s = t"
  by (simp add: lit_def inj_map_eq_map inj_on_def)

lemma lit_Nil_iff [simp]: "lit s = [] \<longleftrightarrow> s = []" "[] = lit s \<longleftrightarrow> s = []"
  by (auto simp: lit_def)

lemma lit_append: "lit (s @ t) = lit s @ lit t"
  by (simp add: lit_def)

lemma length_lit [simp]: "length (lit s) = length s"
  by (simp add: lit_def)

text \<open>\<^verbatim>\<open>str.isspace\<close> for one code point, and \<^verbatim>\<open>str.strip()\<close> without arguments.\<close>

definition is_space :: "nat \<Rightarrow> bool" where
  "is_space c \<longleftrightarrow> (9 \<le> c \<and> c \<le> 13) \<or> (28 \<le> c \<and> c \<le> 32) \<or> c = 0x85 \<or> c = 0xA0 \<or> c = 0x1680
     \<or> (0x2000 \<le> c \<and> c \<le> 0x200A) \<or> c = 0x2028 \<or> c = 0x2029 \<or> c = 0x202F \<or> c = 0x205F
     \<or> c = 0x3000"

definition strip :: "pystr \<Rightarrow> pystr" where
  "strip s = rev (dropWhile is_space (rev (dropWhile is_space s)))"

text \<open>\<^verbatim>\<open>str.startswith\<close> and \<^verbatim>\<open>str.endswith\<close>; \<open>s[:-1]\<close> is \<open>butlast\<close>.\<close>

abbreviation startswith :: "pystr \<Rightarrow> pystr \<Rightarrow> bool" where
  "startswith s p \<equiv> prefix p s"

abbreviation endswith :: "pystr \<Rightarrow> pystr \<Rightarrow> bool" where
  "endswith s p \<equiv> suffix p s"

text \<open>Decimal digits of a natural number, as \<^verbatim>\<open>str\<close> prints them, and zero padding on the left.\<close>

fun dec_nat :: "nat \<Rightarrow> pystr" where
  "dec_nat n = (if n < 10 then [48 + n] else dec_nat (n div 10) @ [48 + n mod 10])"

declare dec_nat.simps [simp del]

definition dec_int :: "int \<Rightarrow> pystr" where
  "dec_int i = (if i < 0 then 45 # dec_nat (nat (- i)) else dec_nat (nat i))"

definition pad_left :: "nat \<Rightarrow> pystr \<Rightarrow> pystr" where
  "pad_left w s = replicate (w - length s) 48 @ s"

text \<open>\<^verbatim>\<open>",".join(parts)\<close> and \<^verbatim>\<open>str.split(" ")\<close>.\<close>

fun join_with :: "pystr \<Rightarrow> pystr list \<Rightarrow> pystr" where
  "join_with sep [] = []"
| "join_with sep [x] = x"
| "join_with sep (x # y # zs) = x @ sep @ join_with sep (y # zs)"

fun split_at :: "nat \<Rightarrow> pystr \<Rightarrow> pystr list" where
  "split_at c [] = [[]]"
| "split_at c (x # xs) =
     (if x = c then [] # split_at c xs
      else case split_at c xs of [] \<Rightarrow> [[x]] | y # ys \<Rightarrow> (x # y) # ys)"

section \<open>Dictionaries\<close>

text \<open>
  A Python \<^verbatim>\<open>dict\<close> keeps insertion order, and assigning to a key that is present keeps its
  position.  \<^const>\<open>AList.update\<close> does exactly this on an association list.
\<close>

type_synonym ('k, 'v) dict = "('k \<times> 'v) list"

abbreviation dict_get :: "('k, 'v) dict \<Rightarrow> 'k \<Rightarrow> 'v option" where
  "dict_get d k \<equiv> map_of d k"

abbreviation dict_set :: "'k \<Rightarrow> 'v \<Rightarrow> ('k, 'v) dict \<Rightarrow> ('k, 'v) dict" where
  "dict_set k v d \<equiv> AList.update k v d"

abbreviation dict_del :: "'k \<Rightarrow> ('k, 'v) dict \<Rightarrow> ('k, 'v) dict" where
  "dict_del k d \<equiv> AList.delete k d"

abbreviation dict_keys :: "('k, 'v) dict \<Rightarrow> 'k list" where
  "dict_keys d \<equiv> map fst d"

abbreviation dict_values :: "('k, 'v) dict \<Rightarrow> 'v list" where
  "dict_values d \<equiv> map snd d"

abbreviation dict_ok :: "('k, 'v) dict \<Rightarrow> bool" where
  "dict_ok d \<equiv> distinct (map fst d)"

lemma dict_get_set [simp]: "dict_get (dict_set k v d) = (dict_get d)(k \<mapsto> v)"
  by (rule ext) (simp add: AList.update_conv)

lemma dict_get_del [simp]: "dict_get (dict_del k d) = (dict_get d)(k := None)"
  by (rule ext) (simp add: AList.delete_conv)

lemma dict_ok_set [simp]: "dict_ok d \<Longrightarrow> dict_ok (dict_set k v d)"
  by (rule AList.distinct_update)

lemma dict_ok_del [simp]: "dict_ok d \<Longrightarrow> dict_ok (dict_del k d)"
  by (rule AList.distinct_delete)

lemma dict_set_ne [simp]: "dict_set k v d \<noteq> []"
  by (cases d) auto

lemma dict_mem_values: "dict_ok d \<Longrightarrow> v \<in> set (dict_values d) \<longleftrightarrow> (\<exists>k. dict_get d k = Some v)"
  by (force simp: map_of_eq_Some_iff image_iff)

lemma dict_get_mem: "dict_get d k = Some v \<Longrightarrow> v \<in> set (dict_values d)"
  by (force dest: map_of_SomeD)

lemma dict_mem_keys: "k \<in> set (dict_keys d) \<longleftrightarrow> dict_get d k \<noteq> None"
  unfolding map_of_eq_None_iff by simp

lemma length_dict_set:
  "length (dict_set k v d) = (if dict_get d k = None then Suc (length d) else length d)"
  by (induction d) (auto simp: map_of_eq_None_iff)

text \<open>\<^verbatim>\<open>dict(pairs)\<close>: later pairs overwrite earlier ones.\<close>

definition dict_of :: "('k \<times> 'v) list \<Rightarrow> ('k, 'v) dict" where
  "dict_of kvs = fold (\<lambda>(k, v) d. dict_set k v d) kvs []"

lemma dict_ok_fold_set:
  "dict_ok d \<Longrightarrow> dict_ok (fold (\<lambda>(k, v) d. dict_set k v d) kvs d)"
  by (induction kvs arbitrary: d) auto

lemma dict_ok_dict_of [simp]: "dict_ok (dict_of kvs)"
  by (simp add: dict_of_def dict_ok_fold_set)

lemma dict_get_fold_set:
  "dict_get (fold (\<lambda>(k, v) d. dict_set k v d) kvs d) k = (case map_of (rev kvs) k of None \<Rightarrow> dict_get d k | Some v \<Rightarrow> Some v)"
proof (induction kvs arbitrary: d)
  case (Cons kv kvs)
  then show ?case by (cases kv) (auto simp: map_add_def split: option.splits)
qed simp

lemma dict_get_dict_of: "dict_get (dict_of kvs) k = map_of (rev kvs) k"
  by (simp add: dict_of_def dict_get_fold_set split: option.splits)

lemma dict_of_mem: "dict_get (dict_of kvs) k = Some v \<Longrightarrow> (k, v) \<in> set kvs"
  by (auto simp: dict_get_dict_of dest: map_of_SomeD)

section \<open>Results\<close>

text \<open>
  A computation that may raise has type \<open>'e + 'a\<close>: \<open>Inl\<close> is the exception, \<open>Inr\<close> the value.
  \<open>sequence_res\<close> runs results from left to right and stops at the first exception.
\<close>

fun sequence_res :: "('e + 'a) list \<Rightarrow> 'e + 'a list" where
  "sequence_res [] = Inr []"
| "sequence_res (r # rs) =
     (case r of Inl e \<Rightarrow> Inl e
      | Inr x \<Rightarrow> (case sequence_res rs of Inl e \<Rightarrow> Inl e | Inr xs \<Rightarrow> Inr (x # xs)))"

definition is_ok :: "'e + 'a \<Rightarrow> bool" where
  "is_ok r = (case r of Inl _ \<Rightarrow> False | Inr _ \<Rightarrow> True)"

lemma is_ok_simps [simp]: "is_ok (Inr x)" "\<not> is_ok (Inl e)"
  by (simp_all add: is_ok_def)

lemma is_ok_iff: "is_ok r \<longleftrightarrow> (\<exists>x. r = Inr x)"
  by (cases r) auto

lemma sequence_res_map_Inr [simp]: "sequence_res (map Inr xs) = Inr xs"
  by (induction xs) auto

lemma sequence_res_InrD: "sequence_res rs = Inr xs \<Longrightarrow> rs = map Inr xs"
  by (induction rs arbitrary: xs) (auto split: sum.splits)

lemma sequence_res_Inr_iff: "sequence_res rs = Inr xs \<longleftrightarrow> rs = map Inr xs"
  by (auto dest: sequence_res_InrD)

lemma sequence_res_InlD: "sequence_res rs = Inl e \<Longrightarrow> Inl e \<in> set rs"
  by (induction rs) (auto split: sum.splits)

lemma sequence_res_ok_iff: "is_ok (sequence_res rs) \<longleftrightarrow> list_all is_ok rs"
  by (induction rs) (auto simp: is_ok_def split: sum.splits)

section \<open>Transition systems\<close>

text \<open>
  Every component with state is a set of initial states and a step relation (one call of one of
  its operations).  What the initial states have and every step keeps holds in every reachable
  state; the component theories interpret this locale on their own step relations.
\<close>

locale invariant_system =
  fixes init :: "'s \<Rightarrow> bool"
    and step :: "'s \<Rightarrow> 's \<Rightarrow> bool"
    and invar :: "'s \<Rightarrow> bool"
  assumes invar_init: "init s \<Longrightarrow> invar s"
    and invar_step: "invar s \<Longrightarrow> step s t \<Longrightarrow> invar t"
begin

lemma invar_steps: "step\<^sup>*\<^sup>* s t \<Longrightarrow> invar s \<Longrightarrow> invar t"
  by (induction rule: rtranclp_induct) (auto intro: invar_step)

lemma reachable_invar: "init s \<Longrightarrow> step\<^sup>*\<^sup>* s t \<Longrightarrow> invar t"
  by (blast intro: invar_steps invar_init)

text \<open>A run from a good state is a run of steps that each start in a good state.\<close>

lemma run_restrict: "step\<^sup>*\<^sup>* s t \<Longrightarrow> invar s \<Longrightarrow> (\<lambda>x y. invar x \<and> step x y)\<^sup>*\<^sup>* s t"
proof (induction rule: rtranclp_induct)
  case (step t u)
  moreover from step have "invar t" by (blast intro: invar_steps)
  ultimately show ?case by (auto intro: rtranclp.rtrancl_into_rtrancl)
qed simp

end

text \<open>
  A relation between a state and any later state that is reflexive, transitive and holds for one
  step holds for every run: the form of \<open>monotone\<close> facts (histories only grow, epochs never go
  back, admitted records are never rewritten).
\<close>

locale monotone_system =
  fixes step :: "'s \<Rightarrow> 's \<Rightarrow> bool"
    and le :: "'s \<Rightarrow> 's \<Rightarrow> bool"
  assumes le_refl: "le s s"
    and le_trans: "le s t \<Longrightarrow> le t u \<Longrightarrow> le s u"
    and le_step: "step s t \<Longrightarrow> le s t"
begin

lemma run_le: "step\<^sup>*\<^sup>* s t \<Longrightarrow> le s t"
  by (induction rule: rtranclp_induct) (auto intro: le_refl le_trans le_step)

end

end
