(* ===== verification/Errors.thy ===== *)
theory Errors
  imports Prelude
begin

text \<open>
  The exceptions of \<^verbatim>\<open>errors.py\<close> and of the retained components, with the built-in ones the
  modelled code raises.  A constructor carries the literal message, or the \<^verbatim>\<open>reason_code\<close> where the
  class has one; values interpolated into a message are left out.
\<close>

datatype exn =
    ValueError string
  | TypeError string
  | KeyError pystr
  | OverflowError
  | SyntaxError
  | RuntimeError string
  | RecursionError
  | SinkFailure pystr
  | CanonicalizationError string
  | DigestProviderError
  | SchemaValidationError string
  | IdentityConflictError
  | IdentityRegistrationDenied
  | SingleWriterViolation
  | ConcurrencyConflict string
  | CrashInjected string bool
  | MarkingError string
  | InvalidTransition string
  | TemporalGuardViolation string
  | AuthorizationError string
  | StopEpochDenied string
  | EmissionBlocked string
  | SandboxViolation string
  | TokenBudgetExceeded string
  | SafetyError string
  | HumanGateError string
  | GovernedActionError string
  | FSMTransitionError string
  | BackboneError string
  | KafkaBackboneError string
  | TimeoutExpired
  | OperationsError string
  | IdentifierError string
  | TimestampError string
  | DigestError string
  | GovernedContextError string
  | GovernanceFault string pystr "pystr option"
  | NoReturn

text \<open>
  \<^verbatim>\<open>NoReturn\<close> is not an exception of the code: it is the value of a loop of the model that does not
  end.  The theories that use it show that it never arises.
\<close>

type_synonym 'a res = "exn + 'a"

text \<open>The subclass tests the handlers use: \<^verbatim>\<open>except AuthorizationError\<close>, \<^verbatim>\<open>except OCORError\<close>.\<close>

fun is_AuthorizationError :: "exn \<Rightarrow> bool" where
  "is_AuthorizationError (AuthorizationError _) = True"
| "is_AuthorizationError (StopEpochDenied _) = True"
| "is_AuthorizationError _ = False"

fun is_OCORError :: "exn \<Rightarrow> bool" where
  "is_OCORError (ValueError _) = False"
| "is_OCORError (TypeError _) = False"
| "is_OCORError (KeyError _) = False"
| "is_OCORError OverflowError = False"
| "is_OCORError SyntaxError = False"
| "is_OCORError (RuntimeError _) = False"
| "is_OCORError RecursionError = False"
| "is_OCORError (SinkFailure _) = False"
| "is_OCORError (BackboneError _) = False"
| "is_OCORError (KafkaBackboneError _) = False"
| "is_OCORError TimeoutExpired = False"
| "is_OCORError (OperationsError _) = False"
| "is_OCORError (GovernedContextError _) = False"
| "is_OCORError (GovernanceFault _ _ _) = False"
| "is_OCORError NoReturn = False"
| "is_OCORError _ = True"

fun is_CanonicalizationError :: "exn \<Rightarrow> bool" where
  "is_CanonicalizationError (CanonicalizationError _) = True"
| "is_CanonicalizationError DigestProviderError = True"
| "is_CanonicalizationError (DigestError _) = True"
| "is_CanonicalizationError _ = False"

text \<open>\<^verbatim>\<open>except ValueError\<close>: the built-in class and those of the runtime that derive from it.\<close>

fun is_ValueError :: "exn \<Rightarrow> bool" where
  "is_ValueError (ValueError _) = True"
| "is_ValueError (CanonicalizationError _) = True"
| "is_ValueError DigestProviderError = True"
| "is_ValueError (DigestError _) = True"
| "is_ValueError (SchemaValidationError _) = True"
| "is_ValueError (MarkingError _) = True"
| "is_ValueError (IdentifierError _) = True"
| "is_ValueError (TimestampError _) = True"
| "is_ValueError (GovernedContextError _) = True"
| "is_ValueError _ = False"

end
