(* ===== verification/PyTime.thy ===== *)
theory PyTime
  imports Errors
begin

text \<open>
  \<^verbatim>\<open>datetime\<close> and \<^verbatim>\<open>timedelta\<close> as the runtime uses them, and \<^verbatim>\<open>require_aware\<close> of \<^verbatim>\<open>c3_store.py\<close>.
  A \<^verbatim>\<open>timedelta\<close> is an integer number of microseconds.  A \<^verbatim>\<open>datetime\<close> is its wall-clock time, in
  microseconds since 0001-01-01T00:00:00, and its time zone: none, a \<^verbatim>\<open>tzinfo\<close> whose
  \<^verbatim>\<open>utcoffset()\<close> is \<^verbatim>\<open>None\<close>, or a UTC offset.  Aware values are ordered by the instant they denote.
\<close>

datatype tz = Naive | NoOffset | Offset int

record datetime =
  dt_wall :: int
  dt_tz :: tz

type_synonym timedelta = int

definition dt_instant :: "datetime \<Rightarrow> int" where
  "dt_instant d = (case dt_tz d of Offset off \<Rightarrow> dt_wall d - off | _ \<Rightarrow> dt_wall d)"

definition dt_aware :: "datetime \<Rightarrow> bool" where
  "dt_aware d = (case dt_tz d of Offset off \<Rightarrow> True | _ \<Rightarrow> False)"

abbreviation dt_lt :: "datetime \<Rightarrow> datetime \<Rightarrow> bool" where
  "dt_lt a b \<equiv> dt_instant a < dt_instant b"

abbreviation dt_le :: "datetime \<Rightarrow> datetime \<Rightarrow> bool" where
  "dt_le a b \<equiv> dt_instant a \<le> dt_instant b"

abbreviation dt_eq :: "datetime \<Rightarrow> datetime \<Rightarrow> bool" where
  "dt_eq a b \<equiv> dt_instant a = dt_instant b"

text \<open>\<^verbatim>\<open>max(a, b)\<close> keeps its first argument on a tie.\<close>

definition dt_max :: "datetime \<Rightarrow> datetime \<Rightarrow> datetime" where
  "dt_max a b = (if dt_lt a b then b else a)"

definition require_aware :: "string \<Rightarrow> datetime \<Rightarrow> datetime res" where
  "require_aware fld d =
     (case dt_tz d of
        Naive \<Rightarrow> Inl (TemporalGuardViolation (fld @ '' must be timezone-aware''))
      | NoOffset \<Rightarrow> Inl (TemporalGuardViolation (fld @ '' must have a defined UTC offset''))
      | Offset _ \<Rightarrow> Inr d)"

lemma require_aware_Inr_iff [simp]: "require_aware fld d = Inr d' \<longleftrightarrow> dt_aware d \<and> d' = d"
  by (auto simp: require_aware_def dt_aware_def split: tz.splits)

lemma require_aware_ok [simp]: "dt_aware d \<Longrightarrow> require_aware fld d = Inr d"
  by simp

lemma require_aware_Inl: "require_aware fld d = Inl e \<Longrightarrow> \<not> dt_aware d"
  by (auto simp: require_aware_def dt_aware_def split: tz.splits)

lemma require_aware_split:
  "P (case require_aware fld d of Inl e \<Rightarrow> f e | Inr x \<Rightarrow> g x) \<longleftrightarrow>
     (\<forall>e. \<not> dt_aware d \<longrightarrow> require_aware fld d = Inl e \<longrightarrow> P (f e)) \<and> (dt_aware d \<longrightarrow> P (g d))"
  by (auto simp: require_aware_def dt_aware_def split: tz.splits)

text \<open>
  \<^verbatim>\<open>datetime + timedelta\<close> raises \<^verbatim>\<open>OverflowError\<close> outside years 1 to 9999 (3652059 days).
\<close>

definition max_wall :: int where
  "max_wall = 3652059 * 86400000000"

definition dt_add :: "datetime \<Rightarrow> timedelta \<Rightarrow> datetime res" where
  "dt_add d delta =
     (let w = dt_wall d + delta in
      if 0 \<le> w \<and> w < max_wall then Inr (d\<lparr>dt_wall := w\<rparr>) else Inl OverflowError)"

lemma dt_add_instant: "dt_add d delta = Inr d' \<Longrightarrow> dt_aware d \<Longrightarrow> dt_instant d' = dt_instant d + delta"
  by (auto simp: dt_add_def Let_def dt_instant_def dt_aware_def split: if_splits tz.splits)

lemma dt_add_aware: "dt_add d delta = Inr d' \<Longrightarrow> dt_aware d' = dt_aware d"
  by (auto simp: dt_add_def Let_def dt_aware_def split: if_splits)

text \<open>\<^verbatim>\<open>a - b\<close> for aware datetimes is the difference of the instants.\<close>

definition dt_diff :: "datetime \<Rightarrow> datetime \<Rightarrow> timedelta" where
  "dt_diff a b = dt_instant a - dt_instant b"

subsection \<open>ISO 8601 text\<close>

text \<open>The proleptic Gregorian calendar, by the same division steps as CPython's \<^verbatim>\<open>_ord2ymd\<close>.\<close>

definition days_before :: "bool \<Rightarrow> nat list" where
  "days_before leap = (let l = (if leap then 1 else 0) in
     [0, 31, 59 + l, 90 + l, 120 + l, 151 + l, 181 + l, 212 + l, 243 + l, 273 + l, 304 + l, 334 + l])"

definition ymd_of_days :: "int \<Rightarrow> int \<times> int \<times> int" where
  "ymd_of_days n0 =
     (let n400 = n0 div 146097; n = n0 mod 146097;
          n100 = n div 36524; n' = n mod 36524;
          n4 = n' div 1461; n'' = n' mod 1461;
          n1 = n'' div 365; r = n'' mod 365;
          year = n400 * 400 + 1 + n100 * 100 + n4 * 4 + n1
      in if n1 = 4 \<or> n100 = 4 then (year - 1, 12, 31)
         else let leap = (n1 = 3 \<and> (n4 \<noteq> 24 \<or> n100 = 3));
                  ms = filter (\<lambda>i. int (days_before leap ! i) \<le> r) [0..<12];
                  m = last ms
              in (year, int m + 1, r - int (days_before leap ! m) + 1))"

definition dec_pad :: "nat \<Rightarrow> int \<Rightarrow> pystr" where
  "dec_pad w i = pad_left w (dec_nat (nat i))"

definition iso_offset :: "int \<Rightarrow> pystr" where
  "iso_offset off =
     (let a = abs off; s = a div 1000000; us = a mod 1000000 in
      (if off < 0 then [45] else [43])
      @ dec_pad 2 (s div 3600) @ [58] @ dec_pad 2 (s div 60 mod 60)
      @ (if s mod 60 = 0 \<and> us = 0 then [] else [58] @ dec_pad 2 (s mod 60))
      @ (if us = 0 then [] else [46] @ dec_pad 6 us))"

definition isoformat :: "datetime \<Rightarrow> pystr" where
  "isoformat d =
     (let us = dt_wall d mod 1000000; s = dt_wall d div 1000000 mod 86400;
          (y, m, dd) = ymd_of_days (dt_wall d div 86400000000) in
      dec_pad 4 y @ [45] @ dec_pad 2 m @ [45] @ dec_pad 2 dd @ [84]
      @ dec_pad 2 (s div 3600) @ [58] @ dec_pad 2 (s div 60 mod 60) @ [58] @ dec_pad 2 (s mod 60)
      @ (if us = 0 then [] else [46] @ dec_pad 6 us)
      @ (case dt_tz d of Offset off \<Rightarrow> iso_offset off | _ \<Rightarrow> []))"

lemma dec_nat_ascii: "list_all (\<lambda>c. c < 128) (dec_nat n)"
proof (induction n rule: dec_nat.induct)
  case (1 n)
  have "n mod 10 < 80" by (rule less_trans [of _ 10]) simp_all
  with 1 show ?case by (subst dec_nat.simps) auto
qed

lemma dec_pad_ascii: "list_all (\<lambda>c. c < 128) (dec_pad w i)"
  using dec_nat_ascii by (auto simp: dec_pad_def pad_left_def list_all_iff)

lemma isoformat_ascii: "list_all (\<lambda>c. c < 128) (isoformat d)"
  by (auto simp: isoformat_def iso_offset_def Let_def dec_pad_ascii split: prod.splits tz.splits)

text \<open>A value for examples: the given number of microseconds after 2026-01-01T00:00:00Z.\<close>

definition utc_at :: "int \<Rightarrow> datetime" where
  "utc_at us = \<lparr>dt_wall = 63902822400000000 + us, dt_tz = Offset 0\<rparr>"

lemma utc_at_aware [simp]: "dt_aware (utc_at us)"
  by (simp add: utc_at_def dt_aware_def)

lemma utc_at_instant [simp]: "dt_instant (utc_at us) = 63902822400000000 + us"
  by (simp add: utc_at_def dt_instant_def)

lemma utc_at_eq_iff [simp]: "utc_at a = utc_at b \<longleftrightarrow> a = b"
  by (simp add: utc_at_def)

end
