(* ===== verification/PyValue.thy ===== *)
theory PyValue
  imports PyTime Complex_Main
begin

text \<open>
  The Python values that cross the runtime's boundaries: \<^verbatim>\<open>None\<close>, booleans, unbounded integers,
  IEEE-754 binary64 floats, text, bytes, lists, tuples and mappings, and a constructor for objects
  that are no JSON value.  A finite float is the rational number it denotes; the rounding of
  \<^verbatim>\<open>float(int)\<close> and of float arithmetic is \<open>round64\<close>, and \<open>float_repr\<close> prints the shortest
  decimal that reads back as the same float, as \<^verbatim>\<open>repr\<close> does.
\<close>

section \<open>Binary64\<close>

datatype pyfloat = FNan | FInf bool | FFin rat

fun bit_length :: "nat \<Rightarrow> nat" where
  "bit_length n = (if n = 0 then 0 else Suc (bit_length (n div 2)))"

declare bit_length.simps [simp del]

definition rpow :: "rat \<Rightarrow> int \<Rightarrow> rat" where
  "rpow b k = (if 0 \<le> k then b ^ nat k else 1 / b ^ nat (- k))"

definition ilog2 :: "rat \<Rightarrow> int" where
  "ilog2 x = (let (n, d) = quotient_of x; k = int (bit_length (nat n)) - int (bit_length (nat d))
              in if rpow 2 k \<le> x then k else k - 1)"

definition round_half_even :: "rat \<Rightarrow> int" where
  "round_half_even x =
     (let f = \<lfloor>x\<rfloor>; r = x - of_int f in
      if r < 1 / 2 then f else if 1 / 2 < r then f + 1 else if even f then f else f + 1)"

definition round64 :: "rat \<Rightarrow> pyfloat" where
  "round64 x =
     (if x = 0 then FFin 0
      else let a = \<bar>x\<bar>; e = max (ilog2 a - 52) (- 1074);
               v = of_int (round_half_even (a / rpow 2 e)) * rpow 2 e
           in if 2 ^ 1024 \<le> v then FInf (x < 0) else FFin (if x < 0 then - v else v))"

section \<open>Values\<close>

datatype dkey = is_KStr: KStr (key_text: pystr) | KOther int

datatype pyval =
    PNone
  | PBool bool
  | PInt int
  | PFloat pyfloat
  | PStr pystr
  | PBytes "nat list"
  | PList "pyval list"
  | PTuple "pyval list"
  | PDict "(dkey \<times> pyval) list"
  | PObject nat

abbreviation obj :: "(string \<times> pyval) list \<Rightarrow> pyval" where
  "obj kvs \<equiv> PDict (map (\<lambda>(k, v). (KStr (lit k), v)) kvs)"

text \<open>
  Python's \<^verbatim>\<open>==\<close>: numbers compare by value across \<^verbatim>\<open>bool\<close>, \<^verbatim>\<open>int\<close> and \<^verbatim>\<open>float\<close>, sequences elementwise,
  mappings by their items regardless of order.
\<close>

definition num_of :: "pyval \<Rightarrow> rat option" where
  "num_of v = (case v of PBool b \<Rightarrow> Some (if b then 1 else 0) | PInt i \<Rightarrow> Some (of_int i)
     | PFloat (FFin x) \<Rightarrow> Some x | _ \<Rightarrow> None)"

function py_eq :: "pyval \<Rightarrow> pyval \<Rightarrow> bool" where
  "py_eq (PDict xs) w =
     (case w of PDict ys \<Rightarrow> length xs = length ys \<and>
        list_all (\<lambda>(k, v). case map_of ys k of None \<Rightarrow> False | Some v' \<Rightarrow> py_eq v v') xs
      | _ \<Rightarrow> False)"
| "py_eq (PList xs) w =
     (case w of PList ys \<Rightarrow> length xs = length ys \<and> list_all id (map2 py_eq xs ys) | _ \<Rightarrow> False)"
| "py_eq (PTuple xs) w =
     (case w of PTuple ys \<Rightarrow> length xs = length ys \<and> list_all id (map2 py_eq xs ys) | _ \<Rightarrow> False)"
| "py_eq (PFloat f) w =
     (case f of FNan \<Rightarrow> False | FInf s \<Rightarrow> w = PFloat (FInf s) | FFin x \<Rightarrow> num_of w = Some x)"
| "py_eq (PBool b) w = (num_of w = Some (if b then 1 else 0))"
| "py_eq (PInt i) w = (num_of w = Some (of_int i))"
| "py_eq PNone w = (w = PNone)"
| "py_eq (PStr s) w = (w = PStr s)"
| "py_eq (PBytes b) w = (w = PBytes b)"
| "py_eq (PObject n) w = (w = PObject n)"
  by pat_completeness auto

termination
  by (relation "measure (size \<circ> fst)")
    (auto simp: less_Suc_eq_le dest!: set_zip_leftD intro: size_list_estimation')

text \<open>\<^verbatim>\<open>freeze_json\<close> of \<^verbatim>\<open>c3_store.py\<close>: mappings keep their items, lists become tuples.\<close>

fun freeze_json :: "pyval \<Rightarrow> pyval res" where
  "freeze_json (PDict kvs) =
     (if list_ex (\<lambda>(k, v). \<not> is_KStr k) kvs then Inl (TypeError ''JSON object keys must be strings'')
      else case sequence_res (map (\<lambda>(k, v). case freeze_json v of Inl e \<Rightarrow> Inl e | Inr w \<Rightarrow> Inr (k, w)) kvs)
           of Inl e \<Rightarrow> Inl e | Inr ws \<Rightarrow> Inr (PDict ws))"
| "freeze_json (PList xs) =
     (case sequence_res (map freeze_json xs) of Inl e \<Rightarrow> Inl e | Inr ys \<Rightarrow> Inr (PTuple ys))"
| "freeze_json (PTuple xs) =
     (case sequence_res (map freeze_json xs) of Inl e \<Rightarrow> Inl e | Inr ys \<Rightarrow> Inr (PTuple ys))"
| "freeze_json v = Inr v"

section \<open>The shortest decimal of a float\<close>

definition ilog10 :: "rat \<Rightarrow> int" where
  "ilog10 x =
     (if 1 \<le> x then int (length (dec_nat (nat \<lfloor>x\<rfloor>))) - 1
      else case find (\<lambda>k. 1 \<le> x * 10 ^ k) [1..<400] of None \<Rightarrow> 0 | Some k \<Rightarrow> - int k)"

definition shortest_at :: "rat \<Rightarrow> nat \<Rightarrow> (int \<times> int) option" where
  "shortest_at x n =
     (let e = ilog10 x - int n + 1; y = x / rpow 10 e; lo = \<lfloor>y\<rfloor>;
          good = (\<lambda>d. 0 < d \<and> round64 (of_int d * rpow 10 e) = FFin x) in
      if good lo \<and> good (lo + 1) then Some (round_half_even y, e)
      else if good lo then Some (lo, e)
      else if good (lo + 1) then Some (lo + 1, e) else None)"

definition shortest :: "rat \<Rightarrow> int \<times> int" where
  "shortest x = (case List.map_filter (shortest_at x) [1..<18] of [] \<Rightarrow> (0, 0) | p # _ \<Rightarrow> p)"

definition float_repr :: "rat \<Rightarrow> pystr" where
  "float_repr x =
     (let (d, e) = shortest x; ds = dec_nat (nat d); n = int (length ds); p = e + n in
      if - 4 < p \<and> p \<le> 16 then
        (if p \<le> 0 then lit ''0.'' @ replicate (nat (- p)) 48 @ ds
         else if n \<le> p then ds @ replicate (nat (p - n)) 48 @ lit ''.0''
         else take (nat p) ds @ [46] @ drop (nat p) ds)
      else take 1 ds @ (if 1 < n then 46 # drop 1 ds else [])
           @ [101] @ (if p - 1 < 0 then [45] else [43]) @ pad_left 2 (dec_nat (nat \<bar>p - 1\<bar>)))"

end
