(* ===== verification/Canonical.thy ===== *)
theory Canonical
  imports PyValue Sha256 "HOL-Library.Multiset"
begin

text \<open>
  RFC 8785 canonicalization, \<^verbatim>\<open>canonical.py\<close>: one definition per function of the module.  The
  lemmas characterise the serializer by an abstract JSON value (\<open>json_view\<close>) and its text
  (\<open>render\<close>): serialization succeeds exactly on I-JSON values, depends only on the abstract value
  (so neither on the insertion order of keys nor on list versus tuple), and is injective on it.
\<close>

section \<open>The serializer\<close>

definition MAX_SAFE_INTEGER :: int where
  "MAX_SAFE_INTEGER = 9007199254740991"

definition is_surrogate :: "nat \<Rightarrow> bool" where
  "is_surrogate c \<longleftrightarrow> 0xD800 \<le> c \<and> c \<le> 0xDFFF"

definition validate_scalar_string :: "pystr \<Rightarrow> unit res" where
  "validate_scalar_string s =
     (if list_ex is_surrogate s
      then Inl (CanonicalizationError ''lone UTF-16 surrogate is not valid I-JSON'') else Inr ())"

definition hex4 :: "nat \<Rightarrow> pystr" where
  "hex4 c = map (\<lambda>i. hex_digit (c div 16 ^ i mod 16)) (rev [0..<4])"

definition escape_char :: "nat \<Rightarrow> pystr" where
  "escape_char c =
     (if c = 34 then [92, 34] else if c = 92 then [92, 92] else if c = 8 then [92, 98]
      else if c = 9 then [92, 116] else if c = 10 then [92, 110] else if c = 12 then [92, 102]
      else if c = 13 then [92, 114] else if c \<le> 0x1F then [92, 117] @ hex4 c else [c])"

definition quote_string :: "pystr \<Rightarrow> pystr" where
  "quote_string s = [34] @ concat (map escape_char s) @ [34]"

definition serialize_string :: "pystr \<Rightarrow> pystr res" where
  "serialize_string s =
     (case validate_scalar_string s of Inl e \<Rightarrow> Inl e | Inr _ \<Rightarrow> Inr (quote_string s))"

definition utf16_char :: "nat \<Rightarrow> nat list" where
  "utf16_char c =
     (if c < 0x10000 then [c div 256, c mod 256]
      else let u = c - 0x10000; hi = 0xD800 + u div 1024; lo = 0xDC00 + u mod 1024
           in [hi div 256, hi mod 256, lo div 256, lo mod 256])"

definition utf16_key :: "pystr \<Rightarrow> nat list" where
  "utf16_key s = concat (map utf16_char s)"

definition utf16_sort_key :: "pystr \<Rightarrow> nat list res" where
  "utf16_sort_key s =
     (case validate_scalar_string s of Inl e \<Rightarrow> Inl e | Inr _ \<Rightarrow> Inr (utf16_key s))"

text \<open>\<open>text.split(sep, 1)\<close> when the separator occurs, and \<open>int(text)\<close>.\<close>

definition split_once :: "nat \<Rightarrow> pystr \<Rightarrow> pystr \<times> pystr" where
  "split_once c s = (takeWhile (\<lambda>x. x \<noteq> c) s, drop 1 (dropWhile (\<lambda>x. x \<noteq> c) s))"

definition nat_of_digits :: "pystr \<Rightarrow> nat" where
  "nat_of_digits s = foldl (\<lambda>a c. 10 * a + (c - 48)) 0 s"

definition int_of_text :: "pystr \<Rightarrow> int" where
  "int_of_text s =
     (case s of [] \<Rightarrow> 0 | c # cs \<Rightarrow>
        if c = 45 then - int (nat_of_digits cs) else if c = 43 then int (nat_of_digits cs)
        else int (nat_of_digits s))"

fun strip_leading_zeros :: "pystr \<Rightarrow> int \<Rightarrow> pystr \<times> int" where
  "strip_leading_zeros (d # d' # ds) p =
     (if d = 48 then strip_leading_zeros (d' # ds) (p - 1) else (d # d' # ds, p))"
| "strip_leading_zeros ds p = (ds, p)"

definition strip_trailing_zeros :: "pystr \<Rightarrow> pystr" where
  "strip_trailing_zeros ds = rev (fst (strip_leading_zeros (rev ds) 0))"

text \<open>
  \<open>decimal_parts\<close> reads the digits and the position of the decimal point off the text of a float;
  \<open>layout_number\<close> writes them the way ECMAScript does.
\<close>

definition decimal_parts :: "pystr \<Rightarrow> pystr \<times> int" where
  "decimal_parts rendered =
     (let (mantissa, exponent) =
            (if 101 \<in> set rendered
             then let (m, t) = split_once 101 rendered in (m, int_of_text t)
             else (rendered, 0));
          (digits, position) =
            (if 46 \<in> set mantissa
             then let (i, fr) = split_once 46 mantissa in (i @ fr, int (length i) + exponent)
             else (mantissa, int (length mantissa) + exponent));
          (digits', position') = strip_leading_zeros digits position
      in (strip_trailing_zeros digits', position'))"

definition layout_number :: "pystr \<Rightarrow> int \<Rightarrow> pystr" where
  "layout_number digits position =
     (let sci = position - 1 in
      if 21 \<le> sci \<or> sci \<le> - 7 then
        take 1 digits @ (if 1 < length digits then 46 # drop 1 digits else [])
        @ [101] @ (if 0 \<le> sci then [43] else []) @ dec_int sci
      else if position \<le> 0 then lit ''0.'' @ replicate (nat (- position)) 48 @ digits
      else if int (length digits) \<le> position
        then digits @ replicate (nat (position - int (length digits))) 48
      else take (nat position) digits @ [46] @ drop (nat position) digits)"

definition serialize_float :: "pyfloat \<Rightarrow> pystr res" where
  "serialize_float f =
     (case f of
        FNan \<Rightarrow> Inl (CanonicalizationError ''NaN and Infinity are not valid I-JSON numbers'')
      | FInf _ \<Rightarrow> Inl (CanonicalizationError ''NaN and Infinity are not valid I-JSON numbers'')
      | FFin x \<Rightarrow>
         Inr (if x = 0 then lit ''0''
              else (if x < 0 then [45] else [])
                   @ (case decimal_parts (float_repr \<bar>x\<bar>) of (ds, p) \<Rightarrow> layout_number ds p)))"

definition serialize_integer :: "int \<Rightarrow> pystr res" where
  "serialize_integer v =
     (if \<bar>v\<bar> \<le> MAX_SAFE_INTEGER then Inr (dec_int v)
      else case round64 (of_int v) of
        FFin x \<Rightarrow>
          if x \<noteq> of_int v
          then Inl (CanonicalizationError ''integer is not exactly representable as an IEEE-754 binary64 value'')
          else serialize_float (FFin x)
      | _ \<Rightarrow> Inl (CanonicalizationError ''integer is not representable as an IEEE-754 binary64 value''))"

definition entry_text :: "pystr \<Rightarrow> pystr res \<Rightarrow> pystr res" where
  "entry_text k r = (case r of Inl e \<Rightarrow> Inl e | Inr t \<Rightarrow> Inr (quote_string k @ [58] @ t))"

fun serialize :: "pyval \<Rightarrow> pystr res" where
  "serialize PNone = Inr (lit ''null'')"
| "serialize (PBool b) = Inr (if b then lit ''true'' else lit ''false'')"
| "serialize (PStr s) = serialize_string s"
| "serialize (PInt i) = serialize_integer i"
| "serialize (PFloat f) = serialize_float f"
| "serialize (PDict kvs) =
     (if list_ex (\<lambda>(k, v). \<not> is_KStr k) kvs
      then Inl (CanonicalizationError ''JSON object keys must be strings'')
      else if list_ex (\<lambda>(k, v). list_ex is_surrogate (key_text k)) kvs
      then Inl (CanonicalizationError ''lone UTF-16 surrogate is not valid I-JSON'')
      else case sequence_res (map snd (sort_key fst
               (map (\<lambda>(k, v). (utf16_key (key_text k), entry_text (key_text k) (serialize v))) kvs)))
           of Inl e \<Rightarrow> Inl e | Inr es \<Rightarrow> Inr ([123] @ join_with [44] es @ [125]))"
| "serialize (PList xs) =
     (case sequence_res (map serialize xs) of Inl e \<Rightarrow> Inl e
      | Inr es \<Rightarrow> Inr ([91] @ join_with [44] es @ [93]))"
| "serialize (PTuple xs) =
     (case sequence_res (map serialize xs) of Inl e \<Rightarrow> Inl e
      | Inr es \<Rightarrow> Inr ([91] @ join_with [44] es @ [93]))"
| "serialize (PBytes b) = Inl (CanonicalizationError ''value is not an I-JSON value'')"
| "serialize (PObject n) = Inl (CanonicalizationError ''value is not an I-JSON value'')"

definition canonicalize_json :: "pyval \<Rightarrow> pystr res" where
  "canonicalize_json v = serialize v"

definition canonicalize :: "pyval \<Rightarrow> byte list res" where
  "canonicalize v = (case canonicalize_json v of Inl e \<Rightarrow> Inl e | Inr t \<Rightarrow> Inr (utf8 t))"

definition canonical_sha256 :: "pyval \<Rightarrow> pystr res" where
  "canonical_sha256 v = (case canonicalize v of Inl e \<Rightarrow> Inl e | Inr b \<Rightarrow> Inr (sha256_hex b))"

text \<open>
  The hooks \<^verbatim>\<open>load_i_json\<close> gives to the JSON parser: \<^verbatim>\<open>reject_duplicate_keys\<close> on the members of an
  object, \<^verbatim>\<open>reject_constant\<close> and \<^verbatim>\<open>parse_integer\<close>, whose argument is the digits of an integer.
\<close>

fun reject_duplicate_keys_from ::
  "(dkey \<times> pyval) list \<Rightarrow> (pystr \<times> pyval) list \<Rightarrow> (dkey \<times> pyval) list res" where
  "reject_duplicate_keys_from d [] = Inr d"
| "reject_duplicate_keys_from d ((k, v) # kvs) =
     (if dict_get d (KStr k) \<noteq> None then Inl (CanonicalizationError ''duplicate object key'')
      else reject_duplicate_keys_from (dict_set (KStr k) v d) kvs)"

definition reject_duplicate_keys :: "(pystr \<times> pyval) list \<Rightarrow> (dkey \<times> pyval) list res" where
  "reject_duplicate_keys kvs = reject_duplicate_keys_from [] kvs"

definition reject_constant :: "pystr \<Rightarrow> pyval res" where
  "reject_constant t = Inl (CanonicalizationError ''non-finite JSON constant'')"

definition parse_integer :: "pystr \<Rightarrow> pyval res" where
  "parse_integer t =
     (case round64 (of_int (int_of_text t)) of
        FFin x \<Rightarrow>
          if \<bar>x\<bar> \<le> of_int MAX_SAFE_INTEGER then Inr (PInt (int_of_text t)) else Inr (PFloat (FFin x))
      | _ \<Rightarrow> Inl (CanonicalizationError ''integer is not representable as an IEEE-754 binary64 value''))"

section \<open>The abstract JSON value and its text\<close>

datatype jv =
    JNull
  | JBool bool
  | JNum pystr
  | JStr pystr
  | JArr "jv list"
  | JObj "(pystr \<times> jv) list"

definition num_text :: "pystr res \<Rightarrow> pystr" where
  "num_text r = (case r of Inl _ \<Rightarrow> [] | Inr t \<Rightarrow> t)"

fun json_view :: "pyval \<Rightarrow> jv" where
  "json_view PNone = JNull"
| "json_view (PBool b) = JBool b"
| "json_view (PStr s) = JStr s"
| "json_view (PInt i) = JNum (num_text (serialize_integer i))"
| "json_view (PFloat f) = JNum (num_text (serialize_float f))"
| "json_view (PDict kvs) =
     JObj (sort_key (utf16_key \<circ> fst) (map (\<lambda>(k, v). (key_text k, json_view v)) kvs))"
| "json_view (PList xs) = JArr (map json_view xs)"
| "json_view (PTuple xs) = JArr (map json_view xs)"
| "json_view (PBytes b) = JNull"
| "json_view (PObject n) = JNull"

fun i_json :: "pyval \<Rightarrow> bool" where
  "i_json PNone = True"
| "i_json (PBool b) = True"
| "i_json (PStr s) = (\<not> list_ex is_surrogate s)"
| "i_json (PInt i) = (\<bar>i\<bar> \<le> MAX_SAFE_INTEGER \<or> round64 (of_int i) = FFin (of_int i))"
| "i_json (PFloat f) = (case f of FFin _ \<Rightarrow> True | _ \<Rightarrow> False)"
| "i_json (PDict kvs) =
     list_all (\<lambda>(k, v). is_KStr k \<and> \<not> list_ex is_surrogate (key_text k) \<and> i_json v) kvs"
| "i_json (PList xs) = list_all i_json xs"
| "i_json (PTuple xs) = list_all i_json xs"
| "i_json (PBytes b) = False"
| "i_json (PObject n) = False"

fun render :: "jv \<Rightarrow> pystr" where
  "render JNull = lit ''null''"
| "render (JBool b) = (if b then lit ''true'' else lit ''false'')"
| "render (JNum t) = t"
| "render (JStr s) = quote_string s"
| "render (JArr xs) = [91] @ join_with [44] (map render xs) @ [93]"
| "render (JObj kvs) =
     [123] @ join_with [44] (map (\<lambda>(k, v). quote_string k @ [58] @ render v) kvs) @ [125]"

lemma insort_key_map: "insort_key f (g x) (map g xs) = map g (insort_key (\<lambda>x. f (g x)) x xs)"
  by (induction xs) auto

lemma sort_key_map: "sort_key f (map g xs) = map g (sort_key (\<lambda>x. f (g x)) xs)"
  by (induction xs) (auto simp: insort_key_map)

lemma serialize_string_eq:
  "serialize_string s =
     (if list_ex is_surrogate s
      then Inl (CanonicalizationError ''lone UTF-16 surrogate is not valid I-JSON'')
      else Inr (quote_string s))"
  by (simp add: serialize_string_def validate_scalar_string_def)

lemma serialize_float_ok_iff: "is_ok (serialize_float f) \<longleftrightarrow> i_json (PFloat f)"
  by (simp add: serialize_float_def split: pyfloat.splits)

lemma serialize_integer_ok_iff: "is_ok (serialize_integer i) \<longleftrightarrow> i_json (PInt i)"
  by (auto simp: serialize_integer_def serialize_float_ok_iff split: pyfloat.splits)

lemma num_text_ok: "is_ok r \<Longrightarrow> r = Inr (num_text r)"
  by (auto simp: is_ok_iff num_text_def)

text \<open>The entries of an object, serialized and sorted, are the rendered entries of the view.\<close>

lemma entries_eq:
  assumes "\<And>k v. (k, v) \<in> set kvs \<Longrightarrow> serialize v = Inr (render (json_view v))"
  shows "map snd (sort_key fst
           (map (\<lambda>(k, v). (utf16_key (key_text k), entry_text (key_text k) (serialize v))) kvs))
       = map (\<lambda>(k, j). Inr (quote_string k @ [58] @ render j))
           (sort_key (utf16_key \<circ> fst) (map (\<lambda>(k, v). (key_text k, json_view v)) kvs))"
proof -
  let ?g = "\<lambda>(k, j). (utf16_key k, Inr (quote_string k @ [58] @ render j) :: pystr res)"
  define L where "L = map (\<lambda>(k, v). (key_text k, json_view v)) kvs"
  have "map (\<lambda>(k, v). (utf16_key (key_text k), entry_text (key_text k) (serialize v))) kvs = map ?g L"
    using assms by (auto simp: entry_text_def L_def)
  moreover have "(\<lambda>x. fst (?g x)) = utf16_key \<circ> fst"
    by (auto simp: fun_eq_iff)
  moreover have "snd \<circ> ?g = (\<lambda>(k, j). Inr (quote_string k @ [58] @ render j))"
    by (auto simp: fun_eq_iff)
  ultimately show ?thesis
    unfolding L_def [symmetric] by (simp only: sort_key_map [of fst ?g L] map_map)
qed

lemma map_Inr_ok: "(\<And>x. x \<in> set xs \<Longrightarrow> f x = Inr (g x)) \<Longrightarrow> sequence_res (map f xs) = Inr (map g xs)"
  by (induction xs) auto

lemma serialize_i_json: "i_json v \<Longrightarrow> serialize v = Inr (render (json_view v))"
proof (induction v rule: serialize.induct)
  case (6 kvs)
  from "6.prems" have n: "\<not> list_ex (\<lambda>(k, v). \<not> is_KStr k) kvs"
    "\<not> list_ex (\<lambda>(k, v). list_ex is_surrogate (key_text k)) kvs"
    by (auto simp: list_all_iff list_ex_iff)
  have *: "serialize v = Inr (render (json_view v))" if "(k, v) \<in> set kvs" for k v
    using "6.IH" [OF n that refl] "6.prems" that by (auto simp: list_all_iff)
  from n entries_eq [OF *] show ?case
    by (simp add: map_Inr_ok [where g = "\<lambda>(k, j). quote_string k @ [58] @ render j"] case_prod_unfold
          del: map_map)
next
  case (7 xs)
  then show ?case by (simp add: list_all_iff map_Inr_ok [where g = "render \<circ> json_view"])
next
  case (8 xs)
  then show ?case by (simp add: list_all_iff map_Inr_ok [where g = "render \<circ> json_view"])
next
  case (4 i)
  then have "serialize_integer i = Inr (num_text (serialize_integer i))"
    by (simp only: num_text_ok serialize_integer_ok_iff)
  then show ?case by simp
next
  case (5 f)
  then have "serialize_float f = Inr (num_text (serialize_float f))"
    by (simp only: num_text_ok serialize_float_ok_iff)
  then show ?case by simp
qed (auto simp: serialize_string_eq)

lemma serialize_ok_i_json: "is_ok (serialize v) \<Longrightarrow> i_json v"
proof (induction v rule: serialize.induct)
  case (6 kvs)
  let ?es = "map (\<lambda>(k, v). (utf16_key (key_text k), entry_text (key_text k) (serialize v))) kvs"
  from "6.prems" have k: "\<not> list_ex (\<lambda>(k, v). \<not> is_KStr k) kvs"
    "\<not> list_ex (\<lambda>(k, v). list_ex is_surrogate (key_text k)) kvs"
    and "is_ok (sequence_res (map snd (sort_key fst ?es)))"
    by (auto simp: is_ok_def split: if_splits sum.splits)
  then have "\<forall>r \<in> set (map snd ?es). is_ok r"
    by (auto simp: sequence_res_ok_iff list_all_iff)
  then have "\<forall>(k, v) \<in> set kvs. is_ok (serialize v)"
    by (auto simp: entry_text_def is_ok_def split: sum.splits)
  with "6.IH" [OF k] k show ?case by (fastforce simp: list_all_iff list_ex_iff)
next
  case (4 i)
  then show ?case by (simp only: serialize.simps serialize_integer_ok_iff)
next
  case (5 f)
  then show ?case by (simp only: serialize.simps serialize_float_ok_iff)
next
  case (7 xs)
  then have "\<forall>x \<in> set xs. is_ok (serialize x)"
    using sequence_res_ok_iff [of "map serialize xs"]
    by (auto simp: list_all_iff is_ok_def split: sum.splits)
  with "7.IH" show ?case by (simp add: list_all_iff)
next
  case (8 xs)
  then have "\<forall>x \<in> set xs. is_ok (serialize x)"
    using sequence_res_ok_iff [of "map serialize xs"]
    by (auto simp: list_all_iff is_ok_def split: sum.splits)
  with "8.IH" show ?case by (simp add: list_all_iff)
qed (auto simp: serialize_string_eq split: if_splits)

text \<open>The only exception of the serializer is \<open>CanonicalizationError\<close>.\<close>

lemma serialize_float_Inl: "serialize_float f = Inl e \<Longrightarrow> \<exists>m. e = CanonicalizationError m"
  by (auto simp: serialize_float_def split: pyfloat.splits)

lemma serialize_integer_Inl: "serialize_integer i = Inl e \<Longrightarrow> \<exists>m. e = CanonicalizationError m"
  by (auto simp: serialize_integer_def dest: serialize_float_Inl split: if_splits pyfloat.splits)

lemma serialize_Inl: "serialize v = Inl e \<Longrightarrow> \<exists>m. e = CanonicalizationError m"
proof (induction v arbitrary: e rule: serialize.induct)
  case (6 kvs)
  show ?case
  proof (cases "list_ex (\<lambda>(k, v). \<not> is_KStr k) kvs \<or> list_ex (\<lambda>(k, v). list_ex is_surrogate (key_text k)) kvs")
    case True
    with "6.prems" show ?thesis by (auto split: if_splits)
  next
    case False
    then have n: "\<not> list_ex (\<lambda>(k, v). \<not> is_KStr k) kvs"
      "\<not> list_ex (\<lambda>(k, v). list_ex is_surrogate (key_text k)) kvs" by auto
    with "6.prems" obtain k v where kv: "(k, v) \<in> set kvs" "serialize v = Inl e"
      by (auto simp: entry_text_def split: sum.splits dest!: sequence_res_InlD)
    from "6.IH" [OF n kv(1) refl kv(2)] show ?thesis .
  qed
qed (auto simp: serialize_string_eq serialize_integer_Inl serialize_float_Inl
       split: if_splits sum.splits dest!: sequence_res_InlD)

lemma canonical_sha256_Inl: "canonical_sha256 v = Inl e \<Longrightarrow> \<exists>m. e = CanonicalizationError m"
  by (auto simp: canonical_sha256_def canonicalize_def canonicalize_json_def split: sum.splits dest: serialize_Inl)

lemma freeze_json_Inl: "freeze_json v = Inl e \<Longrightarrow> \<exists>m. e = TypeError m"
proof (induction v arbitrary: e rule: freeze_json.induct)
  case (1 kvs)
  show ?case
  proof (cases "list_ex (\<lambda>(k, v). \<not> is_KStr k) kvs")
    case True
    with "1.prems" show ?thesis by auto
  next
    case False
    with "1.prems" obtain k v where kv: "(k, v) \<in> set kvs" "freeze_json v = Inl e"
      by (auto split: sum.splits dest!: sequence_res_InlD)
    from "1.IH" [OF False kv(1) refl kv(2)] show ?thesis .
  qed
qed (auto split: sum.splits dest!: sequence_res_InlD)

section \<open>The text determines the value\<close>

definition num_char :: "nat \<Rightarrow> bool" where
  "num_char c \<longleftrightarrow> c = 43 \<or> c = 45 \<or> c = 46 \<or> c = 101 \<or> (48 \<le> c \<and> c \<le> 57)"

definition delimited :: "pystr \<Rightarrow> bool" where
  "delimited r \<longleftrightarrow> (case r of [] \<Rightarrow> True | c # _ \<Rightarrow> c = 44 \<or> c = 93 \<or> c = 125)"

fun wf_jv :: "jv \<Rightarrow> bool" where
  "wf_jv (JNum t) = (t \<noteq> [] \<and> list_all num_char t)"
| "wf_jv (JArr xs) = list_all wf_jv xs"
| "wf_jv (JObj kvs) = list_all (\<lambda>(k, v). wf_jv v) kvs"
| "wf_jv _ = True"

lemma delimited_simps [simp]: "delimited []" "delimited (44 # r)" "delimited (93 # r)" "delimited (125 # r)"
  by (simp_all add: delimited_def)

lemma hex_digit_inj: "hex_digit a = hex_digit b \<Longrightarrow> a < 16 \<Longrightarrow> b < 16 \<Longrightarrow> a = b"
  by (auto simp: hex_digit_def split: if_splits)

lemma hex4_inj: "hex4 a = hex4 b \<Longrightarrow> a \<le> 31 \<Longrightarrow> b \<le> 31 \<Longrightarrow> a = b"
proof -
  assume h: "hex4 a = hex4 b" and a: "a \<le> 31" and b: "b \<le> 31"
  have "hex_digit (a mod 16) = hex_digit (b mod 16)" "hex_digit (a div 16 mod 16) = hex_digit (b div 16 mod 16)"
    using h by (auto simp: hex4_def upt_rec)
  then have "a mod 16 = b mod 16" "a div 16 mod 16 = b div 16 mod 16"
    by (auto intro: hex_digit_inj)
  moreover have "a div 16 < 16" "b div 16 < 16" using a b by auto
  ultimately have "a mod 16 = b mod 16" "a div 16 = b div 16" by simp_all
  then show ?thesis by (metis div_mult_mod_eq)
qed

lemma length_hex4: "length (hex4 c) = 4"
  by (simp add: hex4_def)

lemma escape_char_cases:
  "escape_char c = [c] \<and> c \<noteq> 92 \<and> c \<noteq> 34
   \<or> (\<exists>d. escape_char c = [92, d] \<and> d \<noteq> 117 \<and>
        (c, d) \<in> {(34, 34), (92, 92), (8, 98), (9, 116), (10, 110), (12, 102), (13, 114)})
   \<or> escape_char c = [92, 117] @ hex4 c \<and> c \<le> 31"
  by (simp add: escape_char_def)

lemma escape_char_inj:
  "escape_char c @ x = escape_char c' @ y \<Longrightarrow> c = c' \<and> x = y"
  using escape_char_cases [of c] escape_char_cases [of c'] hex4_inj [of c c']
  by (elim disjE exE conjE) (auto simp: length_hex4)

lemma escape_char_hd: "escape_char c \<noteq> 34 # x" "34 # x \<noteq> escape_char c" "escape_char c \<noteq> []"
  using escape_char_cases [of c] by auto

lemma quote_body_inj:
  "concat (map escape_char s) @ 34 # r = concat (map escape_char s') @ 34 # r' \<Longrightarrow> s = s' \<and> r = r'"
proof (induction s arbitrary: s')
  case Nil
  then show ?case
    using escape_char_hd by (cases s') (auto simp: append_eq_Cons_conv Cons_eq_append_conv)
next
  case (Cons c s)
  show ?case
  proof (cases s')
    case Nil
    with Cons.prems escape_char_hd show ?thesis by (auto simp: append_eq_Cons_conv Cons_eq_append_conv)
  next
    case (Cons c' s'')
    with Cons.prems have "escape_char c @ (concat (map escape_char s) @ 34 # r)
      = escape_char c' @ (concat (map escape_char s'') @ 34 # r')" by simp
    then have "c = c'" "concat (map escape_char s) @ 34 # r = concat (map escape_char s'') @ 34 # r'"
      by (auto dest: escape_char_inj)
    with Cons Cons.IH show ?thesis by simp
  qed
qed

lemma quote_string_inj: "quote_string s @ r = quote_string s' @ r' \<Longrightarrow> s = s' \<and> r = r'"
  using quote_body_inj [of s r s' r'] by (simp add: quote_string_def)

lemma join_with_Cons: "join_with sep (x # xs) = x @ concat (map (\<lambda>y. sep @ y) xs)"
  by (induction xs arbitrary: x) auto

lemma join_tail_inj:
  assumes dec: "\<And>x y r r'. x \<in> set xs \<Longrightarrow> y \<in> set ys \<Longrightarrow> delimited r \<Longrightarrow> delimited r' \<Longrightarrow>
      f x @ r = f y @ r' \<Longrightarrow> x = y \<and> r = r'"
    and c: "c = 93 \<or> c = 125"
    and eq: "concat (map (\<lambda>x. 44 # f x) xs) @ c # r = concat (map (\<lambda>x. 44 # f x) ys) @ c # r'"
  shows "xs = ys \<and> r = r'"
  using dec eq
proof (induction xs arbitrary: ys)
  case Nil
  then show ?case using c by (cases ys) auto
next
  case (Cons x xs)
  obtain y ys' where ys: "ys = y # ys'"
    using Cons.prems(2) c by (cases ys) auto
  have d: "delimited (concat (map (\<lambda>x. 44 # f x) zs) @ c # s)" for zs s
    using c by (cases zs) auto
  have "x = y \<and> concat (map (\<lambda>x. 44 # f x) xs) @ c # r = concat (map (\<lambda>x. 44 # f x) ys') @ c # r'"
    using Cons.prems(2) ys by (intro Cons.prems(1)) (auto simp: d)
  moreover from this have "xs = ys' \<and> r = r'"
    using ys by (intro Cons.IH Cons.prems(1)) auto
  ultimately show ?case using ys by simp
qed

lemma join_inj:
  assumes dec: "\<And>x y r r'. x \<in> set xs \<Longrightarrow> y \<in> set ys \<Longrightarrow> delimited r \<Longrightarrow> delimited r' \<Longrightarrow>
      f x @ r = f y @ r' \<Longrightarrow> x = y \<and> r = r'"
    and hd: "\<And>x. x \<in> set xs \<union> set ys \<Longrightarrow> f x \<noteq> [] \<and> hd (f x) \<noteq> c"
    and c: "c = 93 \<or> c = 125"
    and eq: "join_with [44] (map f xs) @ c # r = join_with [44] (map f ys) @ c # r'"
  shows "xs = ys \<and> r = r'"
proof (cases xs)
  case Nil
  show ?thesis
  proof (cases ys)
    case ys: (Cons y ys')
    with Nil eq hd [of y] show ?thesis by (cases "f y") (auto simp: join_with_Cons)
  qed (use Nil eq in simp)
next
  case xs: (Cons x xs')
  then obtain y ys' where ys: "ys = y # ys'"
    using eq hd [of x] by (cases ys) (auto simp: join_with_Cons neq_Nil_conv)
  have d: "delimited (concat (map (\<lambda>x. 44 # f x) zs) @ c # s)" for zs s
    using c by (cases zs) auto
  have "x = y \<and> concat (map (\<lambda>x. 44 # f x) xs') @ c # r = concat (map (\<lambda>x. 44 # f x) ys') @ c # r'"
    using eq xs ys by (intro dec) (auto simp: join_with_Cons comp_def d)
  moreover from this have "xs' = ys' \<and> r = r'"
    using xs ys by (intro join_tail_inj [OF dec c]) auto
  ultimately show ?thesis using xs ys by simp
qed

lemma num_prefix_inj:
  assumes "list_all num_char t" "list_all num_char t'" "delimited r" "delimited r'" "t @ r = t' @ r'"
  shows "t = t' \<and> r = r'"
proof -
  have "takeWhile num_char (s @ q) = s" if "list_all num_char s" "delimited q" for s q
    using that by (cases q) (auto simp: list_all_iff delimited_def num_char_def takeWhile_append)
  with assms have "t = t'" by metis
  with assms show ?thesis by simp
qed

lemma render_hd:
  "wf_jv j \<Longrightarrow> \<exists>d t. render j = d # t \<and>
     (case j of JNull \<Rightarrow> d = 110 | JBool b \<Rightarrow> d = (if b then 116 else 102) | JNum _ \<Rightarrow> num_char d
      | JStr _ \<Rightarrow> d = 34 | JArr _ \<Rightarrow> d = 91 | JObj _ \<Rightarrow> d = 123)"
  by (cases j) (auto simp: lit_def quote_string_def neq_Nil_conv)

lemma render_hd_not_close: "wf_jv j \<Longrightarrow> c = 93 \<or> c = 125 \<Longrightarrow> render j \<noteq> [] \<and> hd (render j) \<noteq> c"
  using render_hd [of j] by (cases j) (auto simp: num_char_def split: if_splits)

lemma render_not_Nil: "wf_jv j \<Longrightarrow> render j \<noteq> []"
  using render_hd [of j] by auto

lemma render_inj:
  "wf_jv j \<Longrightarrow> wf_jv j' \<Longrightarrow> delimited r \<Longrightarrow> delimited r' \<Longrightarrow> render j @ r = render j' @ r' \<Longrightarrow>
     j = j' \<and> r = r'"
proof (induction j arbitrary: j' r r')
  case (JNum t)
  then show ?case using num_prefix_inj render_hd [of "JNum t"] render_hd [of j']
    by (cases j') (auto simp: num_char_def split: if_splits)
next
  case (JArr xs)
  show ?case
  proof (cases j')
    case (JArr ys)
    with JArr.prems have eq: "join_with [44] (map render xs) @ 93 # r = join_with [44] (map render ys) @ 93 # r'"
      by simp
    have "xs = ys \<and> r = r'"
      using JArr JArr.prems eq
      by (intro join_inj [where f = render and c = 93] JArr.IH)
        (auto simp: list_all_iff render_hd_not_close [THEN conjunct2] dest!: render_not_Nil)
    with JArr show ?thesis by simp
  qed (use JArr.prems render_hd [of j'] in \<open>auto simp: num_char_def split: if_splits\<close>)
next
  case (JObj kvs)
  show ?case
  proof (cases j')
    case (JObj kvs')
    let ?f = "\<lambda>(k, v). quote_string k @ [58] @ render v"
    from JObj JObj.prems have eq: "join_with [44] (map ?f kvs) @ 125 # r = join_with [44] (map ?f kvs') @ 125 # r'"
      by simp
    have dec: "x = y \<and> s = s'"
      if "x \<in> set kvs" "y \<in> set kvs'" "delimited s" "delimited s'" "?f x @ s = ?f y @ s'" for x y s s'
    proof -
      obtain k v k' v' where x: "x = (k, v)" and y: "y = (k', v')" by (cases x, cases y)
      with that(5) have "quote_string k @ ([58] @ render v @ s) = quote_string k' @ ([58] @ render v' @ s')"
        by simp
      then have "k = k'" "render v @ s = render v' @ s'"
        by (auto dest: quote_string_inj)
      moreover have "v = v' \<and> s = s'"
        using that x y JObj JObj.prems calculation(2)
        by (intro JObj.IH [of "(k, v)" v]) (auto simp: list_all_iff)
      ultimately show ?thesis using x y by simp
    qed
    have "kvs = kvs' \<and> r = r'"
      using eq by (intro join_inj [where f = ?f and c = 125] dec) (auto simp: quote_string_def)
    with JObj show ?thesis by simp
  qed (use JObj.prems render_hd [of j'] in \<open>auto simp: num_char_def split: if_splits\<close>)
next
  case (JStr s)
  then show ?case using render_hd [of "JStr s"] render_hd [of j']
    by (cases j') (auto simp: num_char_def dest: quote_string_inj split: if_splits)
next
  case JNull
  then show ?case using render_hd [of j'] by (cases j') (auto simp: lit_def num_char_def split: if_splits)
next
  case (JBool b)
  then show ?case using render_hd [of j'] by (cases j') (auto simp: lit_def num_char_def split: if_splits)
qed

section \<open>Number texts\<close>

lemma dec_nat_digits: "list_all (\<lambda>c. 48 \<le> c \<and> c \<le> 57) (dec_nat n)"
proof (induction n rule: dec_nat.induct)
  case (1 n)
  show ?case
  proof (cases "n < 10")
    case True
    then show ?thesis by (simp add: dec_nat.simps [of n])
  next
    case False
    with "1" have "list_all (\<lambda>c. 48 \<le> c \<and> c \<le> 57) (dec_nat (n div 10))" by simp
    with False show ?thesis by (simp add: dec_nat.simps [of n])
  qed
qed

lemma dec_nat_num: "list_all num_char (dec_nat n)"
  using dec_nat_digits [of n] by (auto simp: list_all_iff num_char_def)

lemma nat_of_digits_snoc: "nat_of_digits (ds @ [d]) = 10 * nat_of_digits ds + (d - 48)"
  by (simp add: nat_of_digits_def)

lemma nat_of_digits_dec_nat: "nat_of_digits (dec_nat n) = n"
proof (induction n rule: dec_nat.induct)
  case (1 n)
  then show ?case
    by (subst dec_nat.simps) (auto simp: nat_of_digits_snoc, simp add: nat_of_digits_def)
qed

lemma dec_nat_inj: "dec_nat m = dec_nat n \<longleftrightarrow> m = n"
  by (metis nat_of_digits_dec_nat)

lemma dec_int_inj: "0 \<le> i \<Longrightarrow> 0 \<le> j \<Longrightarrow> dec_int i = dec_int j \<longleftrightarrow> i = j"
  by (auto simp: dec_int_def dec_nat_inj)

lemma dec_nat_ne: "dec_nat n \<noteq> []"
  by (subst dec_nat.simps) simp

lemma dec_int_num: "list_all num_char (dec_int i)" "dec_int i \<noteq> []"
  using dec_nat_num dec_nat_ne by (auto simp: dec_int_def num_char_def)

lemma list_all_replicate_num: "list_all num_char (replicate n 48)"
  by (induction n) (auto simp: num_char_def)

lemma list_all_takeD: "list_all P xs \<Longrightarrow> list_all P (take n xs)" "list_all P xs \<Longrightarrow> list_all P (drop n xs)"
  by (auto simp: list_all_iff dest: in_set_takeD in_set_dropD)

lemma float_repr_num: "list_all num_char (float_repr x)"
  by (auto simp: float_repr_def Let_def pad_left_def lit_def num_char_def dec_nat_num list_all_replicate_num
        list_all_takeD split: prod.splits)

lemma strip_leading_zeros_num:
  "list_all num_char ds \<Longrightarrow> list_all num_char (fst (strip_leading_zeros ds p))"
  by (induction ds p rule: strip_leading_zeros.induct) auto

lemma strip_trailing_zeros_num: "list_all num_char ds \<Longrightarrow> list_all num_char (strip_trailing_zeros ds)"
  using strip_leading_zeros_num [of "rev ds" 0] by (simp add: strip_trailing_zeros_def list_all_rev)

lemma split_once_num:
  "list_all num_char s \<Longrightarrow> list_all num_char (fst (split_once c s)) \<and> list_all num_char (snd (split_once c s))"
  by (auto simp: split_once_def list_all_iff dest: set_takeWhileD in_set_dropD set_dropWhileD)

lemma decimal_parts_num: "list_all num_char s \<Longrightarrow> list_all num_char (fst (decimal_parts s))"
proof -
  assume s: "list_all num_char s"
  define m where "m = (if 101 \<in> set s then fst (split_once 101 s) else s)"
  define d where "d = (if 46 \<in> set m then fst (split_once 46 m) @ snd (split_once 46 m) else m)"
  have "list_all num_char m" using s split_once_num by (simp add: m_def)
  then have "list_all num_char d" using split_once_num by (simp add: d_def)
  moreover have "\<exists>p. fst (decimal_parts s) = strip_trailing_zeros (fst (strip_leading_zeros d p))"
    by (auto simp: decimal_parts_def Let_def m_def d_def split_beta)
  ultimately show ?thesis
    by (auto simp: strip_trailing_zeros_num strip_leading_zeros_num)
qed

lemma layout_number_num: "list_all num_char ds \<Longrightarrow> list_all num_char (layout_number ds p)"
  by (auto simp: layout_number_def Let_def lit_def num_char_def dec_int_num list_all_replicate_num list_all_takeD)

lemma layout_number_ne: "layout_number ds p \<noteq> []"
  by (auto simp: layout_number_def Let_def)

lemma serialize_float_num: "serialize_float f = Inr t \<Longrightarrow> t \<noteq> [] \<and> list_all num_char t"
  using decimal_parts_num [OF float_repr_num]
  by (auto simp: serialize_float_def lit_def num_char_def layout_number_num layout_number_ne
        split: pyfloat.splits if_splits prod.splits) (metis fst_conv layout_number_num)+

lemma serialize_integer_num: "serialize_integer i = Inr t \<Longrightarrow> t \<noteq> [] \<and> list_all num_char t"
  by (auto simp: serialize_integer_def dec_int_num dest: serialize_float_num
        split: pyfloat.splits if_splits)

lemma wf_json_view: "i_json v \<Longrightarrow> wf_jv (json_view v)"
proof (induction v rule: json_view.induct)
  case (4 i)
  then obtain t where "serialize_integer i = Inr t"
    using serialize_integer_ok_iff [of i] by (auto simp: is_ok_iff)
  then show ?case by (auto simp: num_text_def dest: serialize_integer_num)
next
  case (5 f)
  then obtain t where "serialize_float f = Inr t"
    using serialize_float_ok_iff [of f] by (auto simp: is_ok_iff)
  then show ?case by (auto simp: num_text_def dest: serialize_float_num)
qed (fastforce simp: list_all_iff)+

section \<open>Consequences\<close>

lemma canonicalize_json_iff: "canonicalize_json v = Inr t \<longleftrightarrow> i_json v \<and> t = render (json_view v)"
  using serialize_i_json [of v] serialize_ok_i_json [of v] by (auto simp: canonicalize_json_def)

lemma canonicalize_iff: "canonicalize v = Inr b \<longleftrightarrow> i_json v \<and> b = utf8 (render (json_view v))"
  by (auto simp: canonicalize_def canonicalize_json_iff split: sum.splits)
    (metis canonicalize_json_iff sum.distinct(1))

lemma canonical_sha256_iff:
  "canonical_sha256 v = Inr d \<longleftrightarrow> i_json v \<and> d = sha256_hex (utf8 (render (json_view v)))"
  by (auto simp: canonical_sha256_def canonicalize_iff split: sum.splits)
    (metis canonicalize_iff sum.distinct(1))

definition digest_of :: "pyval \<Rightarrow> pystr" where
  "digest_of v = sha256_hex (utf8 (render (json_view v)))"

lemma canonical_sha256_i_json: "i_json v \<Longrightarrow> canonical_sha256 v = Inr (digest_of v)"
  by (simp add: canonical_sha256_iff digest_of_def)

lemma canonicalize_i_json: "i_json v \<Longrightarrow> canonicalize v = Inr (utf8 (render (json_view v)))"
  by (simp add: canonicalize_iff)

lemma digest_of_ascii: "list_all (\<lambda>c. c < 128) (digest_of v)"
  by (simp add: digest_of_def sha256_hex_ascii)

lemma ascii_no_surrogate: "list_all (\<lambda>c. c < 128) s \<Longrightarrow> \<not> list_ex is_surrogate s"
  by (auto simp: list_all_iff list_ex_iff is_surrogate_def)

lemma ascii_code_points: "list_all (\<lambda>c. c < 128) (s :: pystr) \<Longrightarrow> list_all (\<lambda>c. c < 0x110000) s"
  by (fastforce simp: list_all_iff)

lemma lit_bound: "c \<in> set (lit s) \<Longrightarrow> c < 256"
  by (auto simp: lit_def)

lemma lit_no_surrogate [simp]: "\<not> list_ex is_surrogate (lit s)"
  by (auto simp: list_ex_iff is_surrogate_def dest: lit_bound)

lemma lit_code_points [simp]: "list_all (\<lambda>c. c < 0x110000) (lit s)"
  by (auto simp: list_all_iff dest!: lit_bound)

lemma i_json_digest_of: "i_json (PStr (digest_of v))"
  using digest_of_ascii [of v] by (auto simp: list_all_iff list_ex_iff is_surrogate_def)

lemma render_eq_iff: "i_json v \<Longrightarrow> i_json w \<Longrightarrow> render (json_view v) = render (json_view w) \<longleftrightarrow> json_view v = json_view w"
  using render_inj [of "json_view v" "json_view w" "[]" "[]"] wf_json_view [of v] wf_json_view [of w] by auto

text \<open>Values with the same abstract JSON value are digested alike, also when they are refused.\<close>

lemma sort_key_perm:
  assumes "mset xs = mset ys" "inj_on f (set xs)"
  shows "sort_key f xs = sort_key f ys"
  using assms by (intro sort_key_inj_key_eq) auto

section \<open>UTF-16 and UTF-8 are prefix codes\<close>

definition text_ok :: "pystr \<Rightarrow> bool" where
  "text_ok s = list_all (\<lambda>c. c < 0x110000 \<and> \<not> is_surrogate c) s"

lemma concat_map_inj:
  assumes pf: "\<And>a b x y. P a \<Longrightarrow> P b \<Longrightarrow> f a @ x = f b @ y \<Longrightarrow> a = b \<and> x = y"
    and ne: "\<And>a. f a \<noteq> []"
  shows "list_all P s \<Longrightarrow> list_all P t \<Longrightarrow> concat (map f s) = concat (map f t) \<Longrightarrow> s = t"
proof (induction s arbitrary: t)
  case Nil
  then show ?case using ne by (cases t) auto
next
  case (Cons a s)
  obtain b t' where t: "t = b # t'"
    using Cons.prems(3) ne by (cases t) auto
  with Cons.prems have "a = b \<and> concat (map f s) = concat (map f t')"
    by (intro pf) auto
  with t Cons show ?case by simp
qed

lemma utf16_char_inj:
  assumes "a < 0x110000 \<and> \<not> is_surrogate a" "b < 0x110000 \<and> \<not> is_surrogate b"
    and eq: "utf16_char a @ x = utf16_char b @ y"
  shows "a = b \<and> x = y"
proof -
  have low: "c div 256 < 0xD8 \<or> 0xE0 \<le> c div 256" if "c < 0x10000" "\<not> is_surrogate c" for c :: nat
    using that by (auto simp: is_surrogate_def)
  have hi: "0xD8 \<le> (0xD800 + (c - 0x10000) div 1024) div 256
      \<and> (0xD800 + (c - 0x10000) div 1024) div 256 < 0xE0" if "c < 0x110000" for c :: nat
    using that by auto
  consider "a < 0x10000" "b < 0x10000" | "a < 0x10000" "0x10000 \<le> b"
    | "0x10000 \<le> a" "b < 0x10000" | "0x10000 \<le> a" "0x10000 \<le> b"
    by linarith
  then show ?thesis
  proof cases
    case 1
    with eq have "a div 256 = b div 256" "a mod 256 = b mod 256" "x = y"
      by (auto simp: utf16_char_def)
    then show ?thesis by (metis div_mult_mod_eq)
  next
    case 2
    with eq have "a div 256 = (0xD800 + (b - 0x10000) div 1024) div 256"
      by (auto simp: utf16_char_def Let_def)
    with low [of a] hi [of b] assms 2 show ?thesis by auto
  next
    case 3
    with eq have "b div 256 = (0xD800 + (a - 0x10000) div 1024) div 256"
      by (auto simp: utf16_char_def Let_def)
    with low [of b] hi [of a] assms 3 show ?thesis by auto
  next
    case 4
    let ?h = "\<lambda>c. 0xD800 + (c - 0x10000) div 1024 :: nat" and ?l = "\<lambda>c. 0xDC00 + (c - 0x10000) mod 1024 :: nat"
    from 4 eq have "?h a div 256 = ?h b div 256" "?h a mod 256 = ?h b mod 256"
      "?l a div 256 = ?l b div 256" "?l a mod 256 = ?l b mod 256" and xy: "x = y"
      by (simp_all add: utf16_char_def Let_def)
    then have "?h a = ?h b" "?l a = ?l b" by (metis div_mult_mod_eq)+
    then have "(a - 0x10000) div 1024 = (b - 0x10000) div 1024" "(a - 0x10000) mod 1024 = (b - 0x10000) mod 1024"
      by simp_all
    then have "a - 0x10000 = b - 0x10000" by (metis div_mult_mod_eq)
    with 4 xy show ?thesis by simp
  qed
qed

lemma utf16_char_ne: "utf16_char c \<noteq> []"
  by (simp add: utf16_char_def Let_def)

lemma utf16_key_inj: "text_ok s \<Longrightarrow> text_ok t \<Longrightarrow> utf16_key s = utf16_key t \<Longrightarrow> s = t"
  unfolding text_ok_def utf16_key_def
  by (rule concat_map_inj [OF utf16_char_inj utf16_char_ne])

text \<open>The bytes of one code point as numbers; \<open>utf8_char\<close> is their image in the byte type.\<close>

definition utf8_nats :: "nat \<Rightarrow> nat list" where
  "utf8_nats c =
     (if c < 0x80 then [c]
      else if c < 0x800 then [0xC0 + c div 64, 0x80 + c mod 64]
      else if c < 0x10000 then [0xE0 + c div 4096, 0x80 + c div 64 mod 64, 0x80 + c mod 64]
      else [0xF0 + c div 262144, 0x80 + c div 4096 mod 64, 0x80 + c div 64 mod 64, 0x80 + c mod 64])"

lemma unat_of_nat8: "n < 256 \<Longrightarrow> unat (of_nat n :: byte) = n"
  by (simp add: unat_of_nat)

lemma map_unat_utf8: "c < 0x110000 \<Longrightarrow> map unat (utf8_char c) = utf8_nats c"
  by (simp add: utf8_char_def utf8_nats_def unat_of_nat8 del: of_nat_add)

lemma div_mod_64_eq:
  "(a::nat) div 4096 = b div 4096 \<Longrightarrow> a div 64 mod 64 = b div 64 mod 64 \<Longrightarrow> a mod 64 = b mod 64 \<Longrightarrow> a = b"
proof -
  assume "a div 4096 = b div 4096" "a div 64 mod 64 = b div 64 mod 64" and m: "a mod 64 = b mod 64"
  moreover have "c div 4096 = c div 64 div 64" for c :: nat
    by (simp add: div_mult2_eq [symmetric])
  ultimately have "a div 64 = b div 64" by (metis div_mult_mod_eq)
  with m show "a = b" by (metis div_mult_mod_eq)
qed

lemma div_mod_262144_eq:
  "(a::nat) div 262144 = b div 262144 \<Longrightarrow> a div 4096 mod 64 = b div 4096 mod 64 \<Longrightarrow>
    a div 64 mod 64 = b div 64 mod 64 \<Longrightarrow> a mod 64 = b mod 64 \<Longrightarrow> a = b"
proof -
  assume h: "a div 262144 = b div 262144" "a div 4096 mod 64 = b div 4096 mod 64"
    and m: "a div 64 mod 64 = b div 64 mod 64" "a mod 64 = b mod 64"
  have "c div 262144 = c div 4096 div 64" for c :: nat
    by (simp add: div_mult2_eq [symmetric])
  with h have "a div 4096 = b div 4096" by (metis div_mult_mod_eq)
  with m show "a = b" by (rule div_mod_64_eq [rotated])
qed

lemma utf8_nats_hd:
  "c < 0x110000 \<Longrightarrow> \<exists>h t. utf8_nats c = h # t \<and> (h < 0x80 \<longleftrightarrow> c < 0x80)
     \<and> (h < 0xE0 \<longleftrightarrow> c < 0x800) \<and> (h < 0xF0 \<longleftrightarrow> c < 0x10000)"
  by (auto simp: utf8_nats_def)

lemma utf8_nats_inj:
  assumes a: "a < 0x110000" and b: "b < 0x110000" and eq: "utf8_nats a @ x = utf8_nats b @ y"
  shows "a = b \<and> x = y"
proof -
  from eq utf8_nats_hd [OF a] utf8_nats_hd [OF b]
  have cls: "a < 0x80 \<longleftrightarrow> b < 0x80" "a < 0x800 \<longleftrightarrow> b < 0x800" "a < 0x10000 \<longleftrightarrow> b < 0x10000"
    by auto
  consider "a < 0x80" | "\<not> a < 0x80" "a < 0x800" | "\<not> a < 0x800" "a < 0x10000" | "\<not> a < 0x10000"
    by linarith
  then show ?thesis
  proof cases
    case 1
    with cls eq show ?thesis by (simp add: utf8_nats_def)
  next
    case 2
    with cls eq have "a div 64 = b div 64" "a mod 64 = b mod 64" "x = y" by (simp_all add: utf8_nats_def)
    then show ?thesis by (metis div_mult_mod_eq)
  next
    case 3
    with cls eq have "a div 4096 = b div 4096" "a div 64 mod 64 = b div 64 mod 64" "a mod 64 = b mod 64" "x = y"
      by (simp_all add: utf8_nats_def)
    then show ?thesis by (blast intro: div_mod_64_eq)
  next
    case 4
    with cls eq have "a div 262144 = b div 262144" "a div 4096 mod 64 = b div 4096 mod 64"
      "a div 64 mod 64 = b div 64 mod 64" "a mod 64 = b mod 64" "x = y"
      by (simp_all add: utf8_nats_def)
    then show ?thesis by (blast intro: div_mod_262144_eq)
  qed
qed

lemma utf8_char_inj:
  assumes "a < 0x110000" "b < 0x110000" "utf8_char a @ x = utf8_char b @ y"
  shows "a = b \<and> x = y"
proof -
  have "utf8_nats a @ map unat x = utf8_nats b @ map unat y"
    using arg_cong [OF assms(3), of "map unat"] assms(1,2) by (simp add: map_unat_utf8)
  with assms have "a = b" using utf8_nats_inj by blast
  with assms(3) show ?thesis by simp
qed

lemma utf8_inj: "text_ok s \<Longrightarrow> text_ok t \<Longrightarrow> utf8 s = utf8 t \<Longrightarrow> s = t"
  unfolding text_ok_def utf8_def
  by (rule concat_map_inj [OF utf8_char_inj]) (auto simp: utf8_char_def list_all_iff)

section \<open>Freezing keeps the canonical form\<close>

lemma sequence_res_map_InrE:
  assumes "sequence_res (map f xs) = Inr ys"
  shows "length ys = length xs" "\<And>i. i < length xs \<Longrightarrow> f (xs ! i) = Inr (ys ! i)"
proof -
  from assms have eq: "map f xs = map Inr ys" by (simp add: sequence_res_Inr_iff)
  then show "length ys = length xs" by (metis length_map)
  then show "\<And>i. i < length xs \<Longrightarrow> f (xs ! i) = Inr (ys ! i)"
    using eq by (metis nth_map)
qed

lemma freeze_seq_serialize:
  assumes "sequence_res (map freeze_json xs) = Inr ys"
    and "\<And>x w. x \<in> set xs \<Longrightarrow> freeze_json x = Inr w \<Longrightarrow> serialize w = serialize x"
  shows "map serialize ys = map serialize xs"
  using sequence_res_map_InrE [OF assms(1)] assms(2) by (auto simp: list_eq_iff_nth_eq)

lemma freeze_json_serialize: "freeze_json v = Inr w \<Longrightarrow> serialize w = serialize v"
proof (induction v arbitrary: w rule: freeze_json.induct)
  case (1 kvs)
  let ?fz = "\<lambda>(k, v). case freeze_json v of Inl e \<Rightarrow> Inl e | Inr w \<Rightarrow> Inr (k, w)"
  from "1.prems" obtain ws where n: "\<not> list_ex (\<lambda>(k, v). \<not> is_KStr k) kvs"
    and ws: "sequence_res (map ?fz kvs) = Inr ws" and w: "w = PDict ws"
    by (auto split: if_splits sum.splits)
  have nth: "fst (ws ! i) = fst (kvs ! i) \<and> serialize (snd (ws ! i)) = serialize (snd (kvs ! i))"
    if "i < length kvs" for i
  proof -
    obtain k v where kv: "kvs ! i = (k, v)" by force
    with sequence_res_map_InrE(2) [OF ws that] obtain u where "freeze_json v = Inr u" "ws ! i = (k, u)"
      by (auto split: sum.splits)
    moreover have "(k, v) \<in> set kvs" using kv that by (metis nth_mem)
    ultimately show ?thesis using "1.IH" [OF n _ refl, of k v u] kv by simp
  qed
  then have "map (\<lambda>(k, v). (utf16_key (key_text k), entry_text (key_text k) (serialize v))) ws
      = map (\<lambda>(k, v). (utf16_key (key_text k), entry_text (key_text k) (serialize v))) kvs"
    and keys: "map fst ws = map fst kvs"
    using sequence_res_map_InrE(1) [OF ws] by (auto simp: list_eq_iff_nth_eq case_prod_unfold)
  moreover have "list_ex (\<lambda>(k, v). P k) zs \<longleftrightarrow> list_ex P (map fst zs)" for P and zs :: "(dkey \<times> pyval) list"
    by (induction zs) auto
  ultimately show ?case unfolding w serialize.simps by (simp add: keys)
next
  case (2 xs)
  then show ?case
    using freeze_seq_serialize [of xs] by (auto split: sum.splits)
next
  case (3 xs)
  then show ?case
    using freeze_seq_serialize [of xs] by (auto split: sum.splits)
qed auto

lemma freeze_json_canonical:
  "freeze_json v = Inr w \<Longrightarrow> canonicalize_json w = canonicalize_json v"
  "freeze_json v = Inr w \<Longrightarrow> canonical_sha256 w = canonical_sha256 v"
  by (simp_all add: canonicalize_json_def canonical_sha256_def canonicalize_def freeze_json_serialize)

section \<open>Texts of well-formed values\<close>

fun py_chars :: "pyval \<Rightarrow> bool" where
  "py_chars (PStr s) = list_all (\<lambda>c. c < 0x110000) s"
| "py_chars (PDict kvs) = list_all (\<lambda>(k, v). list_all (\<lambda>c. c < 0x110000) (key_text k) \<and> py_chars v) kvs"
| "py_chars (PList xs) = list_all py_chars xs"
| "py_chars (PTuple xs) = list_all py_chars xs"
| "py_chars _ = True"

lemma text_ok_simps [simp]:
  "text_ok []" "text_ok (c # s) \<longleftrightarrow> c < 0x110000 \<and> \<not> is_surrogate c \<and> text_ok s"
  "text_ok (s @ t) \<longleftrightarrow> text_ok s \<and> text_ok t"
  by (auto simp: text_ok_def)

lemma text_ok_scalar: "list_all (\<lambda>c. c < 0x110000) s \<Longrightarrow> \<not> list_ex is_surrogate s \<Longrightarrow> text_ok s"
  by (auto simp: text_ok_def list_all_iff list_ex_iff)

lemma text_ok_num: "list_all num_char t \<Longrightarrow> text_ok t"
  by (auto simp: text_ok_def list_all_iff num_char_def is_surrogate_def)

lemma text_ok_hex4: "text_ok (hex4 c)"
  by (auto simp: text_ok_def hex4_def list_all_iff hex_digit_def is_surrogate_def)

lemma text_ok_escape: "c < 0x110000 \<Longrightarrow> \<not> is_surrogate c \<Longrightarrow> text_ok (escape_char c)"
  by (simp add: escape_char_def text_ok_hex4 is_surrogate_def)

lemma text_ok_quote: "text_ok s \<Longrightarrow> text_ok (quote_string s)"
proof -
  have "text_ok s \<Longrightarrow> text_ok (concat (map escape_char s))"
    by (induction s) (auto intro: text_ok_escape)
  then show "text_ok s \<Longrightarrow> text_ok (quote_string s)"
    by (simp add: quote_string_def is_surrogate_def)
qed

lemma text_ok_join: "list_all text_ok xs \<Longrightarrow> text_ok (join_with [44] xs)"
  by (induction xs rule: induct_list012) (auto simp: is_surrogate_def)

lemma text_ok_render: "i_json v \<Longrightarrow> py_chars v \<Longrightarrow> text_ok (render (json_view v))"
proof (induction v rule: json_view.induct)
  case (4 i)
  then show ?case using wf_json_view [of "PInt i"] by (auto intro: text_ok_num simp del: i_json.simps)
next
  case (5 f)
  then show ?case using wf_json_view [of "PFloat f"] by (auto intro: text_ok_num simp del: i_json.simps)
next
  case (6 kvs)
  have "text_ok (quote_string (key_text k) @ [58] @ render (json_view v))" if "(k, v) \<in> set kvs" for k v
  proof -
    from "6.prems" that have *: "list_all (\<lambda>c. c < 0x110000) (key_text k)"
      "\<not> list_ex is_surrogate (key_text k)" "i_json v" "py_chars v"
      by (auto simp: list_all_iff)
    with "6.IH" [OF that refl] show ?thesis
      by (simp add: is_surrogate_def text_ok_quote text_ok_scalar)
  qed
  then have "list_all text_ok (map (\<lambda>(k, v). quote_string k @ [58] @ render v)
      (sort_key (utf16_key \<circ> fst) (map (\<lambda>(k, v). (key_text k, json_view v)) kvs)))"
    by (auto simp: list_all_iff)
  from text_ok_join [OF this] show ?case by (simp add: is_surrogate_def)
next
  case (7 xs)
  then show ?case by (auto simp: is_surrogate_def list_all_iff intro!: text_ok_join)
next
  case (8 xs)
  then show ?case by (auto simp: is_surrogate_def list_all_iff intro!: text_ok_join)
qed (auto simp: lit_def is_surrogate_def intro: text_ok_quote text_ok_scalar)

text \<open>Two values whose canonical bytes are a SHA-256 collision.\<close>

definition sha_collision :: "pyval \<Rightarrow> pyval \<Rightarrow> bool" where
  "sha_collision v w \<longleftrightarrow>
     (\<exists>x y. canonicalize v = Inr x \<and> canonicalize w = Inr y \<and> x \<noteq> y \<and> sha256_hex x = sha256_hex y)"

lemma canonical_sha256_eq_cases:
  assumes "canonical_sha256 v = Inr d" "canonical_sha256 w = Inr d" "py_chars v" "py_chars w"
  shows "json_view v = json_view w \<or> sha_collision v w"
proof -
  have ij: "i_json v" "i_json w" using assms(1,2) by (auto simp: canonical_sha256_iff)
  have "json_view v = json_view w" if "utf8 (render (json_view v)) = utf8 (render (json_view w))"
    using that ij assms(3,4) by (simp add: utf8_inj text_ok_render flip: render_eq_iff)
  with assms(1,2) show ?thesis by (auto simp: canonical_sha256_iff canonicalize_iff sha_collision_def)
qed

section \<open>Properties\<close>

text \<open>
  Canonicalization returns a text exactly for I-JSON values (no lone
  surrogate in any string or key, no non-string key, no NaN or infinity, no integer that binary64
  cannot represent, no foreign object anywhere inside), and raises otherwise.
\<close>

theorem canonicalize_ok_iff: "is_ok (canonicalize_json v) \<longleftrightarrow> i_json v"
  by (auto simp: is_ok_iff canonicalize_json_iff)

end
