(* ===== verification/C3_Store.thy ===== *)
theory C3_Store
  imports Canonical "HOL-Library.Product_Lexorder"
begin

text \<open>
  The single-writer aggregate store with its transactional outbox, \<^verbatim>\<open>c3_store.py\<close>.  The state is the
  record of the three dictionaries that one commit publishes together.  A call returns its result or
  exception and the state it leaves behind, so that the crash windows of \<^verbatim>\<open>write\<close> are visible: a
  crash before the commit leaves the old state, the one after it the new state.  \<^verbatim>\<open>uuid.uuid4()\<close> and
  the wall clock are arguments.
\<close>

section \<open>State\<close>

datatype CrashWindow =
    BEFORE_TRANSACTION
  | AFTER_TRANSACTION_BEGIN
  | AFTER_AGGREGATE_STAGE
  | AFTER_OUTBOX_STAGE
  | AFTER_COMMIT_BEFORE_ACK

fun crash_value :: "CrashWindow \<Rightarrow> string" where
  "crash_value BEFORE_TRANSACTION = ''before-transaction''"
| "crash_value AFTER_TRANSACTION_BEGIN = ''after-transaction-begin''"
| "crash_value AFTER_AGGREGATE_STAGE = ''after-aggregate-stage''"
| "crash_value AFTER_OUTBOX_STAGE = ''after-outbox-stage''"
| "crash_value AFTER_COMMIT_BEFORE_ACK = ''after-commit-before-ack''"

definition crash_windows :: "CrashWindow list" where
  "crash_windows = [BEFORE_TRANSACTION, AFTER_TRANSACTION_BEGIN, AFTER_AGGREGATE_STAGE,
     AFTER_OUTBOX_STAGE, AFTER_COMMIT_BEFORE_ACK]"

record StoredDocument =
  sd_aggregate_id :: pystr
  sd_document :: pyval
  sd_version :: int
  sd_writer_id :: pystr
  sd_transaction_id :: pystr
  sd_semantic_digest :: pystr
  sd_updated_at :: datetime

record OutboxEvent =
  ev_event_id :: pystr
  ev_aggregate_id :: pystr
  ev_aggregate_version :: int
  ev_event_type :: pystr
  ev_payload :: pyval
  ev_payload_digest :: pystr
  ev_request_digest :: pystr
  ev_idempotency_key :: pystr
  ev_transaction_id :: pystr
  ev_occurred_at :: datetime
  ev_committed :: bool
  ev_emitted_at :: "datetime option"

definition verify_integrity :: "OutboxEvent \<Rightarrow> bool res" where
  "verify_integrity e =
     (case canonical_sha256 (ev_payload e) of Inl x \<Rightarrow> Inl x | Inr d \<Rightarrow> Inr (d = ev_payload_digest e))"

record WriteResult =
  wr_document :: StoredDocument
  wr_event :: OutboxEvent
  wr_replayed :: bool

record AtomicOutboxStore =
  st_authoritative_writer :: pystr
  st_documents :: "(pystr, StoredDocument) dict"
  st_events :: "(pystr, OutboxEvent) dict"
  st_idempotency :: "(pystr, pystr) dict"

definition new_store :: "pystr \<Rightarrow> AtomicOutboxStore res" where
  "new_store writer =
     (if writer = [] then Inl (ValueError ''authoritative_writer must be non-empty'')
      else Inr \<lparr>st_authoritative_writer = writer, st_documents = [], st_events = [], st_idempotency = []\<rparr>)"

text \<open>The arguments of one call of \<^verbatim>\<open>write\<close>.\<close>

record WriteRequest =
  wq_aggregate_id :: pystr
  wq_document :: pyval
  wq_expected_version :: "int option"
  wq_writer_id :: pystr
  wq_event_type :: pystr
  wq_event_payload :: "pyval option"
  wq_idempotency_key :: pystr
  wq_occurred_at :: "datetime option"
  wq_crash_window :: "pystr option"

section \<open>Operations\<close>

definition authorize_writer :: "AtomicOutboxStore \<Rightarrow> pystr \<Rightarrow> unit res" where
  "authorize_writer s writer =
     (if writer \<noteq> st_authoritative_writer s then Inl SingleWriterViolation else Inr ())"

definition raise_if :: "pystr option \<Rightarrow> CrashWindow \<Rightarrow> bool \<Rightarrow> unit res" where
  "raise_if window target committed =
     (case window of
        None \<Rightarrow> Inr ()
      | Some w \<Rightarrow>
         (case find (\<lambda>c. lit (crash_value c) = w) crash_windows of
            None \<Rightarrow> Inl (ValueError ''unknown crash window'')
          | Some selected \<Rightarrow>
             if selected = target then Inl (CrashInjected (crash_value target) committed) else Inr ()))"

text \<open>The checks and digests \<^verbatim>\<open>write\<close> makes before it takes the lock.\<close>

record PreparedWrite =
  pw_instant :: datetime
  pw_document :: pyval
  pw_payload :: pyval
  pw_request_digest :: pystr

definition request_digest :: "WriteRequest \<Rightarrow> pyval \<Rightarrow> pyval \<Rightarrow> pystr res" where
  "request_digest q doc payload =
     canonical_sha256 (obj [(''aggregateId'', PStr (wq_aggregate_id q)), (''document'', doc),
       (''eventType'', PStr (wq_event_type q)), (''payload'', payload)])"

definition prepare_write :: "datetime \<Rightarrow> WriteRequest \<Rightarrow> AtomicOutboxStore \<Rightarrow> PreparedWrite res" where
  "prepare_write now q s =
     (if wq_aggregate_id q = [] \<or> wq_event_type q = [] \<or> wq_idempotency_key q = []
      then Inl (ValueError ''aggregate_id, event_type and idempotency_key are required'')
      else if (case wq_expected_version q of None \<Rightarrow> False | Some v \<Rightarrow> v < 0)
      then Inl (ValueError ''expected_version cannot be negative'')
      else case authorize_writer s (wq_writer_id q) of Inl e \<Rightarrow> Inl e
      | Inr _ \<Rightarrow>
       (case require_aware ''occurred_at'' (case wq_occurred_at q of None \<Rightarrow> now | Some d \<Rightarrow> d) of Inl e \<Rightarrow> Inl e
        | Inr instant \<Rightarrow>
         (case freeze_json (wq_document q) of Inl e \<Rightarrow> Inl e
          | Inr doc \<Rightarrow>
           (case freeze_json (case wq_event_payload q of None \<Rightarrow> wq_document q | Some p \<Rightarrow> p) of Inl e \<Rightarrow> Inl e
            | Inr payload \<Rightarrow>
             (case request_digest q doc payload of Inl e \<Rightarrow> Inl e
              | Inr digest \<Rightarrow>
               (case raise_if (wq_crash_window q) BEFORE_TRANSACTION False of Inl e \<Rightarrow> Inl e
                | Inr _ \<Rightarrow>
                   Inr \<lparr>pw_instant = instant, pw_document = doc, pw_payload = payload,
                        pw_request_digest = digest\<rparr>))))))"

definition event_seed :: "pystr \<Rightarrow> pystr \<Rightarrow> pystr \<Rightarrow> pyval" where
  "event_seed a key digest =
     obj [(''aggregateId'', PStr a), (''idempotencyKey'', PStr key), (''requestDigest'', PStr digest)]"

definition event_id_of :: "pystr \<Rightarrow> pystr \<Rightarrow> pystr \<Rightarrow> pystr res" where
  "event_id_of a key digest =
     (case canonicalize (event_seed a key digest) of Inl e \<Rightarrow> Inl e
      | Inr seed \<Rightarrow> Inr (lit ''urn:ocor:event:sha256:'' @ sha256_hex seed))"

definition current_version :: "AtomicOutboxStore \<Rightarrow> pystr \<Rightarrow> int" where
  "current_version s a = (case dict_get (st_documents s) a of None \<Rightarrow> 0 | Some d \<Rightarrow> sd_version d)"

text \<open>The two records a write stages under the lock, with its checks and crash windows.\<close>

definition stage_write ::
  "pystr \<Rightarrow> WriteRequest \<Rightarrow> PreparedWrite \<Rightarrow> AtomicOutboxStore \<Rightarrow> (StoredDocument \<times> OutboxEvent) res" where
  "stage_write tx q p s =
     (let a = wq_aggregate_id q; cur = current_version s a; version = cur + 1 in
      if (case wq_expected_version q of None \<Rightarrow> False | Some v \<Rightarrow> v \<noteq> cur)
      then Inl (ConcurrencyConflict ''expected aggregate version differs'')
      else if (case dict_get (st_documents s) a of None \<Rightarrow> False
               | Some d \<Rightarrow> dt_lt (pw_instant p) (sd_updated_at d))
      then Inl (TemporalGuardViolation ''aggregate time cannot move backwards'')
      else case raise_if (wq_crash_window q) AFTER_TRANSACTION_BEGIN False of Inl e \<Rightarrow> Inl e
      | Inr _ \<Rightarrow>
       (case event_id_of a (wq_idempotency_key q) (pw_request_digest p) of Inl e \<Rightarrow> Inl e
        | Inr eid \<Rightarrow>
         (case canonical_sha256 (pw_document p) of Inl e \<Rightarrow> Inl e
          | Inr sdig \<Rightarrow>
           (case raise_if (wq_crash_window q) AFTER_AGGREGATE_STAGE False of Inl e \<Rightarrow> Inl e
            | Inr _ \<Rightarrow>
             (case canonical_sha256 (pw_payload p) of Inl e \<Rightarrow> Inl e
              | Inr pdig \<Rightarrow>
               (case raise_if (wq_crash_window q) AFTER_OUTBOX_STAGE False of Inl e \<Rightarrow> Inl e
                | Inr _ \<Rightarrow>
                   Inr (\<lparr>sd_aggregate_id = a, sd_document = pw_document p, sd_version = version,
                         sd_writer_id = wq_writer_id q, sd_transaction_id = tx,
                         sd_semantic_digest = sdig, sd_updated_at = pw_instant p\<rparr>,
                        \<lparr>ev_event_id = eid, ev_aggregate_id = a, ev_aggregate_version = version,
                         ev_event_type = wq_event_type q, ev_payload = pw_payload p,
                         ev_payload_digest = pdig, ev_request_digest = pw_request_digest p,
                         ev_idempotency_key = wq_idempotency_key q, ev_transaction_id = tx,
                         ev_occurred_at = pw_instant p, ev_committed = True, ev_emitted_at = None\<rparr>)))))))"

definition commit_write :: "StoredDocument \<Rightarrow> OutboxEvent \<Rightarrow> AtomicOutboxStore \<Rightarrow> AtomicOutboxStore" where
  "commit_write d e s =
     s\<lparr>st_documents := dict_set (sd_aggregate_id d) d (st_documents s),
       st_events := dict_set (ev_event_id e) e (st_events s),
       st_idempotency := dict_set (ev_idempotency_key e) (ev_event_id e) (st_idempotency s)\<rparr>"

definition replay_write :: "pystr \<Rightarrow> PreparedWrite \<Rightarrow> AtomicOutboxStore \<Rightarrow> WriteResult res" where
  "replay_write eid p s =
     (case dict_get (st_events s) eid of
        None \<Rightarrow> Inl (KeyError eid)
      | Some e \<Rightarrow>
         if ev_request_digest e \<noteq> pw_request_digest p
         then Inl (ConcurrencyConflict ''idempotency key was reused for a different write request'')
         else case dict_get (st_documents s) (ev_aggregate_id e) of
           None \<Rightarrow> Inl (KeyError (ev_aggregate_id e))
         | Some d \<Rightarrow> Inr \<lparr>wr_document = d, wr_event = e, wr_replayed = True\<rparr>)"

definition store_write ::
  "pystr \<Rightarrow> datetime \<Rightarrow> WriteRequest \<Rightarrow> AtomicOutboxStore \<Rightarrow> WriteResult res \<times> AtomicOutboxStore" where
  "store_write tx now q s =
     (case prepare_write now q s of Inl e \<Rightarrow> (Inl e, s)
      | Inr p \<Rightarrow>
       (case dict_get (st_idempotency s) (wq_idempotency_key q) of
          Some eid \<Rightarrow> (replay_write eid p s, s)
        | None \<Rightarrow>
         (case stage_write tx q p s of Inl e \<Rightarrow> (Inl e, s)
          | Inr (d, e) \<Rightarrow>
             (case raise_if (wq_crash_window q) AFTER_COMMIT_BEFORE_ACK True of
                Inl x \<Rightarrow> (Inl x, commit_write d e s)
              | Inr _ \<Rightarrow> (Inr \<lparr>wr_document = d, wr_event = e, wr_replayed = False\<rparr>, commit_write d e s)))))"

definition get_document :: "AtomicOutboxStore \<Rightarrow> pystr \<Rightarrow> StoredDocument option" where
  "get_document s a = dict_get (st_documents s) a"

definition get_event :: "AtomicOutboxStore \<Rightarrow> pystr \<Rightarrow> OutboxEvent option" where
  "get_event s eid = dict_get (st_events s) eid"

definition outbox_order :: "OutboxEvent \<Rightarrow> int \<times> pystr \<times> int \<times> pystr" where
  "outbox_order e = (dt_instant (ev_occurred_at e), ev_aggregate_id e, ev_aggregate_version e, ev_event_id e)"

definition outbox :: "bool \<Rightarrow> AtomicOutboxStore \<Rightarrow> OutboxEvent list" where
  "outbox include_emitted s =
     sort_key outbox_order
       (filter (\<lambda>e. include_emitted \<or> ev_emitted_at e = None) (dict_values (st_events s)))"

definition mark_emitted ::
  "pystr \<Rightarrow> datetime \<Rightarrow> AtomicOutboxStore \<Rightarrow> OutboxEvent res \<times> AtomicOutboxStore" where
  "mark_emitted eid at_time s =
     (case require_aware ''emitted_at'' at_time of Inl e \<Rightarrow> (Inl e, s)
      | Inr instant \<Rightarrow>
       (case dict_get (st_events s) eid of
          None \<Rightarrow> (Inl (KeyError eid), s)
        | Some e \<Rightarrow>
           if dt_lt instant (ev_occurred_at e)
           then (Inl (TemporalGuardViolation ''event cannot be emitted before it occurred''), s)
           else if ev_emitted_at e \<noteq> None then (Inr e, s)
           else let e' = e\<lparr>ev_emitted_at := Some instant\<rparr>
                in (Inr e', s\<lparr>st_events := dict_set eid e' (st_events s)\<rparr>)))"

definition snapshot_counts :: "AtomicOutboxStore \<Rightarrow> nat \<times> nat" where
  "snapshot_counts s = (length (st_documents s), length (st_events s))"

definition verify_atomicity :: "AtomicOutboxStore \<Rightarrow> bool" where
  "verify_atomicity s =
     (let transactions = set (map ev_transaction_id (dict_values (st_events s))) in
      list_all (\<lambda>d. sd_transaction_id d \<in> transactions) (dict_values (st_documents s))
      \<and> list_all (\<lambda>e. case dict_get (st_documents s) (ev_aggregate_id e) of None \<Rightarrow> False
           | Some d \<Rightarrow> ev_aggregate_version e \<le> sd_version d) (dict_values (st_events s)))"

section \<open>What a staged write is\<close>

lemma prepare_writeD:
  assumes "prepare_write now q s = Inr p"
  shows "wq_aggregate_id q \<noteq> []" "wq_idempotency_key q \<noteq> []" "wq_writer_id q = st_authoritative_writer s"
    "dt_aware (pw_instant p)" "pw_instant p = (case wq_occurred_at q of None \<Rightarrow> now | Some d \<Rightarrow> d)"
    "request_digest q (pw_document p) (pw_payload p) = Inr (pw_request_digest p)"
    "freeze_json (wq_document q) = Inr (pw_document p)"
    "raise_if (wq_crash_window q) BEFORE_TRANSACTION False = Inr ()"
  using assms by (auto simp: prepare_write_def authorize_writer_def split: if_splits sum.splits)

lemma stage_writeD:
  assumes "stage_write tx q p s = Inr (d, e)"
  shows "sd_aggregate_id d = wq_aggregate_id q" "ev_aggregate_id e = wq_aggregate_id q"
    "sd_version d = current_version s (wq_aggregate_id q) + 1" "ev_aggregate_version e = sd_version d"
    "ev_idempotency_key e = wq_idempotency_key q" "sd_transaction_id d = tx" "ev_transaction_id e = tx"
    "ev_committed e" "ev_emitted_at e = None" "sd_writer_id d = wq_writer_id q"
    "canonical_sha256 (ev_payload e) = Inr (ev_payload_digest e)"
    "event_id_of (wq_aggregate_id q) (wq_idempotency_key q) (pw_request_digest p) = Inr (ev_event_id e)"
    "ev_request_digest e = pw_request_digest p"
    "sd_updated_at d = pw_instant p" "ev_occurred_at e = pw_instant p"
  using assms by (auto simp: stage_write_def Let_def split: if_splits sum.splits)

lemma stage_write_time:
  "stage_write tx q p s = Inr (d, e) \<Longrightarrow> dict_get (st_documents s) (wq_aggregate_id q) = Some d0 \<Longrightarrow>
     dt_le (sd_updated_at d0) (pw_instant p)"
  by (auto simp: stage_write_def Let_def split: if_splits sum.splits)

text \<open>Only the last crash window reports a committed transaction.\<close>

lemma raise_if_uncommitted: "raise_if w target False \<noteq> Inl (CrashInjected win True)"
  by (auto simp: raise_if_def split: option.splits)

lemma require_aware_error: "require_aware f d \<noteq> Inl (CrashInjected win True)"
  by (auto simp: require_aware_def split: tz.splits)

lemma event_id_of_Inl: "event_id_of a k d = Inl e \<Longrightarrow> \<exists>m. e = CanonicalizationError m"
  using canonical_sha256_Inl [of "event_seed a k d" e]
  by (auto simp: event_id_of_def canonical_sha256_def split: sum.splits)

lemma prepare_write_uncommitted: "prepare_write now q s \<noteq> Inl (CrashInjected win True)"
  by (auto simp: prepare_write_def authorize_writer_def request_digest_def raise_if_uncommitted require_aware_error
      dest!: freeze_json_Inl canonical_sha256_Inl split: sum.splits)

lemma stage_write_uncommitted: "stage_write tx q p s \<noteq> Inl (CrashInjected win True)"
  by (auto simp: stage_write_def Let_def raise_if_uncommitted
      dest!: event_id_of_Inl canonical_sha256_Inl split: sum.splits)

lemma replay_write_cases: "replay_write eid p s \<noteq> Inl (CrashInjected win True)"
  "replay_write eid p s = Inr x \<Longrightarrow> wr_replayed x"
  by (auto simp: replay_write_def split: option.splits if_splits)

text \<open>What one call of \<^verbatim>\<open>write\<close> does to the state: nothing, or the commit of one staged pair.\<close>

lemma write_cases:
  assumes "store_write tx now q s = (r, t)"
  obtains (unchanged) "t = s" "\<forall>x. r = Inr x \<longrightarrow> wr_replayed x" "\<forall>win. r \<noteq> Inl (CrashInjected win True)"
  | (committed) p d e where "prepare_write now q s = Inr p"
      "dict_get (st_idempotency s) (wq_idempotency_key q) = None"
      "stage_write tx q p s = Inr (d, e)" "t = commit_write d e s"
      "r = Inr \<lparr>wr_document = d, wr_event = e, wr_replayed = False\<rparr> \<or>
       r = Inl (CrashInjected (crash_value AFTER_COMMIT_BEFORE_ACK) True)"
proof -
  have crash: "raise_if w AFTER_COMMIT_BEFORE_ACK True = Inl x \<Longrightarrow>
      raise_if w BEFORE_TRANSACTION False = Inr () \<Longrightarrow>
      x = CrashInjected (crash_value AFTER_COMMIT_BEFORE_ACK) True" for w x
    by (auto simp: raise_if_def split: option.splits if_splits)
  show ?thesis
  proof (cases "prepare_write now q s")
    case (Inl x)
    with assms prepare_write_uncommitted [of now q s] show ?thesis
      by (intro unchanged) (auto simp: store_write_def)
  next
    case p: (Inr p)
    show ?thesis
    proof (cases "dict_get (st_idempotency s) (wq_idempotency_key q)")
      case (Some eid)
      with p assms replay_write_cases show ?thesis by (intro unchanged) (auto simp: store_write_def)
    next
      case None
      show ?thesis
      proof (cases "stage_write tx q p s")
        case (Inl x)
        with p None assms stage_write_uncommitted [of tx q p s] show ?thesis
          by (intro unchanged) (auto simp: store_write_def)
      next
        case (Inr de)
        obtain d e where de: "de = (d, e)" by force
        from p None Inr de assms have
          "t = commit_write d e s \<and> (r = Inr \<lparr>wr_document = d, wr_event = e, wr_replayed = False\<rparr> \<or>
            r = Inl (CrashInjected (crash_value AFTER_COMMIT_BEFORE_ACK) True))"
          by (auto simp: store_write_def dest: crash [OF _ prepare_writeD(8)] split: sum.splits)
        with p None Inr de committed show ?thesis by blast
      qed
    qed
  qed
qed

section \<open>The invariant of the store\<close>

text \<open>Python text holds code points below 0x110000.\<close>

definition unicode :: "pystr \<Rightarrow> bool" where
  "unicode s = list_all (\<lambda>c. c < 0x110000) s"

definition event_ok :: "AtomicOutboxStore \<Rightarrow> pystr \<Rightarrow> OutboxEvent \<Rightarrow> bool" where
  "event_ok s k e \<longleftrightarrow>
     ev_event_id e = k \<and> ev_committed e \<and> 1 \<le> ev_aggregate_version e
     \<and> canonical_sha256 (ev_payload e) = Inr (ev_payload_digest e)
     \<and> dict_get (st_idempotency s) (ev_idempotency_key e) = Some k
     \<and> event_id_of (ev_aggregate_id e) (ev_idempotency_key e) (ev_request_digest e) = Inr k
     \<and> list_all unicode [ev_aggregate_id e, ev_idempotency_key e, ev_request_digest e]
     \<and> (\<exists>d. dict_get (st_documents s) (ev_aggregate_id e) = Some d
            \<and> ev_aggregate_version e \<le> sd_version d \<and> dt_le (ev_occurred_at e) (sd_updated_at d))
     \<and> (\<forall>i. ev_emitted_at e = Some i \<longrightarrow> dt_le (ev_occurred_at e) i)"

definition doc_ok :: "AtomicOutboxStore \<Rightarrow> pystr \<Rightarrow> StoredDocument \<Rightarrow> bool" where
  "doc_ok s a d \<longleftrightarrow>
     sd_aggregate_id d = a \<and> sd_writer_id d = st_authoritative_writer s \<and> 1 \<le> sd_version d
     \<and> (\<forall>v. 1 \<le> v \<longrightarrow> v \<le> sd_version d \<longrightarrow>
          (\<exists>k e. dict_get (st_events s) k = Some e \<and> ev_aggregate_id e = a \<and> ev_aggregate_version e = v
             \<and> (v = sd_version d \<longrightarrow> ev_transaction_id e = sd_transaction_id d)))"

definition events_ordered :: "AtomicOutboxStore \<Rightarrow> bool" where
  "events_ordered s \<longleftrightarrow>
     (\<forall>k e k' e'. dict_get (st_events s) k = Some e \<longrightarrow> dict_get (st_events s) k' = Some e' \<longrightarrow>
        ev_aggregate_id e = ev_aggregate_id e' \<longrightarrow>
        (ev_aggregate_version e = ev_aggregate_version e' \<longrightarrow> k = k')
        \<and> (ev_aggregate_version e < ev_aggregate_version e' \<longrightarrow>
             dt_le (ev_occurred_at e) (ev_occurred_at e')))"

lemma events_orderedD:
  assumes "events_ordered s" "dict_get (st_events s) k = Some e" "dict_get (st_events s) k' = Some e'"
    "ev_aggregate_id e = ev_aggregate_id e'"
  shows "ev_aggregate_version e = ev_aggregate_version e' \<Longrightarrow> k = k'"
    "ev_aggregate_version e < ev_aggregate_version e' \<Longrightarrow> dt_le (ev_occurred_at e) (ev_occurred_at e')"
  using assms unfolding events_ordered_def by blast+

definition store_inv :: "AtomicOutboxStore \<Rightarrow> bool" where
  "store_inv s \<longleftrightarrow>
     dict_ok (st_documents s) \<and> dict_ok (st_events s) \<and> dict_ok (st_idempotency s)
     \<and> (\<forall>k e. dict_get (st_events s) k = Some e \<longrightarrow> event_ok s k e)
     \<and> (\<forall>a d. dict_get (st_documents s) a = Some d \<longrightarrow> doc_ok s a d)
     \<and> (\<forall>key k. dict_get (st_idempotency s) key = Some k \<longrightarrow>
          (\<exists>e. dict_get (st_events s) k = Some e \<and> ev_idempotency_key e = key))
     \<and> events_ordered s"

lemma new_store_inv: "new_store w = Inr s \<Longrightarrow> store_inv s"
  by (auto simp: new_store_def store_inv_def events_ordered_def split: if_splits)

lemma store_invD:
  assumes "store_inv s"
  shows "dict_ok (st_documents s)" "dict_ok (st_events s)" "dict_ok (st_idempotency s)"
    "dict_get (st_events s) k = Some e \<Longrightarrow> event_ok s k e"
    "dict_get (st_documents s) a = Some d \<Longrightarrow> doc_ok s a d"
    "dict_get (st_idempotency s) key = Some k \<Longrightarrow>
      \<exists>e. dict_get (st_events s) k = Some e \<and> ev_idempotency_key e = key"
    "events_ordered s"
  using assms by (auto simp: store_inv_def)

lemma commit_write_sel [simp]:
  "st_authoritative_writer (commit_write d e s) = st_authoritative_writer s"
  "st_documents (commit_write d e s) = dict_set (sd_aggregate_id d) d (st_documents s)"
  "st_events (commit_write d e s) = dict_set (ev_event_id e) e (st_events s)"
  "st_idempotency (commit_write d e s) = dict_set (ev_idempotency_key e) (ev_event_id e) (st_idempotency s)"
  by (simp_all add: commit_write_def)

text \<open>A commit of a fresh event keeps every part of the invariant.\<close>

lemma commit_event_ok_old:
  assumes "event_ok s k e" "k \<noteq> ev_event_id e'" "dict_get (st_idempotency s) (ev_idempotency_key e') = None"
    "sd_version d = current_version s (sd_aggregate_id d) + 1"
    "\<And>d0. dict_get (st_documents s) (sd_aggregate_id d) = Some d0 \<Longrightarrow> dt_le (sd_updated_at d0) (sd_updated_at d)"
  shows "event_ok (commit_write d e' s) k e"
  using assms by (auto simp: event_ok_def commit_write_def current_version_def)

lemma commit_doc_ok_old:
  assumes "doc_ok s a d0" "a \<noteq> sd_aggregate_id d" "dict_get (st_events s) (ev_event_id e) = None"
  shows "doc_ok (commit_write d e s) a d0"
proof -
  have "\<exists>k e'. dict_get (st_events (commit_write d e s)) k = Some e' \<and> ev_aggregate_id e' = a
      \<and> ev_aggregate_version e' = v \<and> (v = sd_version d0 \<longrightarrow> ev_transaction_id e' = sd_transaction_id d0)"
    if "1 \<le> v" "v \<le> sd_version d0" for v
  proof -
    from assms(1) that obtain k e' where k: "dict_get (st_events s) k = Some e'" "ev_aggregate_id e' = a"
      "ev_aggregate_version e' = v" "v = sd_version d0 \<longrightarrow> ev_transaction_id e' = sd_transaction_id d0"
      unfolding doc_ok_def by blast
    with assms(3) have "k \<noteq> ev_event_id e" by auto
    with k show ?thesis by (intro exI [of _ k] exI [of _ e']) simp
  qed
  with assms(1) show ?thesis by (auto simp: doc_ok_def)
qed

lemma current_version_nonneg: "store_inv s \<Longrightarrow> 0 \<le> current_version s a"
  using store_invD(5) [of s a] by (cases "dict_get (st_documents s) a") (auto simp: current_version_def doc_ok_def)

text \<open>The staged document and event extend the history of their aggregate by one version.\<close>

lemma commit_doc_ok_new:
  assumes inv: "store_inv s" and fresh: "dict_get (st_events s) (ev_event_id e) = None"
    and d: "sd_writer_id d = st_authoritative_writer s" "sd_version d = current_version s (sd_aggregate_id d) + 1"
    and e: "ev_aggregate_id e = sd_aggregate_id d" "ev_aggregate_version e = sd_version d"
      "ev_transaction_id e = sd_transaction_id d"
  shows "doc_ok (commit_write d e s) (sd_aggregate_id d) d"
proof -
  have old: "\<exists>k e'. k \<noteq> ev_event_id e \<and> dict_get (st_events s) k = Some e'
      \<and> ev_aggregate_id e' = sd_aggregate_id d \<and> ev_aggregate_version e' = v"
    if "1 \<le> v" "v \<le> current_version s (sd_aggregate_id d)" for v
  proof -
    from that obtain d0 where "dict_get (st_documents s) (sd_aggregate_id d) = Some d0" "v \<le> sd_version d0"
      by (auto simp: current_version_def split: option.splits)
    with store_invD(5) [OF inv] that(1) obtain k e' where "dict_get (st_events s) k = Some e'"
      "ev_aggregate_id e' = sd_aggregate_id d" "ev_aggregate_version e' = v"
      unfolding doc_ok_def by blast
    moreover from this fresh have "k \<noteq> ev_event_id e" by auto
    ultimately show ?thesis by blast
  qed
  have cv: "0 \<le> current_version s (sd_aggregate_id d)"
    using inv by (rule current_version_nonneg)
  have "\<exists>k e'. dict_get (st_events (commit_write d e s)) k = Some e' \<and> ev_aggregate_id e' = sd_aggregate_id d
      \<and> ev_aggregate_version e' = v \<and> (v = sd_version d \<longrightarrow> ev_transaction_id e' = sd_transaction_id d)"
    if "1 \<le> v" "v \<le> sd_version d" for v
  proof (cases "v = sd_version d")
    case True
    with e show ?thesis by (intro exI [of _ "ev_event_id e"] exI [of _ e]) simp
  next
    case False
    with that d old [of v] obtain k e' where "k \<noteq> ev_event_id e" "dict_get (st_events s) k = Some e'"
      "ev_aggregate_id e' = sd_aggregate_id d" "ev_aggregate_version e' = v" by auto
    with False show ?thesis by (intro exI [of _ k] exI [of _ e']) simp
  qed
  with d cv show ?thesis by (simp add: doc_ok_def)
qed

lemma event_version_le_current:
  assumes "store_inv s" "dict_get (st_events s) k = Some e"
  shows "ev_aggregate_version e \<le> current_version s (ev_aggregate_id e)"
    "\<exists>d. dict_get (st_documents s) (ev_aggregate_id e) = Some d \<and> dt_le (ev_occurred_at e) (sd_updated_at d)"
  using store_invD(4) [OF assms] by (auto simp: event_ok_def current_version_def)

lemma commit_events_ordered:
  assumes inv: "store_inv s"
    and d: "sd_version d = current_version s (sd_aggregate_id d) + 1"
    and e: "ev_aggregate_id e = sd_aggregate_id d" "ev_aggregate_version e = sd_version d"
      "ev_occurred_at e = sd_updated_at d"
    and time: "\<And>d0. dict_get (st_documents s) (sd_aggregate_id d) = Some d0 \<Longrightarrow> dt_le (sd_updated_at d0) (sd_updated_at d)"
  shows "events_ordered (commit_write d e s)"
proof -
  have new: "ev_aggregate_version e' < sd_version d \<and> dt_le (ev_occurred_at e') (sd_updated_at d)"
    if "dict_get (st_events s) k = Some e'" "ev_aggregate_id e' = sd_aggregate_id d" for k e'
    using event_version_le_current [OF inv that(1)] that(2) d time by force
  show ?thesis
    unfolding events_ordered_def
  proof (intro allI impI)
    fix k1 e1 k2 e2
    assume 1: "dict_get (st_events (commit_write d e s)) k1 = Some e1"
      and 2: "dict_get (st_events (commit_write d e s)) k2 = Some e2"
      and agg: "ev_aggregate_id e1 = ev_aggregate_id e2"
    show "(ev_aggregate_version e1 = ev_aggregate_version e2 \<longrightarrow> k1 = k2) \<and>
      (ev_aggregate_version e1 < ev_aggregate_version e2 \<longrightarrow> dt_le (ev_occurred_at e1) (ev_occurred_at e2))"
    proof (cases "k1 = ev_event_id e \<or> k2 = ev_event_id e")
      case True
      with 1 2 agg e new [of k1 e1] new [of k2 e2] show ?thesis by (auto split: if_splits)
    next
      case False
      with 1 2 agg store_invD(7) [OF inv] show ?thesis by (simp add: events_ordered_def)
    qed
  qed
qed

lemma commit_store_inv:
  assumes inv: "store_inv s" and fresh: "dict_get (st_events s) (ev_event_id e) = None"
    and key: "dict_get (st_idempotency s) (ev_idempotency_key e) = None"
    and d: "sd_writer_id d = st_authoritative_writer s" "sd_version d = current_version s (sd_aggregate_id d) + 1"
    and e: "ev_aggregate_id e = sd_aggregate_id d" "ev_aggregate_version e = sd_version d"
      "ev_transaction_id e = sd_transaction_id d" "ev_occurred_at e = sd_updated_at d"
      "ev_committed e" "ev_emitted_at e = None" "canonical_sha256 (ev_payload e) = Inr (ev_payload_digest e)"
      "event_id_of (ev_aggregate_id e) (ev_idempotency_key e) (ev_request_digest e) = Inr (ev_event_id e)"
      "list_all unicode [ev_aggregate_id e, ev_idempotency_key e, ev_request_digest e]"
    and time: "\<And>d0. dict_get (st_documents s) (sd_aggregate_id d) = Some d0 \<Longrightarrow> dt_le (sd_updated_at d0) (sd_updated_at d)"
  shows "store_inv (commit_write d e s)"
proof -
  let ?t = "commit_write d e s"
  have doc: "doc_ok ?t (sd_aggregate_id d) d"
    using inv fresh d e by (intro commit_doc_ok_new) auto
  have "event_ok ?t (ev_event_id e) e"
    using doc e by (auto simp: event_ok_def doc_ok_def)
  moreover have "event_ok ?t k e'" if "dict_get (st_events s) k = Some e'" for k e'
    using that fresh key d time store_invD(4) [OF inv that] by (intro commit_event_ok_old) auto
  moreover have "doc_ok ?t a d0" if "dict_get (st_documents s) a = Some d0" "a \<noteq> sd_aggregate_id d" for a d0
    using that fresh store_invD(5) [OF inv that(1)] by (intro commit_doc_ok_old) auto
  moreover have "\<exists>e'. dict_get (st_events ?t) k = Some e' \<and> ev_idempotency_key e' = key"
    if "dict_get (st_idempotency ?t) key = Some k" for key k
    using that store_invD(6) [OF inv] fresh by (fastforce split: if_splits)
  moreover have "events_ordered ?t"
    using inv d e time by (intro commit_events_ordered) auto
  ultimately show ?thesis
    using doc store_invD(1-3) [OF inv] by (auto simp: store_inv_def split: if_splits)
qed

text \<open>
  Event ids are SHA-256 digests of canonical seeds.  A write is collision free when the seed of its
  event does not collide with the different seed of a stored event; the ids of distinct requests are
  then distinct, because canonicalization is injective.
\<close>

definition seed_bytes :: "OutboxEvent \<Rightarrow> byte list res" where
  "seed_bytes e = canonicalize (event_seed (ev_aggregate_id e) (ev_idempotency_key e) (ev_request_digest e))"

definition seed_collision :: "OutboxEvent \<Rightarrow> OutboxEvent \<Rightarrow> bool" where
  "seed_collision e e' \<longleftrightarrow>
     (\<exists>x y. seed_bytes e = Inr x \<and> seed_bytes e' = Inr y \<and> x \<noteq> y \<and> sha256_hex x = sha256_hex y)"

lemma event_seed_inj:
  assumes "canonicalize (event_seed a k d) = Inr x" "canonicalize (event_seed a' k' d') = Inr x"
    and "list_all unicode [a, k, d]" "list_all unicode [a', k', d']"
  shows "a = a' \<and> k = k' \<and> d = d'"
proof -
  let ?v = "event_seed a k d" and ?w = "event_seed a' k' d'"
  have ij: "i_json ?v" "i_json ?w" and x: "utf8 (render (json_view ?v)) = utf8 (render (json_view ?w))"
    using assms(1,2) by (auto simp: canonicalize_iff)
  have "py_chars ?v" "py_chars ?w"
    using assms(3,4) by (simp_all add: event_seed_def unicode_def lit_def)
  with ij x have "json_view ?v = json_view ?w"
    by (simp add: utf8_inj text_ok_render flip: render_eq_iff)
  then show ?thesis
    by (simp add: event_seed_def utf16_key_def utf16_char_def lit_def)
qed

lemma event_id_of_bytes:
  "event_id_of a k d = Inr i \<Longrightarrow>
     \<exists>x. canonicalize (event_seed a k d) = Inr x \<and> i = lit ''urn:ocor:event:sha256:'' @ sha256_hex x"
  by (auto simp: event_id_of_def split: sum.splits)

lemma fresh_event_id:
  assumes inv: "store_inv s" and key: "dict_get (st_idempotency s) (ev_idempotency_key e) = None"
    and id: "event_id_of (ev_aggregate_id e) (ev_idempotency_key e) (ev_request_digest e) = Inr (ev_event_id e)"
    and uni: "list_all unicode [ev_aggregate_id e, ev_idempotency_key e, ev_request_digest e]"
    and free: "\<And>k e'. dict_get (st_events s) k = Some e' \<Longrightarrow> \<not> seed_collision e e'"
  shows "dict_get (st_events s) (ev_event_id e) = None"
proof (rule ccontr)
  assume "dict_get (st_events s) (ev_event_id e) \<noteq> None"
  then obtain e' where e': "dict_get (st_events s) (ev_event_id e) = Some e'" by blast
  have ok: "event_ok s (ev_event_id e) e'" using store_invD(4) [OF inv e'] .
  obtain x where x: "seed_bytes e = Inr x" "ev_event_id e = lit ''urn:ocor:event:sha256:'' @ sha256_hex x"
    using event_id_of_bytes [OF id] by (auto simp: seed_bytes_def)
  from ok have "event_id_of (ev_aggregate_id e') (ev_idempotency_key e') (ev_request_digest e') = Inr (ev_event_id e)"
    by (simp add: event_ok_def)
  from event_id_of_bytes [OF this] obtain y
    where y: "seed_bytes e' = Inr y" "ev_event_id e = lit ''urn:ocor:event:sha256:'' @ sha256_hex y"
    by (auto simp: seed_bytes_def)
  from x y have "sha256_hex x = sha256_hex y" by simp
  with free [OF e'] x y have "x = y" by (auto simp: seed_collision_def)
  with x y have "canonicalize (event_seed (ev_aggregate_id e) (ev_idempotency_key e) (ev_request_digest e)) = Inr x"
    "canonicalize (event_seed (ev_aggregate_id e') (ev_idempotency_key e') (ev_request_digest e')) = Inr x"
    by (simp_all add: seed_bytes_def)
  moreover from ok have "list_all unicode [ev_aggregate_id e', ev_idempotency_key e', ev_request_digest e']"
    by (simp add: event_ok_def)
  ultimately have "ev_idempotency_key e = ev_idempotency_key e'"
    using uni event_seed_inj by blast
  with ok key show False by (simp add: event_ok_def)
qed

section \<open>Steps of the store\<close>

text \<open>
  One step is one call of \<^verbatim>\<open>write\<close> or \<^verbatim>\<open>mark_emitted\<close>, whatever it returns.  The two side conditions of
  a write are that its texts are Python texts and that its event seed is no SHA-256 collision with a
  stored one.
\<close>

definition collision_free :: "pystr \<Rightarrow> datetime \<Rightarrow> WriteRequest \<Rightarrow> AtomicOutboxStore \<Rightarrow> bool" where
  "collision_free tx now q s \<longleftrightarrow>
     (\<forall>p d e k e'. prepare_write now q s = Inr p \<longrightarrow> stage_write tx q p s = Inr (d, e) \<longrightarrow>
        dict_get (st_events s) k = Some e' \<longrightarrow> \<not> seed_collision e e')"

inductive store_step :: "AtomicOutboxStore \<Rightarrow> AtomicOutboxStore \<Rightarrow> bool" where
  written: "store_write tx now q s = (r, t) \<Longrightarrow> unicode (wq_aggregate_id q) \<Longrightarrow> unicode (wq_idempotency_key q) \<Longrightarrow>
    collision_free tx now q s \<Longrightarrow> store_step s t"
| emitted: "mark_emitted eid i s = (r, t) \<Longrightarrow> store_step s t"

inductive_cases store_stepE: "store_step s t"

lemma unicode_digest: "canonical_sha256 v = Inr d \<Longrightarrow> unicode d"
  by (auto simp: canonical_sha256_iff unicode_def intro: list.pred_mono_strong [OF sha256_hex_ascii])

lemma staged_fresh:
  assumes inv: "store_inv s" and p: "prepare_write now q s = Inr p"
    and key: "dict_get (st_idempotency s) (wq_idempotency_key q) = None"
    and st: "stage_write tx q p s = Inr (d, e)"
    and uni: "unicode (wq_aggregate_id q)" "unicode (wq_idempotency_key q)" and free: "collision_free tx now q s"
  shows "dict_get (st_events s) (ev_event_id e) = None"
    "list_all unicode [ev_aggregate_id e, ev_idempotency_key e, ev_request_digest e]"
proof -
  show u: "list_all unicode [ev_aggregate_id e, ev_idempotency_key e, ev_request_digest e]"
    using uni unicode_digest prepare_writeD(6) [OF p] by (auto simp: stage_writeD [OF st] request_digest_def)
  show "dict_get (st_events s) (ev_event_id e) = None"
  proof (rule fresh_event_id [OF inv _ _ u])
    show "\<not> seed_collision e e'" if "dict_get (st_events s) k = Some e'" for k e'
      using free p st that unfolding collision_free_def by blast
  qed (use key in \<open>simp_all add: stage_writeD [OF st]\<close>)
qed

lemma write_store_inv:
  assumes inv: "store_inv s" and w: "store_write tx now q s = (r, t)"
    and uni: "unicode (wq_aggregate_id q)" "unicode (wq_idempotency_key q)" and free: "collision_free tx now q s"
  shows "store_inv t"
  using w
proof (cases rule: write_cases)
  case unchanged
  with inv show ?thesis by simp
next
  case (committed p d e)
  note fresh = staged_fresh [OF inv committed(1-3) uni free]
  have time: "dt_le (sd_updated_at d0) (sd_updated_at d)"
    if "dict_get (st_documents s) (sd_aggregate_id d) = Some d0" for d0
    using stage_write_time [OF committed(3)] that by (simp add: stage_writeD [OF committed(3)])
  show ?thesis
    unfolding committed(4)
    using fresh time committed(2) stage_writeD [OF committed(3)] prepare_writeD(3) [OF committed(1)]
    by (intro commit_store_inv [OF inv]) simp_all
qed

lemma mark_emitted_cases:
  assumes "mark_emitted eid i s = (r, t)"
  obtains (unchanged) "t = s" "\<And>e. r = Inr e \<Longrightarrow> dict_get (st_events s) eid = Some e \<and> ev_emitted_at e \<noteq> None"
  | (marked) e where "dict_get (st_events s) eid = Some e" "ev_emitted_at e = None" "dt_le (ev_occurred_at e) i"
      "r = Inr (e\<lparr>ev_emitted_at := Some i\<rparr>)"
      "t = s\<lparr>st_events := dict_set eid (e\<lparr>ev_emitted_at := Some i\<rparr>) (st_events s)\<rparr>"
proof (cases "dt_aware i \<and> (\<exists>e. dict_get (st_events s) eid = Some e \<and> dt_le (ev_occurred_at e) i \<and> ev_emitted_at e = None)")
  case True
  then obtain e where e: "dt_aware i" "dict_get (st_events s) eid = Some e" "ev_emitted_at e = None"
    "dt_le (ev_occurred_at e) i" by blast
  with assms have "r = Inr (e\<lparr>ev_emitted_at := Some i\<rparr>)"
    "t = s\<lparr>st_events := dict_set eid (e\<lparr>ev_emitted_at := Some i\<rparr>) (st_events s)\<rparr>"
    by (auto simp: mark_emitted_def Let_def)
  with e marked show ?thesis by blast
next
  case False
  then have "t = s \<and> (\<forall>e. r = Inr e \<longrightarrow> dict_get (st_events s) eid = Some e \<and> ev_emitted_at e \<noteq> None)"
    using assms by (auto simp: mark_emitted_def Let_def split: sum.splits option.splits if_splits)
  with unchanged show ?thesis by blast
qed

lemma mark_emitted_inv:
  assumes inv: "store_inv s" and "mark_emitted eid i s = (r, t)"
  shows "store_inv t"
  using assms(2)
proof (cases rule: mark_emitted_cases)
  case unchanged
  with inv show ?thesis by simp
next
  case (marked e)
  let ?e = "e\<lparr>ev_emitted_at := Some i\<rparr>"
  have get: "dict_get (st_events t) k = (if k = eid then Some ?e else dict_get (st_events s) k)" for k
    using marked by simp
  have same: "st_documents t = st_documents s" "st_idempotency t = st_idempotency s"
    "st_authoritative_writer t = st_authoritative_writer s" using marked by simp_all
  have old: "\<exists>e0. dict_get (st_events s) k = Some e0 \<and> ev_aggregate_id e0 = ev_aggregate_id e'
      \<and> ev_aggregate_version e0 = ev_aggregate_version e' \<and> ev_occurred_at e0 = ev_occurred_at e'"
    if "dict_get (st_events t) k = Some e'" for k e'
    using that marked(1) unfolding get by (auto split: if_splits)
  have "event_ok t k e'" if "dict_get (st_events t) k = Some e'" for k e'
    using that marked(1,3) store_invD(4) [OF inv] unfolding get
    by (fastforce simp: event_ok_def same split: if_splits)
  moreover have "doc_ok t a d" if "dict_get (st_documents s) a = Some d" for a d
  proof -
    have "\<exists>k e'. dict_get (st_events t) k = Some e' \<and> ev_aggregate_id e' = a \<and> ev_aggregate_version e' = v
        \<and> (v = sd_version d \<longrightarrow> ev_transaction_id e' = sd_transaction_id d)"
      if v: "1 \<le> v" "v \<le> sd_version d" for v
    proof -
      from store_invD(5) [OF inv \<open>dict_get (st_documents s) a = Some d\<close>] v obtain k e0
        where k: "dict_get (st_events s) k = Some e0" "ev_aggregate_id e0 = a" "ev_aggregate_version e0 = v"
          "v = sd_version d \<longrightarrow> ev_transaction_id e0 = sd_transaction_id d"
        unfolding doc_ok_def by blast
      then show ?thesis
        using marked(1) by (intro exI [of _ k] exI [of _ "if k = eid then ?e else e0"]) (auto simp: get)
    qed
    with store_invD(5) [OF inv that] show ?thesis by (simp add: doc_ok_def same)
  qed
  moreover have "\<exists>e'. dict_get (st_events t) k = Some e' \<and> ev_idempotency_key e' = key"
    if "dict_get (st_idempotency s) key = Some k" for key k
    using store_invD(6) [OF inv that] marked(1) by (auto simp: get)
  moreover have "events_ordered t"
    unfolding events_ordered_def
  proof (intro allI impI)
    fix k1 e1 k2 e2
    assume e: "dict_get (st_events t) k1 = Some e1" "dict_get (st_events t) k2 = Some e2"
      and agg: "ev_aggregate_id e1 = ev_aggregate_id e2"
    from old [OF e(1)] old [OF e(2)] obtain f1 f2
      where "dict_get (st_events s) k1 = Some f1" "dict_get (st_events s) k2 = Some f2"
        and f: "ev_aggregate_id f1 = ev_aggregate_id e1" "ev_aggregate_id f2 = ev_aggregate_id e2"
          "ev_aggregate_version f1 = ev_aggregate_version e1" "ev_aggregate_version f2 = ev_aggregate_version e2"
          "ev_occurred_at f1 = ev_occurred_at e1" "ev_occurred_at f2 = ev_occurred_at e2" by blast
    with agg events_orderedD [OF store_invD(7) [OF inv]]
    show "(ev_aggregate_version e1 = ev_aggregate_version e2 \<longrightarrow> k1 = k2) \<and>
      (ev_aggregate_version e1 < ev_aggregate_version e2 \<longrightarrow> dt_le (ev_occurred_at e1) (ev_occurred_at e2))"
      by fastforce
  qed
  moreover have "dict_ok (st_events t)" using marked(5) store_invD(2) [OF inv] by simp
  ultimately show ?thesis using store_invD(1,3) [OF inv] by (simp add: store_inv_def same)
qed

definition store_init :: "AtomicOutboxStore \<Rightarrow> bool" where
  "store_init s \<longleftrightarrow> (\<exists>w. new_store w = Inr s)"

interpretation store_sys: invariant_system store_init store_step store_inv
proof unfold_locales
  show "store_inv s" if "store_init s" for s
    using that by (auto simp: store_init_def dest: new_store_inv)
  show "store_inv t" if "store_inv s" "store_step s t" for s t
    using that(2,1) by cases (auto intro: write_store_inv mark_emitted_inv)
qed

section \<open>The store only grows\<close>

text \<open>
  Between two states of one run documents only gain versions, and a stored event stays as it is but
  for one thing: its emission time is set once.
\<close>

definition event_le :: "OutboxEvent \<Rightarrow> OutboxEvent \<Rightarrow> bool" where
  "event_le e e' \<longleftrightarrow> e' = e \<or> (ev_emitted_at e = None \<and> (\<exists>i. e' = e\<lparr>ev_emitted_at := Some i\<rparr>))"

definition store_le :: "AtomicOutboxStore \<Rightarrow> AtomicOutboxStore \<Rightarrow> bool" where
  "store_le s t \<longleftrightarrow>
     (\<forall>k e. dict_get (st_events s) k = Some e \<longrightarrow> (\<exists>e'. dict_get (st_events t) k = Some e' \<and> event_le e e'))
     \<and> (\<forall>a. current_version s a \<le> current_version t a)
     \<and> (\<forall>key k. dict_get (st_idempotency s) key = Some k \<longrightarrow> dict_get (st_idempotency t) key = Some k)"

lemma event_le_refl [simp]: "event_le e e"
  by (simp add: event_le_def)

lemma event_le_trans: "event_le e f \<Longrightarrow> event_le f g \<Longrightarrow> event_le e g"
  by (auto simp: event_le_def)

lemma store_le_refl [simp]: "store_le s s"
  by (auto simp: store_le_def)

lemma store_le_trans:
  assumes "store_le s t" "store_le t u"
  shows "store_le s u"
proof -
  have "\<exists>e'. dict_get (st_events u) k = Some e' \<and> event_le e e'" if "dict_get (st_events s) k = Some e" for k e
    using that assms unfolding store_le_def by (meson event_le_trans)
  moreover have "current_version s a \<le> current_version u a" for a
    using assms unfolding store_le_def by (meson order_trans)
  ultimately show ?thesis using assms unfolding store_le_def by blast
qed

lemma write_store_le:
  assumes inv: "store_inv s" and w: "store_write tx now q s = (r, t)"
    and uni: "unicode (wq_aggregate_id q)" "unicode (wq_idempotency_key q)" and free: "collision_free tx now q s"
  shows "store_le s t"
  using w
proof (cases rule: write_cases)
  case unchanged
  then show ?thesis by simp
next
  case (committed p d e)
  note st = stage_writeD [OF committed(3)] and fresh = staged_fresh(1) [OF inv committed(1-3) uni free]
  have "dict_get (st_events t) k = Some e'" if "dict_get (st_events s) k = Some e'" for k e'
    using that fresh committed(4) by auto
  moreover have "current_version s a \<le> current_version t a" for a
    using st(1,3) committed(4) by (simp add: current_version_def)
  moreover have "dict_get (st_idempotency t) key = Some k" if "dict_get (st_idempotency s) key = Some k" for key k
    using that committed(2,4) st(5) by auto
  ultimately show ?thesis unfolding store_le_def by (blast intro: event_le_refl)
qed

lemma mark_emitted_le: "mark_emitted eid i s = (r, t) \<Longrightarrow> store_le s t"
  by (erule mark_emitted_cases) (auto simp: store_le_def event_le_def current_version_def)

interpretation store_run: monotone_system "\<lambda>s t. store_inv s \<and> store_step s t" store_le
proof unfold_locales
  show "store_le s t" if "store_inv s \<and> store_step s t" for s t
    using that by (auto elim!: store_stepE intro: write_store_le mark_emitted_le)
qed (auto intro: store_le_trans)

section \<open>What the invariant gives\<close>

lemma inv_versions:
  assumes inv: "store_inv t"
  shows "1 \<le> v \<and> v \<le> current_version t a \<longleftrightarrow>
    (\<exists>k e. dict_get (st_events t) k = Some e \<and> ev_aggregate_id e = a \<and> ev_aggregate_version e = v)"
proof
  assume v: "1 \<le> v \<and> v \<le> current_version t a"
  then obtain d where d: "dict_get (st_documents t) a = Some d" "v \<le> sd_version d"
    by (auto simp: current_version_def split: option.splits)
  with store_invD(5) [OF inv d(1)] v
  show "\<exists>k e. dict_get (st_events t) k = Some e \<and> ev_aggregate_id e = a \<and> ev_aggregate_version e = v"
    unfolding doc_ok_def by blast
next
  assume "\<exists>k e. dict_get (st_events t) k = Some e \<and> ev_aggregate_id e = a \<and> ev_aggregate_version e = v"
  then show "1 \<le> v \<and> v \<le> current_version t a"
    using store_invD(4) [OF inv] event_version_le_current(1) [OF inv] by (auto simp: event_ok_def)
qed

lemma inv_verify_atomicity:
  assumes inv: "store_inv t"
  shows "verify_atomicity t"
proof -
  have "sd_transaction_id d \<in> set (map ev_transaction_id (dict_values (st_events t)))"
    if d: "d \<in> set (dict_values (st_documents t))" for d
  proof -
    from d obtain a where a: "dict_get (st_documents t) a = Some d"
      using dict_mem_values [OF store_invD(1) [OF inv]] by blast
    then have ok: "doc_ok t a d" by (rule store_invD(5) [OF inv])
    then have "1 \<le> sd_version d" by (simp add: doc_ok_def)
    with ok obtain k e where "dict_get (st_events t) k = Some e" "ev_transaction_id e = sd_transaction_id d"
      unfolding doc_ok_def by blast
    then show ?thesis by (metis dict_get_mem image_eqI set_map)
  qed
  moreover have "case dict_get (st_documents t) (ev_aggregate_id e) of None \<Rightarrow> False
      | Some d \<Rightarrow> ev_aggregate_version e \<le> sd_version d" if e: "e \<in> set (dict_values (st_events t))" for e
    using e dict_mem_values [OF store_invD(2) [OF inv]] store_invD(4) [OF inv] by (fastforce simp: event_ok_def)
  ultimately show ?thesis by (simp add: verify_atomicity_def list_all_iff)
qed

section \<open>The outbox\<close>

lemma set_outbox:
  "store_inv s \<Longrightarrow>
     e \<in> set (outbox inc s) \<longleftrightarrow> (\<exists>k. dict_get (st_events s) k = Some e \<and> (inc \<or> ev_emitted_at e = None))"
  using dict_mem_values [OF store_invD(2), of s e] by (auto simp: outbox_def)

lemma distinct_outbox:
  assumes inv: "store_inv s"
  shows "distinct (outbox inc s)"
proof -
  have id: "ev_event_id e = k" if "(k, e) \<in> set (st_events s)" for k e
    using that store_invD(4) [OF inv] store_invD(2) [OF inv] by (auto simp: event_ok_def)
  have "map ev_event_id (dict_values (st_events s)) = map fst (st_events s)"
    using id by auto
  then have "distinct (map ev_event_id (dict_values (st_events s)))"
    using store_invD(2) [OF inv] by (simp only:)
  then have "distinct (dict_values (st_events s))" by (simp only: distinct_map)
  then show ?thesis by (simp add: outbox_def)
qed

lemma outbox_causal:
  assumes inv: "store_inv s" and ij: "i < j" "j < length (outbox inc s)"
    and agg: "ev_aggregate_id (outbox inc s ! i) = ev_aggregate_id (outbox inc s ! j)"
  shows "ev_aggregate_version (outbox inc s ! i) < ev_aggregate_version (outbox inc s ! j)"
proof -
  let ?e = "outbox inc s ! i" and ?f = "outbox inc s ! j"
  from ij have "?e \<in> set (outbox inc s)" "?f \<in> set (outbox inc s)" by auto
  then obtain k l where k: "dict_get (st_events s) k = Some ?e" and l: "dict_get (st_events s) l = Some ?f"
    by (auto simp: set_outbox [OF inv])
  have ne: "?e \<noteq> ?f" using distinct_outbox [OF inv] ij by (simp add: nth_eq_iff_index_eq)
  note ord = events_orderedD [OF store_invD(7) [OF inv]]
  have "ev_aggregate_version ?e \<noteq> ev_aggregate_version ?f"
    using ord(1) [OF k l agg] k l ne by auto
  moreover have "\<not> ev_aggregate_version ?f < ev_aggregate_version ?e"
  proof
    assume lt: "ev_aggregate_version ?f < ev_aggregate_version ?e"
    then have "dt_le (ev_occurred_at ?f) (ev_occurred_at ?e)" using ord(2) [OF l k] agg by simp
    moreover have "outbox_order ?e \<le> outbox_order ?f"
      using ij sorted_sort_key [of outbox_order] unfolding outbox_def
      by (metis (no_types, lifting) length_map nth_map order_less_trans sorted_iff_nth_mono_less)
    ultimately show False using lt agg by (auto simp: outbox_order_def less_eq_prod_simp)
  qed
  ultimately show ?thesis by simp
qed

section \<open>Properties\<close>

text \<open>A store and a request to evaluate the properties on.\<close>

definition example_store :: AtomicOutboxStore where
  "example_store = \<lparr>st_authoritative_writer = lit ''w'', st_documents = [], st_events = [], st_idempotency = []\<rparr>"

definition example_request :: "pystr option \<Rightarrow> WriteRequest" where
  "example_request crash = \<lparr>wq_aggregate_id = lit ''a'', wq_document = PDict [], wq_expected_version = Some 0,
     wq_writer_id = lit ''w'', wq_event_type = lit ''t'', wq_event_payload = None, wq_idempotency_key = lit ''k'',
     wq_occurred_at = Some (utc_at 0), wq_crash_window = crash\<rparr>"

definition example_digest :: pystr where
  "example_digest = digest_of (obj [(''aggregateId'', PStr (lit ''a'')), (''document'', PDict []),
     (''eventType'', PStr (lit ''t'')), (''payload'', PDict [])])"

definition example_event :: OutboxEvent where
  "example_event = \<lparr>ev_event_id = lit ''urn:ocor:event:sha256:'' @ digest_of (event_seed (lit ''a'') (lit ''k'') example_digest),
     ev_aggregate_id = lit ''a'', ev_aggregate_version = 1, ev_event_type = lit ''t'', ev_payload = PDict [],
     ev_payload_digest = digest_of (PDict []), ev_request_digest = example_digest, ev_idempotency_key = lit ''k'',
     ev_transaction_id = lit ''x'', ev_occurred_at = utc_at 0, ev_committed = True, ev_emitted_at = None\<rparr>"

definition example_document :: StoredDocument where
  "example_document = \<lparr>sd_aggregate_id = lit ''a'', sd_document = PDict [], sd_version = 1, sd_writer_id = lit ''w'',
     sd_transaction_id = lit ''x'', sd_semantic_digest = digest_of (PDict []), sd_updated_at = utc_at 0\<rparr>"

definition example_written :: AtomicOutboxStore where
  "example_written = commit_write example_document example_event example_store"

lemma example_ids:
  "event_id_of (lit ''a'') (lit ''k'') example_digest = Inr (ev_event_id example_event)"
proof -
  have "i_json (event_seed (lit ''a'') (lit ''k'') example_digest)"
    using i_json_digest_of unfolding event_seed_def example_digest_def
    by (simp add: lit_def is_surrogate_def del: i_json.simps(5))
  then show ?thesis
    by (simp add: event_id_of_def canonicalize_i_json example_event_def digest_of_def)
qed

lemma example_prepare:
  assumes "crash = None \<or> crash = Some (lit ''after-commit-before-ack'')"
  shows "prepare_write now (example_request crash) example_store =
    Inr \<lparr>pw_instant = utc_at 0, pw_document = PDict [], pw_payload = PDict [], pw_request_digest = example_digest\<rparr>"
  using assms
  by (auto simp: prepare_write_def example_request_def example_store_def authorize_writer_def request_digest_def
      canonical_sha256_i_json example_digest_def raise_if_def crash_windows_def is_surrogate_def lit_def)

lemma example_write:
  assumes "crash = None \<or> crash = Some (lit ''after-commit-before-ack'')"
  shows "store_write (lit ''x'') now (example_request crash) example_store =
    (if crash = None then Inr \<lparr>wr_document = example_document, wr_event = example_event, wr_replayed = False\<rparr>
     else Inl (CrashInjected (crash_value AFTER_COMMIT_BEFORE_ACK) True), example_written)"
proof -
  have "stage_write (lit ''x'') (example_request crash)
      \<lparr>pw_instant = utc_at 0, pw_document = PDict [], pw_payload = PDict [], pw_request_digest = example_digest\<rparr>
      example_store = Inr (example_document, example_event)"
    using assms example_ids
    by (auto simp: stage_write_def Let_def example_request_def example_store_def current_version_def raise_if_def
        crash_windows_def canonical_sha256_i_json example_document_def example_event_def)
  then show ?thesis
    using assms unfolding store_write_def example_prepare [OF assms]
    by (auto simp: example_request_def example_store_def raise_if_def crash_windows_def example_written_def)
qed

lemma example_step: "store_step example_store example_written"
proof (rule store_step.written)
  show "store_write (lit ''x'') (utc_at 0) (example_request None) example_store =
      (Inr \<lparr>wr_document = example_document, wr_event = example_event, wr_replayed = False\<rparr>, example_written)"
    using example_write [of None] by simp
qed (simp_all add: collision_free_def example_store_def example_request_def unicode_def lit_def)

lemma example_init: "store_init example_store"
  by (auto simp: store_init_def new_store_def example_store_def intro!: exI [of _ "lit ''w''"])

text \<open>
  C2 [write_all_or_nothing]: a call of \<^verbatim>\<open>write\<close> either leaves all three dictionaries as they were (and
  then returns a replay or an error other than a crash after commit), or publishes one document, one
  event and one idempotency entry together, of the same transaction and with the next version of the
  aggregate, and changes nothing else; every crash window falls on one of the two sides.
\<close>

theorem write_all_or_nothing:
  assumes w: "store_write tx now q s = (r, t)"
  shows "(t = s \<and> (\<forall>x. r = Inr x \<longrightarrow> wr_replayed x) \<and> (\<forall>win. r \<noteq> Inl (CrashInjected win True)))
    \<or> (\<exists>d e. (r = Inr \<lparr>wr_document = d, wr_event = e, wr_replayed = False\<rparr>
              \<or> r = Inl (CrashInjected (crash_value AFTER_COMMIT_BEFORE_ACK) True))
         \<and> dict_get (st_documents t) = (dict_get (st_documents s))(wq_aggregate_id q \<mapsto> d)
         \<and> dict_get (st_events t) = (dict_get (st_events s))(ev_event_id e \<mapsto> e)
         \<and> dict_get (st_idempotency t) = (dict_get (st_idempotency s))(wq_idempotency_key q \<mapsto> ev_event_id e)
         \<and> sd_transaction_id d = tx \<and> ev_transaction_id e = tx
         \<and> sd_version d = current_version s (wq_aggregate_id q) + 1 \<and> ev_aggregate_version e = sd_version d
         \<and> canonical_sha256 (ev_payload e) = Inr (ev_payload_digest e))"
  using w
proof (cases rule: write_cases)
  case unchanged
  then show ?thesis by blast
next
  case (committed p d e)
  note st = stage_writeD [OF committed(3)]
  have "dict_get (st_documents t) = (dict_get (st_documents s))(wq_aggregate_id q \<mapsto> d)"
    "dict_get (st_events t) = (dict_get (st_events s))(ev_event_id e \<mapsto> e)"
    "dict_get (st_idempotency t) = (dict_get (st_idempotency s))(wq_idempotency_key q \<mapsto> ev_event_id e)"
    using committed(4) st(1,5) by (simp_all add: fun_eq_iff)
  with committed(5) st(3,4,6,7,11) show ?thesis by blast
qed

theorem write_all_or_nothing_witness:
  "\<exists>d e. dict_get (st_documents example_written) = (dict_get (st_documents example_store))(lit ''a'' \<mapsto> d)
     \<and> dict_get (st_events example_written) = (dict_get (st_events example_store))(ev_event_id e \<mapsto> e)"
  using write_all_or_nothing [OF example_write [of "Some (lit ''after-commit-before-ack'')" "utc_at 0"]]
  by (auto simp: example_request_def)

text \<open>
  C3 [store_reachable_atomic]: after any sequence of writes (failing, crashing or not) and emission
  marks, \<^verbatim>\<open>verify_atomicity\<close> holds and every event passes \<^verbatim>\<open>verify_integrity\<close>; the events of an aggregate
  carry the versions 1 to its current version, each exactly once.
\<close>

theorem store_reachable_atomic:
  assumes "new_store w = Inr s" and "store_step\<^sup>*\<^sup>* s t"
  shows "verify_atomicity t \<and> (\<forall>k e. get_event t k = Some e \<longrightarrow> verify_integrity e = Inr True)
    \<and> (\<forall>a v. 1 \<le> v \<and> v \<le> current_version t a \<longleftrightarrow>
         (\<exists>k e. get_event t k = Some e \<and> ev_aggregate_id e = a \<and> ev_aggregate_version e = v))
    \<and> (\<forall>k e k' e'. get_event t k = Some e \<longrightarrow> get_event t k' = Some e' \<longrightarrow>
         ev_aggregate_id e = ev_aggregate_id e' \<longrightarrow> ev_aggregate_version e = ev_aggregate_version e' \<longrightarrow> k = k')"
proof -
  have inv: "store_inv t"
    using assms store_sys.reachable_invar by (auto simp: store_init_def)
  show ?thesis
    using inv_verify_atomicity [OF inv] inv_versions [OF inv] store_invD(4) [OF inv]
      events_orderedD(1) [OF store_invD(7) [OF inv]]
    by (auto simp: get_event_def verify_integrity_def event_ok_def)
qed

theorem store_reachable_atomic_witness:
  "verify_atomicity example_written \<and> verify_integrity example_event = Inr True"
proof -
  have "new_store (lit ''w'') = Inr example_store" by (simp add: new_store_def example_store_def)
  moreover have "store_step\<^sup>*\<^sup>* example_store example_written" using example_step by blast
  moreover have "get_event example_written (ev_event_id example_event) = Some example_event"
    by (simp add: get_event_def example_written_def)
  ultimately show ?thesis using store_reachable_atomic [of "lit ''w''" example_store example_written] by blast
qed

text \<open>
  When a write was committed, with or without a crash before its
  acknowledgement, sending the request again (at any later time) returns the event that was committed,
  marked as replayed, and changes nothing.
\<close>

theorem write_retry_replays:
  assumes w: "store_write tx now q s = (r, t)" and "t \<noteq> s" and "dt_aware i"
  shows "\<exists>d e. dict_get (st_events t) (ev_event_id e) = Some e \<and> ev_idempotency_key e = wq_idempotency_key q
    \<and> ev_transaction_id e = tx
    \<and> store_write tx' now' (q\<lparr>wq_crash_window := None, wq_occurred_at := Some i\<rparr>) t =
       (Inr \<lparr>wr_document = d, wr_event = e, wr_replayed = True\<rparr>, t)"
  using w
proof (cases rule: write_cases)
  case unchanged
  with assms show ?thesis by blast
next
  case (committed p d e)
  note st = stage_writeD [OF committed(3)]
  let ?q = "q\<lparr>wq_crash_window := None, wq_occurred_at := Some i\<rparr>"
  have "prepare_write now' ?q t = Inr (p\<lparr>pw_instant := i\<rparr>)"
    using committed(1,4) assms(3)
    by (auto simp: prepare_write_def authorize_writer_def request_digest_def raise_if_def
        split: if_splits sum.splits cong: option.case_cong)
  then have "store_write tx' now' ?q t = (Inr \<lparr>wr_document = d, wr_event = e, wr_replayed = True\<rparr>, t)"
    using committed(4) st(1,2,5,13) by (simp add: store_write_def replay_write_def)
  moreover have "dict_get (st_events t) (ev_event_id e) = Some e" using committed(4) by simp
  ultimately show ?thesis using st(5,7) by blast
qed

theorem write_retry_replays_witness:
  "\<exists>d e. store_write (lit ''y'') (utc_at 9) ((example_request (Some (lit ''after-commit-before-ack'')))
        \<lparr>wq_crash_window := None, wq_occurred_at := Some (utc_at 5)\<rparr>) example_written =
     (Inr \<lparr>wr_document = d, wr_event = e, wr_replayed = True\<rparr>, example_written)"
proof -
  have "example_written \<noteq> example_store" by (simp add: example_written_def commit_write_def example_store_def)
  then show ?thesis
    using write_retry_replays [OF example_write [of "Some (lit ''after-commit-before-ack'')" "utc_at 0"], of "utc_at 5"]
    by fastforce
qed

text \<open>
  C29 [store_append_only]: along any run from a new store an event is never removed or rewritten (only
  its emission time is set, once), no idempotency key is rebound, and versions never go back.
\<close>

theorem store_append_only:
  assumes "new_store w = Inr s" and "store_step\<^sup>*\<^sup>* s t" and "store_step\<^sup>*\<^sup>* t u"
  shows "store_le t u"
proof -
  have "store_inv t" using assms store_sys.reachable_invar by (auto simp: store_init_def)
  then show ?thesis using assms(3) by (blast intro: store_run.run_le store_sys.run_restrict)
qed

theorem store_append_only_witness: "store_le example_store example_written"
  by (rule store_append_only [of "lit ''w''" example_store])
    (use example_step in \<open>auto simp: new_store_def example_store_def\<close>)

text \<open>
  The outbox lists exactly the stored events (the pending ones by
  default), none twice, and the events of one aggregate in the order of their versions, so a consumer
  that drains it front to back sees every aggregate's history in order.
\<close>

theorem outbox_in_version_order:
  assumes "new_store w = Inr s" and "store_step\<^sup>*\<^sup>* s t"
  shows "distinct (outbox inc t)
    \<and> set (outbox inc t) = {e. \<exists>k. get_event t k = Some e \<and> (inc \<or> ev_emitted_at e = None)}
    \<and> (\<forall>i j. i < j \<longrightarrow> j < length (outbox inc t) \<longrightarrow>
         ev_aggregate_id (outbox inc t ! i) = ev_aggregate_id (outbox inc t ! j) \<longrightarrow>
         ev_aggregate_version (outbox inc t ! i) < ev_aggregate_version (outbox inc t ! j))"
proof -
  have inv: "store_inv t" using assms store_sys.reachable_invar by (auto simp: store_init_def)
  show ?thesis
    using distinct_outbox [OF inv] set_outbox [OF inv] outbox_causal [OF inv]
    by (auto simp: get_event_def)
qed

theorem outbox_in_version_order_witness:
  "example_event \<in> set (outbox False example_written)"
proof -
  have "new_store (lit ''w'') = Inr example_store" by (simp add: new_store_def example_store_def)
  moreover have "store_step\<^sup>*\<^sup>* example_store example_written" using example_step by blast
  moreover have "get_event example_written (ev_event_id example_event) = Some example_event"
    by (simp add: get_event_def example_written_def)
  moreover have "ev_emitted_at example_event = None" by (simp add: example_event_def)
  ultimately show ?thesis using outbox_in_version_order [of "lit ''w''" example_store example_written False] by blast
qed

end
