(* ===== verification/C4_Marking.thy ===== *)
theory C4_Marking
  imports Errors PyValue "HOL-Library.While_Combinator"
begin

text \<open>
  Marking lattices and information-flow joins, \<^verbatim>\<open>c4_marking.py\<close>.  The constructor of a scheme closes the
  declared relation in a loop, rejects orders that are not lattices, and stores the closure; the
  engine joins and compares marking sets over several schemes.  The loop is a \<^const>\<open>while_option\<close>, and
  it is shown to end.  Arguments have the annotated types: labels are text, a relation is a sequence of
  labels.
\<close>

section \<open>Schemes\<close>

type_synonym closure = "(pystr, pystr set) dict"

record MarkingSchemeDefinition =
  scheme_id :: pystr
  ms_labels :: "pystr list"
  ms_relations :: "(pystr \<times> pystr) set"
  ms_bottom :: pystr
  ms_top :: pystr
  ms_closure :: closure

text \<open>\<^verbatim>\<open>closure[label]\<close>; every label the code looks up is a key.\<close>

definition clo :: "closure \<Rightarrow> pystr \<Rightarrow> pystr set" where
  "clo c l = (case dict_get c l of None \<Rightarrow> {} | Some s \<Rightarrow> s)"

definition relation_step ::
  "pystr list \<Rightarrow> (pystr \<times> pystr) set res \<Rightarrow> pystr list \<Rightarrow> (pystr \<times> pystr) set res" where
  "relation_step members acc relation =
     (case acc of Inl e \<Rightarrow> Inl e | Inr direct \<Rightarrow>
        (case relation of
           [lower, upper] \<Rightarrow>
             if lower \<notin> set members \<or> upper \<notin> set members
             then Inl (MarkingError ''relation references an unknown label'')
             else Inr (insert (lower, upper) direct)
         | _ \<Rightarrow> Inl (MarkingError ''relations must be (lower, upper) tuples'')))"

definition direct_relations ::
  "pystr list \<Rightarrow> pystr list option \<Rightarrow> pystr list list \<Rightarrow> ((pystr \<times> pystr) set) res" where
  "direct_relations members levels relations =
     (let base = set (map (\<lambda>l. (l, l)) members);
          base' = (case levels of None \<Rightarrow> base | Some ordered \<Rightarrow> base \<union> set (zip ordered (drop 1 ordered)))
      in foldl (relation_step members) (Inr base') relations)"

definition initial_closure :: "pystr list \<Rightarrow> (pystr \<times> pystr) set \<Rightarrow> closure" where
  "initial_closure members direct =
     map (\<lambda>l. (l, insert l (snd ` Set.filter (\<lambda>r. fst r = l) direct))) members"

text \<open>One round of the closure loop: the labels in order, each update visible to the next.\<close>

definition close_label :: "pystr \<Rightarrow> bool \<times> closure \<Rightarrow> bool \<times> closure" where
  "close_label lower st =
     (case st of (changed, c) \<Rightarrow>
        let expanded = clo c lower \<union> \<Union> (clo c ` clo c lower) in
        if expanded \<noteq> clo c lower then (True, dict_set lower expanded c) else (changed, c))"

definition close_round :: "pystr list \<Rightarrow> closure \<Rightarrow> bool \<times> closure" where
  "close_round members c = fold close_label members (False, c)"

definition close_loop :: "pystr list \<Rightarrow> closure \<Rightarrow> (bool \<times> closure) option" where
  "close_loop members c = while_option fst (\<lambda>st. close_round members (snd st)) (True, c)"

definition minimal :: "closure \<Rightarrow> pystr set \<Rightarrow> pystr set" where
  "minimal c candidates =
     Set.filter (\<lambda>x. \<not> (\<exists>y \<in> candidates. y \<noteq> x \<and> x \<in> clo c y)) candidates"

definition maximal :: "closure \<Rightarrow> pystr set \<Rightarrow> pystr set" where
  "maximal c candidates =
     Set.filter (\<lambda>x. \<not> (\<exists>y \<in> candidates. y \<noteq> x \<and> y \<in> clo c x)) candidates"

definition lattice_pair :: "pystr list \<Rightarrow> closure \<Rightarrow> pystr \<Rightarrow> pystr \<Rightarrow> bool" where
  "lattice_pair members c l r =
     (card (minimal c (clo c l \<inter> clo c r)) = 1
      \<and> card (maximal c (set (filter (\<lambda>x. l \<in> clo c x \<and> r \<in> clo c x) members))) = 1)"

definition validate_order ::
  "pystr \<Rightarrow> pystr list \<Rightarrow> (pystr \<times> pystr) set \<Rightarrow> closure \<Rightarrow> MarkingSchemeDefinition res" where
  "validate_order sid members direct c =
     (if list_ex (\<lambda>l. list_ex (\<lambda>r. l \<noteq> r \<and> r \<in> clo c l \<and> l \<in> clo c r) members) members
      then Inl (MarkingError ''marking order must be antisymmetric'')
      else
        let bottoms = filter (\<lambda>l. list_all (\<lambda>x. x \<in> clo c l) members) members;
            tops = filter (\<lambda>l. list_all (\<lambda>x. l \<in> clo c x) members) members
        in if length bottoms \<noteq> 1 \<or> length tops \<noteq> 1
           then Inl (MarkingError ''marking definition must have unique bottom and top labels'')
           else if list_ex (\<lambda>l. list_ex (\<lambda>r. \<not> lattice_pair members c l r) members) members
           then Inl (MarkingError ''labels do not form a lattice pair'')
           else Inr \<lparr>scheme_id = sid, ms_labels = members, ms_relations = direct, ms_bottom = hd bottoms,
                     ms_top = hd tops, ms_closure = c\<rparr>)"

definition marking_scheme ::
  "pystr \<Rightarrow> pystr list option \<Rightarrow> pystr list option \<Rightarrow> pystr list list option \<Rightarrow> MarkingSchemeDefinition res" where
  "marking_scheme sid levels labels relations =
     (if strip sid = [] then Inl (MarkingError ''scheme_id must be a non-empty string'')
      else if levels \<noteq> None \<and> labels \<noteq> None then Inl (MarkingError ''provide levels or labels, not both'')
      else
        let ordered = (case levels of None \<Rightarrow> [] | Some l \<Rightarrow> l);
            members = (case labels of None \<Rightarrow> ordered | Some l \<Rightarrow> l)
        in if members = [] then Inl (MarkingError ''a marking scheme requires at least one label'')
           else if list_ex (\<lambda>l. l = []) members
           then Inl (MarkingError ''marking labels must be non-empty strings'')
           else if \<not> distinct members then Inl (MarkingError ''marking labels must be unique'')
           else case direct_relations members levels (case relations of None \<Rightarrow> [] | Some r \<Rightarrow> r) of
             Inl e \<Rightarrow> Inl e
           | Inr direct \<Rightarrow>
              (case close_loop members (initial_closure members direct) of
                 None \<Rightarrow> Inl NoReturn
               | Some (_, c) \<Rightarrow> validate_order sid members direct c))"

definition require_label :: "MarkingSchemeDefinition \<Rightarrow> pystr \<Rightarrow> unit res" where
  "require_label d l =
     (if dict_get (ms_closure d) l = None then Inl (MarkingError ''unknown label'') else Inr ())"

definition leq :: "MarkingSchemeDefinition \<Rightarrow> pystr \<Rightarrow> pystr \<Rightarrow> bool res" where
  "leq d lower upper =
     (case require_label d lower of Inl e \<Rightarrow> Inl e
      | Inr _ \<Rightarrow> (case require_label d upper of Inl e \<Rightarrow> Inl e
                 | Inr _ \<Rightarrow> Inr (upper \<in> clo (ms_closure d) lower)))"

definition dominates :: "MarkingSchemeDefinition \<Rightarrow> pystr \<Rightarrow> pystr \<Rightarrow> bool res" where
  "dominates d higher lower = leq d lower higher"

text \<open>The labels the comprehensions of \<^verbatim>\<open>join\<close> and \<^verbatim>\<open>meet\<close> compare are all labels of the scheme.\<close>

definition below :: "MarkingSchemeDefinition \<Rightarrow> pystr \<Rightarrow> pystr \<Rightarrow> bool" where
  "below d a b \<longleftrightarrow> b \<in> clo (ms_closure d) a"

definition scheme_join :: "MarkingSchemeDefinition \<Rightarrow> pystr list \<Rightarrow> pystr res" where
  "scheme_join d labels =
     (if labels = [] then Inr (ms_bottom d)
      else case sequence_res (map (require_label d) labels) of Inl e \<Rightarrow> Inl e
      | Inr _ \<Rightarrow>
         let ubs = fold (\<lambda>l acc. acc \<inter> clo (ms_closure d) l) labels (set (ms_labels d));
             mins = Set.filter (\<lambda>x. \<not> (\<exists>y \<in> ubs. y \<noteq> x \<and> below d y x)) ubs
         in if card mins \<noteq> 1 then Inl (MarkingError ''join is not unique'')
            else let result = the_elem mins
                 in if list_all (\<lambda>l. below d l result) labels then Inr result
                    else Inl (MarkingError ''internal error: join would downgrade an input marking''))"

definition scheme_meet :: "MarkingSchemeDefinition \<Rightarrow> pystr list \<Rightarrow> pystr res" where
  "scheme_meet d labels =
     (if labels = [] then Inr (ms_top d)
      else case sequence_res (map (require_label d) labels) of Inl e \<Rightarrow> Inl e
      | Inr _ \<Rightarrow>
         let lbs = set (filter (\<lambda>x. list_all (below d x) labels) (ms_labels d));
             maxs = Set.filter (\<lambda>x. \<not> (\<exists>y \<in> lbs. y \<noteq> x \<and> below d x y)) lbs
         in if card maxs \<noteq> 1 then Inl (MarkingError ''meet is not unique'')
            else Inr (the_elem maxs))"

section \<open>The engine\<close>

type_synonym MarkingSet = "(pystr, pystr) dict"

record DisclosureDecision =
  dd_allowed :: bool
  dd_reason :: string
  dd_payload :: pyval

type_synonym MarkingEngine = "(pystr, MarkingSchemeDefinition) dict"

definition marking_engine :: "MarkingSchemeDefinition list \<Rightarrow> MarkingEngine res" where
  "marking_engine definitions =
     (let mapping = dict_of (map (\<lambda>d. (scheme_id d, d)) definitions) in
      if mapping = [] then Inl (MarkingError ''at least one marking scheme is required'')
      else if length mapping \<noteq> length definitions
      then Inl (MarkingError ''marking scheme identifiers must be unique'')
      else Inr mapping)"

definition marking_validate :: "MarkingEngine \<Rightarrow> MarkingSet \<Rightarrow> unit res" where
  "marking_validate eng m =
     (if list_ex (\<lambda>sid. dict_get eng sid = None) (dict_keys m)
      then Inl (MarkingError ''unknown marking schemes'')
      else case sequence_res (map (\<lambda>(sid, l). require_label (the (dict_get eng sid)) l) m) of
        Inl e \<Rightarrow> Inl e | Inr _ \<Rightarrow> Inr ())"

definition marking_join :: "MarkingEngine \<Rightarrow> MarkingSet list \<Rightarrow> MarkingSet res" where
  "marking_join eng ms =
     (case sequence_res (map (marking_validate eng) ms) of Inl e \<Rightarrow> Inl e
      | Inr _ \<Rightarrow>
         sequence_res (map (\<lambda>(sid, d).
           case scheme_join d (map (\<lambda>m. case dict_get m sid of None \<Rightarrow> ms_bottom d | Some l \<Rightarrow> l) ms) of
             Inl e \<Rightarrow> Inl e | Inr l \<Rightarrow> Inr (sid, l)) eng))"

text \<open>The loop of \<^verbatim>\<open>is_authorized\<close> returns at the first marking the clearance does not dominate.\<close>

fun authorized_from :: "MarkingEngine \<Rightarrow> MarkingSet \<Rightarrow> MarkingSet \<Rightarrow> bool res" where
  "authorized_from eng clearance [] = Inr True"
| "authorized_from eng clearance ((sid, required) # ms) =
     (case dict_get clearance sid of None \<Rightarrow> Inr False
      | Some granted \<Rightarrow>
         (case dominates (the (dict_get eng sid)) granted required of Inl e \<Rightarrow> Inl e
          | Inr b \<Rightarrow> if b then authorized_from eng clearance ms else Inr False))"

definition is_authorized :: "MarkingEngine \<Rightarrow> MarkingSet \<Rightarrow> MarkingSet \<Rightarrow> bool res" where
  "is_authorized eng m clearance =
     (case marking_validate eng m of Inl e \<Rightarrow> Inl e
      | Inr _ \<Rightarrow> (case marking_validate eng clearance of Inl e \<Rightarrow> Inl e
                 | Inr _ \<Rightarrow> authorized_from eng clearance m))"

definition require_authorized :: "MarkingEngine \<Rightarrow> MarkingSet \<Rightarrow> MarkingSet \<Rightarrow> unit res" where
  "require_authorized eng m clearance =
     (case is_authorized eng m clearance of Inl e \<Rightarrow> Inl e
      | Inr b \<Rightarrow> if b then Inr ()
                else Inl (AuthorizationError ''clearance does not dominate the content marking''))"

definition disclose :: "MarkingEngine \<Rightarrow> pyval \<Rightarrow> MarkingSet \<Rightarrow> MarkingSet \<Rightarrow> DisclosureDecision res" where
  "disclose eng payload m clearance =
     (case is_authorized eng m clearance of Inl e \<Rightarrow> Inl e
      | Inr b \<Rightarrow>
         if b then Inr \<lparr>dd_allowed = True, dd_reason = ''clearance dominates all markings'', dd_payload = payload\<rparr>
         else Inr \<lparr>dd_allowed = False, dd_reason = ''insufficient marking clearance'', dd_payload = PNone\<rparr>)"

section \<open>The closure loop\<close>

text \<open>
  A closure state is good when its keys are the labels, every label reaches itself and only labels,
  and everything reached is reachable through the declared relation.
\<close>

definition closure_ok :: "pystr list \<Rightarrow> (pystr \<times> pystr) set \<Rightarrow> closure \<Rightarrow> bool" where
  "closure_ok members direct c \<longleftrightarrow>
     map fst c = members
     \<and> (\<forall>l \<in> set members. l \<in> clo c l \<and> (\<forall>u. (l, u) \<in> direct \<longrightarrow> u \<in> clo c l)
          \<and> clo c l \<subseteq> set members \<and> (\<forall>u \<in> clo c l. (l, u) \<in> direct\<^sup>*))"

definition missing :: "pystr list \<Rightarrow> closure \<Rightarrow> nat" where
  "missing members c = (\<Sum>l\<leftarrow>members. card (set members - clo c l))"

lemma clo_set: "clo (dict_set l s c) x = (if x = l then s else clo c x)"
  by (simp add: clo_def)

lemma keys_dict_set: "l \<in> set (map fst c) \<Longrightarrow> map fst (dict_set l s c) = map fst c"
  by (induction c) auto

lemma close_label_ok:
  assumes ok: "closure_ok members direct c" and l: "l \<in> set members"
  shows "closure_ok members direct (snd (close_label l (b, c)))"
proof -
  let ?e = "clo c l \<union> \<Union> (clo c ` clo c l)"
  have sub: "clo c i \<subseteq> set members" if "i \<in> clo c l" for i
    using that ok l unfolding closure_ok_def by blast
  have "(l, u) \<in> direct\<^sup>*" if u: "u \<in> ?e" for u
  proof (cases "u \<in> clo c l")
    case True
    with ok l show ?thesis unfolding closure_ok_def by blast
  next
    case False
    with u obtain i where i: "i \<in> clo c l" "u \<in> clo c i" by blast
    have "i \<in> set members" using i(1) ok l unfolding closure_ok_def by blast
    with ok i l have "(l, i) \<in> direct\<^sup>*" "(i, u) \<in> direct\<^sup>*" unfolding closure_ok_def by blast+
    then show ?thesis by (rule rtrancl_trans)
  qed
  moreover have "?e \<subseteq> set members" using sub ok l unfolding closure_ok_def by blast
  moreover have "map fst (dict_set l ?e c) = members"
    using ok l keys_dict_set [of l c] by (simp add: closure_ok_def)
  ultimately have "closure_ok members direct (dict_set l ?e c)"
    using ok unfolding closure_ok_def clo_set by auto
  with ok show ?thesis by (simp add: close_label_def Let_def)
qed

lemma sum_list_less:
  assumes "x \<in> set xs" "\<And>y. y \<in> set xs \<Longrightarrow> f y \<le> (g y :: nat)" "f x < g x"
  shows "(\<Sum>y\<leftarrow>xs. f y) < (\<Sum>y\<leftarrow>xs. g y)"
  using assms
proof (induction xs)
  case (Cons a xs)
  have le: "(\<Sum>y\<leftarrow>xs. f y) \<le> (\<Sum>y\<leftarrow>xs. g y)"
    using Cons.prems(2) by (intro sum_list_mono) simp
  show ?case
  proof (cases "x = a")
    case True
    with le Cons.prems(3) show ?thesis by simp
  next
    case False
    with Cons have "(\<Sum>y\<leftarrow>xs. f y) < (\<Sum>y\<leftarrow>xs. g y)" by auto
    with Cons.prems(2) [of a] show ?thesis by simp
  qed
qed simp

lemma close_label_missing:
  assumes ok: "closure_ok members direct c" and l: "l \<in> set members"
  shows "close_label l (b, c) = (b, c) \<and> (\<forall>i \<in> clo c l. clo c i \<subseteq> clo c l)
    \<or> fst (close_label l (b, c)) \<and> missing members (snd (close_label l (b, c))) < missing members c"
proof (cases "clo c l \<union> \<Union> (clo c ` clo c l) = clo c l")
  case True
  then show ?thesis by (auto simp: close_label_def Let_def)
next
  case False
  let ?e = "clo c l \<union> \<Union> (clo c ` clo c l)"
  have "?e \<subseteq> set members" using ok l unfolding closure_ok_def by blast
  with False have "set members - ?e \<subset> set members - clo c l" by blast
  then have "card (set members - ?e) < card (set members - clo c l)" by (intro psubset_card_mono) simp_all
  then have "missing members (dict_set l ?e c) < missing members c"
    unfolding missing_def using l by (intro sum_list_less [OF l]) (auto simp: clo_set)
  with False show ?thesis by (simp add: close_label_def Let_def)
qed

text \<open>A round either changes nothing and finds the closure transitive, or leaves fewer pairs missing.\<close>

lemma close_fold:
  assumes "closure_ok members direct c" "set ls \<subseteq> set members"
  shows "closure_ok members direct (snd (fold close_label ls (b, c)))
    \<and> (fold close_label ls (b, c) = (b, c) \<and> (\<forall>l \<in> set ls. \<forall>i \<in> clo c l. clo c i \<subseteq> clo c l)
       \<or> fst (fold close_label ls (b, c)) \<and> missing members (snd (fold close_label ls (b, c))) < missing members c)"
  using assms
proof (induction ls arbitrary: b c)
  case (Cons l ls)
  obtain b' c' where step: "close_label l (b, c) = (b', c')" by force
  have ok': "closure_ok members direct c'" using close_label_ok [OF Cons.prems(1), of l b] Cons.prems(2) step by simp
  have IH: "closure_ok members direct (snd (fold close_label ls (b', c')))"
    "fold close_label ls (b', c') = (b', c') \<and> (\<forall>l \<in> set ls. \<forall>i \<in> clo c' l. clo c' i \<subseteq> clo c' l)
       \<or> fst (fold close_label ls (b', c')) \<and> missing members (snd (fold close_label ls (b', c'))) < missing members c'"
    using Cons.IH [OF ok'] Cons.prems(2) by simp_all
  from close_label_missing [OF Cons.prems(1), of l b] Cons.prems(2) step
  consider "b' = b" "c' = c" "\<forall>i \<in> clo c l. clo c i \<subseteq> clo c l" | b' "missing members c' < missing members c" by auto
  then show ?case
  proof cases
    case 1
    with IH step show ?thesis by auto
  next
    case 2
    with IH step show ?thesis by (auto intro: order.strict_trans)
  qed
qed simp

lemma close_round_step:
  assumes "closure_ok members direct c"
  shows "closure_ok members direct (snd (close_round members c))"
    "\<not> fst (close_round members c) \<Longrightarrow> close_round members c = (False, c)"
    "\<not> fst (close_round members c) \<Longrightarrow> l \<in> set members \<Longrightarrow> i \<in> clo c l \<Longrightarrow> clo c i \<subseteq> clo c l"
    "fst (close_round members c) \<Longrightarrow> missing members (snd (close_round members c)) < missing members c"
  using close_fold [OF assms, of members False] by (auto simp: close_round_def)

lemma close_loop_correct:
  assumes ok: "closure_ok members direct c"
  shows "\<exists>c'. close_loop members c = Some (False, c') \<and> closure_ok members direct c'
    \<and> (\<forall>l \<in> set members. \<forall>i \<in> clo c' l. clo c' i \<subseteq> clo c' l)"
proof -
  let ?P = "\<lambda>st. closure_ok members direct (snd st)
      \<and> (\<not> fst st \<longrightarrow> (\<forall>l \<in> set members. \<forall>i \<in> clo (snd st) l. clo (snd st) i \<subseteq> clo (snd st) l))"
  let ?f = "\<lambda>st. (if fst st then 1 else 0) + 2 * missing members (snd st)"
  have step: "?P (close_round members (snd st)) \<and> ?f (close_round members (snd st)) < ?f st"
    if "?P st" "fst st" for st
  proof -
    from that(1) have ok: "closure_ok members direct (snd st)" by simp
    note r = close_round_step [OF ok]
    show ?thesis
    proof (cases "fst (close_round members (snd st))")
      case True
      with r(1,4) that(2) show ?thesis by auto
    next
      case False
      with r(2) have "close_round members (snd st) = (False, snd st)" by simp
      with r(1,3) False that(2) show ?thesis by auto
    qed
  qed
  have P0: "?P (True, c)" using ok by simp
  from measure_while_option_Some [of ?P fst "\<lambda>st. close_round members (snd st)" ?f "(True, c)"] step P0
  obtain st where st: "close_loop members c = Some st" unfolding close_loop_def by blast
  have "?P st"
  proof (rule while_option_rule [of ?P fst "\<lambda>st. close_round members (snd st)" "(True, c)" st])
    show "?P (close_round members (snd x))" if "?P x" "fst x" for x using step [OF that] ..
    show "while_option fst (\<lambda>st. close_round members (snd st)) (True, c) = Some st"
      using st by (simp only: close_loop_def)
  qed (rule P0)
  moreover have "\<not> fst st" by (rule while_option_stop [OF st [unfolded close_loop_def]])
  ultimately show ?thesis using st by (cases st) auto
qed

text \<open>A transitive good closure is the reflexive-transitive closure of the declared relation.\<close>

lemma closed_is_rtrancl:
  assumes ok: "closure_ok members direct c" and closed: "\<forall>l \<in> set members. \<forall>i \<in> clo c l. clo c i \<subseteq> clo c l"
    and l: "l \<in> set members"
  shows "u \<in> clo c l \<longleftrightarrow> (l, u) \<in> direct\<^sup>*"
proof
  show "(l, u) \<in> direct\<^sup>*" if "u \<in> clo c l" using that ok l unfolding closure_ok_def by blast
  show "u \<in> clo c l" if "(l, u) \<in> direct\<^sup>*"
    using that
  proof (induction rule: rtrancl_induct)
    case base
    then show ?case using ok l unfolding closure_ok_def by blast
  next
    case (step y z)
    then have "y \<in> set members" using ok l unfolding closure_ok_def by blast
    with step ok have "z \<in> clo c y" unfolding closure_ok_def by blast
    with closed l step show ?case by blast
  qed
qed

section \<open>Finite orders with unique minimal bounds\<close>

text \<open>
  What the constructor's checks establish about an order: it is a finite partial order in which every
  pair has exactly one minimal upper bound.  Then every finite set of labels has a least upper bound.
\<close>

locale label_order =
  fixes carrier :: "'a set" and le :: "'a \<Rightarrow> 'a \<Rightarrow> bool"
  assumes finite_carrier: "finite carrier"
    and le_refl: "x \<in> carrier \<Longrightarrow> le x x"
    and le_trans: "x \<in> carrier \<Longrightarrow> y \<in> carrier \<Longrightarrow> z \<in> carrier \<Longrightarrow> le x y \<Longrightarrow> le y z \<Longrightarrow> le x z"
    and le_antisym: "x \<in> carrier \<Longrightarrow> y \<in> carrier \<Longrightarrow> le x y \<Longrightarrow> le y x \<Longrightarrow> x = y"
    and unique_minimal: "x \<in> carrier \<Longrightarrow> y \<in> carrier \<Longrightarrow>
      \<exists>!m. m \<in> carrier \<and> le x m \<and> le y m
        \<and> (\<forall>z \<in> carrier. le x z \<longrightarrow> le y z \<longrightarrow> z \<noteq> m \<longrightarrow> \<not> le z m)"
begin

lemma minimal_below:
  assumes S: "S \<subseteq> carrier" and c: "c \<in> S"
  shows "\<exists>m \<in> S. le m c \<and> (\<forall>z \<in> S. z \<noteq> m \<longrightarrow> \<not> le z m)"
proof -
  let ?down = "\<lambda>x. {z \<in> S. le z x}"
  have fin: "finite (?down x)" for x using finite_subset [OF S finite_carrier] by simp
  obtain m where m: "m \<in> S" "le m c" and least: "\<And>x. x \<in> S \<Longrightarrow> le x c \<Longrightarrow> card (?down m) \<le> card (?down x)"
    using ex_has_least_nat [of "\<lambda>x. x \<in> S \<and> le x c" c "\<lambda>x. card (?down x)"] c S le_refl by blast
  have "\<not> le z m" if z: "z \<in> S" "z \<noteq> m" for z
  proof
    assume zm: "le z m"
    have "x \<in> ?down m" if "x \<in> ?down z" for x
      using that zm z(1) m(1) S le_trans [of x z m] by blast
    moreover have "m \<notin> ?down z" using zm z m(1) S le_antisym [of z m] by blast
    moreover have "m \<in> ?down m" using m(1) S le_refl by blast
    ultimately have "?down z \<subset> ?down m" by blast
    then have "card (?down z) < card (?down m)" by (rule psubset_card_mono [OF fin])
    moreover have "le z c" using zm z m c S le_trans by blast
    ultimately show False using least [OF z(1)] by simp
  qed
  with m show ?thesis by blast
qed

lemma pair_lub:
  assumes "x \<in> carrier" "y \<in> carrier"
  shows "\<exists>m \<in> carrier. le x m \<and> le y m \<and> (\<forall>u \<in> carrier. le x u \<longrightarrow> le y u \<longrightarrow> le m u)"
proof -
  let ?U = "{z \<in> carrier. le x z \<and> le y z}"
  obtain m where m: "m \<in> ?U" "\<forall>z \<in> ?U. z \<noteq> m \<longrightarrow> \<not> le z m"
    and uniq: "\<And>m'. m' \<in> ?U \<Longrightarrow> \<forall>z \<in> ?U. z \<noteq> m' \<longrightarrow> \<not> le z m' \<Longrightarrow> m' = m"
    using unique_minimal [OF assms] by blast
  have "le m u" if "u \<in> ?U" for u
    using minimal_below [of ?U u] that uniq by blast
  with m show ?thesis by blast
qed

lemma list_lub:
  assumes "set ls \<subseteq> carrier" "ls \<noteq> []"
  shows "\<exists>m \<in> carrier. (\<forall>l \<in> set ls. le l m) \<and> (\<forall>u \<in> carrier. (\<forall>l \<in> set ls. le l u) \<longrightarrow> le m u)"
  using assms(2,1)
proof (induction ls rule: list_nonempty_induct)
  case (single l)
  then show ?case using le_refl by auto
next
  case (cons l ls)
  then obtain m where m: "m \<in> carrier" "\<forall>x \<in> set ls. le x m"
    "\<forall>u \<in> carrier. (\<forall>x \<in> set ls. le x u) \<longrightarrow> le m u" by auto
  from cons have l: "l \<in> carrier" "set ls \<subseteq> carrier" by auto
  from pair_lub [OF l(1) m(1)] obtain j where j: "j \<in> carrier" "le l j" "le m j"
    "\<forall>u \<in> carrier. le l u \<longrightarrow> le m u \<longrightarrow> le j u" by blast
  have "le x j" if "x \<in> set ls" for x using that m(1,2) j(1,3) l(2) le_trans by blast
  with j m(3) show ?case by (intro bexI [OF _ j(1)]) auto
qed

text \<open>The only minimal upper bound of a list is its least one.\<close>

lemma minimal_upper_bounds:
  assumes "set ls \<subseteq> carrier" "ls \<noteq> []"
  shows "\<exists>m. {x \<in> carrier. (\<forall>l \<in> set ls. le l x)
        \<and> \<not> (\<exists>y \<in> carrier. (\<forall>l \<in> set ls. le l y) \<and> y \<noteq> x \<and> le y x)} = {m}
      \<and> m \<in> carrier \<and> (\<forall>l \<in> set ls. le l m) \<and> (\<forall>u \<in> carrier. (\<forall>l \<in> set ls. le l u) \<longrightarrow> le m u)"
proof -
  from list_lub [OF assms] obtain m where m: "m \<in> carrier" "\<forall>l \<in> set ls. le l m"
    "\<forall>u \<in> carrier. (\<forall>l \<in> set ls. le l u) \<longrightarrow> le m u" by blast
  have "{x \<in> carrier. (\<forall>l \<in> set ls. le l x)
        \<and> \<not> (\<exists>y \<in> carrier. (\<forall>l \<in> set ls. le l y) \<and> y \<noteq> x \<and> le y x)} = {m}"
    using m le_antisym by auto
  with m show ?thesis by blast
qed

end

section \<open>Constructed schemes are lattices\<close>

definition valid_scheme :: "MarkingSchemeDefinition \<Rightarrow> bool" where
  "valid_scheme d \<longleftrightarrow>
     closure_ok (ms_labels d) (ms_relations d) (ms_closure d) \<and> distinct (ms_labels d)
     \<and> (\<forall>l \<in> set (ms_labels d). \<forall>i \<in> clo (ms_closure d) l. clo (ms_closure d) i \<subseteq> clo (ms_closure d) l)
     \<and> (\<forall>l \<in> set (ms_labels d). \<forall>r \<in> set (ms_labels d). below d l r \<longrightarrow> below d r l \<longrightarrow> l = r)
     \<and> ms_bottom d \<in> set (ms_labels d) \<and> (\<forall>l \<in> set (ms_labels d). below d (ms_bottom d) l)
     \<and> ms_top d \<in> set (ms_labels d) \<and> (\<forall>l \<in> set (ms_labels d). below d l (ms_top d))
     \<and> (\<forall>l \<in> set (ms_labels d). \<forall>r \<in> set (ms_labels d). lattice_pair (ms_labels d) (ms_closure d) l r)"

lemma relation_step_Inr:
  "relation_step members acc r = Inr b \<Longrightarrow>
     \<exists>base. acc = Inr base \<and> base \<subseteq> b \<and> b \<subseteq> base \<union> set members \<times> set members"
  by (auto simp: relation_step_def split: sum.splits list.splits if_splits)

lemma relation_fold:
  "foldl (relation_step members) acc rels = Inr direct \<Longrightarrow>
     \<exists>base. acc = Inr base \<and> base \<subseteq> direct \<and> direct \<subseteq> base \<union> set members \<times> set members"
proof (induction rels arbitrary: acc)
  case (Cons r rels)
  from Cons.prems have "foldl (relation_step members) (relation_step members acc r) rels = Inr direct"
    by (simp only: foldl.simps)
  from Cons.IH [OF this] obtain b
    where b: "relation_step members acc r = Inr b" "b \<subseteq> direct" "direct \<subseteq> b \<union> set members \<times> set members"
    by blast
  from relation_step_Inr [OF b(1)] obtain base
    where base: "acc = Inr base" "base \<subseteq> b" "b \<subseteq> base \<union> set members \<times> set members" by blast
  from base(2) b(2) have "base \<subseteq> direct" by (rule subset_trans)
  moreover from base(3) b(3) have "direct \<subseteq> base \<union> set members \<times> set members"
    by (meson Un_least Un_upper2 subset_trans)
  ultimately show ?case using base(1) by blast
qed simp

lemma direct_relations_members:
  assumes d: "direct_relations members levels rels = Inr direct" and lv: "levels = None \<or> levels = Some members"
  shows "direct \<subseteq> set members \<times> set members"
proof -
  define base where "base = (case levels of None \<Rightarrow> set (map (\<lambda>l. (l, l)) members)
    | Some ordered \<Rightarrow> set (map (\<lambda>l. (l, l)) members) \<union> set (zip ordered (drop 1 ordered)))"
  have "set (zip members (drop 1 members)) \<subseteq> set members \<times> set members"
    by (auto dest: set_zip_leftD in_set_dropD [OF set_zip_rightD])
  then have "base \<subseteq> set members \<times> set members"
    using lv by (auto simp: base_def)
  moreover have "foldl (relation_step members) (Inr base) rels = Inr direct"
    using d by (auto simp: direct_relations_def base_def Let_def split: option.splits)
  ultimately show ?thesis using relation_fold by fastforce
qed

lemma initial_closure_ok:
  assumes "direct \<subseteq> set members \<times> set members"
  shows "closure_ok members direct (initial_closure members direct)"
proof -
  have "clo (initial_closure members direct) l = insert l {u. (l, u) \<in> direct}" if "l \<in> set members" for l
    using that by (auto simp: clo_def initial_closure_def map_of_map_restrict image_iff)
  then show ?thesis using assms by (auto simp: closure_ok_def initial_closure_def comp_def)
qed

lemma validate_order_valid:
  assumes "validate_order sid members direct c = Inr d" "closure_ok members direct c" "distinct members"
    "\<forall>l \<in> set members. \<forall>i \<in> clo c l. clo c i \<subseteq> clo c l"
  shows "valid_scheme d \<and> scheme_id d = sid \<and> ms_labels d = members \<and> ms_relations d = direct \<and> ms_closure d = c"
proof -
  let ?b = "filter (\<lambda>l. list_all (\<lambda>x. x \<in> clo c l) members) members"
  let ?t = "filter (\<lambda>l. list_all (\<lambda>x. l \<in> clo c x) members) members"
  from assms(1) have len: "length ?b = 1" "length ?t = 1"
    and d: "d = \<lparr>scheme_id = sid, ms_labels = members, ms_relations = direct, ms_bottom = hd ?b, ms_top = hd ?t,
                 ms_closure = c\<rparr>"
    and rest: "\<forall>l \<in> set members. \<forall>r \<in> set members. l \<noteq> r \<longrightarrow> r \<in> clo c l \<longrightarrow> l \<notin> clo c r"
      "\<forall>l \<in> set members. \<forall>r \<in> set members. lattice_pair members c l r"
    by (auto simp: validate_order_def Let_def list_ex_iff split: if_splits)
  from len obtain b t where bt: "?b = [b]" "?t = [t]" by (auto simp: length_Suc_conv)
  then have "b \<in> set ?b" "t \<in> set ?t" by simp_all
  then have "b \<in> set members" "\<forall>x \<in> set members. x \<in> clo c b" "t \<in> set members" "\<forall>x \<in> set members. t \<in> clo c x"
    unfolding set_filter list_all_iff by blast+
  then show ?thesis using assms(2-4) rest d bt by (auto simp: valid_scheme_def below_def)
qed

lemma marking_scheme_cases:
  assumes "marking_scheme sid levels labels rels = Inr d"
  obtains direct where "valid_scheme d" "scheme_id d = sid" "ms_relations d = direct"
    "direct_relations (ms_labels d) levels (case rels of None \<Rightarrow> [] | Some r \<Rightarrow> r) = Inr direct"
    "ms_labels d = (case labels of None \<Rightarrow> (case levels of None \<Rightarrow> [] | Some l \<Rightarrow> l) | Some l \<Rightarrow> l)"
proof -
  define members where "members = (case labels of None \<Rightarrow> (case levels of None \<Rightarrow> [] | Some l \<Rightarrow> l) | Some l \<Rightarrow> l)"
  from assms obtain direct b c where 1: "distinct members" "levels = None \<or> labels = None"
    "direct_relations members levels (case rels of None \<Rightarrow> [] | Some r \<Rightarrow> r) = Inr direct"
    "close_loop members (initial_closure members direct) = Some (b, c)" "validate_order sid members direct c = Inr d"
    unfolding marking_scheme_def members_def [symmetric] Let_def
    by (auto split: if_splits sum.splits option.splits)
  have "levels = None \<or> levels = Some members" using 1(2) by (auto simp: members_def split: option.splits)
  from direct_relations_members [OF 1(3) this] initial_closure_ok have ok: "closure_ok members direct (initial_closure members direct)"
    by blast
  from close_loop_correct [OF ok] 1(4) have "closure_ok members direct c"
    "\<forall>l \<in> set members. \<forall>i \<in> clo c l. clo c i \<subseteq> clo c l" by auto
  from validate_order_valid [OF 1(5) this(1) 1(1) this(2)] that 1(3) show ?thesis by (auto simp: members_def)
qed

text \<open>The labels of a scheme that passed validation; the order laws hold on them.\<close>

definition scheme_carrier :: "MarkingSchemeDefinition \<Rightarrow> pystr set" where
  "scheme_carrier d = (if valid_scheme d then set (ms_labels d) else {})"

lemma valid_schemeD:
  assumes "valid_scheme d"
  shows "closure_ok (ms_labels d) (ms_relations d) (ms_closure d)"
    "l \<in> set (ms_labels d) \<Longrightarrow> below d l l"
    "l \<in> set (ms_labels d) \<Longrightarrow> below d l u \<Longrightarrow> u \<in> set (ms_labels d)"
    "l \<in> set (ms_labels d) \<Longrightarrow> below d l u \<Longrightarrow> below d u v \<Longrightarrow> below d l v"
    "l \<in> set (ms_labels d) \<Longrightarrow> r \<in> set (ms_labels d) \<Longrightarrow> below d l r \<Longrightarrow> below d r l \<Longrightarrow> l = r"
    "ms_bottom d \<in> set (ms_labels d)" "l \<in> set (ms_labels d) \<Longrightarrow> below d (ms_bottom d) l"
    "ms_top d \<in> set (ms_labels d)" "l \<in> set (ms_labels d) \<Longrightarrow> below d l (ms_top d)"
    "l \<in> set (ms_labels d) \<Longrightarrow> r \<in> set (ms_labels d) \<Longrightarrow> lattice_pair (ms_labels d) (ms_closure d) l r"
proof -
  let ?S = "set (ms_labels d)" and ?c = "clo (ms_closure d)"
  show ok: "closure_ok (ms_labels d) (ms_relations d) (ms_closure d)" using assms by (simp add: valid_scheme_def)
  have r: "\<forall>l \<in> ?S. l \<in> ?c l" and sub: "\<forall>l \<in> ?S. ?c l \<subseteq> ?S" using ok by (simp_all add: closure_ok_def)
  have tr: "\<forall>l \<in> ?S. \<forall>i \<in> ?c l. ?c i \<subseteq> ?c l" using assms by (simp add: valid_scheme_def)
  show "l \<in> ?S \<Longrightarrow> below d l l" using r by (simp add: below_def)
  show "l \<in> ?S \<Longrightarrow> below d l u \<Longrightarrow> u \<in> ?S" using sub unfolding below_def by blast
  show "l \<in> ?S \<Longrightarrow> below d l u \<Longrightarrow> below d u v \<Longrightarrow> below d l v" using tr unfolding below_def by blast
qed (use assms in \<open>simp_all add: valid_scheme_def\<close>)

lemma minimal_pair:
  assumes d: "valid_scheme d" and x: "x \<in> set (ms_labels d)" and y: "y \<in> set (ms_labels d)"
  shows "\<exists>!m. m \<in> set (ms_labels d) \<and> below d x m \<and> below d y m
    \<and> (\<forall>z \<in> set (ms_labels d). below d x z \<longrightarrow> below d y z \<longrightarrow> z \<noteq> m \<longrightarrow> \<not> below d z m)"
proof -
  let ?U = "clo (ms_closure d) x \<inter> clo (ms_closure d) y"
  have "card (minimal (ms_closure d) ?U) = 1"
    using valid_schemeD(10) [OF d x y] by (simp add: lattice_pair_def)
  then obtain m where m: "minimal (ms_closure d) ?U = {m}" by (auto simp: card_1_singleton_iff)
  have U: "z \<in> ?U \<longleftrightarrow> z \<in> set (ms_labels d) \<and> below d x z \<and> below d y z" for z
    using valid_schemeD(3) [OF d x] by (auto simp: below_def)
  have eq: "z \<in> minimal (ms_closure d) ?U \<longleftrightarrow> z \<in> set (ms_labels d) \<and> below d x z \<and> below d y z
      \<and> (\<forall>z' \<in> set (ms_labels d). below d x z' \<longrightarrow> below d y z' \<longrightarrow> z' \<noteq> z \<longrightarrow> \<not> below d z' z)" for z
    unfolding minimal_def using U by (auto simp: below_def)
  show ?thesis unfolding eq [symmetric] m by simp
qed

lemma maximal_pair:
  assumes d: "valid_scheme d" and x: "x \<in> set (ms_labels d)" and y: "y \<in> set (ms_labels d)"
  shows "\<exists>!m. m \<in> set (ms_labels d) \<and> below d m x \<and> below d m y
    \<and> (\<forall>z \<in> set (ms_labels d). below d z x \<longrightarrow> below d z y \<longrightarrow> z \<noteq> m \<longrightarrow> \<not> below d m z)"
proof -
  let ?L = "set (filter (\<lambda>z. x \<in> clo (ms_closure d) z \<and> y \<in> clo (ms_closure d) z) (ms_labels d))"
  have "card (maximal (ms_closure d) ?L) = 1"
    using valid_schemeD(10) [OF d x y] by (simp add: lattice_pair_def)
  then obtain m where m: "maximal (ms_closure d) ?L = {m}" by (auto simp: card_1_singleton_iff)
  have eq: "z \<in> maximal (ms_closure d) ?L \<longleftrightarrow> z \<in> set (ms_labels d) \<and> below d z x \<and> below d z y
      \<and> (\<forall>z' \<in> set (ms_labels d). below d z' x \<longrightarrow> below d z' y \<longrightarrow> z' \<noteq> z \<longrightarrow> \<not> below d z z')" for z
    unfolding maximal_def by (auto simp: below_def)
  show ?thesis unfolding eq [symmetric] m by simp
qed

interpretation upward: label_order "scheme_carrier d" "below d" for d
proof (unfold_locales, goal_cases)
  case 5
  then show ?case using minimal_pair by (auto simp: scheme_carrier_def split: if_splits)
qed (auto simp: scheme_carrier_def dest: valid_schemeD split: if_splits)

interpretation downward: label_order "scheme_carrier d" "\<lambda>a b. below d b a" for d
proof (unfold_locales, goal_cases)
  case 5
  then show ?case using maximal_pair by (auto simp: scheme_carrier_def split: if_splits)
qed (auto simp: scheme_carrier_def dest: valid_schemeD split: if_splits)

lemma require_label_iff:
  "valid_scheme d \<Longrightarrow> require_label d l = Inr u \<longleftrightarrow> l \<in> set (ms_labels d)"
proof -
  assume "valid_scheme d"
  then have "map fst (ms_closure d) = ms_labels d" using valid_schemeD(1) by (simp add: closure_ok_def)
  then show ?thesis using dict_mem_keys [of l "ms_closure d"] by (auto simp: require_label_def)
qed

lemma require_labels_ok:
  "valid_scheme d \<Longrightarrow> set ls \<subseteq> set (ms_labels d) \<Longrightarrow> sequence_res (map (require_label d) ls) = Inr (map (\<lambda>_. ()) ls)"
  by (auto simp: sequence_res_Inr_iff require_label_iff)

lemma fold_inter: "fold (\<lambda>l acc. acc \<inter> f l) ls S = {x \<in> S. \<forall>l \<in> set ls. x \<in> f l}"
  by (induction ls arbitrary: S) auto

lemma scheme_join_lub:
  assumes d: "valid_scheme d" and ls: "set ls \<subseteq> set (ms_labels d)"
  shows "\<exists>j \<in> set (ms_labels d). scheme_join d ls = Inr j \<and> (\<forall>l \<in> set ls. below d l j)
    \<and> (\<forall>u \<in> set (ms_labels d). (\<forall>l \<in> set ls. below d l u) \<longrightarrow> below d j u)"
proof (cases "ls = []")
  case True
  with valid_schemeD(6,7) [OF d] show ?thesis by (auto simp: scheme_join_def)
next
  case False
  let ?S = "set (ms_labels d)"
  define ubs where "ubs = fold (\<lambda>l acc. acc \<inter> clo (ms_closure d) l) ls ?S"
  have ubs: "ubs = {x \<in> ?S. \<forall>l \<in> set ls. below d l x}"
    by (simp add: ubs_def fold_inter below_def)
  from upward.minimal_upper_bounds [of ls d] ls False d obtain m
    where m: "{x \<in> ?S. (\<forall>l \<in> set ls. below d l x) \<and> \<not> (\<exists>y \<in> ?S. (\<forall>l \<in> set ls. below d l y) \<and> y \<noteq> x \<and> below d y x)} = {m}"
      "m \<in> ?S" "\<forall>l \<in> set ls. below d l m" "\<forall>u \<in> ?S. (\<forall>l \<in> set ls. below d l u) \<longrightarrow> below d m u"
    by (auto simp: scheme_carrier_def)
  have "Set.filter (\<lambda>x. \<not> (\<exists>y \<in> ubs. y \<noteq> x \<and> below d y x)) ubs = {m}"
    unfolding m(1) [symmetric] ubs by auto
  then have "scheme_join d ls = Inr m"
    using False m(3) by (simp add: scheme_join_def require_labels_ok [OF d ls] ubs_def [symmetric] Let_def list_all_iff)
  with m show ?thesis by blast
qed

lemma scheme_meet_glb:
  assumes d: "valid_scheme d" and ls: "set ls \<subseteq> set (ms_labels d)"
  shows "\<exists>j \<in> set (ms_labels d). scheme_meet d ls = Inr j \<and> (\<forall>l \<in> set ls. below d j l)
    \<and> (\<forall>u \<in> set (ms_labels d). (\<forall>l \<in> set ls. below d u l) \<longrightarrow> below d u j)"
proof (cases "ls = []")
  case True
  with valid_schemeD(8,9) [OF d] show ?thesis by (auto simp: scheme_meet_def)
next
  case False
  let ?S = "set (ms_labels d)"
  define lbs where "lbs = set (filter (\<lambda>x. list_all (below d x) ls) (ms_labels d))"
  have lbs: "lbs = {x \<in> ?S. \<forall>l \<in> set ls. below d x l}"
    by (auto simp: lbs_def list_all_iff)
  from downward.minimal_upper_bounds [of ls d] ls False d obtain m
    where m: "{x \<in> ?S. (\<forall>l \<in> set ls. below d x l) \<and> \<not> (\<exists>y \<in> ?S. (\<forall>l \<in> set ls. below d y l) \<and> y \<noteq> x \<and> below d x y)} = {m}"
      "m \<in> ?S" "\<forall>l \<in> set ls. below d m l" "\<forall>u \<in> ?S. (\<forall>l \<in> set ls. below d u l) \<longrightarrow> below d u m"
    by (auto simp: scheme_carrier_def)
  have "Set.filter (\<lambda>x. \<not> (\<exists>y \<in> lbs. y \<noteq> x \<and> below d x y)) lbs = {m}"
    unfolding m(1) [symmetric] lbs by auto
  then have "scheme_meet d ls = Inr m"
    using False unfolding scheme_meet_def require_labels_ok [OF d ls] lbs_def [symmetric] Let_def by simp
  with m show ?thesis by blast
qed

section \<open>Joins do not downgrade\<close>

definition engine_ok :: "MarkingEngine \<Rightarrow> bool" where
  "engine_ok eng \<longleftrightarrow> dict_ok eng \<and> (\<forall>sid d. dict_get eng sid = Some d \<longrightarrow> valid_scheme d)"

lemma marking_engine_ok:
  assumes "marking_engine ds = Inr eng" "\<forall>d \<in> set ds. valid_scheme d"
  shows "engine_ok eng"
  using assms by (auto simp: marking_engine_def Let_def engine_ok_def split: if_splits dest!: dict_of_mem)

text \<open>The scheme of a label of a validated marking set, and the order of the label in it.\<close>

definition known_marking :: "MarkingEngine \<Rightarrow> MarkingSet \<Rightarrow> bool" where
  "known_marking eng m \<longleftrightarrow>
     (\<forall>(sid, l) \<in> set m. \<exists>d. dict_get eng sid = Some d \<and> l \<in> set (ms_labels d))"

lemma known_markingD:
  assumes "known_marking eng m" "dict_get m sid = Some l" "dict_get eng sid = Some d"
  shows "l \<in> set (ms_labels d)"
proof -
  from assms(2) have "(sid, l) \<in> set m" by (rule map_of_SomeD)
  with assms(1,3) show ?thesis unfolding known_marking_def by fastforce
qed

lemma marking_validate_iff:
  assumes eng: "engine_ok eng"
  shows "marking_validate eng m = Inr u \<longleftrightarrow> known_marking eng m"
proof -
  have label: "is_ok (require_label d l) \<longleftrightarrow> l \<in> set (ms_labels d)" if "dict_get eng sid = Some d" for sid d l
    using that eng by (auto simp: engine_ok_def require_label_iff is_ok_iff)
  have "marking_validate eng m = Inr u \<longleftrightarrow> is_ok (marking_validate eng m)" by (auto simp: is_ok_iff)
  also have "\<dots> \<longleftrightarrow> (\<forall>x \<in> set m. dict_get eng (fst x) \<noteq> None)
      \<and> (\<forall>x \<in> set m. is_ok (require_label (the (dict_get eng (fst x))) (snd x)))"
    using sequence_res_ok_iff [of "map (\<lambda>(sid, l). require_label (the (dict_get eng sid)) l) m"]
    by (auto simp: marking_validate_def list_ex_iff list_all_iff case_prod_unfold split: sum.splits)
  also have "\<dots> \<longleftrightarrow> known_marking eng m"
    unfolding known_marking_def using label by (fastforce simp: case_prod_unfold)
  finally show ?thesis .
qed

lemma authorized_from_iff:
  assumes eng: "engine_ok eng" and m: "known_marking eng m" and c: "known_marking eng c"
  shows "authorized_from eng c m =
    Inr (\<forall>(sid, l) \<in> set m. \<exists>g. dict_get c sid = Some g \<and> below (the (dict_get eng sid)) l g)"
  using m
proof (induction m)
  case (Cons x m)
  obtain sid l where x: "x = (sid, l)" by force
  with Cons.prems obtain d where d: "dict_get eng sid = Some d" "l \<in> set (ms_labels d)" "valid_scheme d"
    using eng by (auto simp: known_marking_def engine_ok_def)
  have dom: "dominates d g l = Inr (below d l g)" if "dict_get c sid = Some g" for g
  proof -
    from known_markingD [OF c that d(1)] d(2) have "require_label d l = Inr ()" "require_label d g = Inr ()"
      using require_label_iff [OF d(3)] by blast+
    then show ?thesis by (simp add: dominates_def leq_def below_def)
  qed
  from Cons show ?case
    by (cases "dict_get c sid") (auto simp: x d(1) dom known_marking_def)
qed simp

text \<open>A clearance authorizes a marking set when it dominates every label of the set.\<close>

lemma is_authorized_iff:
  assumes "engine_ok eng"
  shows "is_authorized eng m c = Inr True \<longleftrightarrow> known_marking eng m \<and> known_marking eng c
    \<and> (\<forall>(sid, l) \<in> set m. \<exists>g. dict_get c sid = Some g \<and> below (the (dict_get eng sid)) l g)"
proof (cases "known_marking eng m \<and> known_marking eng c")
  case True
  then have "marking_validate eng m = Inr ()" "marking_validate eng c = Inr ()"
    using marking_validate_iff [OF assms] by blast+
  then have "is_authorized eng m c = authorized_from eng c m" by (simp add: is_authorized_def)
  with True authorized_from_iff [OF assms] show ?thesis by simp
next
  case False
  then have "\<not> (\<exists>u. marking_validate eng m = Inr u) \<or> \<not> (\<exists>u. marking_validate eng c = Inr u)"
    using marking_validate_iff [OF assms] by blast
  then have "is_authorized eng m c \<noteq> Inr True" by (auto simp: is_authorized_def split: sum.splits)
  with False show ?thesis by blast
qed

definition joined_labels :: "MarkingSet list \<Rightarrow> pystr \<Rightarrow> MarkingSchemeDefinition \<Rightarrow> pystr list" where
  "joined_labels ms sid d = map (\<lambda>m. case dict_get m sid of None \<Rightarrow> ms_bottom d | Some l \<Rightarrow> l) ms"

lemma joined_labels_known:
  assumes eng: "engine_ok eng" and ms: "\<forall>m \<in> set ms. known_marking eng m" and d: "dict_get eng sid = Some d"
  shows "set (joined_labels ms sid d) \<subseteq> set (ms_labels d)"
proof -
  have "valid_scheme d" using eng d by (auto simp: engine_ok_def)
  then have "ms_bottom d \<in> set (ms_labels d)" by (rule valid_schemeD(6))
  moreover have "l \<in> set (ms_labels d)" if "m \<in> set ms" "dict_get m sid = Some l" for m l
    using known_markingD [OF _ that(2) d] ms that(1) by blast
  ultimately show ?thesis by (auto simp: joined_labels_def split: option.splits)
qed

lemma marking_join_ok:
  assumes eng: "engine_ok eng" and ms: "\<forall>m \<in> set ms. known_marking eng m"
  shows "\<exists>j. marking_join eng ms = Inr j \<and> map fst j = map fst eng
    \<and> (\<forall>sid d. dict_get eng sid = Some d \<longrightarrow> (\<exists>l. dict_get j sid = Some l \<and> scheme_join d (joined_labels ms sid d) = Inr l))"
proof -
  define f where "f = (\<lambda>(sid, d). case scheme_join d (joined_labels ms sid d) of Inl e \<Rightarrow> [] | Inr l \<Rightarrow> l)"
  have ok: "scheme_join d (joined_labels ms sid d) = Inr (f (sid, d))" if "(sid, d) \<in> set eng" for sid d
  proof -
    have d: "dict_get eng sid = Some d" "valid_scheme d" using that eng by (auto simp: engine_ok_def)
    from scheme_join_lub [OF d(2) joined_labels_known [OF eng ms d(1)]] show ?thesis by (auto simp: f_def)
  qed
  have v: "sequence_res (map (marking_validate eng) ms) = Inr (map (\<lambda>_. ()) ms)"
    using ms marking_validate_iff [OF eng] by (auto simp: sequence_res_Inr_iff)
  have "marking_join eng ms = Inr (map (\<lambda>x. (fst x, f x)) eng)"
    using ok unfolding marking_join_def joined_labels_def [symmetric] v by (auto simp: sequence_res_Inr_iff)
  moreover have "dict_get (map (\<lambda>x. (fst x, f x)) eng) sid = Some (f (sid, d))" if "dict_get eng sid = Some d" for sid d
    using that eng by (force simp: engine_ok_def comp_def image_iff intro!: map_of_is_SomeI dest!: map_of_SomeD)
  ultimately show ?thesis using ok by (force simp: comp_def dest: map_of_SomeD)
qed

text \<open>The two directions of the comparison, from the least-upper-bound facts about the joined set.\<close>

lemma joined_below:
  assumes eng: "engine_ok eng"
    and lub: "\<And>sid. sid \<in> set (map fst eng) \<Longrightarrow> \<exists>d l. dict_get eng sid = Some d \<and> l \<in> set (ms_labels d)
      \<and> dict_get j sid = Some l \<and> (\<forall>x \<in> set (joined_labels ms sid d). below d x l)
      \<and> (\<forall>u \<in> set (ms_labels d). (\<forall>x \<in> set (joined_labels ms sid d). below d x u) \<longrightarrow> below d l u)"
    and jok: "dict_ok j" "map fst j = map fst eng"
    and c: "is_authorized eng j c = Inr True" and m: "m \<in> set ms" "known_marking eng m" "dict_ok m"
  shows "is_authorized eng m c = Inr True"
proof -
  from c have kc: "known_marking eng c"
    and auth: "\<And>sid l. (sid, l) \<in> set j \<Longrightarrow> \<exists>g. dict_get c sid = Some g \<and> below (the (dict_get eng sid)) l g"
    unfolding is_authorized_iff [OF eng] by blast+
  have "\<exists>g. dict_get c sid = Some g \<and> below (the (dict_get eng sid)) x g" if x: "(sid, x) \<in> set m" for sid x
  proof -
    from m(2) x obtain d0 where d0: "dict_get eng sid = Some d0" "x \<in> set (ms_labels d0)"
      unfolding known_marking_def by blast
    then have "sid \<in> set (map fst eng)" using dict_mem_keys [of sid eng] by simp
    from lub [OF this] d0 obtain l where l: "dict_get j sid = Some l" "\<forall>y \<in> set (joined_labels ms sid d0). below d0 y l"
      by auto
    have "dict_get m sid = Some x" using x m(3) by simp
    then have "x \<in> set (joined_labels ms sid d0)" using m(1) by (force simp: joined_labels_def image_iff)
    with l(2) have "below d0 x l" by blast
    moreover from auth [OF map_of_SomeD [OF l(1)]] d0(1) obtain g where "dict_get c sid = Some g" "below d0 l g" by auto
    moreover have "valid_scheme d0" using eng d0(1) by (auto simp: engine_ok_def)
    ultimately show ?thesis using valid_schemeD(4) d0 by auto
  qed
  with kc m(2) show ?thesis unfolding is_authorized_iff [OF eng] by blast
qed

lemma joined_above:
  assumes eng: "engine_ok eng"
    and lub: "\<And>sid. sid \<in> set (map fst eng) \<Longrightarrow> \<exists>d l. dict_get eng sid = Some d \<and> l \<in> set (ms_labels d)
      \<and> dict_get j sid = Some l \<and> (\<forall>x \<in> set (joined_labels ms sid d). below d x l)
      \<and> (\<forall>u \<in> set (ms_labels d). (\<forall>x \<in> set (joined_labels ms sid d). below d x u) \<longrightarrow> below d l u)"
    and jok: "dict_ok j" "map fst j = map fst eng"
    and c: "marking_validate eng c = Inr ()" "set (map fst eng) \<subseteq> set (map fst c)"
    and ms: "\<forall>m \<in> set ms. is_authorized eng m c = Inr True"
  shows "is_authorized eng j c = Inr True"
proof -
  have kc: "known_marking eng c" using c(1) marking_validate_iff [OF eng] by blast
  have one: "\<exists>d g. dict_get eng sid = Some d \<and> l \<in> set (ms_labels d) \<and> dict_get c sid = Some g \<and> below d l g"
    if l: "(sid, l) \<in> set j" for sid l
  proof -
    from l have sid: "sid \<in> set (map fst eng)" unfolding jok(2) [symmetric] by force
    from lub [OF sid] l jok(1) obtain d where d: "dict_get eng sid = Some d" "l \<in> set (ms_labels d)"
      "\<forall>u \<in> set (ms_labels d). (\<forall>x \<in> set (joined_labels ms sid d). below d x u) \<longrightarrow> below d l u" by auto
    have v: "valid_scheme d" using eng d(1) by (auto simp: engine_ok_def)
    from sid c(2) obtain g where g: "dict_get c sid = Some g" using dict_mem_keys [of sid c] by auto
    have gl: "g \<in> set (ms_labels d)" by (rule known_markingD [OF kc g d(1)])
    have "below d x g" if "m \<in> set ms" "dict_get m sid = Some x" for m x
      using ms that g d(1) map_of_SomeD [OF that(2)] unfolding is_authorized_iff [OF eng] by fastforce
    then have "\<forall>x \<in> set (joined_labels ms sid d). below d x g"
      using valid_schemeD(7) [OF v gl] by (auto simp: joined_labels_def split: option.splits)
    with d gl g show ?thesis by blast
  qed
  then have "known_marking eng j" unfolding known_marking_def by blast
  with kc one show ?thesis unfolding is_authorized_iff [OF eng] by fastforce
qed

lemma marking_scheme_returns: "marking_scheme sid levels labels rels \<noteq> Inl NoReturn"
proof
  assume nr: "marking_scheme sid levels labels rels = Inl NoReturn"
  define members where "members = (case labels of None \<Rightarrow> (case levels of None \<Rightarrow> [] | Some l \<Rightarrow> l) | Some l \<Rightarrow> l)"
  have rs: "foldl (relation_step members) acc rels \<noteq> Inl NoReturn" if "acc \<noteq> Inl NoReturn" for acc rels
    using that
    by (induction rels arbitrary: acc) (auto simp: relation_step_def split: sum.splits list.splits)
  have "direct_relations members levels r \<noteq> Inl NoReturn" for r
    unfolding direct_relations_def Let_def by (rule rs) simp
  moreover have "validate_order sid members direct c \<noteq> Inl NoReturn" for direct c
    by (simp add: validate_order_def Let_def)
  ultimately obtain direct where 1: "levels = None \<or> labels = None"
    "direct_relations members levels (case rels of None \<Rightarrow> [] | Some r \<Rightarrow> r) = Inr direct"
    "close_loop members (initial_closure members direct) = None"
    using nr unfolding marking_scheme_def members_def [symmetric] Let_def
    by (auto split: if_splits sum.splits option.splits)
  have "levels = None \<or> levels = Some members" using 1(1) by (auto simp: members_def split: option.splits)
  from direct_relations_members [OF 1(2) this] initial_closure_ok
  have "closure_ok members direct (initial_closure members direct)" by blast
  from close_loop_correct [OF this] 1(3) show False by simp
qed

section \<open>Properties\<close>

text \<open>Two schemes to evaluate the properties on.\<close>

definition example_levels :: MarkingSchemeDefinition where
  "example_levels = \<lparr>scheme_id = lit ''c'', ms_labels = [lit ''U'', lit ''S''],
     ms_relations = {(lit ''U'', lit ''U''), (lit ''S'', lit ''S''), (lit ''U'', lit ''S'')},
     ms_bottom = lit ''U'', ms_top = lit ''S'',
     ms_closure = [(lit ''U'', {lit ''U'', lit ''S''}), (lit ''S'', {lit ''S''})]\<rparr>"

lemma example_levels_built: "marking_scheme (lit ''c'') (Some [lit ''U'', lit ''S'']) None None = Inr example_levels"
proof -
  have d: "direct_relations [lit ''U'', lit ''S''] (Some [lit ''U'', lit ''S'']) [] =
      Inr {(lit ''U'', lit ''U''), (lit ''S'', lit ''S''), (lit ''U'', lit ''S'')}"
    by (auto simp: direct_relations_def)
  have i: "initial_closure [lit ''U'', lit ''S''] {(lit ''U'', lit ''U''), (lit ''S'', lit ''S''), (lit ''U'', lit ''S'')} =
      [(lit ''U'', {lit ''U'', lit ''S''}), (lit ''S'', {lit ''S''})]"
    by (auto simp: initial_closure_def image_iff)
  have c: "close_loop [lit ''U'', lit ''S''] [(lit ''U'', {lit ''U'', lit ''S''}), (lit ''S'', {lit ''S''})] =
      Some (False, [(lit ''U'', {lit ''U'', lit ''S''}), (lit ''S'', {lit ''S''})])"
  proof -
    have r: "close_round [lit ''U'', lit ''S''] [(lit ''U'', {lit ''U'', lit ''S''}), (lit ''S'', {lit ''S''})] =
        (False, [(lit ''U'', {lit ''U'', lit ''S''}), (lit ''S'', {lit ''S''})])"
      by (simp add: close_round_def close_label_def clo_def Let_def insert_commute)
    show ?thesis
      unfolding close_loop_def by (subst while_option_unfold, simp add: r, subst while_option_unfold, simp)
  qed
  have "minimal [(lit ''U'', {lit ''U'', lit ''S''}), (lit ''S'', {lit ''S''})] X = {lit ''S''}"
    "maximal [(lit ''U'', {lit ''U'', lit ''S''}), (lit ''S'', {lit ''S''})] Y = {lit ''U''}"
    if "X = {lit ''S''}" "Y = {lit ''U''}" for X Y
    using that by (auto simp: minimal_def maximal_def)
  moreover have "minimal [(lit ''U'', {lit ''U'', lit ''S''}), (lit ''S'', {lit ''S''})] {lit ''U'', lit ''S''} = {lit ''U''}"
    "maximal [(lit ''U'', {lit ''U'', lit ''S''}), (lit ''S'', {lit ''S''})] {lit ''U'', lit ''S''} = {lit ''S''}"
    by (auto simp: minimal_def maximal_def clo_def)
  ultimately have "validate_order (lit ''c'') [lit ''U'', lit ''S''] {(lit ''U'', lit ''U''), (lit ''S'', lit ''S''), (lit ''U'', lit ''S'')}
      [(lit ''U'', {lit ''U'', lit ''S''}), (lit ''S'', {lit ''S''})] = Inr example_levels"
    by (simp add: validate_order_def lattice_pair_def clo_def example_levels_def insert_commute)
  with d i c show ?thesis by (simp add: marking_scheme_def strip_def is_space_def lit_def)
qed

lemma example_levels_valid: "valid_scheme example_levels"
  using example_levels_built by (rule marking_scheme_cases)

text \<open>The pairs a caller declares: consecutive levels, and the given \<^verbatim>\<open>(lower, upper)\<close> relations.\<close>

definition declared_order :: "pystr list option \<Rightarrow> pystr list list option \<Rightarrow> (pystr \<times> pystr) set" where
  "declared_order levels rels =
     {(a, b). \<exists>ls i. levels = Some ls \<and> Suc i < length ls \<and> a = ls ! i \<and> b = ls ! Suc i}
     \<union> {(a, b). \<exists>rs. rels = Some rs \<and> [a, b] \<in> set rs}"

lemma relation_steps:
  "foldl (relation_step members) (Inr R) rs = Inr direct \<Longrightarrow> direct = R \<union> {(a, b). [a, b] \<in> set rs}"
proof (induction rs arbitrary: R)
  case (Cons r rs)
  have fail: "foldl (relation_step members) (Inl e) rs = Inl e" for e by (induction rs) (auto simp: relation_step_def)
  obtain a b where r: "r = [a, b]" "relation_step members (Inr R) r = Inr (insert (a, b) R)"
  proof (cases "relation_step members (Inr R) r")
    case (Inl e)
    with Cons.prems fail show ?thesis by simp
  next
    case (Inr S)
    then show ?thesis using that by (auto simp: relation_step_def split: list.splits if_splits)
  qed
  with Cons.IH [of "insert (a, b) R"] Cons.prems show ?case by auto
qed simp

lemma zip_levels: "(a, b) \<in> set (zip ls (drop 1 ls)) \<longleftrightarrow> (\<exists>i. Suc i < length ls \<and> a = ls ! i \<and> b = ls ! Suc i)"
proof -
  have "i < length ls - 1 \<longleftrightarrow> Suc i < length ls" for i by linarith
  then show ?thesis by (auto simp: set_zip nth_drop)
qed

lemma direct_declared:
  assumes "direct_relations members levels (case rels of None \<Rightarrow> [] | Some r \<Rightarrow> r) = Inr direct"
  shows "direct\<^sup>* = (declared_order levels rels)\<^sup>*"
proof -
  let ?base = "case levels of None \<Rightarrow> set (map (\<lambda>l. (l, l)) members)
      | Some ordered \<Rightarrow> set (map (\<lambda>l. (l, l)) members) \<union> set (zip ordered (drop 1 ordered))"
  have "direct = ?base \<union> {(a, b). [a, b] \<in> set (case rels of None \<Rightarrow> [] | Some r \<Rightarrow> r)}"
    using assms unfolding direct_relations_def Let_def by (rule relation_steps)
  then have "direct \<subseteq> declared_order levels rels \<union> Id" "declared_order levels rels \<subseteq> direct"
    unfolding declared_order_def by (auto simp: zip_levels [unfolded One_nat_def] split: option.splits)
  then show ?thesis by (metis rtrancl_mono rtrancl_reflcl subset_antisym)
qed

text \<open>
  C17 [scheme_closure_exact]: the closure loop of the constructor always ends.  A constructed scheme has the labels it
  was given, in their order, and one label is below another exactly when the declared \<^verbatim>\<open>(lower, upper)\<close> pairs and the
  sequence of the levels lead from the one to the other: \<^verbatim>\<open>leq\<close> decides the reflexive-transitive closure of what the
  caller declared.
\<close>

theorem scheme_closure_exact:
  "marking_scheme sid levels labels rels \<noteq> Inl NoReturn
   \<and> (\<forall>d. marking_scheme sid levels labels rels = Inr d \<longrightarrow>
        levels = Some (ms_labels d) \<and> labels = None \<or> labels = Some (ms_labels d) \<and> levels = None)
   \<and> (\<forall>d. marking_scheme sid levels labels rels = Inr d \<longrightarrow>
        (\<forall>a \<in> set (ms_labels d). \<forall>b \<in> set (ms_labels d). leq d a b = Inr ((a, b) \<in> (declared_order levels rels)\<^sup>*)))"
proof (intro conjI allI impI ballI)
  show "marking_scheme sid levels labels rels \<noteq> Inl NoReturn" by (rule marking_scheme_returns)
next
  fix d assume "marking_scheme sid levels labels rels = Inr d"
  moreover from this have "ms_labels d = (case labels of None \<Rightarrow> (case levels of None \<Rightarrow> [] | Some l \<Rightarrow> l) | Some l \<Rightarrow> l)"
    by (rule marking_scheme_cases)
  ultimately show "levels = Some (ms_labels d) \<and> labels = None \<or> labels = Some (ms_labels d) \<and> levels = None"
    by (auto simp: marking_scheme_def Let_def split: if_splits option.splits)
next
  fix d a b assume d: "marking_scheme sid levels labels rels = Inr d"
    and ab: "a \<in> set (ms_labels d)" "b \<in> set (ms_labels d)"
  from d have v: "valid_scheme d" by (rule marking_scheme_cases)
  have rel: "(ms_relations d)\<^sup>* = (declared_order levels rels)\<^sup>*" using d by (rule marking_scheme_cases) (auto dest: direct_declared)
  have "require_label d a = Inr ()" "require_label d b = Inr ()" using ab require_label_iff [OF v] by blast+
  moreover have "b \<in> clo (ms_closure d) a \<longleftrightarrow> (a, b) \<in> (ms_relations d)\<^sup>*"
    using v ab(1) by (intro closed_is_rtrancl [of "ms_labels d"]) (auto simp: valid_scheme_def)
  ultimately show "leq d a b = Inr ((a, b) \<in> (declared_order levels rels)\<^sup>*)" by (simp add: leq_def rel)
qed

theorem scheme_closure_exact_witness:
  "leq example_levels (lit ''U'') (lit ''S'') = Inr True \<and> leq example_levels (lit ''S'') (lit ''U'') = Inr False"
proof -
  have "declared_order (Some [lit ''U'', lit ''S'']) None = {(lit ''U'', lit ''S'')}"
    by (auto simp: declared_order_def)
  moreover have "(lit ''U'', lit ''S'') \<in> {(lit ''U'', lit ''S'')}\<^sup>*" by blast
  moreover have "(lit ''S'', lit ''U'') \<notin> {(lit ''U'', lit ''S'')}\<^sup>*" by (auto elim: converse_rtranclE)
  ultimately show ?thesis
    using scheme_closure_exact [of "lit ''c''" "Some [lit ''U'', lit ''S'']" None None] example_levels_built
    by (simp add: example_levels_def)
qed

text \<open>
  For known labels of a constructed scheme \<^verbatim>\<open>join\<close> returns their least upper
  bound and \<^verbatim>\<open>meet\<close> their greatest lower bound; neither raises, for any number of arguments.
\<close>

theorem scheme_join_meet_bounds:
  assumes "marking_scheme sid levels labels rels = Inr d" and "set ls \<subseteq> set (ms_labels d)"
  shows "(\<exists>j \<in> set (ms_labels d). scheme_join d ls = Inr j \<and> (\<forall>l \<in> set ls. below d l j)
      \<and> (\<forall>u \<in> set (ms_labels d). (\<forall>l \<in> set ls. below d l u) \<longrightarrow> below d j u))
    \<and> (\<exists>m \<in> set (ms_labels d). scheme_meet d ls = Inr m \<and> (\<forall>l \<in> set ls. below d m l)
      \<and> (\<forall>u \<in> set (ms_labels d). (\<forall>l \<in> set ls. below d u l) \<longrightarrow> below d u m))"
proof -
  from assms(1) have "valid_scheme d" by (rule marking_scheme_cases)
  with assms(2) show ?thesis by (simp add: scheme_join_lub scheme_meet_glb)
qed

theorem scheme_join_meet_bounds_witness:
  "\<exists>j. scheme_join example_levels [lit ''U'', lit ''S''] = Inr j \<and> below example_levels (lit ''S'') j"
  using scheme_join_meet_bounds [OF example_levels_built, of "[lit ''U'', lit ''S'']"]
  by (auto simp: example_levels_def)

lemma authorized_from_names:
  "authorized_from eng c m = Inr True \<Longrightarrow> sid \<in> set (dict_keys m) \<Longrightarrow> dict_get c sid \<noteq> None"
  by (induction eng c m rule: authorized_from.induct) (auto split: option.splits sum.splits if_splits)

lemma authorized_names:
  assumes "is_authorized eng m c = Inr True"
  shows "set (dict_keys m) \<subseteq> set (dict_keys c)"
proof
  fix sid assume "sid \<in> set (dict_keys m)"
  moreover have "authorized_from eng c m = Inr True" using assms by (auto simp: is_authorized_def split: sum.splits)
  ultimately have "dict_get c sid \<noteq> None" by (rule authorized_from_names [rotated])
  then show "sid \<in> set (dict_keys c)" by (simp only: dict_mem_keys) simp
qed

text \<open>
  C30 [marking_join_no_downgrade]: joining valid marking sets always succeeds and marks every scheme of
  the engine; a known clearance is authorized for the joined marking exactly when it is authorized for each of the
  joined ones and names every scheme of the engine, also those that none of them marks.
\<close>

theorem marking_join_no_downgrade:
  assumes "marking_engine ds = Inr eng" and "\<forall>d \<in> set ds. valid_scheme d"
    and "\<forall>m \<in> set ms. marking_validate eng m = Inr () \<and> dict_ok m"
  shows "\<exists>j. marking_join eng ms = Inr j \<and> dict_keys j = dict_keys eng
    \<and> (\<forall>c. marking_validate eng c = Inr () \<longrightarrow>
         (is_authorized eng j c = Inr True \<longleftrightarrow>
            set (dict_keys eng) \<subseteq> set (dict_keys c) \<and> (\<forall>m \<in> set ms. is_authorized eng m c = Inr True)))"
proof -
  have eng: "engine_ok eng" using assms(1,2) by (rule marking_engine_ok)
  have ms: "\<forall>m \<in> set ms. known_marking eng m" using assms(3) marking_validate_iff [OF eng] by blast
  from marking_join_ok [OF eng ms] obtain j where j: "marking_join eng ms = Inr j" "map fst j = map fst eng"
    "\<And>sid d. dict_get eng sid = Some d \<Longrightarrow> \<exists>l. dict_get j sid = Some l \<and> scheme_join d (joined_labels ms sid d) = Inr l"
    by blast
  have lub: "\<exists>d l. dict_get eng sid = Some d \<and> l \<in> set (ms_labels d) \<and> dict_get j sid = Some l
      \<and> (\<forall>x \<in> set (joined_labels ms sid d). below d x l)
      \<and> (\<forall>u \<in> set (ms_labels d). (\<forall>x \<in> set (joined_labels ms sid d). below d x u) \<longrightarrow> below d l u)"
    if "sid \<in> set (map fst eng)" for sid
  proof -
    from that obtain d where d: "dict_get eng sid = Some d" using dict_mem_keys [of sid eng] by auto
    then have v: "valid_scheme d" using eng by (auto simp: engine_ok_def)
    from j(3) [OF d] scheme_join_lub [OF v joined_labels_known [OF eng ms d]] d show ?thesis by auto
  qed
  have jok: "dict_ok j" using j(2) eng by (simp add: engine_ok_def)
  have "is_authorized eng m c = Inr True" if c: "is_authorized eng j c = Inr True" and m: "m \<in> set ms" for c m
    using joined_below [OF eng lub jok j(2) _ m] c ms m assms(3) by blast
  moreover have "is_authorized eng j c = Inr True"
    if "marking_validate eng c = Inr ()" "set (map fst eng) \<subseteq> set (map fst c)"
      "\<forall>m \<in> set ms. is_authorized eng m c = Inr True" for c
    using joined_above [OF eng lub jok j(2) that] by blast
  moreover have "set (map fst eng) \<subseteq> set (map fst c)" if "is_authorized eng j c = Inr True" for c
    using authorized_names [of eng j c] that j(2) by simp
  ultimately show ?thesis using j(1,2) by blast
qed

theorem marking_join_no_downgrade_witness:
  "\<exists>j. marking_join [(lit ''c'', example_levels)] [[(lit ''c'', lit ''S'')], []] = Inr j \<and> dict_keys j = [lit ''c'']"
proof -
  have "marking_engine [example_levels] = Inr [(lit ''c'', example_levels)]"
    by (simp add: marking_engine_def dict_of_def example_levels_def)
  moreover have "\<forall>d \<in> set [example_levels]. valid_scheme d" using example_levels_valid by simp
  moreover have "\<forall>m \<in> set [[(lit ''c'', lit ''S'')], []].
      marking_validate [(lit ''c'', example_levels)] m = Inr () \<and> dict_ok m"
    by (simp add: marking_validate_def require_label_def example_levels_def)
  ultimately have "\<exists>j. marking_join [(lit ''c'', example_levels)] [[(lit ''c'', lit ''S'')], []] = Inr j
      \<and> dict_keys j = dict_keys [(lit ''c'', example_levels)]"
    using marking_join_no_downgrade by blast
  then show ?thesis by simp
qed

text \<open>
  \<^verbatim>\<open>disclose\<close> hands out the payload exactly when every label of the content is
  dominated by the clearance's label in the same scheme, and otherwise a refusal that carries nothing.
\<close>

theorem disclose_only_cleared:
  assumes "engine_ok eng" and "known_marking eng m" and "known_marking eng c"
  shows "disclose eng payload m c =
    Inr (if \<forall>(sid, l) \<in> set m. \<exists>g. dict_get c sid = Some g \<and> below (the (dict_get eng sid)) l g
         then \<lparr>dd_allowed = True, dd_reason = ''clearance dominates all markings'', dd_payload = payload\<rparr>
         else \<lparr>dd_allowed = False, dd_reason = ''insufficient marking clearance'', dd_payload = PNone\<rparr>)"
proof -
  have "marking_validate eng m = Inr ()" "marking_validate eng c = Inr ()"
    using assms marking_validate_iff by blast+
  then show ?thesis
    by (simp add: disclose_def is_authorized_def authorized_from_iff [OF assms])
qed

theorem disclose_only_cleared_witness:
  "disclose [(lit ''c'', example_levels)] (PInt 1) [(lit ''c'', lit ''S'')] [(lit ''c'', lit ''U'')] =
     Inr \<lparr>dd_allowed = False, dd_reason = ''insufficient marking clearance'', dd_payload = PNone\<rparr>"
proof -
  have "engine_ok [(lit ''c'', example_levels)]" using example_levels_valid by (auto simp: engine_ok_def split: if_splits)
  moreover have "known_marking [(lit ''c'', example_levels)] [(lit ''c'', l)]" if "l = lit ''S'' \<or> l = lit ''U''" for l
    using that by (auto simp: known_marking_def example_levels_def)
  ultimately show ?thesis
    by (subst disclose_only_cleared) (auto simp: below_def clo_def example_levels_def)
qed

end
