(* ===== verification/C5_Actions.thy ===== *)
theory C5_Actions
  imports Canonical
begin

text \<open>
  The action state machine of \<^verbatim>\<open>c5_actions.py\<close>: the transition table ACT-T01 to ACT-T31b, the window
  checks, and the hash-chained audit act_history that every transition extends and verifies.  An \<^verbatim>\<open>Action\<close>
  is immutable in the code; a transition returns the new one.
\<close>

section \<open>States, events and the transition table\<close>

datatype ActionState =
    DRAFT | PROPOSED | VALIDATED | AUTHORIZED | SCHEDULED | READY
  | RUNNING | PAUSED | SUCCEEDED | FAILED | CANCELLED | EXPIRED
  | COMPENSATING | COMPENSATED | REJECTED | ABSTAINED

datatype ActionEvent =
    SUBMIT | CANCEL | VALIDATE | REJECT | AUTHORIZE | SCHEDULE
  | DISPATCH | REVOKE | ACTIVATE | RESCHEDULE | EXPIRE | START
  | DEFER | PAUSE | SUCCEED | FAIL | RESUME | RETRY
  | COMPENSATE | COMPLETE | ABSTAIN

fun state_value :: "ActionState \<Rightarrow> string" where
  "state_value DRAFT = ''DRAFT''"
| "state_value PROPOSED = ''PROPOSED''"
| "state_value VALIDATED = ''VALIDATED''"
| "state_value AUTHORIZED = ''AUTHORIZED''"
| "state_value SCHEDULED = ''SCHEDULED''"
| "state_value READY = ''READY''"
| "state_value RUNNING = ''RUNNING''"
| "state_value PAUSED = ''PAUSED''"
| "state_value SUCCEEDED = ''SUCCEEDED''"
| "state_value FAILED = ''FAILED''"
| "state_value CANCELLED = ''CANCELLED''"
| "state_value EXPIRED = ''EXPIRED''"
| "state_value COMPENSATING = ''COMPENSATING''"
| "state_value COMPENSATED = ''COMPENSATED''"
| "state_value REJECTED = ''REJECTED''"
| "state_value ABSTAINED = ''ABSTAINED''"

fun event_value :: "ActionEvent \<Rightarrow> string" where
  "event_value SUBMIT = ''SUBMIT''"
| "event_value CANCEL = ''CANCEL''"
| "event_value VALIDATE = ''VALIDATE''"
| "event_value REJECT = ''REJECT''"
| "event_value AUTHORIZE = ''AUTHORIZE''"
| "event_value SCHEDULE = ''SCHEDULE''"
| "event_value DISPATCH = ''DISPATCH''"
| "event_value REVOKE = ''REVOKE''"
| "event_value ACTIVATE = ''ACTIVATE''"
| "event_value RESCHEDULE = ''RESCHEDULE''"
| "event_value EXPIRE = ''EXPIRE''"
| "event_value START = ''START''"
| "event_value DEFER = ''DEFER''"
| "event_value PAUSE = ''PAUSE''"
| "event_value SUCCEED = ''SUCCEED''"
| "event_value FAIL = ''FAIL''"
| "event_value RESUME = ''RESUME''"
| "event_value RETRY = ''RETRY''"
| "event_value COMPENSATE = ''COMPENSATE''"
| "event_value COMPLETE = ''COMPLETE''"
| "event_value ABSTAIN = ''ABSTAIN''"

definition action_states :: "ActionState list" where
  "action_states = [DRAFT, PROPOSED, VALIDATED, AUTHORIZED, SCHEDULED, READY, RUNNING, PAUSED, SUCCEEDED, FAILED, CANCELLED, EXPIRED, COMPENSATING, COMPENSATED, REJECTED, ABSTAINED]"

definition action_events :: "ActionEvent list" where
  "action_events = [SUBMIT, CANCEL, VALIDATE, REJECT, AUTHORIZE, SCHEDULE, DISPATCH, REVOKE, ACTIVATE, RESCHEDULE, EXPIRE, START, DEFER, PAUSE, SUCCEED, FAIL, RESUME, RETRY, COMPENSATE, COMPLETE, ABSTAIN]"

record TransitionSpec =
  ts_transition_id :: pystr
  ts_source :: ActionState
  ts_event :: ActionEvent
  ts_target :: ActionState
  ts_enforces_action_window :: bool

definition mk_spec :: "string \<Rightarrow> ActionState \<Rightarrow> ActionEvent \<Rightarrow> ActionState \<Rightarrow> bool \<Rightarrow> TransitionSpec" where
  "mk_spec i s e t w = \<lparr>ts_transition_id = lit i, ts_source = s, ts_event = e, ts_target = t, ts_enforces_action_window = w\<rparr>"

definition SPECS :: "TransitionSpec list" where
  "SPECS =
    [mk_spec ''ACT-T01'' DRAFT SUBMIT PROPOSED False,
     mk_spec ''ACT-T02'' DRAFT CANCEL CANCELLED False,
     mk_spec ''ACT-T03'' PROPOSED VALIDATE VALIDATED False,
     mk_spec ''ACT-T04'' PROPOSED REJECT REJECTED False,
     mk_spec ''ACT-T05'' PROPOSED CANCEL CANCELLED False,
     mk_spec ''ACT-T06'' VALIDATED AUTHORIZE AUTHORIZED False,
     mk_spec ''ACT-T07'' VALIDATED REJECT REJECTED False,
     mk_spec ''ACT-T08'' VALIDATED CANCEL CANCELLED False,
     mk_spec ''ACT-T09'' AUTHORIZED SCHEDULE SCHEDULED False,
     mk_spec ''ACT-T10'' AUTHORIZED DISPATCH READY True,
     mk_spec ''ACT-T11'' AUTHORIZED REVOKE CANCELLED False,
     mk_spec ''ACT-T12'' SCHEDULED ACTIVATE READY True,
     mk_spec ''ACT-T13'' SCHEDULED RESCHEDULE SCHEDULED False,
     mk_spec ''ACT-T14'' SCHEDULED EXPIRE EXPIRED False,
     mk_spec ''ACT-T15'' SCHEDULED CANCEL CANCELLED False,
     mk_spec ''ACT-T16'' READY START RUNNING True,
     mk_spec ''ACT-T17'' READY DEFER SCHEDULED False,
     mk_spec ''ACT-T18'' READY EXPIRE EXPIRED False,
     mk_spec ''ACT-T19'' READY CANCEL CANCELLED False,
     mk_spec ''ACT-T20'' RUNNING PAUSE PAUSED False,
     mk_spec ''ACT-T21'' RUNNING SUCCEED SUCCEEDED False,
     mk_spec ''ACT-T22'' RUNNING FAIL FAILED False,
     mk_spec ''ACT-T23'' RUNNING CANCEL CANCELLED False,
     mk_spec ''ACT-T24'' PAUSED RESUME RUNNING True,
     mk_spec ''ACT-T25'' PAUSED FAIL FAILED False,
     mk_spec ''ACT-T26'' PAUSED CANCEL CANCELLED False,
     mk_spec ''ACT-T27'' FAILED RETRY READY False,
     mk_spec ''ACT-T28'' FAILED COMPENSATE COMPENSATING False,
     mk_spec ''ACT-T29'' SUCCEEDED COMPENSATE COMPENSATING False,
     mk_spec ''ACT-T30'' COMPENSATING COMPLETE COMPENSATED False,
     mk_spec ''ACT-T31a'' COMPENSATING FAIL FAILED False,
     mk_spec ''ACT-T31b'' READY ABSTAIN ABSTAINED False]"

definition TRANSITIONS :: "(ActionState \<times> ActionEvent, TransitionSpec) dict" where
  "TRANSITIONS = dict_of (map (\<lambda>s. ((ts_source s, ts_event s), s)) SPECS)"

definition TRANSITIONS_BY_ID :: "(pystr, TransitionSpec) dict" where
  "TRANSITIONS_BY_ID = dict_of (map (\<lambda>s. (ts_transition_id s, s)) SPECS)"

definition conceptual_transition_count :: int where
  "conceptual_transition_count = 31"

definition TERMINAL_STATES :: "ActionState set" where
  "TERMINAL_STATES = {CANCELLED, EXPIRED, COMPENSATED, REJECTED, ABSTAINED}"

section \<open>Actions\<close>

record ActionAuditEntry =
  ae_transition_id :: pystr
  ae_source :: ActionState
  ae_event :: ActionEvent
  ae_target :: ActionState
  ae_occurred_at :: datetime
  ae_actor :: pystr
  ae_evidence :: pyval
  ae_previous_hash :: pystr
  ae_entry_hash :: pystr

record Action =
  act_action_id :: pystr
  act_state :: ActionState
  act_version :: int
  act_not_before :: "datetime option"
  act_expires_at :: "datetime option"
  act_history :: "ActionAuditEntry list"

definition opt_aware :: "string \<Rightarrow> datetime option \<Rightarrow> unit res" where
  "opt_aware fld d = (case d of None \<Rightarrow> Inr ()
     | Some i \<Rightarrow> (case require_aware fld i of Inl e \<Rightarrow> Inl e | Inr _ \<Rightarrow> Inr ()))"

text \<open>\<^verbatim>\<open>__post_init__\<close>: the checks every construction of an \<^verbatim>\<open>Action\<close> makes.\<close>

definition post_init :: "Action \<Rightarrow> Action res" where
  "post_init a =
     (if act_action_id a = [] then Inl (ValueError ''action_id must be non-empty'')
      else if act_version a < 0 then Inl (ValueError ''action version cannot be negative'')
      else case opt_aware ''not_before'' (act_not_before a) of Inl e \<Rightarrow> Inl e
      | Inr _ \<Rightarrow>
       (case opt_aware ''expires_at'' (act_expires_at a) of Inl e \<Rightarrow> Inl e
        | Inr _ \<Rightarrow>
           if (case (act_not_before a, act_expires_at a) of (Some n, Some x) \<Rightarrow> dt_le x n | _ \<Rightarrow> False)
           then Inl (TemporalGuardViolation ''not_before must precede expires_at'')
           else Inr a))"

definition coerce_state :: "ActionState + pystr \<Rightarrow> ActionState res" where
  "coerce_state v =
     (case v of Inl s \<Rightarrow> Inr s
      | Inr t \<Rightarrow> (case find (\<lambda>s. lit (state_value s) = t) action_states of
          None \<Rightarrow> Inl (InvalidTransition ''unknown action state'') | Some s \<Rightarrow> Inr s))"

definition coerce_event :: "ActionEvent + pystr \<Rightarrow> ActionEvent res" where
  "coerce_event v =
     (case v of Inl e \<Rightarrow> Inr e
      | Inr t \<Rightarrow> (case find (\<lambda>e. lit (event_value e) = t) action_events of
          None \<Rightarrow> Inl (InvalidTransition ''unknown action event'') | Some e \<Rightarrow> Inr e))"

definition allowed_events :: "ActionState + pystr \<Rightarrow> ActionEvent list res" where
  "allowed_events st =
     (case coerce_state st of Inl e \<Rightarrow> Inl e
      | Inr current \<Rightarrow>
         Inr (sort_key (\<lambda>e. lit (event_value e))
                (map snd (filter (\<lambda>(s, e). s = current) (dict_keys TRANSITIONS)))))"

definition check_window :: "Action \<Rightarrow> TransitionSpec \<Rightarrow> datetime \<Rightarrow> unit res" where
  "check_window a sp instant =
     (if ts_event sp = EXPIRE then
        (if (case act_expires_at a of None \<Rightarrow> True | Some x \<Rightarrow> dt_lt instant x)
         then Inl (TemporalGuardViolation ''EXPIRE is legal only at or after the action expiration'')
         else Inr ())
      else if \<not> ts_enforces_action_window sp then Inr ()
      else if (case act_not_before a of None \<Rightarrow> False | Some n \<Rightarrow> dt_lt instant n)
      then Inl (TemporalGuardViolation ''action is not yet active'')
      else if (case act_expires_at a of None \<Rightarrow> False | Some x \<Rightarrow> dt_le x instant)
      then Inl (TemporalGuardViolation ''action capability window has expired'')
      else Inr ())"

section \<open>The audit chain\<close>

definition genesis :: pystr where
  "genesis = replicate 64 48"

definition audit_payload ::
  "pystr \<Rightarrow> pystr \<Rightarrow> ActionState \<Rightarrow> ActionEvent \<Rightarrow> ActionState \<Rightarrow> datetime \<Rightarrow> pystr \<Rightarrow> pyval \<Rightarrow> pystr \<Rightarrow> int \<Rightarrow> pyval" where
  "audit_payload aid tid src ev tgt instant actor evidence prev version =
     obj [(''actionId'', PStr aid), (''transitionId'', PStr tid), (''source'', PStr (lit (state_value src))),
          (''event'', PStr (lit (event_value ev))), (''target'', PStr (lit (state_value tgt))),
          (''occurredAt'', PStr (isoformat instant)), (''actor'', PStr actor), (''evidence'', evidence),
          (''previousHash'', PStr prev), (''version'', PInt version)]"

definition entry_payload :: "pystr \<Rightarrow> ActionAuditEntry \<Rightarrow> int \<Rightarrow> pyval" where
  "entry_payload aid e version =
     audit_payload aid (ae_transition_id e) (ae_source e) (ae_event e) (ae_target e) (ae_occurred_at e)
       (ae_actor e) (ae_evidence e) (ae_previous_hash e) version"

text \<open>The loop of \<^verbatim>\<open>verify_history\<close>; it carries the previous hash and state and the version.\<close>

fun verify_entries ::
  "pystr \<Rightarrow> pystr \<Rightarrow> ActionState \<Rightarrow> int \<Rightarrow> ActionAuditEntry list \<Rightarrow> (ActionState option) res" where
  "verify_entries aid prev st version [] = Inr (Some st)"
| "verify_entries aid prev st version (e # es) =
     (if ae_previous_hash e \<noteq> prev \<or> ae_source e \<noteq> st then Inr None
      else case canonical_sha256 (entry_payload aid e version) of Inl x \<Rightarrow> Inl x
      | Inr h \<Rightarrow> if h \<noteq> ae_entry_hash e then Inr None
                else verify_entries aid (ae_entry_hash e) (ae_target e) (version + 1) es)"

definition verify_history :: "Action \<Rightarrow> bool res" where
  "verify_history a =
     (case verify_entries (act_action_id a) genesis DRAFT 1 (act_history a) of Inl x \<Rightarrow> Inl x
      | Inr None \<Rightarrow> Inr False
      | Inr (Some st) \<Rightarrow> Inr (act_version a = int (length (act_history a)) \<and> act_state a = st))"

definition last_hash :: "ActionAuditEntry list \<Rightarrow> pystr" where
  "last_hash h = (if h = [] then genesis else ae_entry_hash (last h))"

section \<open>Transitions\<close>

text \<open>The arguments of one call of \<^verbatim>\<open>transition\<close>.\<close>

record TransitionRequest =
  tr_event :: "ActionEvent + pystr"
  tr_occurred_at :: datetime
  tr_actor :: pystr
  tr_evidence :: "(dkey \<times> pyval) list option"
  tr_expected_version :: "int option"

definition extend_history :: "Action \<Rightarrow> TransitionSpec \<Rightarrow> TransitionRequest \<Rightarrow> datetime \<Rightarrow> Action res" where
  "extend_history a sp q instant =
     (let evidence = PDict (case tr_evidence q of None \<Rightarrow> [] | Some kvs \<Rightarrow> kvs);
          prev = last_hash (act_history a);
          payload = audit_payload (act_action_id a) (ts_transition_id sp) (ts_source sp) (ts_event sp) (ts_target sp) instant
                      (tr_actor q) evidence prev (act_version a + 1)
      in case freeze_json evidence of Inl x \<Rightarrow> Inl x
      | Inr frozen \<Rightarrow>
       (case canonical_sha256 payload of Inl x \<Rightarrow> Inl x
        | Inr h \<Rightarrow>
           let entry = \<lparr>ae_transition_id = ts_transition_id sp, ae_source = ts_source sp, ae_event = ts_event sp,
                        ae_target = ts_target sp, ae_occurred_at = instant, ae_actor = tr_actor q,
                        ae_evidence = frozen, ae_previous_hash = prev, ae_entry_hash = h\<rparr>
           in post_init (a\<lparr>act_state := ts_target sp, act_version := act_version a + 1,
                          act_history := act_history a @ [entry]\<rparr>)))"

definition transition :: "Action \<Rightarrow> TransitionRequest \<Rightarrow> Action res" where
  "transition a q =
     (if tr_actor q = [] then Inl (ValueError ''transition actor must be non-empty'')
      else case require_aware ''occurred_at'' (tr_occurred_at q) of Inl x \<Rightarrow> Inl x
      | Inr instant \<Rightarrow>
       if (case tr_expected_version q of None \<Rightarrow> False | Some v \<Rightarrow> v \<noteq> act_version a)
       then Inl (ConcurrencyConflict ''expected action version differs'')
       else case (if act_history a = [] then Inr True else verify_history a) of Inl x \<Rightarrow> Inl x
       | Inr False \<Rightarrow> Inl (InvalidTransition ''action audit history failed integrity verification'')
       | Inr True \<Rightarrow>
        (case coerce_event (tr_event q) of Inl x \<Rightarrow> Inl x
         | Inr ev \<Rightarrow>
          (case dict_get TRANSITIONS (act_state a, ev) of
             None \<Rightarrow> Inl (InvalidTransition ''event is not legal from the current state'')
           | Some sp \<Rightarrow>
              if act_history a \<noteq> [] \<and> dt_lt instant (ae_occurred_at (last (act_history a)))
              then Inl (TemporalGuardViolation ''action history cannot move backwards in time'')
              else case check_window a sp instant of Inl x \<Rightarrow> Inl x
              | Inr _ \<Rightarrow> extend_history a sp q instant)))"

definition transition_by_id :: "Action \<Rightarrow> pystr \<Rightarrow> TransitionRequest \<Rightarrow> Action res" where
  "transition_by_id a tid q =
     (case dict_get TRANSITIONS_BY_ID tid of
        None \<Rightarrow> Inl (InvalidTransition ''unknown transition id'')
      | Some sp \<Rightarrow>
         if act_state a \<noteq> ts_source sp
         then Inl (InvalidTransition ''transition requires another state'')
         else transition a (q\<lparr>tr_event := Inl (ts_event sp)\<rparr>))"

section \<open>The table\<close>

lemma TRANSITIONS_mem:
  "dict_get TRANSITIONS (s, e) = Some sp \<Longrightarrow> sp \<in> set SPECS \<and> ts_source sp = s \<and> ts_event sp = e"
  unfolding TRANSITIONS_def by (drule dict_of_mem) auto

text \<open>The table with its rows as tuples, for evaluation.\<close>

lemma TRANSITIONS_code:
  "dict_get TRANSITIONS (s, e) = map_of (rev (map (\<lambda>sp. ((ts_source sp, ts_event sp), sp)) SPECS)) (s, e)"
  by (simp add: TRANSITIONS_def dict_get_dict_of)

section \<open>The audit chain is extended correctly\<close>

lemma verify_entries_snoc:
  "verify_entries aid prev st v (es @ [e]) = Inr (Some t) \<longleftrightarrow>
     (\<exists>s. verify_entries aid prev st v es = Inr (Some s) \<and> ae_source e = s \<and> ae_target e = t
        \<and> ae_previous_hash e = (if es = [] then prev else ae_entry_hash (last es))
        \<and> canonical_sha256 (entry_payload aid e (v + int (length es))) = Inr (ae_entry_hash e))"
proof (induction es arbitrary: prev st v)
  case Nil
  then show ?case by (auto split: sum.splits)
next
  case (Cons x es)
  then show ?case by (auto simp: add.assoc split: sum.splits if_splits)
qed

lemma audit_payload_freeze:
  assumes "freeze_json evidence = Inr frozen"
  shows "canonical_sha256 (audit_payload aid tid s e t i actor frozen prev v) =
    canonical_sha256 (audit_payload aid tid s e t i actor evidence prev v)"
proof -
  have "serialize frozen = serialize evidence" using assms by (rule freeze_json_serialize)
  then show ?thesis
    by (simp add: canonical_sha256_def canonicalize_def canonicalize_json_def audit_payload_def)
qed

text \<open>What a transition that succeeds did.\<close>

definition new_entry :: "Action \<Rightarrow> TransitionSpec \<Rightarrow> TransitionRequest \<Rightarrow> pyval \<Rightarrow> pystr \<Rightarrow> ActionAuditEntry" where
  "new_entry a sp q frozen h =
     \<lparr>ae_transition_id = ts_transition_id sp, ae_source = ts_source sp, ae_event = ts_event sp,
      ae_target = ts_target sp, ae_occurred_at = tr_occurred_at q, ae_actor = tr_actor q,
      ae_evidence = frozen, ae_previous_hash = last_hash (act_history a), ae_entry_hash = h\<rparr>"

lemma post_init_Inr [simp]: "post_init a = Inr b \<Longrightarrow> b = a"
  by (auto simp: post_init_def split: sum.splits if_splits)

lemma extend_historyD:
  assumes "extend_history a sp q i = Inr b" "i = tr_occurred_at q"
  shows "\<exists>frozen h. b = a\<lparr>act_state := ts_target sp, act_version := act_version a + 1,
        act_history := act_history a @ [new_entry a sp q frozen h]\<rparr>
      \<and> canonical_sha256 (entry_payload (act_action_id a) (new_entry a sp q frozen h) (act_version a + 1)) = Inr h"
proof -
  let ?ev = "PDict (case tr_evidence q of None \<Rightarrow> [] | Some kvs \<Rightarrow> kvs)"
  from assms obtain frozen h where f: "freeze_json ?ev = Inr frozen"
    and h: "canonical_sha256 (audit_payload (act_action_id a) (ts_transition_id sp) (ts_source sp) (ts_event sp)
        (ts_target sp) i (tr_actor q) ?ev (last_hash (act_history a)) (act_version a + 1)) = Inr h"
    and b: "post_init (a\<lparr>act_state := ts_target sp, act_version := act_version a + 1,
        act_history := act_history a @ [new_entry a sp q frozen h]\<rparr>) = Inr b"
    by (auto simp: extend_history_def Let_def new_entry_def split: sum.splits)
  from h have "canonical_sha256 (entry_payload (act_action_id a) (new_entry a sp q frozen h) (act_version a + 1)) = Inr h"
    using assms(2) by (simp add: entry_payload_def new_entry_def audit_payload_freeze [OF f])
  with post_init_Inr [OF b] show ?thesis by blast
qed

lemma transition_cases:
  assumes "transition a q = Inr b"
  obtains sp frozen h where "sp \<in> set SPECS" "ts_source sp = act_state a"
    "check_window a sp (tr_occurred_at q) = Inr ()" "tr_actor q \<noteq> []" "dt_aware (tr_occurred_at q)"
    "act_history a = [] \<or> verify_history a = Inr True"
    "act_history a = [] \<or> dt_le (ae_occurred_at (last (act_history a))) (tr_occurred_at q)"
    "b = a\<lparr>act_state := ts_target sp, act_version := act_version a + 1,
        act_history := act_history a @ [new_entry a sp q frozen h]\<rparr>"
    "canonical_sha256 (entry_payload (act_action_id a) (new_entry a sp q frozen h) (act_version a + 1)) = Inr h"
proof -
  obtain ev sp where 1: "dict_get TRANSITIONS (act_state a, ev) = Some sp" "tr_actor q \<noteq> []"
    "dt_aware (tr_occurred_at q)" "check_window a sp (tr_occurred_at q) = Inr ()"
    "act_history a = [] \<or> verify_history a = Inr True"
    "act_history a = [] \<or> dt_le (ae_occurred_at (last (act_history a))) (tr_occurred_at q)"
    "extend_history a sp q (tr_occurred_at q) = Inr b"
    using assms unfolding transition_def
    by (auto split: if_splits sum.splits bool.splits option.splits)
  with that TRANSITIONS_mem [OF 1(1)] extend_historyD [OF 1(7)] show ?thesis by blast
qed

lemma verify_history_iff:
  "verify_history a = Inr True \<longleftrightarrow>
     verify_entries (act_action_id a) genesis DRAFT 1 (act_history a) = Inr (Some (act_state a))
     \<and> act_version a = int (length (act_history a))"
  by (auto simp: verify_history_def split: sum.splits option.splits)

lemma transition_verifies:
  assumes ok: "verify_history a = Inr True" and t: "transition a q = Inr b"
  shows "verify_history b = Inr True"
proof -
  from t obtain sp frozen h where sp: "ts_source sp = act_state a"
    and b: "b = a\<lparr>act_state := ts_target sp, act_version := act_version a + 1,
        act_history := act_history a @ [new_entry a sp q frozen h]\<rparr>"
    and h: "canonical_sha256 (entry_payload (act_action_id a) (new_entry a sp q frozen h) (act_version a + 1)) = Inr h"
    by (rule transition_cases)
  from ok have a: "verify_entries (act_action_id a) genesis DRAFT 1 (act_history a) = Inr (Some (act_state a))"
    "act_version a = int (length (act_history a))" by (simp_all add: verify_history_iff)
  have "ae_source (new_entry a sp q frozen h) = act_state a" "ae_target (new_entry a sp q frozen h) = ts_target sp"
    "ae_previous_hash (new_entry a sp q frozen h) = last_hash (act_history a)" "ae_entry_hash (new_entry a sp q frozen h) = h"
    using sp by (simp_all add: new_entry_def)
  then show ?thesis
    using a h by (simp add: verify_history_iff b verify_entries_snoc last_hash_def add.commute)
qed

section \<open>Reachable actions\<close>

definition new_action :: "Action \<Rightarrow> bool" where
  "new_action a \<longleftrightarrow> post_init a = Inr a \<and> act_state a = DRAFT \<and> act_version a = 0 \<and> act_history a = []"

inductive action_step :: "Action \<Rightarrow> Action \<Rightarrow> bool" where
  by_event: "transition a q = Inr b \<Longrightarrow> action_step a b"
| by_id: "transition_by_id a tid q = Inr b \<Longrightarrow> action_step a b"

inductive_cases action_stepE: "action_step a b"

lemma action_step_transition: "action_step a b \<Longrightarrow> \<exists>q. transition a q = Inr b"
  by (erule action_stepE) (auto simp: transition_by_id_def split: option.splits if_splits)

text \<open>An entry is legal when it is a row of the table that was taken inside the action's window.\<close>

definition entry_legal :: "Action \<Rightarrow> ActionAuditEntry \<Rightarrow> bool" where
  "entry_legal a e \<longleftrightarrow>
     (\<exists>sp \<in> set SPECS. ae_transition_id e = ts_transition_id sp \<and> ae_source e = ts_source sp
        \<and> ae_event e = ts_event sp \<and> ae_target e = ts_target sp \<and> check_window a sp (ae_occurred_at e) = Inr ())"

definition action_inv :: "Action \<Rightarrow> bool" where
  "action_inv a \<longleftrightarrow> verify_history a = Inr True \<and> list_all (entry_legal a) (act_history a)
     \<and> list_all (\<lambda>e. ae_actor e \<noteq> []) (act_history a)
     \<and> sorted_wrt dt_le (map ae_occurred_at (act_history a))"

lemma entry_legal_window:
  "act_not_before a = act_not_before b \<Longrightarrow> act_expires_at a = act_expires_at b \<Longrightarrow> entry_legal a = entry_legal b"
  by (simp add: entry_legal_def check_window_def fun_eq_iff)

lemma sorted_wrt_le_last:
  "sorted_wrt dt_le xs \<Longrightarrow> x \<in> set xs \<Longrightarrow> dt_le x (last xs)"
  by (induction xs rule: rev_induct) (auto simp: sorted_wrt_append)

lemma transition_inv:
  assumes inv: "action_inv a" and t: "transition a q = Inr b"
  shows "action_inv b"
proof -
  from t obtain sp frozen h where sp: "sp \<in> set SPECS" "check_window a sp (tr_occurred_at q) = Inr ()"
    and q: "tr_actor q \<noteq> []" "act_history a = [] \<or> dt_le (ae_occurred_at (last (act_history a))) (tr_occurred_at q)"
    and b: "b = a\<lparr>act_state := ts_target sp, act_version := act_version a + 1,
        act_history := act_history a @ [new_entry a sp q frozen h]\<rparr>"
    by (rule transition_cases)
  have leg: "entry_legal b = entry_legal a" using b by (intro entry_legal_window) simp_all
  have "entry_legal a (new_entry a sp q frozen h)"
    using sp by (auto simp: entry_legal_def new_entry_def)
  moreover have "dt_le (ae_occurred_at e) (tr_occurred_at q)" if "e \<in> set (act_history a)" for e
  proof -
    from that inv have "dt_le (ae_occurred_at e) (last (map ae_occurred_at (act_history a)))"
      by (intro sorted_wrt_le_last) (auto simp: action_inv_def)
    moreover from that have "act_history a \<noteq> []" by auto
    ultimately show ?thesis using q(2) by (auto simp: last_map)
  qed
  moreover have "verify_history b = Inr True"
    using inv t by (auto simp: action_inv_def intro: transition_verifies)
  ultimately show ?thesis
    using inv q(1) unfolding action_inv_def leg by (auto simp: b sorted_wrt_append new_entry_def)
qed

interpretation action_sys: invariant_system new_action action_step action_inv
proof unfold_locales
  show "action_inv a" if "new_action a" for a
    using that by (simp add: new_action_def action_inv_def verify_history_iff)
  show "action_inv b" if "action_inv a" "action_step a b" for a b
    using that action_step_transition transition_inv by blast
qed

text \<open>The identity and the window of an action never change, and its history only grows.\<close>

definition action_le :: "Action \<Rightarrow> Action \<Rightarrow> bool" where
  "action_le a b \<longleftrightarrow> act_action_id b = act_action_id a \<and> act_not_before b = act_not_before a
     \<and> act_expires_at b = act_expires_at a \<and> prefix (act_history a) (act_history b)"

interpretation action_run: monotone_system action_step action_le
proof unfold_locales
  show "action_le a b" if step: "action_step a b" for a b
  proof -
    from action_step_transition [OF step] obtain q where "transition a q = Inr b" by blast
    then show ?thesis by (rule transition_cases) (simp add: action_le_def)
  qed
qed (auto simp: action_le_def)

section \<open>Terminal states\<close>

lemma all_states [simp]: "s \<in> set action_states"
  by (cases s) (simp_all add: action_states_def)

lemma SPECS_sources:
  "(\<exists>sp \<in> set SPECS. ts_source sp = s) \<longleftrightarrow> s \<notin> TERMINAL_STATES"
  by (cases s) (simp_all add: SPECS_def mk_spec_def TERMINAL_STATES_def)

lemma TRANSITIONS_keys: "(s, e) \<in> set (dict_keys TRANSITIONS) \<longleftrightarrow> (\<exists>sp \<in> set SPECS. ts_source sp = s \<and> ts_event sp = e)"
  unfolding dict_mem_keys TRANSITIONS_code unfolding dict_mem_keys [symmetric] by (force simp: image_iff)

lemma allowed_events_Nil_iff: "allowed_events (Inl s) = Inr [] \<longleftrightarrow> s \<in> TERMINAL_STATES"
proof -
  have "allowed_events (Inl s) = Inr [] \<longleftrightarrow> (\<forall>e. (s, e) \<notin> set (dict_keys TRANSITIONS))"
    by (auto simp: allowed_events_def coerce_state_def filter_empty_conv simp flip: set_empty)
  also have "\<dots> \<longleftrightarrow> (\<forall>sp \<in> set SPECS. ts_source sp \<noteq> s)"
    unfolding TRANSITIONS_keys by blast
  also have "\<dots> \<longleftrightarrow> s \<in> TERMINAL_STATES"
    using SPECS_sources [of s] by blast
  finally show ?thesis .
qed

section \<open>The chain binds its entries\<close>

text \<open>What the hash of an entry covers.\<close>

definition entry_view :: "ActionAuditEntry \<Rightarrow> pystr \<times> ActionState \<times> ActionEvent \<times> ActionState \<times> pystr \<times> pystr \<times> jv" where
  "entry_view e = (ae_transition_id e, ae_source e, ae_event e, ae_target e, isoformat (ae_occurred_at e),
     ae_actor e, json_view (ae_evidence e))"

text \<open>Two histories that contain entries whose payloads are a SHA-256 collision.\<close>

definition chain_collision :: "pystr \<Rightarrow> ActionAuditEntry list \<Rightarrow> ActionAuditEntry list \<Rightarrow> bool" where
  "chain_collision aid es fs \<longleftrightarrow>
     (\<exists>i < length es. \<exists>j < length fs.
        sha_collision (entry_payload aid (es ! i) (1 + int i)) (entry_payload aid (fs ! j) (1 + int j)))"

lemma chain_collision_snoc: "chain_collision aid es fs \<Longrightarrow> chain_collision aid (es @ [e]) (fs @ [f])"
  unfolding chain_collision_def by (metis length_append_singleton less_Suc_eq nth_append)

lemma chain_collision_last:
  "sha_collision (entry_payload aid e (1 + int (length es))) (entry_payload aid f (1 + int (length fs))) \<Longrightarrow>
     chain_collision aid (es @ [e]) (fs @ [f])"
  unfolding chain_collision_def by (metis length_append_singleton lessI nth_append_length)

lemma state_value_inj: "state_value s = state_value t \<Longrightarrow> s = t"
  by (cases s; cases t) simp_all

lemma event_value_inj: "event_value s = event_value t \<Longrightarrow> s = t"
  by (cases s; cases t) simp_all

text \<open>The fields of a payload can be read off its JSON value.\<close>

lemma audit_payload_inj:
  assumes "json_view (audit_payload a t s e g i ac ev p v) = json_view (audit_payload a' t' s' e' g' i' ac' ev' p' v')"
    and "\<bar>v\<bar> \<le> MAX_SAFE_INTEGER" "\<bar>v'\<bar> \<le> MAX_SAFE_INTEGER"
  shows "a = a' \<and> t = t' \<and> s = s' \<and> e = e' \<and> g = g' \<and> isoformat i = isoformat i' \<and> ac = ac'
    \<and> json_view ev = json_view ev' \<and> p = p' \<and> dec_int v = dec_int v'"
  using assms
  by (auto simp: audit_payload_def utf16_key_def utf16_char_def lit_def num_text_def serialize_integer_def
      lit_eq_iff [unfolded lit_def] dest: state_value_inj event_value_inj)

lemma entry_hash_binds:
  assumes "canonical_sha256 (entry_payload aid e v) = Inr h" "canonical_sha256 (entry_payload aid f w) = Inr h"
    and "py_chars (entry_payload aid e v)" "py_chars (entry_payload aid f w)"
    and "0 \<le> v" "v \<le> MAX_SAFE_INTEGER" "0 \<le> w" "w \<le> MAX_SAFE_INTEGER"
  shows "sha_collision (entry_payload aid e v) (entry_payload aid f w)
    \<or> (entry_view e = entry_view f \<and> ae_previous_hash e = ae_previous_hash f \<and> v = w)"
  using canonical_sha256_eq_cases [OF assms(1-4)]
proof
  assume "json_view (entry_payload aid e v) = json_view (entry_payload aid f w)"
  then have "entry_view e = entry_view f \<and> ae_previous_hash e = ae_previous_hash f \<and> dec_int v = dec_int w"
    using assms(5-8) unfolding entry_payload_def entry_view_def
    by (auto dest!: audit_payload_inj)
  then show ?thesis using assms(5,7) by (simp add: dec_int_inj)
qed simp

lemma py_chars_version: "py_chars (entry_payload aid e v) = py_chars (entry_payload aid e 0)"
  by (simp add: entry_payload_def audit_payload_def)

lemma chain_binds:
  assumes "verify_entries aid genesis DRAFT 1 es = Inr (Some s)" "verify_entries aid genesis DRAFT 1 fs = Inr (Some t)"
    and "es \<noteq> []" "fs \<noteq> []" "ae_entry_hash (last es) = ae_entry_hash (last fs)"
    and "\<And>e. e \<in> set es \<union> set fs \<Longrightarrow> py_chars (entry_payload aid e 0)"
    and "int (length es) \<le> MAX_SAFE_INTEGER" "int (length fs) \<le> MAX_SAFE_INTEGER"
  shows "chain_collision aid es fs \<or> map entry_view es = map entry_view fs"
  using assms
proof (induction es arbitrary: fs s t rule: rev_induct)
  case (snoc e es)
  from snoc.prems(4) obtain f fs' where fs: "fs = fs' @ [f]" by (metis rev_exhaust)
  let ?v = "1 + int (length es)" and ?w = "1 + int (length fs')"
  from snoc.prems(1) obtain s' where e: "verify_entries aid genesis DRAFT 1 es = Inr (Some s')"
    "ae_previous_hash e = (if es = [] then genesis else ae_entry_hash (last es))"
    "canonical_sha256 (entry_payload aid e ?v) = Inr (ae_entry_hash e)" by (auto simp: verify_entries_snoc)
  from snoc.prems(2) fs obtain t' where f: "verify_entries aid genesis DRAFT 1 fs' = Inr (Some t')"
    "ae_previous_hash f = (if fs' = [] then genesis else ae_entry_hash (last fs'))"
    "canonical_sha256 (entry_payload aid f ?w) = Inr (ae_entry_hash f)" by (auto simp: verify_entries_snoc)
  have "sha_collision (entry_payload aid e ?v) (entry_payload aid f ?w)
      \<or> (entry_view e = entry_view f \<and> ae_previous_hash e = ae_previous_hash f \<and> ?v = ?w)"
    using e(3) f(3) snoc.prems(5-8) fs py_chars_version [of aid e ?v] py_chars_version [of aid f ?w]
    by (intro entry_hash_binds) auto
  moreover have "chain_collision aid es fs' \<or> map entry_view es = map entry_view fs'"
    if "ae_previous_hash e = ae_previous_hash f" "?v = ?w"
  proof (cases "es = []")
    case False
    with that have "fs' \<noteq> []" by auto
    with False that e(2) f(2) snoc.prems(6-8) fs show ?thesis
      by (intro snoc.IH [OF e(1) f(1)]) auto
  qed (use that in auto)
  ultimately show ?case using fs chain_collision_last chain_collision_snoc by auto
qed simp

section \<open>Every action can be finished\<close>

lemma genesis_ascii: "list_all (\<lambda>c. c < 128) genesis"
  by (simp add: genesis_def list_all_iff)

lemma last_hash_ascii:
  assumes "verify_history a = Inr True"
  shows "list_all (\<lambda>c. c < 128) (last_hash (act_history a))"
proof (cases "act_history a" rule: rev_cases)
  case Nil
  then show ?thesis by (simp add: last_hash_def genesis_ascii)
next
  case (snoc es e)
  with assms have "canonical_sha256 (entry_payload (act_action_id a) e (1 + int (length es))) = Inr (ae_entry_hash e)"
    by (auto simp: verify_history_iff verify_entries_snoc)
  then show ?thesis using snoc by (auto simp: last_hash_def canonical_sha256_iff sha256_hex_ascii)
qed

lemma SPECS_id_ascii: "sp \<in> set SPECS \<Longrightarrow> list_all (\<lambda>c. c < 128) (ts_transition_id sp)"
  by (auto simp: SPECS_def mk_spec_def lit_def)

lemma audit_payload_i_json:
  assumes "sp \<in> set SPECS" "i_json (PStr aid)" "i_json (PStr actor)" "list_all (\<lambda>c. c < 128) prev"
    "\<bar>v\<bar> \<le> MAX_SAFE_INTEGER"
  shows "i_json (audit_payload aid (ts_transition_id sp) s e t i actor (PDict []) prev v)"
  using assms
  by (simp add: audit_payload_def ascii_no_surrogate isoformat_ascii SPECS_id_ascii)

text \<open>A request that carries no evidence and no expected version.\<close>

definition plain_request :: "ActionEvent \<Rightarrow> datetime \<Rightarrow> pystr \<Rightarrow> TransitionRequest" where
  "plain_request ev i actor = \<lparr>tr_event = Inl ev, tr_occurred_at = i, tr_actor = actor, tr_evidence = None,
     tr_expected_version = None\<rparr>"

lemma unguarded_transition:
  assumes ok: "verify_history a = Inr True" and sp: "dict_get TRANSITIONS (act_state a, ev) = Some sp"
    and free: "\<not> ts_enforces_action_window sp" "ev \<noteq> EXPIRE"
    and a: "post_init a = Inr a" "i_json (PStr (act_action_id a))" "act_version a + 1 \<le> MAX_SAFE_INTEGER"
    and q: "dt_aware i" "act_history a = [] \<or> dt_le (ae_occurred_at (last (act_history a))) i"
      "actor \<noteq> []" "i_json (PStr actor)"
  shows "\<exists>b. transition a (plain_request ev i actor) = Inr b \<and> act_state b = ts_target sp \<and> verify_history b = Inr True
    \<and> post_init b = Inr b \<and> act_action_id b = act_action_id a \<and> act_version b = act_version a + 1
    \<and> act_history b \<noteq> [] \<and> ae_occurred_at (last (act_history b)) = i"
proof -
  note m = TRANSITIONS_mem [OF sp]
  have v: "\<bar>act_version a + 1\<bar> \<le> MAX_SAFE_INTEGER"
    using ok a(3) by (simp add: verify_history_iff)
  have ij: "i_json (audit_payload (act_action_id a) (ts_transition_id sp) (ts_source sp) (ts_event sp) (ts_target sp) i actor
      (PDict []) (last_hash (act_history a)) (act_version a + 1))"
    using m a(2) q(4) last_hash_ascii [OF ok] v by (intro audit_payload_i_json) auto
  let ?q = "plain_request ev i actor"
  have w: "check_window a sp i = Inr ()" using free m by (simp add: check_window_def)
  have "\<exists>b. extend_history a sp ?q i = Inr b"
    using a(1) by (auto simp: extend_history_def Let_def plain_request_def canonical_sha256_i_json [OF ij] post_init_def
        split: if_splits sum.splits)
  then obtain b where b: "extend_history a sp ?q i = Inr b" by blast
  have t: "transition a ?q = Inr b"
    using q ok sp w b by (auto simp: transition_def plain_request_def coerce_event_def)
  from extend_historyD [OF b] have "act_state b = ts_target sp \<and> act_action_id b = act_action_id a
      \<and> act_version b = act_version a + 1 \<and> act_history b \<noteq> [] \<and> ae_occurred_at (last (act_history b)) = i"
    by (auto simp: plain_request_def new_entry_def)
  moreover have "post_init b = Inr b"
    using b by (auto simp: extend_history_def Let_def split: sum.splits dest: post_init_Inr)
  ultimately show ?thesis using t transition_verifies [OF ok t] by blast
qed

text \<open>An exit that needs no window: cancel or revoke, or compensate and complete.\<close>

fun exit_event :: "ActionState \<Rightarrow> ActionEvent" where
  "exit_event AUTHORIZED = REVOKE"
| "exit_event COMPENSATING = COMPLETE"
| "exit_event SUCCEEDED = COMPENSATE"
| "exit_event FAILED = COMPENSATE"
| "exit_event _ = CANCEL"

lemma exit_event_row:
  "s \<notin> TERMINAL_STATES \<Longrightarrow> \<exists>sp. dict_get TRANSITIONS (s, exit_event s) = Some sp \<and> \<not> ts_enforces_action_window sp
     \<and> exit_event s \<noteq> EXPIRE \<and> ts_target sp \<in> (if s \<in> {SUCCEEDED, FAILED} then {COMPENSATING} else TERMINAL_STATES)"
  unfolding TRANSITIONS_code by (cases s) (simp_all add: SPECS_def mk_spec_def TERMINAL_STATES_def)

section \<open>Properties\<close>

definition example_action :: Action where
  "example_action = \<lparr>act_action_id = lit ''a'', act_state = DRAFT, act_version = 0, act_not_before = None,
     act_expires_at = None, act_history = []\<rparr>"

lemma example_action_new: "new_action example_action" "verify_history example_action = Inr True"
  by (simp_all add: new_action_def example_action_def post_init_def opt_aware_def verify_history_iff)

lemma example_submit:
  "\<exists>b. transition example_action (plain_request SUBMIT (utc_at 0) (lit ''u'')) = Inr b \<and> act_state b = PROPOSED
     \<and> verify_history b = Inr True \<and> act_history b \<noteq> [] \<and> act_action_id b = lit ''a'' \<and> act_version b = 1"
proof -
  have "dict_get TRANSITIONS (DRAFT, SUBMIT) = Some (mk_spec ''ACT-T01'' DRAFT SUBMIT PROPOSED False)"
    by (simp add: TRANSITIONS_code SPECS_def mk_spec_def)
  with unguarded_transition [of example_action SUBMIT _ "utc_at 0" "lit ''u''"] example_action_new
  show ?thesis
    by (auto simp: new_action_def example_action_def mk_spec_def MAX_SAFE_INTEGER_def)
qed

lemma SPECS_window: "sp \<in> set SPECS \<Longrightarrow> ts_enforces_action_window sp \<longleftrightarrow> ts_event sp \<in> {DISPATCH, ACTIVATE, START, RESUME}"
  by (auto simp: SPECS_def mk_spec_def)

lemma check_window_ok:
  assumes "check_window a sp t = Inr ()"
  shows "ts_event sp = EXPIRE \<Longrightarrow> \<exists>x. act_expires_at a = Some x \<and> dt_le x t"
    and "ts_event sp \<noteq> EXPIRE \<Longrightarrow> ts_enforces_action_window sp \<Longrightarrow>
      (\<forall>n. act_not_before a = Some n \<longrightarrow> dt_le n t) \<and> (\<forall>x. act_expires_at a = Some x \<longrightarrow> dt_lt t x)"
  using assms by (auto simp: check_window_def split: if_splits option.splits)

text \<open>
  C13 [action_audit_sound]: along any sequence of transitions from a new action, \<^verbatim>\<open>verify_history\<close> holds,
  every audit entry is a row of the transition table, by a named actor, and the entries are ordered in time; the
  version counts them.  The four transitions that bring an action to execution, \<^verbatim>\<open>DISPATCH\<close>, \<^verbatim>\<open>ACTIVATE\<close>, \<^verbatim>\<open>START\<close> and
  \<^verbatim>\<open>RESUME\<close>, were taken not before the action's start and before its expiry, where these are set, and \<^verbatim>\<open>EXPIRE\<close> only
  at or after a set expiry; the other transitions are not bound to the window.
\<close>

theorem action_audit_sound:
  assumes "new_action a" and "action_step\<^sup>*\<^sup>* a b"
  shows "verify_history b = Inr True \<and> act_version b = int (length (act_history b))
    \<and> (\<forall>e \<in> set (act_history b). ae_actor e \<noteq> []
         \<and> (\<exists>sp \<in> set SPECS. ae_transition_id e = ts_transition_id sp
              \<and> ae_source e = ts_source sp \<and> ae_event e = ts_event sp \<and> ae_target e = ts_target sp)
         \<and> (ae_event e \<in> {DISPATCH, ACTIVATE, START, RESUME} \<longrightarrow>
              (\<forall>n. act_not_before b = Some n \<longrightarrow> dt_le n (ae_occurred_at e))
              \<and> (\<forall>x. act_expires_at b = Some x \<longrightarrow> dt_lt (ae_occurred_at e) x))
         \<and> (ae_event e = EXPIRE \<longrightarrow> (\<exists>x. act_expires_at b = Some x \<and> dt_le x (ae_occurred_at e))))
    \<and> sorted_wrt dt_le (map ae_occurred_at (act_history b))"
proof -
  have inv: "action_inv b" by (rule action_sys.reachable_invar [OF assms])
  have "ae_actor e \<noteq> []
       \<and> (\<exists>sp \<in> set SPECS. ae_transition_id e = ts_transition_id sp
            \<and> ae_source e = ts_source sp \<and> ae_event e = ts_event sp \<and> ae_target e = ts_target sp)
       \<and> (ae_event e \<in> {DISPATCH, ACTIVATE, START, RESUME} \<longrightarrow>
            (\<forall>n. act_not_before b = Some n \<longrightarrow> dt_le n (ae_occurred_at e)) \<and> (\<forall>x. act_expires_at b = Some x \<longrightarrow> dt_lt (ae_occurred_at e) x))
       \<and> (ae_event e = EXPIRE \<longrightarrow> (\<exists>x. act_expires_at b = Some x \<and> dt_le x (ae_occurred_at e)))"
    if "e \<in> set (act_history b)" for e
  proof -
    from that inv obtain sp where sp: "ae_actor e \<noteq> []" "sp \<in> set SPECS" "ae_transition_id e = ts_transition_id sp"
      "ae_source e = ts_source sp" "ae_event e = ts_event sp" "ae_target e = ts_target sp" "check_window b sp (ae_occurred_at e) = Inr ()"
      by (auto simp: action_inv_def entry_legal_def list_all_iff)
    then show ?thesis using check_window_ok [OF sp(7)] SPECS_window [OF sp(2)] by auto
  qed
  then show ?thesis using inv by (simp add: action_inv_def verify_history_iff)
qed

theorem action_audit_sound_witness:
  "\<exists>b. transition example_action (plain_request SUBMIT (utc_at 0) (lit ''u'')) = Inr b
     \<and> verify_history b = Inr True \<and> sorted_wrt dt_le (map ae_occurred_at (act_history b)) \<and> act_history b \<noteq> []"
proof -
  from example_submit obtain b where b: "transition example_action (plain_request SUBMIT (utc_at 0) (lit ''u'')) = Inr b"
    "act_history b \<noteq> []" by blast
  then have "action_step\<^sup>*\<^sup>* example_action b" by (blast intro: action_step.by_event)
  with b action_audit_sound [OF example_action_new(1)] show ?thesis by blast
qed

text \<open>
  C31 [action_history_binding]: two verified histories of one action id that end in the same entry hash
  have the same entries (transition, states, event, time, actor and evidence of every one), unless two
  of their payloads are a SHA-256 collision; rewriting any past entry changes the final hash.
\<close>

theorem action_history_binding:
  assumes "verify_history a = Inr True" and "verify_history b = Inr True" and "act_action_id a = act_action_id b"
    and "act_history a \<noteq> []" and "act_history b \<noteq> []"
    and "ae_entry_hash (last (act_history a)) = ae_entry_hash (last (act_history b))"
    and "\<forall>e \<in> set (act_history a) \<union> set (act_history b). py_chars (entry_payload (act_action_id a) e 0)"
    and "act_version a \<le> MAX_SAFE_INTEGER" and "act_version b \<le> MAX_SAFE_INTEGER"
  shows "map entry_view (act_history a) = map entry_view (act_history b)
    \<or> chain_collision (act_action_id a) (act_history a) (act_history b)"
  using chain_binds [of "act_action_id a" "act_history a" "act_state a" "act_history b" "act_state b"] assms
  by (auto simp: verify_history_iff)

theorem action_history_binding_witness:
  "\<exists>b. verify_history b = Inr True \<and> act_history b \<noteq> [] \<and>
     (map entry_view (act_history b) = map entry_view (act_history b)
      \<or> chain_collision (act_action_id b) (act_history b) (act_history b))"
proof -
  from example_submit obtain b where b: "transition example_action (plain_request SUBMIT (utc_at 0) (lit ''u'')) = Inr b"
    "verify_history b = Inr True" "act_history b \<noteq> []" "act_action_id b = lit ''a''" "act_version b = 1" by blast
  from b(1) obtain sp frozen h where sp: "sp \<in> set SPECS"
    and h: "act_history b = [new_entry example_action sp (plain_request SUBMIT (utc_at 0) (lit ''u'')) frozen h]"
    by (rule transition_cases) (simp add: example_action_def)
  have "frozen = PDict []"
    using b(1) h by (auto simp: transition_def extend_history_def Let_def plain_request_def new_entry_def
        split: if_splits sum.splits bool.splits option.splits dest!: post_init_Inr)
  then have "\<forall>e \<in> set (act_history b) \<union> set (act_history b). py_chars (entry_payload (act_action_id b) e 0)"
    using sp b(4) SPECS_id_ascii [OF sp] isoformat_ascii
    by (auto simp: h new_entry_def entry_payload_def audit_payload_def plain_request_def ascii_code_points
        example_action_def last_hash_def genesis_ascii)
  then have "map entry_view (act_history b) = map entry_view (act_history b)
      \<or> chain_collision (act_action_id b) (act_history b) (act_history b)"
    by (rule action_history_binding [OF b(2) b(2) refl b(3) b(3) refl]) (simp_all add: b(5) MAX_SAFE_INTEGER_def)
  with b show ?thesis by blast
qed

text \<open>
  The states without outgoing transitions are exactly \<^verbatim>\<open>TERMINAL_STATES\<close>, and
  an action in one of them refuses every event, whatever its history.
\<close>

theorem terminal_states_final:
  "(allowed_events (Inl s) = Inr [] \<longleftrightarrow> s \<in> TERMINAL_STATES)
   \<and> (act_state a \<in> TERMINAL_STATES \<longrightarrow> \<not> is_ok (transition a q) \<and> \<not> is_ok (transition_by_id a tid q))"
proof -
  have "\<not> is_ok (transition a q)" if "act_state a \<in> TERMINAL_STATES" for q
  proof
    assume "is_ok (transition a q)"
    then obtain b where "transition a q = Inr b" by (auto simp: is_ok_iff)
    then obtain sp where "sp \<in> set SPECS" "ts_source sp = act_state a" by (rule transition_cases)
    with SPECS_sources that show False by blast
  qed
  then show ?thesis
    by (auto simp: allowed_events_Nil_iff transition_by_id_def split: option.splits)
qed

theorem terminal_states_final_witness:
  "\<not> is_ok (transition (example_action\<lparr>act_state := CANCELLED\<rparr>) (plain_request SUBMIT (utc_at 0) (lit ''u'')))"
  using terminal_states_final [of CANCELLED "example_action\<lparr>act_state := CANCELLED\<rparr>"]
  by (simp add: TERMINAL_STATES_def)

text \<open>
  C32 [action_can_finish]: from every verified action in a non-terminal state, at any time not before its
  last entry, some sequence of transitions that no window blocks (cancel, revoke, or compensate and
  complete) reaches a terminal state.
\<close>

theorem action_can_finish:
  assumes "verify_history a = Inr True" and "post_init a = Inr a" and "i_json (PStr (act_action_id a))"
    and "act_version a + 2 \<le> MAX_SAFE_INTEGER" and "dt_aware i"
    and "act_history a = [] \<or> dt_le (ae_occurred_at (last (act_history a))) i"
    and "actor \<noteq> []" and "i_json (PStr actor)"
  shows "\<exists>b. action_step\<^sup>*\<^sup>* a b \<and> act_state b \<in> TERMINAL_STATES"
proof -
  have one: "\<exists>b. action_step\<^sup>*\<^sup>* a b \<and> act_state b \<in> TERMINAL_STATES"
    if "verify_history a = Inr True" "post_init a = Inr a" "i_json (PStr (act_action_id a))"
      "act_version a + 1 \<le> MAX_SAFE_INTEGER" "act_history a = [] \<or> dt_le (ae_occurred_at (last (act_history a))) i"
      "act_state a \<notin> {SUCCEEDED, FAILED}" for a
  proof (cases "act_state a \<in> TERMINAL_STATES")
    case False
    with exit_event_row [of "act_state a"] that(6) obtain sp
      where sp: "dict_get TRANSITIONS (act_state a, exit_event (act_state a)) = Some sp"
        "\<not> ts_enforces_action_window sp" "exit_event (act_state a) \<noteq> EXPIRE" "ts_target sp \<in> TERMINAL_STATES"
      by auto
    from unguarded_transition [OF that(1) sp(1-3) that(2-4) assms(5) that(5) assms(7,8)] obtain b
      where "transition a (plain_request (exit_event (act_state a)) i actor) = Inr b" "act_state b = ts_target sp"
      by blast
    with sp(4) show ?thesis by (auto intro!: exI [of _ b] r_into_rtranclp action_step.by_event)
  qed auto
  show ?thesis
  proof (cases "act_state a \<in> {SUCCEEDED, FAILED}")
    case True
    then have "act_state a \<notin> TERMINAL_STATES" by (auto simp: TERMINAL_STATES_def)
    with exit_event_row [of "act_state a"] True obtain sp
      where sp: "dict_get TRANSITIONS (act_state a, exit_event (act_state a)) = Some sp"
        "\<not> ts_enforces_action_window sp" "exit_event (act_state a) \<noteq> EXPIRE" "ts_target sp = COMPENSATING"
      by auto
    have v: "act_version a + 1 \<le> MAX_SAFE_INTEGER" using assms(4) by simp
    from unguarded_transition [OF assms(1) sp(1-3) assms(2,3) v assms(5-8)] obtain c where
      c: "transition a (plain_request (exit_event (act_state a)) i actor) = Inr c" "act_state c = COMPENSATING"
        "verify_history c = Inr True" "post_init c = Inr c" "act_action_id c = act_action_id a"
        "act_version c = act_version a + 1" "ae_occurred_at (last (act_history c)) = i"
      using sp(4) by auto
    have "\<exists>b. action_step\<^sup>*\<^sup>* c b \<and> act_state b \<in> TERMINAL_STATES"
      using c(2-7) assms(3,4) by (intro one) simp_all
    then obtain b where "action_step\<^sup>*\<^sup>* c b" "act_state b \<in> TERMINAL_STATES" by blast
    moreover from c(1) have "action_step a c" by (rule action_step.by_event)
    ultimately show ?thesis by (meson converse_rtranclp_into_rtranclp)
  next
    case False
    then show ?thesis using one [of a] assms by simp
  qed
qed

theorem action_can_finish_witness: "\<exists>b. action_step\<^sup>*\<^sup>* example_action b \<and> act_state b \<in> TERMINAL_STATES"
  using example_action_new
  by (intro action_can_finish [of _ "utc_at 0" "lit ''u''"])
    (auto simp: new_action_def example_action_def MAX_SAFE_INTEGER_def)

end
