(* ===== verification/C6_Capabilities.thy ===== *)
theory C6_Capabilities
  imports PyTime
begin

text \<open>
  Capability leases and their authority, \<^verbatim>\<open>c6_capabilities.py\<close>.  The authority holds a reference to the
  emergency-stop controller it is bound to; controllers are shared objects, so an operation reads the
  controller through a heap that maps references to what the \<^verbatim>\<open>StopEpochAuthority\<close> protocol shows of
  it.  A call returns its result or exception and the ledger it leaves behind; \<^verbatim>\<open>uuid.uuid4()\<close> is an
  argument.
\<close>

section \<open>The stop protocol\<close>

record StopEpochEvent =
  see_epoch :: int
  see_at :: datetime

record StopEpochAuthority =
  sea_epoch :: int
  sea_history :: "StopEpochEvent list"
  sea_guard_dispatch :: "int \<Rightarrow> unit res"

type_synonym stop_heap = "nat \<Rightarrow> StopEpochAuthority"

section \<open>Grants and scopes\<close>

definition capability_matches :: "pystr \<Rightarrow> pystr \<Rightarrow> bool" where
  "capability_matches grant requested \<longleftrightarrow>
     (if grant = lit ''*'' \<or> grant = requested then True
      else endswith grant (lit '':*'') \<and> startswith requested (butlast grant))"

definition resource_matches :: "pystr \<Rightarrow> pystr \<Rightarrow> bool" where
  "resource_matches scope resource \<longleftrightarrow>
     (if scope = lit ''*'' \<or> scope = resource then True
      else endswith scope (lit ''/*'') \<and> startswith resource (butlast scope))"

definition resource_scope_contains :: "pystr \<Rightarrow> pystr \<Rightarrow> bool" where
  "resource_scope_contains parent child \<longleftrightarrow>
     (if parent = lit ''*'' \<or> parent = child then True
      else if endswith parent (lit ''/*'') then
        (if endswith child (lit ''/*'') then startswith (butlast child) (butlast parent)
         else startswith child (butlast parent))
      else False)"

section \<open>Leases\<close>

record CapabilityLease =
  lease_id :: pystr
  cl_subject :: pystr
  cl_capabilities :: "pystr set"
  cl_resources :: "pystr set"
  cl_not_before :: datetime
  cl_expires_at :: datetime
  cl_issued_at :: datetime
  cl_issuer :: pystr
  cl_revoked_at :: "datetime option"
  cl_parent_lease_id :: "pystr option"
  cl_max_uses :: "int option"
  cl_stop_epoch :: "int option"

text \<open>\<^verbatim>\<open>__post_init__\<close>; \<^verbatim>\<open>dataclasses.replace\<close> runs it again.\<close>

definition lease_post_init :: "CapabilityLease \<Rightarrow> CapabilityLease res" where
  "lease_post_init l =
     (if lease_id l = [] \<or> cl_subject l = [] \<or> cl_issuer l = []
      then Inl (ValueError ''lease_id, subject and issuer are required'')
      else if cl_capabilities l = {} \<or> cl_resources l = {}
      then Inl (ValueError ''a capability lease requires capabilities and resources'')
      else case require_aware ''not_before'' (cl_not_before l) of Inl e \<Rightarrow> Inl e
      | Inr _ \<Rightarrow> (case require_aware ''expires_at'' (cl_expires_at l) of Inl e \<Rightarrow> Inl e
      | Inr _ \<Rightarrow> (case require_aware ''issued_at'' (cl_issued_at l) of Inl e \<Rightarrow> Inl e
      | Inr _ \<Rightarrow>
         if dt_le (cl_expires_at l) (cl_not_before l)
         then Inl (TemporalGuardViolation ''lease not_before must precede expires_at'')
         else if dt_lt (cl_not_before l) (cl_issued_at l)
         then Inl (TemporalGuardViolation ''lease cannot become active before it is issued'')
         else case (case cl_revoked_at l of None \<Rightarrow> Inr ()
                    | Some r \<Rightarrow> (case require_aware ''revoked_at'' r of Inl e \<Rightarrow> Inl e
                        | Inr _ \<Rightarrow> if dt_lt r (cl_issued_at l)
                                  then Inl (TemporalGuardViolation ''lease cannot be revoked before issuance'')
                                  else Inr ())) of
           Inl e \<Rightarrow> Inl e
         | Inr _ \<Rightarrow>
            if (case cl_max_uses l of None \<Rightarrow> False | Some m \<Rightarrow> m \<le> 0)
            then Inl (ValueError ''max_uses must be positive'')
            else if (case cl_stop_epoch l of None \<Rightarrow> False | Some e \<Rightarrow> e < 0)
            then Inl (ValueError ''stop_epoch must be a non-negative integer'')
            else Inr l)))"

definition is_active :: "CapabilityLease \<Rightarrow> datetime \<Rightarrow> bool res" where
  "is_active l at_time =
     (case require_aware ''at'' at_time of Inl e \<Rightarrow> Inl e
      | Inr i \<Rightarrow> Inr (dt_le (cl_not_before l) i \<and> dt_lt i (cl_expires_at l)
          \<and> (case cl_revoked_at l of None \<Rightarrow> True | Some r \<Rightarrow> dt_lt i r)))"

definition allows :: "CapabilityLease \<Rightarrow> pystr \<Rightarrow> pystr \<Rightarrow> datetime \<Rightarrow> pystr option \<Rightarrow> bool res" where
  "allows l capability resource at_time subject =
     (if subject \<noteq> None \<and> subject \<noteq> Some (cl_subject l) then Inr False
      else case is_active l at_time of Inl e \<Rightarrow> Inl e
      | Inr active \<Rightarrow>
         Inr (active \<and> (\<exists>grant \<in> cl_capabilities l. capability_matches grant capability)
              \<and> (\<exists>scope \<in> cl_resources l. resource_matches scope resource)))"

section \<open>The authority\<close>

record CapabilityAuthority =
  ca_issuer :: pystr
  ca_leases :: "(pystr, CapabilityLease) dict"
  ca_uses :: "(pystr, int) dict"
  ca_stop :: "nat option"
  ca_bound_epoch :: int
  ca_swept_epoch :: int

definition bind_stop_controller ::
  "stop_heap \<Rightarrow> nat \<Rightarrow> CapabilityAuthority \<Rightarrow> unit res \<times> CapabilityAuthority" where
  "bind_stop_controller h stop a =
     (case ca_stop a of
        None \<Rightarrow> (Inr (), a\<lparr>ca_stop := Some stop, ca_bound_epoch := sea_epoch (h stop), ca_swept_epoch := sea_epoch (h stop)\<rparr>)
      | Some s \<Rightarrow>
         if s \<noteq> stop
         then (Inl (ValueError ''capability authority is already bound to another emergency-stop controller''), a)
         else (Inr (), a))"

definition new_authority :: "stop_heap \<Rightarrow> pystr \<Rightarrow> nat option \<Rightarrow> CapabilityAuthority res" where
  "new_authority h issuer stop =
     (if issuer = [] then Inl (ValueError ''issuer must be non-empty'')
      else let a = \<lparr>ca_issuer = issuer, ca_leases = [], ca_uses = [], ca_stop = None, ca_bound_epoch = 0,
                    ca_swept_epoch = 0\<rparr>
           in case stop of None \<Rightarrow> Inr a
              | Some s \<Rightarrow> (case bind_stop_controller h s a of (Inl e, _) \<Rightarrow> Inl e | (Inr _, a') \<Rightarrow> Inr a'))"

text \<open>One lease of the sweep: unchanged, or revoked at the stop that superseded it.\<close>

definition sweep_lease :: "StopEpochAuthority \<Rightarrow> int \<Rightarrow> CapabilityLease \<Rightarrow> CapabilityLease res" where
  "sweep_lease st bound l =
     (let lease_epoch = (case cl_stop_epoch l of None \<Rightarrow> bound | Some e \<Rightarrow> e) in
      if cl_revoked_at l \<noteq> None \<or> lease_epoch = sea_epoch st then Inr l
      else case find (\<lambda>ev. lease_epoch < see_epoch ev) (sea_history st) of
        None \<Rightarrow> Inr l
      | Some ev \<Rightarrow>
         (case require_aware ''stop event at'' (see_at ev) of Inl e \<Rightarrow> Inl e
          | Inr accepted \<Rightarrow> lease_post_init (l\<lparr>cl_revoked_at := Some (dt_max accepted (cl_issued_at l))\<rparr>)))"

fun sweep_leases ::
  "StopEpochAuthority \<Rightarrow> int \<Rightarrow> pystr list \<Rightarrow> (pystr, CapabilityLease) dict \<Rightarrow>
     unit res \<times> (pystr, CapabilityLease) dict" where
  "sweep_leases st bound [] ls = (Inr (), ls)"
| "sweep_leases st bound (i # is) ls =
     (case dict_get ls i of None \<Rightarrow> sweep_leases st bound is ls
      | Some l \<Rightarrow> (case sweep_lease st bound l of Inl e \<Rightarrow> (Inl e, ls)
                  | Inr l' \<Rightarrow> sweep_leases st bound is (dict_set i l' ls)))"

definition sweep_superseded_leases ::
  "stop_heap \<Rightarrow> CapabilityAuthority \<Rightarrow> unit res \<times> CapabilityAuthority" where
  "sweep_superseded_leases h a =
     (case ca_stop a of None \<Rightarrow> (Inr (), a)
      | Some s \<Rightarrow>
         if sea_epoch (h s) = ca_swept_epoch a then (Inr (), a)
         else case sweep_leases (h s) (ca_bound_epoch a) (dict_keys (ca_leases a)) (ca_leases a) of
           (Inl e, ls) \<Rightarrow> (Inl e, a\<lparr>ca_leases := ls\<rparr>)
         | (Inr _, ls) \<Rightarrow> (Inr (), a\<lparr>ca_leases := ls, ca_swept_epoch := sea_epoch (h s)\<rparr>))"

definition require_current_stop_epoch :: "stop_heap \<Rightarrow> CapabilityAuthority \<Rightarrow> CapabilityLease \<Rightarrow> unit res" where
  "require_current_stop_epoch h a l =
     (case ca_stop a of None \<Rightarrow> Inr ()
      | Some s \<Rightarrow>
         (case cl_stop_epoch l of
            None \<Rightarrow> Inl (StopEpochDenied ''capability lease is not bound to an emergency-stop epoch'')
          | Some e \<Rightarrow>
             (case sea_guard_dispatch (h s) e of
                Inr _ \<Rightarrow> Inr ()
              | Inl x \<Rightarrow> if is_OCORError x
                        then Inl (StopEpochDenied ''capability lease is fenced by the emergency stop'')
                        else Inl x)))"

definition current_stop_epoch :: "stop_heap \<Rightarrow> CapabilityAuthority \<Rightarrow> (int option) res" where
  "current_stop_epoch h a =
     (case ca_stop a of None \<Rightarrow> Inr None
      | Some s \<Rightarrow>
         (case sea_guard_dispatch (h s) (sea_epoch (h s)) of
            Inr _ \<Rightarrow> Inr (Some (sea_epoch (h s)))
          | Inl x \<Rightarrow> if is_OCORError x
                    then Inl (AuthorizationError ''emergency stop is active, no capability lease is issued'')
                    else Inl x))"

definition validate_delegation :: "CapabilityLease \<Rightarrow> CapabilityLease \<Rightarrow> unit res" where
  "validate_delegation parent child =
     (if dt_lt (cl_issued_at child) (cl_issued_at parent)
      then Inl (AuthorizationError ''delegated lease predates its parent'')
      else if cl_stop_epoch child \<noteq> None \<and> cl_stop_epoch parent = None
      then Inl (StopEpochDenied ''delegating parent lease is not bound to an emergency-stop epoch'')
      else if cl_stop_epoch parent \<noteq> None \<and> cl_stop_epoch child \<noteq> cl_stop_epoch parent
      then Inl (StopEpochDenied ''delegating parent lease is bound to another emergency-stop epoch'')
      else if dt_lt (cl_not_before child) (cl_not_before parent) \<or> dt_lt (cl_expires_at parent) (cl_expires_at child)
      then Inl (AuthorizationError ''delegated lease exceeds its parent time window'')
      else if \<exists>requested \<in> cl_capabilities child. \<not> (\<exists>grant \<in> cl_capabilities parent. capability_matches grant requested)
      then Inl (AuthorizationError ''delegated lease escalates capabilities'')
      else if \<exists>sc \<in> cl_resources child. \<not> (\<exists>scope \<in> cl_resources parent. resource_scope_contains scope sc)
      then Inl (AuthorizationError ''delegated lease widens its resource scope'')
      else Inr ())"

text \<open>The arguments of \<^verbatim>\<open>issue\<close>; of the parent only its id is used.\<close>

record IssueRequest =
  ir_subject :: pystr
  ir_capabilities :: "pystr list"
  ir_resources :: "pystr list"
  ir_issued_at :: datetime
  ir_not_before :: "datetime option"
  ir_expires_at :: "datetime option"
  ir_ttl :: "timedelta option"
  ir_lease_id :: "pystr option"
  ir_max_uses :: "int option"
  ir_parent :: "pystr option"

definition issue_window :: "IssueRequest \<Rightarrow> (datetime \<times> datetime \<times> datetime) res" where
  "issue_window q =
     (case require_aware ''issued_at'' (ir_issued_at q) of Inl e \<Rightarrow> Inl e
      | Inr issued \<Rightarrow>
       (case require_aware ''not_before'' (case ir_not_before q of None \<Rightarrow> issued | Some n \<Rightarrow> n) of Inl e \<Rightarrow> Inl e
        | Inr starts \<Rightarrow>
         (case (ir_expires_at q, ir_ttl q) of
            (Some x, None) \<Rightarrow>
              (case require_aware ''expires_at'' x of Inl e \<Rightarrow> Inl e | Inr ends \<Rightarrow> Inr (issued, starts, ends))
          | (None, Some ttl) \<Rightarrow>
              (case dt_add starts ttl of Inl e \<Rightarrow> Inl e
               | Inr x \<Rightarrow> (case require_aware ''expires_at'' x of Inl e \<Rightarrow> Inl e
                           | Inr ends \<Rightarrow> Inr (issued, starts, ends)))
          | _ \<Rightarrow> Inl (ValueError ''provide exactly one of expires_at or ttl''))))"

definition delegating_parent ::
  "stop_heap \<Rightarrow> pystr option \<Rightarrow> datetime \<Rightarrow> CapabilityAuthority \<Rightarrow> (CapabilityLease option) res \<times> CapabilityAuthority" where
  "delegating_parent h parent starts a =
     (case parent of None \<Rightarrow> (Inr None, a)
      | Some pid \<Rightarrow>
         (case sweep_superseded_leases h a of
            (Inl e, a') \<Rightarrow> (Inl e, a')
          | (Inr _, a') \<Rightarrow>
             (case dict_get (ca_leases a') pid of
                None \<Rightarrow> (Inl (AuthorizationError ''delegating parent lease is not authoritative''), a')
              | Some p \<Rightarrow>
                 (case is_active p starts of Inl e \<Rightarrow> (Inl e, a')
                  | Inr active \<Rightarrow>
                     if active then (Inr (Some p), a')
                     else (Inl (AuthorizationError ''delegating parent lease is inactive''), a')))))"

definition requested_lease ::
  "pystr \<Rightarrow> pystr \<Rightarrow> IssueRequest \<Rightarrow> datetime \<times> datetime \<times> datetime \<Rightarrow> CapabilityLease option \<Rightarrow> int option \<Rightarrow>
     CapabilityLease" where
  "requested_lease uuid issuer q w parent epoch =
     (case w of (issued, starts, ends) \<Rightarrow>
        \<lparr>lease_id = (case ir_lease_id q of None \<Rightarrow> uuid | Some i \<Rightarrow> if i = [] then uuid else i),
         cl_subject = ir_subject q, cl_capabilities = set (ir_capabilities q), cl_resources = set (ir_resources q),
         cl_not_before = starts, cl_expires_at = ends, cl_issued_at = issued, cl_issuer = issuer,
         cl_revoked_at = None, cl_parent_lease_id = map_option lease_id parent,
         cl_max_uses = ir_max_uses q, cl_stop_epoch = epoch\<rparr>)"

definition issue ::
  "stop_heap \<Rightarrow> pystr \<Rightarrow> IssueRequest \<Rightarrow> CapabilityAuthority \<Rightarrow> CapabilityLease res \<times> CapabilityAuthority" where
  "issue h uuid q a =
     (case issue_window q of Inl e \<Rightarrow> (Inl e, a)
      | Inr (issued, starts, ends) \<Rightarrow>
       (case delegating_parent h (ir_parent q) starts a of (Inl e, a') \<Rightarrow> (Inl e, a')
        | (Inr parent, a') \<Rightarrow>
         (case current_stop_epoch h a' of Inl e \<Rightarrow> (Inl e, a')
          | Inr epoch \<Rightarrow>
           (case lease_post_init (requested_lease uuid (ca_issuer a') q (issued, starts, ends) parent epoch) of
              Inl e \<Rightarrow> (Inl e, a')
            | Inr l \<Rightarrow>
             (case (case parent of None \<Rightarrow> Inr () | Some p \<Rightarrow> validate_delegation p l) of
                Inl e \<Rightarrow> (Inl e, a')
              | Inr _ \<Rightarrow>
                 if dict_get (ca_leases a') (lease_id l) \<noteq> None then (Inl (ValueError ''duplicate lease id''), a')
                 else (Inr l, a'\<lparr>ca_leases := dict_set (lease_id l) l (ca_leases a'),
                                 ca_uses := dict_set (lease_id l) 0 (ca_uses a')\<rparr>))))))"

definition authority_get ::
  "stop_heap \<Rightarrow> pystr \<Rightarrow> CapabilityAuthority \<Rightarrow> (CapabilityLease option) res \<times> CapabilityAuthority" where
  "authority_get h i a =
     (case sweep_superseded_leases h a of (Inl e, a') \<Rightarrow> (Inl e, a') | (Inr _, a') \<Rightarrow> (Inr (dict_get (ca_leases a') i), a'))"

definition revoke ::
  "stop_heap \<Rightarrow> pystr \<Rightarrow> datetime \<Rightarrow> CapabilityAuthority \<Rightarrow> CapabilityLease res \<times> CapabilityAuthority" where
  "revoke h i at_time a =
     (case require_aware ''at'' at_time of Inl e \<Rightarrow> (Inl e, a)
      | Inr instant \<Rightarrow>
       (case sweep_superseded_leases h a of (Inl e, a') \<Rightarrow> (Inl e, a')
        | (Inr _, a') \<Rightarrow>
         (case dict_get (ca_leases a') i of
            None \<Rightarrow> (Inl (KeyError i), a')
          | Some l \<Rightarrow>
             if cl_revoked_at l \<noteq> None then (Inr l, a')
             else case lease_post_init (l\<lparr>cl_revoked_at := Some instant\<rparr>) of Inl e \<Rightarrow> (Inl e, a')
                  | Inr l' \<Rightarrow> (Inr l', a'\<lparr>ca_leases := dict_set i l' (ca_leases a')\<rparr>))))"

text \<open>The recursion of \<^verbatim>\<open>_require_active_ancestry\<close>; the set of ids it has seen makes it end.\<close>

function require_active_ancestry ::
  "(pystr, CapabilityLease) dict \<Rightarrow> CapabilityLease \<Rightarrow> datetime \<Rightarrow> pystr set \<Rightarrow> unit res" where
  "require_active_ancestry ls l instant seen =
     (if lease_id l \<in> seen then Inl (AuthorizationError ''capability delegation cycle detected'')
      else case cl_parent_lease_id l of None \<Rightarrow> Inr ()
      | Some pid \<Rightarrow>
         (case dict_get ls pid of
            None \<Rightarrow> Inl (AuthorizationError ''parent capability lease is inactive'')
          | Some p \<Rightarrow>
             (case is_active p instant of Inl e \<Rightarrow> Inl e
              | Inr active \<Rightarrow>
                 if active then require_active_ancestry ls p instant (insert (lease_id l) seen)
                 else Inl (AuthorizationError ''parent capability lease is inactive''))))"
  by pat_completeness auto

termination
proof (relation "measure (\<lambda>(ls, l, i, seen). card (set (map lease_id (l # dict_values ls)) - seen))", goal_cases)
  case (2 ls l instant seen pid p active)
  have "lease_id p \<in> lease_id ` set (dict_values ls)"
    using 2(3) by (auto dest: dict_get_mem)
  then have "set (map lease_id (p # dict_values ls)) - insert (lease_id l) seen
      \<subset> set (map lease_id (l # dict_values ls)) - seen"
    using 2(1) by auto
  then show ?case by (auto intro: psubset_card_mono)
qed simp

declare require_active_ancestry.simps [simp del]

definition authorize ::
  "stop_heap \<Rightarrow> pystr \<Rightarrow> pystr \<Rightarrow> pystr \<Rightarrow> datetime \<Rightarrow> pystr option \<Rightarrow> bool \<Rightarrow> CapabilityAuthority \<Rightarrow>
     CapabilityLease res \<times> CapabilityAuthority" where
  "authorize h i capability resource at_time subject consume a =
     (case require_aware ''at'' at_time of Inl e \<Rightarrow> (Inl e, a)
      | Inr instant \<Rightarrow>
       (case sweep_superseded_leases h a of (Inl e, a') \<Rightarrow> (Inl e, a')
        | (Inr _, a') \<Rightarrow>
         (case dict_get (ca_leases a') i of
            None \<Rightarrow> (Inl (AuthorizationError ''capability lease is unknown to its authority''), a')
          | Some l \<Rightarrow>
           (case require_current_stop_epoch h a' l of Inl e \<Rightarrow> (Inl e, a')
            | Inr _ \<Rightarrow>
             (case allows l capability resource instant subject of Inl e \<Rightarrow> (Inl e, a')
              | Inr False \<Rightarrow> (Inl (AuthorizationError ''capability lease is inactive or out of scope''), a')
              | Inr True \<Rightarrow>
               (case require_active_ancestry (ca_leases a') l instant {} of Inl e \<Rightarrow> (Inl e, a')
                | Inr _ \<Rightarrow>
                 (case dict_get (ca_uses a') i of None \<Rightarrow> (Inl (KeyError i), a')
                  | Some uses \<Rightarrow>
                     if (case cl_max_uses l of None \<Rightarrow> False | Some m \<Rightarrow> m \<le> uses)
                     then (Inl (AuthorizationError ''capability lease usage limit is exhausted''), a')
                     else (Inr l, if consume then a'\<lparr>ca_uses := dict_set i (uses + 1) (ca_uses a')\<rparr> else a'))))))))"

definition usage :: "pystr \<Rightarrow> CapabilityAuthority \<Rightarrow> int res" where
  "usage i a = (case dict_get (ca_uses a) i of None \<Rightarrow> Inl (KeyError i) | Some n \<Rightarrow> Inr n)"

section \<open>Matching composes\<close>

text \<open>What a child grant or scope allows, the parent grant or scope that admits it allows too.\<close>

lemma butlast_suffix2: "suffix [x, y] s \<Longrightarrow> \<exists>t. s = t @ [x, y] \<and> butlast s = t @ [x]"
  by (auto simp: suffix_def butlast_append)

lemma prefix_wildcard:
  assumes "suffix [x, y] g" "x \<noteq> y" "prefix (butlast g) c" "suffix [x, y] c" "prefix (butlast c) r"
  shows "prefix (butlast g) r"
proof -
  obtain t where t: "butlast g = t @ [x]" using butlast_suffix2 [OF assms(1)] by blast
  obtain u where u: "c = u @ [x, y]" "butlast c = u @ [x]" using butlast_suffix2 [OF assms(4)] by blast
  have "t @ [x] \<noteq> c"
  proof
    assume "t @ [x] = c"
    then have "last (t @ [x]) = last (u @ [x, y])" using u(1) by simp
    with assms(2) show False by simp
  qed
  moreover have "prefix (t @ [x]) ((u @ [x]) @ [y])" using assms(3) t u(1) by simp
  ultimately have "prefix (t @ [x]) (u @ [x])" unfolding prefix_snoc [of _ "u @ [x]"] using u(1) by force
  then show ?thesis unfolding t using assms(5) [unfolded u(2)] by (rule prefix_order.trans)
qed

lemma capability_matches_trans:
  assumes gc: "capability_matches grant c" and cr: "capability_matches c r"
  shows "capability_matches grant r"
proof (cases "grant = lit ''*'' \<or> grant = c \<or> c = r")
  case True
  with gc cr show ?thesis by (auto simp: capability_matches_def split: if_splits)
next
  case False
  then have g: "suffix [58, 42] grant" "prefix (butlast grant) c"
    using gc by (auto simp: capability_matches_def lit_def)
  have "c \<noteq> [42]"
  proof
    assume "c = [42]"
    moreover from butlast_suffix2 [OF g(1)] obtain t where "butlast grant = t @ [58]" by blast
    ultimately have "prefix (t @ [58]) [42]" using g(2) by simp
    then show False by (cases t) (auto simp: prefix_def)
  qed
  then have "suffix [58, 42] c" "prefix (butlast c) r"
    using cr False by (auto simp: capability_matches_def lit_def split: if_splits)
  with g prefix_wildcard [of 58 42 grant c r] show ?thesis by (auto simp: capability_matches_def lit_def)
qed

lemma resource_contains_matches:
  assumes pc: "resource_scope_contains p c" and cr: "resource_matches c r"
  shows "resource_matches p r"
proof (cases "p = lit ''*'' \<or> p = c \<or> p = r")
  case True
  with pc cr show ?thesis by (auto simp: resource_matches_def)
next
  case False
  then have p: "suffix [47, 42] p" "prefix (butlast p) c"
    using pc prefix_order.trans [OF _ prefixeq_butlast]
    by (auto simp: resource_scope_contains_def lit_def split: if_splits)
  have "prefix (butlast p) r"
  proof (cases "c = r")
    case True
    with p show ?thesis by simp
  next
    case ne: False
    have "c \<noteq> [42]"
    proof
      assume "c = [42]"
      moreover from butlast_suffix2 [OF p(1)] obtain t where "butlast p = t @ [47]" by blast
      ultimately have "prefix (t @ [47]) [42]" using p(2) by simp
      then show False by (cases t) (auto simp: prefix_def)
    qed
    then have "suffix [47, 42] c" "prefix (butlast c) r"
      using cr ne by (auto simp: resource_matches_def lit_def split: if_splits)
    with p prefix_wildcard [of 47 42 p c r] show ?thesis by simp
  qed
  with p show ?thesis by (simp add: resource_matches_def lit_def)
qed

section \<open>What the operations keep\<close>

text \<open>A lease changes only by being revoked, once.\<close>

definition lease_le :: "CapabilityLease \<Rightarrow> CapabilityLease \<Rightarrow> bool" where
  "lease_le l l' \<longleftrightarrow> l' = l \<or> (cl_revoked_at l = None \<and> (\<exists>r. l' = l\<lparr>cl_revoked_at := Some r\<rparr>))"

lemma lease_le_refl [simp]: "lease_le l l"
  by (simp add: lease_le_def)

lemma lease_le_trans: "lease_le l m \<Longrightarrow> lease_le m n \<Longrightarrow> lease_le l n"
  by (auto simp: lease_le_def)

lemma lease_le_sel:
  assumes "lease_le l l'"
  shows "lease_id l' = lease_id l" "cl_subject l' = cl_subject l" "cl_capabilities l' = cl_capabilities l"
    "cl_resources l' = cl_resources l" "cl_not_before l' = cl_not_before l" "cl_expires_at l' = cl_expires_at l"
    "cl_issued_at l' = cl_issued_at l" "cl_parent_lease_id l' = cl_parent_lease_id l"
    "cl_max_uses l' = cl_max_uses l" "cl_stop_epoch l' = cl_stop_epoch l"
    "cl_revoked_at l = Some r \<Longrightarrow> cl_revoked_at l' = Some r"
  using assms by (auto simp: lease_le_def)

lemma lease_post_init_eq: "lease_post_init l = Inr l' \<Longrightarrow> l' = l"
  by (auto simp: lease_post_init_def split: if_splits sum.splits option.splits)

lemma sweep_lease_le:
  assumes "sweep_lease st b l = Inr l'" "lease_post_init l = Inr l"
  shows "lease_le l l' \<and> lease_post_init l' = Inr l'"
  using assms by (auto simp: sweep_lease_def Let_def lease_le_def split: if_splits option.splits sum.splits
      dest: lease_post_init_eq)

text \<open>Two ledgers with the same lease ids, of which the second has only more revocations.\<close>

definition leases_le :: "(pystr, CapabilityLease) dict \<Rightarrow> (pystr, CapabilityLease) dict \<Rightarrow> bool" where
  "leases_le ls ls' \<longleftrightarrow> map fst ls' = map fst ls
     \<and> (\<forall>i l. dict_get ls i = Some l \<longrightarrow> (\<exists>l'. dict_get ls' i = Some l' \<and> lease_le l l'))"

definition leases_ok :: "(pystr, CapabilityLease) dict \<Rightarrow> bool" where
  "leases_ok ls \<longleftrightarrow> (\<forall>i l. dict_get ls i = Some l \<longrightarrow> lease_id l = i \<and> lease_post_init l = Inr l)"

lemma leases_le_refl [simp]: "leases_le ls ls"
  by (simp add: leases_le_def)

lemma leases_le_trans:
  assumes "leases_le ls ms" "leases_le ms ns"
  shows "leases_le ls ns"
proof -
  have "\<exists>n. dict_get ns i = Some n \<and> lease_le l n" if "dict_get ls i = Some l" for i l
    using that assms unfolding leases_le_def by (meson lease_le_trans)
  then show ?thesis using assms by (simp add: leases_le_def)
qed

lemma leases_le_back:
  assumes "leases_le ls ls'" "dict_get ls' i = Some l'"
  shows "\<exists>l. dict_get ls i = Some l \<and> lease_le l l'"
proof -
  have "dict_get ls i \<noteq> None"
    using assms dict_mem_keys [of i ls] dict_mem_keys [of i ls'] by (simp add: leases_le_def)
  then obtain l where "dict_get ls i = Some l" by blast
  with assms show ?thesis unfolding leases_le_def by fastforce
qed

lemma keys_dict_set_present: "dict_get d k \<noteq> None \<Longrightarrow> map fst (dict_set k v d) = map fst d"
  by (induction d) (auto split: if_splits)

lemma leases_le_set:
  assumes "dict_get ls i = Some l" "lease_le l l'"
  shows "leases_le ls (dict_set i l' ls)"
  using assms keys_dict_set_present [of ls i l'] by (simp add: leases_le_def)

lemma leases_ok_set: "leases_ok ls \<Longrightarrow> lease_id l = i \<Longrightarrow> lease_post_init l = Inr l \<Longrightarrow> leases_ok (dict_set i l ls)"
  by (simp add: leases_ok_def)

lemma sweep_leases_le:
  assumes "sweep_leases st b is ls = (r, ls')" "leases_ok ls"
  shows "leases_le ls ls' \<and> leases_ok ls'"
  using assms
proof (induction "is" arbitrary: ls)
  case (Cons i "is")
  show ?case
  proof (cases "dict_get ls i")
    case None
    with Cons show ?thesis by simp
  next
    case (Some l)
    show ?thesis
    proof (cases "sweep_lease st b l")
      case (Inl e)
      with Cons.prems Some show ?thesis by simp
    next
      case (Inr l')
      from Cons.prems(2) Some have l: "lease_id l = i" "lease_post_init l = Inr l" by (simp_all add: leases_ok_def)
      note l' = sweep_lease_le [OF Inr l(2)]
      have "leases_ok (dict_set i l' ls)"
        using Cons.prems(2) l l' lease_le_sel(1) by (intro leases_ok_set) auto
      moreover have "leases_le ls (dict_set i l' ls)" using leases_le_set [OF Some] l' by blast
      moreover have "sweep_leases st b is (dict_set i l' ls) = (r, ls')" using Cons.prems(1) Some Inr by simp
      ultimately show ?thesis using Cons.IH leases_le_trans by blast
    qed
  qed
qed simp

lemma sweep_le:
  assumes "sweep_superseded_leases h a = (r, b)" "leases_ok (ca_leases a)"
  shows "leases_le (ca_leases a) (ca_leases b) \<and> leases_ok (ca_leases b) \<and> ca_uses b = ca_uses a \<and> ca_stop b = ca_stop a
    \<and> ca_issuer b = ca_issuer a"
proof (cases "ca_stop a")
  case None
  with assms show ?thesis by (auto simp: sweep_superseded_leases_def)
next
  case (Some s)
  obtain r' ls where sw: "sweep_leases (h s) (ca_bound_epoch a) (dict_keys (ca_leases a)) (ca_leases a) = (r', ls)" by force
  from sweep_leases_le [OF sw assms(2)] assms Some sw show ?thesis
    by (auto simp: sweep_superseded_leases_def split: if_splits sum.splits)
qed

section \<open>The ledger invariant\<close>

definition attenuates :: "CapabilityLease \<Rightarrow> CapabilityLease \<Rightarrow> bool" where
  "attenuates p l \<longleftrightarrow>
     dt_le (cl_issued_at p) (cl_issued_at l)
     \<and> dt_le (cl_not_before p) (cl_not_before l) \<and> dt_le (cl_expires_at l) (cl_expires_at p)
     \<and> (cl_stop_epoch p \<noteq> None \<longrightarrow> cl_stop_epoch l = cl_stop_epoch p)
     \<and> (\<forall>c \<in> cl_capabilities l. \<exists>g \<in> cl_capabilities p. capability_matches g c)
     \<and> (\<forall>c \<in> cl_resources l. \<exists>g \<in> cl_resources p. resource_scope_contains g c)"

definition ledger_inv :: "CapabilityAuthority \<Rightarrow> bool" where
  "ledger_inv a \<longleftrightarrow>
     leases_ok (ca_leases a)
     \<and> (\<forall>i l. dict_get (ca_leases a) i = Some l \<longrightarrow>
          (\<exists>n. dict_get (ca_uses a) i = Some n \<and> 0 \<le> n \<and> (\<forall>m. cl_max_uses l = Some m \<longrightarrow> n \<le> m))
          \<and> (\<forall>pid. cl_parent_lease_id l = Some pid \<longrightarrow> (\<exists>p. dict_get (ca_leases a) pid = Some p \<and> attenuates p l)))"

lemma ledger_invD:
  assumes "ledger_inv a" "dict_get (ca_leases a) i = Some l"
  shows "lease_id l = i" "lease_post_init l = Inr l"
    "\<exists>n. dict_get (ca_uses a) i = Some n \<and> 0 \<le> n \<and> (\<forall>m. cl_max_uses l = Some m \<longrightarrow> n \<le> m)"
    "cl_parent_lease_id l = Some pid \<Longrightarrow> \<exists>p. dict_get (ca_leases a) pid = Some p \<and> attenuates p l"
  using assms unfolding ledger_inv_def leases_ok_def by blast+

lemma validate_delegation_attenuates: "validate_delegation p l = Inr u \<Longrightarrow> attenuates p l"
  by (auto simp: validate_delegation_def attenuates_def split: if_splits)

lemma attenuates_le:
  assumes "attenuates p l" "lease_le p p'" "lease_le l l'"
  shows "attenuates p' l'"
  using assms(1) by (simp add: attenuates_def lease_le_sel [OF assms(2)] lease_le_sel [OF assms(3)])

text \<open>Revocations keep the invariant, and so does the sweep.\<close>

lemma ledger_inv_le:
  assumes inv: "ledger_inv a" and le: "leases_le (ca_leases a) (ca_leases b)" and ok: "leases_ok (ca_leases b)"
    and uses: "ca_uses b = ca_uses a"
  shows "ledger_inv b"
proof -
  have "(\<exists>n. dict_get (ca_uses b) i = Some n \<and> 0 \<le> n \<and> (\<forall>m. cl_max_uses l' = Some m \<longrightarrow> n \<le> m))
      \<and> (\<forall>pid. cl_parent_lease_id l' = Some pid \<longrightarrow> (\<exists>p. dict_get (ca_leases b) pid = Some p \<and> attenuates p l'))"
    if l': "dict_get (ca_leases b) i = Some l'" for i l'
  proof -
    from leases_le_back [OF le l'] obtain l where l: "dict_get (ca_leases a) i = Some l" "lease_le l l'" by blast
    note D = ledger_invD [OF inv l(1)]
    have "\<exists>p'. dict_get (ca_leases b) pid = Some p' \<and> attenuates p' l'" if "cl_parent_lease_id l' = Some pid" for pid
    proof -
      from that lease_le_sel(8) [OF l(2)] D(4) obtain p where p: "dict_get (ca_leases a) pid = Some p" "attenuates p l" by auto
      with le obtain p' where "dict_get (ca_leases b) pid = Some p'" "lease_le p p'" unfolding leases_le_def by blast
      with p(2) l(2) show ?thesis by (blast intro: attenuates_le)
    qed
    with D(3) lease_le_sel(9) [OF l(2)] show ?thesis by (simp add: uses)
  qed
  with ok show ?thesis unfolding ledger_inv_def by blast
qed

lemma sweep_inv:
  assumes "ledger_inv a" "sweep_superseded_leases h a = (r, b)"
  shows "ledger_inv b"
  using sweep_le [OF assms(2)] assms(1) ledger_inv_le [OF assms(1)] by (auto simp: ledger_inv_def)

lemma delegating_parent_cases:
  assumes "delegating_parent h pid starts a = (r, b)" "ledger_inv a"
  shows "ledger_inv b \<and> leases_le (ca_leases a) (ca_leases b) \<and> ca_uses b = ca_uses a \<and> ca_stop b = ca_stop a
    \<and> (\<forall>p. r = Inr (Some p) \<longrightarrow> dict_get (ca_leases b) (lease_id p) = Some p \<and> is_active p starts = Inr True)"
proof (cases pid)
  case None
  with assms show ?thesis by (auto simp: delegating_parent_def)
next
  case (Some i)
  obtain r' a' where sw: "sweep_superseded_leases h a = (r', a')" by force
  have b: "b = a'" using assms(1) Some sw
    by (auto simp: delegating_parent_def split: sum.splits option.splits if_splits)
  have inv: "ledger_inv a'" by (rule sweep_inv [OF assms(2) sw])
  have "dict_get (ca_leases b) (lease_id p) = Some p \<and> is_active p starts = Inr True" if "r = Inr (Some p)" for p
    using assms(1) Some sw that ledger_invD(1) [OF inv]
    by (auto simp: delegating_parent_def split: sum.splits option.splits if_splits)
  moreover have "leases_le (ca_leases a) (ca_leases a') \<and> ca_uses a' = ca_uses a \<and> ca_stop a' = ca_stop a"
    using sweep_le [OF sw] assms(2) by (auto simp: ledger_inv_def)
  ultimately show ?thesis using inv b by auto
qed

text \<open>What a successful call of \<^verbatim>\<open>issue\<close> adds to the ledger.\<close>

lemma issue_cases:
  assumes "issue h uuid q a = (r, b)" "ledger_inv a"
  obtains (refused) e where "r = Inl e" "ledger_inv b" "leases_le (ca_leases a) (ca_leases b)" "ca_uses b = ca_uses a"
      "ca_stop b = ca_stop a"
  | (issued) a' l where "r = Inr l" "ledger_inv a'" "leases_le (ca_leases a) (ca_leases a')" "ca_uses a' = ca_uses a"
      "ca_stop a' = ca_stop a" "lease_post_init l = Inr l" "cl_revoked_at l = None"
      "dict_get (ca_leases a') (lease_id l) = None" "current_stop_epoch h a' = Inr (cl_stop_epoch l)"
      "cl_parent_lease_id l = None \<or> (\<exists>p. cl_parent_lease_id l = Some (lease_id p)
         \<and> dict_get (ca_leases a') (lease_id p) = Some p \<and> attenuates p l)"
      "b = a'\<lparr>ca_leases := dict_set (lease_id l) l (ca_leases a'), ca_uses := dict_set (lease_id l) 0 (ca_uses a')\<rparr>"
proof (cases "issue_window q")
  case (Inl e)
  with assms refused show ?thesis by (auto simp: issue_def)
next
  case (Inr w)
  obtain issued starts ends where w: "w = (issued, starts, ends)" by (cases w)
  obtain rp a' where dp: "delegating_parent h (ir_parent q) starts a = (rp, a')" by force
  note D = delegating_parent_cases [OF dp assms(2)]
  show ?thesis
  proof (cases r)
    case (Inl e)
    with assms(1) Inr w dp have "b = a'"
      by (auto simp: issue_def split: sum.splits option.splits if_splits)
    with D Inl refused show ?thesis by blast
  next
    case ok: (Inr l)
    from assms(1) Inr w dp ok obtain parent epoch where parent: "rp = Inr parent"
      and pi: "lease_post_init (requested_lease uuid (ca_issuer a') q (issued, starts, ends) parent epoch) = Inr l"
      and l: "dict_get (ca_leases a') (lease_id l) = None" "current_stop_epoch h a' = Inr epoch"
      "b = a'\<lparr>ca_leases := dict_set (lease_id l) l (ca_leases a'), ca_uses := dict_set (lease_id l) 0 (ca_uses a')\<rparr>"
      and del: "case parent of None \<Rightarrow> True | Some p \<Rightarrow> validate_delegation p l = Inr ()"
      by (auto simp: issue_def split: sum.splits option.splits if_splits)
    have l_eq: "l = requested_lease uuid (ca_issuer a') q (issued, starts, ends) parent epoch"
      using lease_post_init_eq [OF pi] .
    then have sel: "lease_post_init l = Inr l" "cl_revoked_at l = None" "cl_parent_lease_id l = map_option lease_id parent"
      "cl_stop_epoch l = epoch" using pi by (simp_all add: requested_lease_def)
    have "cl_parent_lease_id l = None \<or> (\<exists>p. cl_parent_lease_id l = Some (lease_id p)
        \<and> dict_get (ca_leases a') (lease_id p) = Some p \<and> attenuates p l)"
      using D parent sel(3) del validate_delegation_attenuates by (cases parent) auto
    with ok l D sel issued show ?thesis by blast
  qed
qed

lemma ledger_inv_issued:
  assumes inv: "ledger_inv a" and l: "lease_post_init l = Inr l" "dict_get (ca_leases a) (lease_id l) = None"
    and parent: "cl_parent_lease_id l = None \<or> (\<exists>p. cl_parent_lease_id l = Some (lease_id p)
         \<and> dict_get (ca_leases a) (lease_id p) = Some p \<and> attenuates p l)"
    and b: "b = a\<lparr>ca_leases := dict_set (lease_id l) l (ca_leases a), ca_uses := dict_set (lease_id l) 0 (ca_uses a)\<rparr>"
  shows "ledger_inv b"
proof -
  have max: "cl_max_uses l = Some m \<Longrightarrow> 0 < m" for m
    using l(1) by (auto simp: lease_post_init_def split: if_splits sum.splits option.splits)
  have old: "\<exists>p. dict_get (ca_leases b) pid = Some p \<and> attenuates p k"
    if "\<exists>p. dict_get (ca_leases a) pid = Some p \<and> attenuates p k" for pid k
    using that l(2) b by auto
  have "(\<exists>n. dict_get (ca_uses b) i = Some n \<and> 0 \<le> n \<and> (\<forall>m. cl_max_uses k = Some m \<longrightarrow> n \<le> m))
      \<and> (\<forall>pid. cl_parent_lease_id k = Some pid \<longrightarrow> (\<exists>p. dict_get (ca_leases b) pid = Some p \<and> attenuates p k))"
    if k: "dict_get (ca_leases b) i = Some k" for i k
  proof (cases "i = lease_id l")
    case True
    with k b have "k = l" by simp
    moreover have "\<forall>pid. cl_parent_lease_id l = Some pid \<longrightarrow> (\<exists>p. dict_get (ca_leases b) pid = Some p \<and> attenuates p l)"
      using parent old by fastforce
    ultimately show ?thesis using True b max by (auto intro: less_imp_le)
  next
    case False
    with k b have k': "dict_get (ca_leases a) i = Some k" by simp
    from ledger_invD(3,4) [OF inv k'] old False b show ?thesis by auto
  qed
  moreover have "leases_ok (ca_leases b)"
    using inv l b by (simp add: ledger_inv_def leases_ok_set)
  ultimately show ?thesis unfolding ledger_inv_def by blast
qed

lemma issue_inv: "issue h uuid q a = (r, b) \<Longrightarrow> ledger_inv a \<Longrightarrow> ledger_inv b"
  by (erule issue_cases) (auto intro: ledger_inv_issued)

lemma revoke_cases:
  assumes "revoke h i at_time a = (r, b)" "ledger_inv a"
  shows "ledger_inv b \<and> leases_le (ca_leases a) (ca_leases b) \<and> ca_uses b = ca_uses a \<and> ca_stop b = ca_stop a
    \<and> (\<forall>l. r = Inr l \<longrightarrow> dict_get (ca_leases b) i = Some l \<and> cl_revoked_at l \<noteq> None)"
proof (cases "dt_aware at_time")
  case False
  with assms show ?thesis by (auto simp: revoke_def split: sum.splits)
next
  case True
  obtain r' a' where sw: "sweep_superseded_leases h a = (r', a')" by force
  have a': "ledger_inv a'" by (rule sweep_inv [OF assms(2) sw])
  have le: "leases_le (ca_leases a) (ca_leases a')" "ca_uses a' = ca_uses a" "ca_stop a' = ca_stop a"
    using sweep_le [OF sw] assms(2) by (auto simp: ledger_inv_def)
  show ?thesis
  proof (cases "\<exists>l l'. dict_get (ca_leases a') i = Some l \<and> cl_revoked_at l = None
      \<and> lease_post_init (l\<lparr>cl_revoked_at := Some at_time\<rparr>) = Inr l' \<and> is_ok r'")
    case False
    then have "b = a' \<and> (\<forall>l. r = Inr l \<longrightarrow> dict_get (ca_leases a') i = Some l \<and> cl_revoked_at l \<noteq> None)"
      using assms(1) True sw by (auto simp: revoke_def split: sum.splits option.splits if_splits)
    with a' le show ?thesis by auto
  next
    case ok: True
    then obtain l l' where l: "dict_get (ca_leases a') i = Some l" "cl_revoked_at l = None"
      "lease_post_init (l\<lparr>cl_revoked_at := Some at_time\<rparr>) = Inr l'" "is_ok r'" by blast
    have l': "l' = l\<lparr>cl_revoked_at := Some at_time\<rparr>" using lease_post_init_eq [OF l(3)] .
    have b: "r = Inr l'" "b = a'\<lparr>ca_leases := dict_set i l' (ca_leases a')\<rparr>"
      using assms(1) True sw l by (auto simp: revoke_def is_ok_iff split: sum.splits)
    have ll: "lease_le l l'" using l(2) l' by (auto simp: lease_le_def)
    have "leases_le (ca_leases a') (ca_leases b)" using b leases_le_set [OF l(1) ll] by simp
    moreover have "leases_ok (ca_leases b)"
      using b a' l l' ledger_invD(1) [OF a' l(1)] by (auto simp: ledger_inv_def intro!: leases_ok_set)
    ultimately show ?thesis
      using ledger_inv_le [OF a', of b] b le leases_le_trans l' by auto
  qed
qed

lemma authorize_cases:
  assumes "authorize h i c rs t subj consume a = (r, b)" "ledger_inv a"
  obtains (refused) e where "r = Inl e" "ledger_inv b" "leases_le (ca_leases a) (ca_leases b)" "ca_uses b = ca_uses a"
      "ca_stop b = ca_stop a"
  | (granted) a' l n where "r = Inr l" "ledger_inv a'" "leases_le (ca_leases a) (ca_leases a')" "ca_uses a' = ca_uses a"
      "ca_stop a' = ca_stop a" "dt_aware t" "dict_get (ca_leases a') i = Some l"
      "require_current_stop_epoch h a' l = Inr ()" "allows l c rs t subj = Inr True"
      "require_active_ancestry (ca_leases a') l t {} = Inr ()" "dict_get (ca_uses a') i = Some n"
      "\<forall>m. cl_max_uses l = Some m \<longrightarrow> n < m"
      "b = (if consume then a'\<lparr>ca_uses := dict_set i (n + 1) (ca_uses a')\<rparr> else a')"
proof (cases "dt_aware t")
  case False
  with assms refused show ?thesis by (auto simp: authorize_def split: sum.splits)
next
  case True
  obtain r' a' where sw: "sweep_superseded_leases h a = (r', a')" by force
  have a': "ledger_inv a'" by (rule sweep_inv [OF assms(2) sw])
  have le: "leases_le (ca_leases a) (ca_leases a')" "ca_uses a' = ca_uses a" "ca_stop a' = ca_stop a"
    using sweep_le [OF sw] assms(2) by (auto simp: ledger_inv_def)
  show ?thesis
  proof (cases r)
    case (Inl e)
    then have "b = a'" using assms(1) True sw
      by (auto simp: authorize_def split: sum.splits option.splits bool.splits if_splits)
    with a' le Inl refused show ?thesis by blast
  next
    case (Inr l)
    with assms(1) True sw obtain n where "dict_get (ca_leases a') i = Some l"
      "require_current_stop_epoch h a' l = Inr ()" "allows l c rs t subj = Inr True"
      "require_active_ancestry (ca_leases a') l t {} = Inr ()" "dict_get (ca_uses a') i = Some n"
      "\<forall>m. cl_max_uses l = Some m \<longrightarrow> n < m"
      "b = (if consume then a'\<lparr>ca_uses := dict_set i (n + 1) (ca_uses a')\<rparr> else a')"
      by (auto simp: authorize_def split: sum.splits option.splits bool.splits if_splits)
    with a' le True Inr granted show ?thesis by blast
  qed
qed

lemma ledger_inv_used:
  assumes inv: "ledger_inv a" and l: "dict_get (ca_leases a) i = Some l" and n: "dict_get (ca_uses a) i = Some n"
    "\<forall>m. cl_max_uses l = Some m \<longrightarrow> n < m"
  shows "ledger_inv (a\<lparr>ca_uses := dict_set i (n + 1) (ca_uses a)\<rparr>)"
proof -
  have "\<exists>n'. dict_get (dict_set i (n + 1) (ca_uses a)) j = Some n' \<and> 0 \<le> n' \<and> (\<forall>m. cl_max_uses k = Some m \<longrightarrow> n' \<le> m)"
    if k: "dict_get (ca_leases a) j = Some k" for j k
    using ledger_invD(3) [OF inv k] k l n by (cases "j = i") fastforce+
  with inv ledger_invD(4) [OF inv] show ?thesis unfolding ledger_inv_def by simp
qed

lemma authorize_inv:
  assumes "authorize h i c rs t subj consume a = (r, b)" "ledger_inv a"
  shows "ledger_inv b"
  using assms
proof (cases rule: authorize_cases)
  case (granted a' l n)
  from ledger_inv_used [OF granted(2,7,11,12)] granted(2,13) show ?thesis by simp
qed

lemma bind_stop_inv: "bind_stop_controller h s a = (r, b) \<Longrightarrow> ledger_inv a \<Longrightarrow> ledger_inv b"
  by (auto simp: bind_stop_controller_def ledger_inv_def split: option.splits if_splits)

text \<open>One step is one call of an operation of the authority, at any state of the controllers.\<close>

inductive authority_step :: "CapabilityAuthority \<Rightarrow> CapabilityAuthority \<Rightarrow> bool" where
  bound: "bind_stop_controller h s a = (r1, b) \<Longrightarrow> authority_step a b"
| issued: "issue h uuid q a = (r2, b) \<Longrightarrow> authority_step a b"
| got: "authority_get h i a = (r3, b) \<Longrightarrow> authority_step a b"
| revoked: "revoke h i t a = (r4, b) \<Longrightarrow> authority_step a b"
| authorized: "authorize h i c rs t subj consume a = (r5, b) \<Longrightarrow> authority_step a b"

inductive_cases authority_stepE: "authority_step a b"

definition authority_init :: "CapabilityAuthority \<Rightarrow> bool" where
  "authority_init a \<longleftrightarrow> (\<exists>h issuer stop. new_authority h issuer stop = Inr a)"

lemma authority_get_sweep: "authority_get h i a = (r, b) \<Longrightarrow> \<exists>r'. sweep_superseded_leases h a = (r', b)"
  by (cases "sweep_superseded_leases h a") (auto simp: authority_get_def split: sum.splits)

interpretation ledger: invariant_system authority_init authority_step ledger_inv
proof unfold_locales
  show "ledger_inv a" if "authority_init a" for a
    using that by (auto simp: authority_init_def new_authority_def ledger_inv_def leases_ok_def Let_def
        bind_stop_controller_def split: if_splits option.splits)
  show "ledger_inv b" if "ledger_inv a" "authority_step a b" for a b
    using that(2,1) by cases (auto dest: bind_stop_inv issue_inv revoke_cases authorize_inv authority_get_sweep sweep_inv)
qed

text \<open>Along a run leases are kept, revocations stay, and usage counts only grow.\<close>

definition authority_le :: "CapabilityAuthority \<Rightarrow> CapabilityAuthority \<Rightarrow> bool" where
  "authority_le a b \<longleftrightarrow>
     (\<forall>i l. dict_get (ca_leases a) i = Some l \<longrightarrow> (\<exists>l'. dict_get (ca_leases b) i = Some l' \<and> lease_le l l'))
     \<and> (\<forall>i n. dict_get (ca_leases a) i \<noteq> None \<longrightarrow> dict_get (ca_uses a) i = Some n \<longrightarrow>
          (\<exists>n'. dict_get (ca_uses b) i = Some n' \<and> n \<le> n'))
     \<and> (\<forall>s. ca_stop a = Some s \<longrightarrow> ca_stop b = Some s)"

lemma authority_leI:
  assumes "leases_le (ca_leases a) (ca_leases b)" "ca_uses b = ca_uses a" "ca_stop b = ca_stop a"
  shows "authority_le a b"
  using assms unfolding authority_le_def leases_le_def by auto

lemma authority_le_trans:
  assumes "authority_le a b" "authority_le b c"
  shows "authority_le a c"
proof -
  have l: "\<exists>l'. dict_get (ca_leases c) i = Some l' \<and> lease_le l l'" if "dict_get (ca_leases a) i = Some l" for i l
    using that assms unfolding authority_le_def by (meson lease_le_trans)
  have u: "\<exists>n'. dict_get (ca_uses c) i = Some n' \<and> n \<le> n'"
    if "dict_get (ca_leases a) i = Some l" "dict_get (ca_uses a) i = Some n" for i l n
  proof -
    from that assms(1) obtain n' l' where "dict_get (ca_uses b) i = Some n'" "n \<le> n'" "dict_get (ca_leases b) i = Some l'"
      unfolding authority_le_def by (metis option.distinct(1))
    with assms(2) show ?thesis unfolding authority_le_def by (metis option.distinct(1) order_trans)
  qed
  show ?thesis using l u assms unfolding authority_le_def by auto
qed

lemma authority_le_step:
  assumes inv: "ledger_inv a" and step: "authority_step a b"
  shows "authority_le a b"
  using step
proof cases
  case (bound h s r)
  then show ?thesis
    by (auto simp: bind_stop_controller_def authority_le_def split: option.splits if_splits)
next
  case (issued h uuid q r)
  from issued inv show ?thesis
  proof (cases rule: issue_cases)
    case refused
    then show ?thesis by (intro authority_leI)
  next
    case (issued a' l)
    then have "authority_le a a'" by (intro authority_leI)
    moreover have "authority_le a' b" using issued(8,11) by (auto simp: authority_le_def)
    ultimately show ?thesis by (rule authority_le_trans)
  qed
next
  case (got h i r)
  then obtain r' where "sweep_superseded_leases h a = (r', b)" using authority_get_sweep by blast
  with sweep_le inv show ?thesis by (intro authority_leI) (auto simp: ledger_inv_def)
next
  case (revoked h i t r)
  with revoke_cases inv show ?thesis by (intro authority_leI) auto
next
  case (authorized h i c rs t subj consume r)
  from authorized inv show ?thesis
  proof (cases rule: authorize_cases)
    case refused
    then show ?thesis by (intro authority_leI)
  next
    case (granted a' l n)
    then have "authority_le a a'" by (intro authority_leI)
    moreover have "authority_le a' b" using granted(11,13) by (auto simp: authority_le_def)
    ultimately show ?thesis by (rule authority_le_trans)
  qed
qed

interpretation ledger_run: monotone_system "\<lambda>a b. ledger_inv a \<and> authority_step a b" authority_le
proof unfold_locales
  show "authority_le a a" for a by (auto simp: authority_le_def)
qed (auto intro: authority_le_trans authority_le_step)

section \<open>Delegation chains\<close>

inductive ancestor :: "(pystr, CapabilityLease) dict \<Rightarrow> CapabilityLease \<Rightarrow> CapabilityLease \<Rightarrow> bool" for ls where
  parent: "cl_parent_lease_id l = Some pid \<Longrightarrow> dict_get ls pid = Some p \<Longrightarrow> ancestor ls l p"
| above: "cl_parent_lease_id l = Some pid \<Longrightarrow> dict_get ls pid = Some p \<Longrightarrow> ancestor ls p g \<Longrightarrow> ancestor ls l g"

lemma ancestry_active:
  "ancestor ls l p \<Longrightarrow> require_active_ancestry ls l t seen = Inr () \<Longrightarrow> is_active p t = Inr True"
proof (induction arbitrary: seen rule: ancestor.induct)
  case (parent l pid p)
  then show ?case by (subst (asm) require_active_ancestry.simps) (auto split: if_splits sum.splits)
next
  case (above l pid p g)
  from above.prems above.hyps(1,2) have "require_active_ancestry ls p t (insert (lease_id l) seen) = Inr ()"
    by (subst (asm) require_active_ancestry.simps) (auto split: if_splits sum.splits)
  then show ?case by (rule above.IH)
qed

definition in_scope :: "CapabilityLease \<Rightarrow> pystr \<Rightarrow> pystr \<Rightarrow> bool" where
  "in_scope l c r \<longleftrightarrow> (\<exists>g \<in> cl_capabilities l. capability_matches g c) \<and> (\<exists>s \<in> cl_resources l. resource_matches s r)"

lemma attenuates_scope: "attenuates p l \<Longrightarrow> in_scope l c r \<Longrightarrow> in_scope p c r"
  unfolding attenuates_def in_scope_def by (meson capability_matches_trans resource_contains_matches)

lemma ancestor_scope:
  assumes "ancestor (ca_leases a) l p" "ledger_inv a" "dict_get (ca_leases a) i = Some l" "in_scope l c r"
  shows "in_scope p c r"
  using assms
proof (induction arbitrary: i rule: ancestor.induct)
  case (parent l pid p)
  from ledger_invD(4) [OF parent(3,4,1)] parent(2) have "attenuates p l" by simp
  with parent show ?case by (blast intro: attenuates_scope)
next
  case (above l pid p g)
  from ledger_invD(4) [OF above(5,6,1)] above(2) have "attenuates p l" by simp
  with above show ?case by (blast intro: attenuates_scope)
qed

lemma allows_True_iff:
  "allows l c r t subj = Inr True \<longleftrightarrow>
     (subj = None \<or> subj = Some (cl_subject l)) \<and> is_active l t = Inr True \<and> in_scope l c r"
  by (auto simp: allows_def in_scope_def split: sum.splits)

lemma is_active_iff:
  "is_active l t = Inr True \<longleftrightarrow> dt_aware t \<and> dt_le (cl_not_before l) t \<and> dt_lt t (cl_expires_at l)
     \<and> (\<forall>r. cl_revoked_at l = Some r \<longrightarrow> dt_lt t r)"
  by (auto simp: is_active_def split: sum.splits option.splits)

lemma reachable_ledger:
  assumes "new_authority h issuer stop = Inr a" "authority_step\<^sup>*\<^sup>* a b"
  shows "ledger_inv b"
proof -
  have "authority_init a" unfolding authority_init_def using assms(1) by blast
  then show ?thesis using assms(2) by (rule ledger.reachable_invar)
qed

lemma authorize_within_ancestry_aux:
  assumes "authorize h i c r t subj consume a = (Inr l, b)" and inv: "ledger_inv a"
  shows "dict_get (ca_leases b) i = Some l \<and> is_active l t = Inr True \<and> in_scope l c r
    \<and> (subj = None \<or> subj = Some (cl_subject l))
    \<and> (\<forall>p. ancestor (ca_leases b) l p \<longrightarrow> is_active p t = Inr True \<and> in_scope p c r)"
  using assms
proof (cases rule: authorize_cases)
  case (granted a' l' n)
  then have "l' = l" and ls: "ca_leases b = ca_leases a'" by simp_all
  moreover have "is_active p t = Inr True \<and> in_scope p c r" if "ancestor (ca_leases a') l p" for p
    using that granted \<open>l' = l\<close> ancestry_active ancestor_scope allows_True_iff by blast
  ultimately show ?thesis using granted(7,9) by (auto simp: allows_True_iff)
qed simp

section \<open>Properties\<close>

definition example_lease :: CapabilityLease where
  "example_lease = \<lparr>lease_id = lit ''i'', cl_subject = lit ''s'', cl_capabilities = {lit ''x:*''},
     cl_resources = {lit ''*''}, cl_not_before = utc_at 0, cl_expires_at = utc_at 100, cl_issued_at = utc_at 0,
     cl_issuer = lit ''a'', cl_revoked_at = None, cl_parent_lease_id = None, cl_max_uses = Some 2, cl_stop_epoch = None\<rparr>"

definition example_issue :: IssueRequest where
  "example_issue = \<lparr>ir_subject = lit ''s'', ir_capabilities = [lit ''x:*''], ir_resources = [lit ''*''],
     ir_issued_at = utc_at 0, ir_not_before = None, ir_expires_at = Some (utc_at 100), ir_ttl = None,
     ir_lease_id = Some (lit ''i''), ir_max_uses = Some 2, ir_parent = None\<rparr>"

definition example_authority :: CapabilityAuthority where
  "example_authority = \<lparr>ca_issuer = lit ''a'', ca_leases = [], ca_uses = [], ca_stop = None, ca_bound_epoch = 0,
     ca_swept_epoch = 0\<rparr>"

definition example_ledger :: CapabilityAuthority where
  "example_ledger = example_authority\<lparr>ca_leases := [(lit ''i'', example_lease)], ca_uses := [(lit ''i'', 0)]\<rparr>"

lemma example_authority_new: "new_authority h (lit ''a'') None = Inr example_authority"
  by (simp add: new_authority_def example_authority_def)

lemma example_issued: "issue h [] example_issue example_authority = (Inr example_lease, example_ledger)"
  by (simp add: issue_def issue_window_def example_issue_def delegating_parent_def current_stop_epoch_def
      requested_lease_def lease_post_init_def example_lease_def example_ledger_def example_authority_def)

lemma example_ledger_run: "authority_step\<^sup>*\<^sup>* example_authority example_ledger"
  using authority_step.issued [OF example_issued] by blast

lemma example_authorized:
  "authorize h (lit ''i'') (lit ''x:y'') (lit ''r'') (utc_at 5) None True example_ledger =
     (Inr example_lease, example_ledger\<lparr>ca_uses := [(lit ''i'', 1)]\<rparr>)"
proof -
  have "allows example_lease (lit ''x:y'') (lit ''r'') (utc_at 5) None = Inr True"
    by (simp add: allows_True_iff is_active_iff in_scope_def example_lease_def capability_matches_def
        resource_matches_def lit_def suffix_def)
  moreover have "require_active_ancestry L example_lease (utc_at 5) {} = Inr ()" for L
    by (subst require_active_ancestry.simps) (simp add: example_lease_def)
  moreover have "cl_max_uses example_lease = Some 2" by (simp add: example_lease_def)
  ultimately show ?thesis
    by (simp add: authorize_def sweep_superseded_leases_def example_ledger_def example_authority_def
        require_current_stop_epoch_def)
qed

text \<open>
  C6 [authorize_within_ancestry]: when an authority reached by any sequence of calls authorizes a use, the
  lease is active at that instant, names the capability and the resource, and so does every lease it was
  delegated from: delegation never widens what can be done, and one revoked or expired ancestor stops
  the whole chain.
\<close>

theorem authorize_within_ancestry:
  assumes "new_authority h0 issuer stop = Inr a0" and "authority_step\<^sup>*\<^sup>* a0 a"
    and "authorize h i c r t subj consume a = (Inr l, b)"
  shows "dict_get (ca_leases b) i = Some l \<and> is_active l t = Inr True \<and> in_scope l c r
    \<and> (subj = None \<or> subj = Some (cl_subject l))
    \<and> (\<forall>p. ancestor (ca_leases b) l p \<longrightarrow> is_active p t = Inr True \<and> in_scope p c r)"
proof -
  have inv: "ledger_inv a" using assms(1,2) by (rule reachable_ledger)
  with assms(3) show ?thesis by (rule authorize_within_ancestry_aux)
qed

theorem authorize_within_ancestry_witness:
  "is_active example_lease (utc_at 5) = Inr True \<and> in_scope example_lease (lit ''x:y'') (lit ''r'')"
  using authorize_within_ancestry [OF example_authority_new example_ledger_run example_authorized] by blast

text \<open>
  In every reachable ledger each lease has a usage count between zero and
  its limit, and a consuming authorization of a lease at its limit is refused.
\<close>

theorem usage_never_exceeds_limit:
  assumes "new_authority h0 issuer stop = Inr a0" and "authority_step\<^sup>*\<^sup>* a0 a" and "dict_get (ca_leases a) i = Some l"
    and "cl_max_uses l = Some m"
  shows "\<exists>n. usage i a = Inr n \<and> 0 \<le> n \<and> n \<le> m
    \<and> (n = m \<longrightarrow> \<not> is_ok (fst (authorize h i c r t subj consume a)))"
proof -
  have inv: "ledger_inv a" using assms(1,2) by (rule reachable_ledger)
  from ledger_invD(3) [OF inv assms(3)] assms(4) obtain n where n: "dict_get (ca_uses a) i = Some n" "0 \<le> n" "n \<le> m" by blast
  have "\<not> is_ok (fst (authorize h i c r t subj consume a))" if "n = m"
  proof -
    obtain res b where au: "authorize h i c r t subj consume a = (res, b)" by force
    from au inv show ?thesis
    proof (cases rule: authorize_cases)
      case (granted a' l' k)
      from leases_le_back [OF granted(3,7)] assms(3) have "cl_max_uses l' = cl_max_uses l"
        using lease_le_sel(9) by fastforce
      with granted(4,11,12) assms(4) n(1) that show ?thesis by simp
    qed (simp add: au)
  qed
  with n show ?thesis by (auto simp: usage_def)
qed

theorem usage_never_exceeds_limit_witness: "\<exists>n. usage (lit ''i'') example_ledger = Inr n \<and> 0 \<le> n \<and> n \<le> 2"
proof -
  have "dict_get (ca_leases example_ledger) (lit ''i'') = Some example_lease" "cl_max_uses example_lease = Some 2"
    by (simp_all add: example_ledger_def example_lease_def)
  from usage_never_exceeds_limit [OF example_authority_new example_ledger_run this] show ?thesis by blast
qed

text \<open>
  C33 [revocation_is_final]: once a lease is recorded as revoked, whatever calls follow, no later use at or
  after the revocation instant is authorized, neither of the lease itself nor of any lease delegated
  from it.
\<close>

theorem revocation_is_final:
  assumes "new_authority h0 issuer stop = Inr a0" and "authority_step\<^sup>*\<^sup>* a0 a" and "authority_step\<^sup>*\<^sup>* a b"
    and "dict_get (ca_leases a) i = Some l" and "cl_revoked_at l = Some rv" and "dt_le rv t"
    and "authorize h j c r t subj consume b = (Inr l', b')"
  shows "j \<noteq> i \<and> (\<forall>p. ancestor (ca_leases b') l' p \<longrightarrow> lease_id p \<noteq> i)"
proof -
  have inva: "ledger_inv a" using assms(1,2) by (rule reachable_ledger)
  have invb: "ledger_inv b" using ledger.invar_steps [OF assms(3) inva] .
  have "authority_le a b" using assms(3) inva by (blast intro: ledger_run.run_le ledger.run_restrict)
  moreover have stepb: "authority_step b b'" using assms(7) by (rule authority_step.authorized)
  ultimately have "authority_le a b'" using invb authority_le_step authority_le_trans by blast
  with assms(4) obtain k where k: "dict_get (ca_leases b') i = Some k" "lease_le l k"
    unfolding authority_le_def by blast
  have dead: "is_active k t \<noteq> Inr True"
    using lease_le_sel(11) [OF k(2) assms(5)] assms(6) by (simp add: is_active_iff)
  note A = authorize_within_ancestry_aux [OF assms(7) invb]
  have invb': "ledger_inv b'" using ledger.invar_step [OF invb stepb] .
  have "lease_id p \<noteq> i" if "ancestor (ca_leases b') l' p" for p
  proof
    assume i: "lease_id p = i"
    from that obtain pid where "dict_get (ca_leases b') pid = Some p" by (induction rule: ancestor.induct) auto
    with ledger_invD(1) [OF invb' this] i k(1) have "p = k" by simp
    with A that dead show False by blast
  qed
  moreover have "j \<noteq> i" using A k(1) dead by auto
  ultimately show ?thesis by blast
qed

definition example_revoked :: CapabilityAuthority where
  "example_revoked = example_authority\<lparr>
     ca_leases := [(lit ''i'', example_lease\<lparr>cl_revoked_at := Some (utc_at 3)\<rparr>), (lit ''j'', example_lease\<lparr>lease_id := lit ''j''\<rparr>)],
     ca_uses := [(lit ''i'', 0), (lit ''j'', 0)]\<rparr>"

lemma example_revoked_run: "authority_step\<^sup>*\<^sup>* example_authority example_revoked"
proof -
  let ?b = "example_authority\<lparr>ca_leases := [(lit ''i'', example_lease), (lit ''j'', example_lease\<lparr>lease_id := lit ''j''\<rparr>)],
     ca_uses := [(lit ''i'', 0), (lit ''j'', 0)]\<rparr>"
  have "issue undefined [] (example_issue\<lparr>ir_lease_id := Some (lit ''j'')\<rparr>) example_ledger =
      (Inr (example_lease\<lparr>lease_id := lit ''j''\<rparr>), ?b)"
    by (simp add: issue_def issue_window_def example_issue_def delegating_parent_def current_stop_epoch_def
        requested_lease_def lease_post_init_def example_lease_def example_ledger_def example_authority_def)
  moreover have "revoke undefined (lit ''i'') (utc_at 3) ?b =
      (Inr (example_lease\<lparr>cl_revoked_at := Some (utc_at 3)\<rparr>), example_revoked)"
    by (simp add: revoke_def sweep_superseded_leases_def lease_post_init_def example_lease_def example_revoked_def
        example_authority_def)
  ultimately have "authority_step example_ledger ?b" "authority_step ?b example_revoked"
    by (blast intro: authority_step.issued authority_step.revoked)+
  with example_ledger_run show ?thesis by (meson rtranclp.rtrancl_into_rtrancl)
qed

theorem revocation_is_final_witness:
  "\<exists>b. authorize (\<lambda>_. undefined) (lit ''j'') (lit ''x:y'') (lit ''r'') (utc_at 5) None False example_revoked =
       (Inr (example_lease\<lparr>lease_id := lit ''j''\<rparr>), b)
     \<and> (\<forall>p. ancestor (ca_leases b) (example_lease\<lparr>lease_id := lit ''j''\<rparr>) p \<longrightarrow> lease_id p \<noteq> lit ''i'')"
proof -
  let ?l = "example_lease\<lparr>lease_id := lit ''j''\<rparr>"
  have "allows ?l (lit ''x:y'') (lit ''r'') (utc_at 5) None = Inr True"
    by (simp add: allows_True_iff is_active_iff in_scope_def example_lease_def capability_matches_def
        resource_matches_def lit_def suffix_def)
  moreover have "require_active_ancestry L ?l (utc_at 5) {} = Inr ()" for L
    by (subst require_active_ancestry.simps) (simp add: example_lease_def)
  moreover have "cl_max_uses ?l = Some 2" by (simp add: example_lease_def)
  ultimately have au: "authorize (\<lambda>_. undefined) (lit ''j'') (lit ''x:y'') (lit ''r'') (utc_at 5) None False example_revoked = (Inr ?l, example_revoked)"
    by (simp add: authorize_def sweep_superseded_leases_def example_revoked_def example_authority_def
        require_current_stop_epoch_def)
  have "dict_get (ca_leases example_revoked) (lit ''i'') = Some (example_lease\<lparr>cl_revoked_at := Some (utc_at 3)\<rparr>)"
    by (simp add: example_revoked_def)
  from revocation_is_final [OF example_authority_new example_revoked_run rtranclp.rtrancl_refl this _ _ au] au
  show ?thesis by simp
qed

end
