(* ===== verification/C2_Identity.thy ===== *)
theory C2_Identity
  imports PyValue "HOL-Library.Product_Lexorder"
begin

text \<open>
  The identity registry and its identify-or-abstain resolver, \<^verbatim>\<open>c2_identity.py\<close>.  The Unicode tables behind
  \<^verbatim>\<open>unicodedata.normalize\<close> and \<^verbatim>\<open>str.casefold\<close> are a parameter \<open>nfkc\<close> (NFKC, strip and casefold in one), and
  the order in which Python walks a set of identifiers is a parameter \<open>order\<close>.  Scores are binary64
  values with Python's comparisons, so NaN is visible.
\<close>

section \<open>Comparing floats\<close>

fun float_lt :: "pyfloat \<Rightarrow> pyfloat \<Rightarrow> bool" where
  "float_lt (FFin x) (FFin y) = (x < y)"
| "float_lt (FFin x) (FInf neg) = (\<not> neg)"
| "float_lt (FInf neg) (FFin y) = neg"
| "float_lt (FInf n) (FInf m) = (n \<and> \<not> m)"
| "float_lt _ _ = False"

fun float_eq :: "pyfloat \<Rightarrow> pyfloat \<Rightarrow> bool" where
  "float_eq FNan y = False"
| "float_eq x y = (x = y)"

definition float_le :: "pyfloat \<Rightarrow> pyfloat \<Rightarrow> bool" where
  "float_le x y \<longleftrightarrow> float_lt x y \<or> float_eq x y"

fun float_neg :: "pyfloat \<Rightarrow> pyfloat" where
  "float_neg FNan = FNan"
| "float_neg (FInf n) = FInf (\<not> n)"
| "float_neg (FFin x) = FFin (- x)"

fun float_sub :: "pyfloat \<Rightarrow> pyfloat \<Rightarrow> pyfloat" where
  "float_sub (FFin x) (FFin y) = round64 (x - y)"
| "float_sub (FInf n) (FFin y) = FInf n"
| "float_sub (FFin x) (FInf m) = FInf (\<not> m)"
| "float_sub (FInf n) (FInf m) = (if n = m then FNan else FInf n)"
| "float_sub _ _ = FNan"

abbreviation float_0 :: pyfloat where
  "float_0 \<equiv> FFin 0"

abbreviation float_1 :: pyfloat where
  "float_1 \<equiv> FFin 1"

section \<open>Records\<close>

definition RESERVED_PRINCIPAL_ATTRIBUTES :: "pystr set" where
  "RESERVED_PRINCIPAL_ATTRIBUTES = {lit ''principal_kind'', lit ''status'', lit ''roles''}"

definition normalize_identifier :: "(pystr \<Rightarrow> pystr) \<Rightarrow> pystr \<Rightarrow> pystr res" where
  "normalize_identifier nfkc v =
     (if strip v = [] then Inl (ValueError ''identity identifier must be a non-empty string'') else Inr (nfkc v))"

record IdentityRecord =
  canonical_id :: pystr
  id_aliases :: "pystr set"
  id_attributes :: "(pystr, pyval) dict"

definition identity_record :: "pystr \<Rightarrow> pystr set \<Rightarrow> (pystr, pyval) dict \<Rightarrow> IdentityRecord res" where
  "identity_record i al attrs =
     (if strip i = [] then Inl (ValueError ''canonical_id must be a non-empty string'')
      else Inr \<lparr>canonical_id = i, id_aliases = al, id_attributes = attrs\<rparr>)"

text \<open>The generated \<^verbatim>\<open>==\<close> of the dataclass; mappings compare by their items.\<close>

definition record_eq :: "IdentityRecord \<Rightarrow> IdentityRecord \<Rightarrow> bool" where
  "record_eq r s \<longleftrightarrow> canonical_id r = canonical_id s \<and> id_aliases r = id_aliases s
     \<and> py_eq (PDict (map (\<lambda>(k, v). (KStr k, v)) (id_attributes r))) (PDict (map (\<lambda>(k, v). (KStr k, v)) (id_attributes s)))"

datatype ResolutionStatus = IDENTIFIED | ABSTAIN

record ResolutionOutcome =
  ro_status :: ResolutionStatus
  ro_canonical_id :: "pystr option"
  ro_confidence :: pyfloat
  ro_reason :: string
  ro_candidates :: "pystr list"

definition identified :: "ResolutionOutcome \<Rightarrow> bool" where
  "identified o' \<longleftrightarrow> ro_status o' = IDENTIFIED"

section \<open>The registry\<close>

record IdentityRegistry =
  reg_records :: "(pystr, IdentityRecord) dict"
  reg_aliases :: "(pystr, pystr set) dict"

text \<open>\<^verbatim>\<open>self._aliases.setdefault(key, set()).add(canonical_id)\<close>\<close>

definition link_alias :: "pystr \<Rightarrow> pystr \<Rightarrow> (pystr, pystr set) dict \<Rightarrow> (pystr, pystr set) dict" where
  "link_alias key cid al =
     dict_set key (insert cid (case dict_get al key of None \<Rightarrow> {} | Some s \<Rightarrow> s)) al"

fun link_identifiers ::
  "(pystr \<Rightarrow> pystr) \<Rightarrow> pystr \<Rightarrow> pystr list \<Rightarrow> (pystr, pystr set) dict \<Rightarrow> unit res \<times> (pystr, pystr set) dict" where
  "link_identifiers nfkc cid [] al = (Inr (), al)"
| "link_identifiers nfkc cid (i # is) al =
     (case normalize_identifier nfkc i of Inl e \<Rightarrow> (Inl e, al)
      | Inr key \<Rightarrow> link_identifiers nfkc cid is (link_alias key cid al))"

definition registry_store ::
  "(pystr \<Rightarrow> pystr) \<Rightarrow> (pystr set \<Rightarrow> pystr list) \<Rightarrow> IdentityRecord \<Rightarrow> IdentityRegistry \<Rightarrow> IdentityRecord res \<times> IdentityRegistry" where
  "registry_store nfkc order r g =
     (case dict_get (reg_records g) (canonical_id r) of
        Some existing \<Rightarrow> if record_eq existing r then (Inr existing, g) else (Inl IdentityConflictError, g)
      | None \<Rightarrow>
         (case identity_record (canonical_id r) (id_aliases r) (id_attributes r) of Inl e \<Rightarrow> (Inl e, g)
          | Inr kept \<Rightarrow>
             let g' = g\<lparr>reg_records := dict_set (canonical_id kept) kept (reg_records g)\<rparr>
             in case link_identifiers nfkc (canonical_id kept)
                       (order (insert (canonical_id kept) (id_aliases kept))) (reg_aliases g') of
                  (Inl e, al) \<Rightarrow> (Inl e, g'\<lparr>reg_aliases := al\<rparr>)
                | (Inr _, al) \<Rightarrow> (Inr kept, g'\<lparr>reg_aliases := al\<rparr>)))"

definition register ::
  "(pystr \<Rightarrow> pystr) \<Rightarrow> (pystr set \<Rightarrow> pystr list) \<Rightarrow> IdentityRecord \<Rightarrow> IdentityRegistry \<Rightarrow> IdentityRecord res \<times> IdentityRegistry" where
  "register nfkc order r g =
     (if dict_get (reg_records g) (canonical_id r) = None
         \<and> RESERVED_PRINCIPAL_ATTRIBUTES \<inter> set (dict_keys (id_attributes r)) \<noteq> {}
      then (Inl IdentityRegistrationDenied, g)
      else registry_store nfkc order r g)"

definition admit_provisioned ::
  "(pystr \<Rightarrow> pystr) \<Rightarrow> (pystr set \<Rightarrow> pystr list) \<Rightarrow> IdentityRecord \<Rightarrow> IdentityRegistry \<Rightarrow> IdentityRecord res \<times> IdentityRegistry" where
  "admit_provisioned nfkc order r g = registry_store nfkc order r g"

fun seed_registry ::
  "(pystr \<Rightarrow> pystr) \<Rightarrow> (pystr set \<Rightarrow> pystr list) \<Rightarrow> IdentityRecord list \<Rightarrow> IdentityRegistry \<Rightarrow> IdentityRegistry res" where
  "seed_registry nfkc order [] g = Inr g"
| "seed_registry nfkc order (r # rs) g =
     (case registry_store nfkc order r g of (Inl e, _) \<Rightarrow> Inl e | (Inr _, g') \<Rightarrow> seed_registry nfkc order rs g')"

definition new_registry ::
  "(pystr \<Rightarrow> pystr) \<Rightarrow> (pystr set \<Rightarrow> pystr list) \<Rightarrow> IdentityRecord list \<Rightarrow> IdentityRegistry res" where
  "new_registry nfkc order rs = seed_registry nfkc order rs \<lparr>reg_records = [], reg_aliases = []\<rparr>"

definition registry_get :: "pystr \<Rightarrow> IdentityRegistry \<Rightarrow> IdentityRecord option" where
  "registry_get cid g = dict_get (reg_records g) cid"

definition add_alias :: "(pystr \<Rightarrow> pystr) \<Rightarrow> pystr \<Rightarrow> pystr \<Rightarrow> IdentityRegistry \<Rightarrow> unit res \<times> IdentityRegistry" where
  "add_alias nfkc cid alias g =
     (case normalize_identifier nfkc alias of Inl e \<Rightarrow> (Inl e, g)
      | Inr key \<Rightarrow>
         if dict_get (reg_records g) cid = None then (Inl (KeyError cid), g)
         else (Inr (), g\<lparr>reg_aliases := link_alias key cid (reg_aliases g)\<rparr>))"

definition candidates :: "(pystr \<Rightarrow> pystr) \<Rightarrow> pystr \<Rightarrow> IdentityRegistry \<Rightarrow> pystr list res" where
  "candidates nfkc i g =
     (case normalize_identifier nfkc i of Inl e \<Rightarrow> Inl e
      | Inr key \<Rightarrow> Inr (case dict_get (reg_aliases g) key of None \<Rightarrow> [] | Some s \<Rightarrow> sorted_list_of_set s))"

section \<open>Resolution\<close>

text \<open>
  \<^verbatim>\<open>sorted(scores.items(), key=(-score, id))\<close>: a stable insertion by Python's tuple comparison.  Without
  NaN the comparison is a total order and every sort gives this list.
\<close>

definition rank_lt :: "pystr \<times> pyfloat \<Rightarrow> pystr \<times> pyfloat \<Rightarrow> bool" where
  "rank_lt a b \<longleftrightarrow>
     (if float_eq (float_neg (snd a)) (float_neg (snd b)) then fst a < fst b
      else float_lt (float_neg (snd a)) (float_neg (snd b)))"

fun rank_insert :: "pystr \<times> pyfloat \<Rightarrow> (pystr \<times> pyfloat) list \<Rightarrow> (pystr \<times> pyfloat) list" where
  "rank_insert x [] = [x]"
| "rank_insert x (y # ys) = (if rank_lt y x then y # rank_insert x ys else x # y # ys)"

definition ranked :: "(pystr \<times> pyfloat) list \<Rightarrow> (pystr \<times> pyfloat) list" where
  "ranked scores = foldr rank_insert scores []"

definition abstain :: "pyfloat \<Rightarrow> string \<Rightarrow> pystr list \<Rightarrow> ResolutionOutcome" where
  "abstain c reason cands = \<lparr>ro_status = ABSTAIN, ro_canonical_id = None, ro_confidence = c, ro_reason = reason,
     ro_candidates = cands\<rparr>"

definition evidence_scores :: "pystr list \<Rightarrow> (pystr, pyfloat) dict option \<Rightarrow> (pystr \<times> pyfloat) list" where
  "evidence_scores cands evidence =
     (case evidence of None \<Rightarrow> map (\<lambda>c. (c, float_1)) cands
      | Some ev \<Rightarrow> map (\<lambda>c. (c, case dict_get ev c of None \<Rightarrow> float_0 | Some s \<Rightarrow> s)) cands)"

definition decide :: "pystr list \<Rightarrow> (pystr \<times> pyfloat) list \<Rightarrow> pyfloat \<Rightarrow> pyfloat \<Rightarrow> ResolutionOutcome" where
  "decide cands scores minimum_confidence minimum_margin =
     (let r = ranked scores; winner = fst (hd r); confidence = snd (hd r);
          runner_up = (if 1 < length r then snd (r ! 1) else float_0);
          margin = float_sub confidence runner_up
      in if float_lt confidence minimum_confidence
         then abstain confidence ''best candidate is below the confidence threshold'' cands
         else if 1 < length r \<and> float_lt margin minimum_margin
         then abstain confidence ''candidate evidence is ambiguous'' cands
         else \<lparr>ro_status = IDENTIFIED, ro_canonical_id = Some winner, ro_confidence = confidence,
               ro_reason = ''authoritative identity resolved'', ro_candidates = cands\<rparr>)"

definition resolve ::
  "(pystr \<Rightarrow> pystr) \<Rightarrow> pystr \<Rightarrow> (pystr, pyfloat) dict option \<Rightarrow> pyfloat \<Rightarrow> pyfloat \<Rightarrow> IdentityRegistry \<Rightarrow> ResolutionOutcome res" where
  "resolve nfkc i evidence minimum_confidence minimum_margin g =
     (if \<not> (float_le float_0 minimum_confidence \<and> float_le minimum_confidence float_1)
      then Inl (ValueError ''minimum_confidence must be between zero and one'')
      else if \<not> (float_le float_0 minimum_margin \<and> float_le minimum_margin float_1)
      then Inl (ValueError ''minimum_margin must be between zero and one'')
      else case candidates nfkc i g of Inl e \<Rightarrow> Inl e
      | Inr cands \<Rightarrow>
         if cands = [] then Inr (abstain float_0 ''no authoritative identity candidate'' [])
         else if (case evidence of None \<Rightarrow> False | Some ev \<Rightarrow> \<not> set (dict_keys ev) \<subseteq> set cands)
         then Inr (abstain float_0 ''evidence names a non-candidate identity'' cands)
         else
           let scores = evidence_scores cands evidence in
           if evidence \<noteq> None \<and> list_ex (\<lambda>(c, s). float_lt s float_0 \<or> float_lt float_1 s) scores
           then Inl (ValueError ''identity evidence scores must be between zero and one'')
           else Inr (decide cands scores minimum_confidence minimum_margin))"

definition all_records :: "IdentityRegistry \<Rightarrow> IdentityRecord list" where
  "all_records g = map (\<lambda>k. the (dict_get (reg_records g) k)) (sort (dict_keys (reg_records g)))"

definition identify_or_abstain ::
  "(pystr \<Rightarrow> pystr) \<Rightarrow> (pystr set \<Rightarrow> pystr list) \<Rightarrow> IdentityRecord list \<Rightarrow> pystr \<Rightarrow> ResolutionOutcome res" where
  "identify_or_abstain nfkc order rs i =
     (case new_registry nfkc order rs of Inl e \<Rightarrow> Inl e
      | Inr g \<Rightarrow> resolve nfkc i None (round64 (4 / 5)) (round64 (1 / 10)) g)"

section \<open>Invariant and monotonicity\<close>

definition registry_inv :: "IdentityRegistry \<Rightarrow> bool" where
  "registry_inv g \<longleftrightarrow>
     (\<forall>cid r. dict_get (reg_records g) cid = Some r \<longrightarrow> canonical_id r = cid \<and> strip cid \<noteq> [])
     \<and> (\<forall>key s. dict_get (reg_aliases g) key = Some s \<longrightarrow> finite s \<and> s \<noteq> {} \<and> s \<subseteq> dom (dict_get (reg_records g)))"

definition registry_le :: "IdentityRegistry \<Rightarrow> IdentityRegistry \<Rightarrow> bool" where
  "registry_le g h \<longleftrightarrow>
     (\<forall>cid r. dict_get (reg_records g) cid = Some r \<longrightarrow> dict_get (reg_records h) cid = Some r)
     \<and> (\<forall>key s. dict_get (reg_aliases g) key = Some s \<longrightarrow> (\<exists>s'. dict_get (reg_aliases h) key = Some s' \<and> s \<subseteq> s'))"

definition aliases_ok :: "pystr set \<Rightarrow> (pystr, pystr set) dict \<Rightarrow> bool" where
  "aliases_ok D al \<longleftrightarrow> (\<forall>key s. dict_get al key = Some s \<longrightarrow> finite s \<and> s \<noteq> {} \<and> s \<subseteq> D)"

definition aliases_le :: "(pystr, pystr set) dict \<Rightarrow> (pystr, pystr set) dict \<Rightarrow> bool" where
  "aliases_le al al' \<longleftrightarrow> (\<forall>key s. dict_get al key = Some s \<longrightarrow> (\<exists>s'. dict_get al' key = Some s' \<and> s \<subseteq> s'))"

lemma aliases_le_refl [simp]: "aliases_le al al"
  by (auto simp: aliases_le_def)

lemma aliases_le_trans: "aliases_le a b \<Longrightarrow> aliases_le b c \<Longrightarrow> aliases_le a c"
  unfolding aliases_le_def by (meson order_trans)

lemma link_alias_ok: "aliases_ok D al \<Longrightarrow> cid \<in> D \<Longrightarrow> aliases_ok D (link_alias key cid al)"
  by (auto simp: aliases_ok_def link_alias_def split: option.splits if_splits)

lemma link_alias_le: "aliases_le al (link_alias key cid al)"
  by (auto simp: aliases_le_def link_alias_def)

lemma link_identifiers_ok:
  "link_identifiers nfkc cid is al = (r, al') \<Longrightarrow> aliases_ok D al \<Longrightarrow> cid \<in> D \<Longrightarrow> aliases_ok D al' \<and> aliases_le al al'"
proof (induction "is" arbitrary: al)
  case (Cons i "is")
  show ?case
  proof (cases "normalize_identifier nfkc i")
    case (Inl e)
    with Cons.prems show ?thesis by simp
  next
    case (Inr key)
    with Cons.prems(1) have "link_identifiers nfkc cid is (link_alias key cid al) = (r, al')" by simp
    from Cons.IH [OF this link_alias_ok [OF Cons.prems(2,3)] Cons.prems(3)] show ?thesis
      using link_alias_le aliases_le_trans by blast
  qed
qed simp

text \<open>What storing a record does: nothing, or one new record and links for (some of) its identifiers.\<close>

lemma registry_store_cases:
  assumes "registry_store nfkc order r g = (res, h)"
  obtains (known) "h = g" "\<And>x. res = Inr x \<Longrightarrow> dict_get (reg_records g) (canonical_id r) = Some x"
  | (added) al lr where "dict_get (reg_records g) (canonical_id r) = None" "strip (canonical_id r) \<noteq> []"
      "link_identifiers nfkc (canonical_id r) (order (insert (canonical_id r) (id_aliases r))) (reg_aliases g) = (lr, al)"
      "h = g\<lparr>reg_records := dict_set (canonical_id r) r (reg_records g), reg_aliases := al\<rparr>"
      "res = (case lr of Inl e \<Rightarrow> Inl e | Inr _ \<Rightarrow> Inr r)"
proof (cases "dict_get (reg_records g) (canonical_id r)")
  case (Some x)
  with assms known show ?thesis by (auto simp: registry_store_def split: if_splits)
next
  case None
  show ?thesis
  proof (cases "strip (canonical_id r) = []")
    case True
    with None assms known show ?thesis by (auto simp: registry_store_def identity_record_def)
  next
    case False
    obtain lr al where l: "link_identifiers nfkc (canonical_id r) (order (insert (canonical_id r) (id_aliases r))) (reg_aliases g) = (lr, al)"
      by force
    have self: "\<lparr>canonical_id = canonical_id r, id_aliases = id_aliases r, id_attributes = id_attributes r\<rparr> = r" by simp
    from l None False assms have "h = g\<lparr>reg_records := dict_set (canonical_id r) r (reg_records g), reg_aliases := al\<rparr>"
      "res = (case lr of Inl e \<Rightarrow> Inl e | Inr _ \<Rightarrow> Inr r)"
      by (auto simp: registry_store_def identity_record_def Let_def self split: sum.splits)
    with added None False l show ?thesis by blast
  qed
qed

lemma registry_inv_alt:
  "registry_inv g \<longleftrightarrow> (\<forall>cid r. dict_get (reg_records g) cid = Some r \<longrightarrow> canonical_id r = cid \<and> strip cid \<noteq> [])
     \<and> aliases_ok (dom (dict_get (reg_records g))) (reg_aliases g)"
  by (simp add: registry_inv_def aliases_ok_def)

lemma registry_le_alt:
  "registry_le g h \<longleftrightarrow> (\<forall>cid r. dict_get (reg_records g) cid = Some r \<longrightarrow> dict_get (reg_records h) cid = Some r)
     \<and> aliases_le (reg_aliases g) (reg_aliases h)"
  by (simp add: registry_le_def aliases_le_def)

lemma registry_store_ok:
  assumes st: "registry_store nfkc order r g = (res, h)" and inv: "registry_inv g"
  shows "registry_inv h \<and> registry_le g h"
  using st
proof (cases rule: registry_store_cases)
  case known
  with inv show ?thesis by (auto simp: registry_le_def)
next
  case (added al lr)
  let ?D = "insert (canonical_id r) (dom (dict_get (reg_records g)))"
  have "aliases_ok ?D (reg_aliases g)" using inv by (fastforce simp: registry_inv_alt aliases_ok_def)
  from link_identifiers_ok [OF added(3) this] have "aliases_ok ?D al" "aliases_le (reg_aliases g) al" by auto
  moreover have "dom (dict_get (reg_records h)) = ?D" using added(4) by (auto simp: dom_def)
  ultimately show ?thesis
    using inv added(1,2,4) by (auto simp: registry_inv_alt registry_le_alt)
qed

lemma add_alias_ok:
  assumes "add_alias nfkc cid alias g = (res, h)" "registry_inv g"
  shows "registry_inv h \<and> registry_le g h"
proof (cases "\<exists>key. normalize_identifier nfkc alias = Inr key \<and> dict_get (reg_records g) cid \<noteq> None")
  case False
  with assms show ?thesis by (auto simp: add_alias_def registry_le_def split: sum.splits if_splits)
next
  case True
  then obtain key where key: "normalize_identifier nfkc alias = Inr key" "dict_get (reg_records g) cid \<noteq> None" by blast
  with assms(1) have "h = g\<lparr>reg_aliases := link_alias key cid (reg_aliases g)\<rparr>" by (auto simp: add_alias_def)
  moreover from key(2) have "cid \<in> dom (dict_get (reg_records g))" by blast
  ultimately show ?thesis
    using assms(2) link_alias_ok link_alias_le by (simp add: registry_inv_alt registry_le_alt)
qed

inductive registry_step :: "IdentityRegistry \<Rightarrow> IdentityRegistry \<Rightarrow> bool" where
  registered: "register nfkc order r g = (res, h) \<Longrightarrow> registry_step g h"
| provisioned: "admit_provisioned nfkc order r g = (res, h) \<Longrightarrow> registry_step g h"
| aliased: "add_alias nfkc cid alias g = (res', h) \<Longrightarrow> registry_step g h"

inductive_cases registry_stepE: "registry_step g h"

lemma register_store:
  "register nfkc order r g = (res, h) \<Longrightarrow> h = g \<or> registry_store nfkc order r g = (res, h)"
  by (auto simp: register_def split: if_splits)

lemma registry_step_ok: "registry_step g h \<Longrightarrow> registry_inv g \<Longrightarrow> registry_inv h \<and> registry_le g h"
proof (erule registry_stepE, goal_cases)
  case (1 nfkc order r res)
  from register_store [OF 1(2)] 1(1) registry_store_ok show ?case by (auto simp: registry_le_def)
next
  case (2 nfkc order r res)
  then show ?case using registry_store_ok by (simp add: admit_provisioned_def)
next
  case (3 nfkc cid al res)
  then show ?case using add_alias_ok by blast
qed

definition registry_init :: "IdentityRegistry \<Rightarrow> bool" where
  "registry_init g \<longleftrightarrow> (\<exists>nfkc order rs. new_registry nfkc order rs = Inr g)"

lemma seed_registry_inv: "seed_registry nfkc order rs g = Inr h \<Longrightarrow> registry_inv g \<Longrightarrow> registry_inv h"
proof (induction rs arbitrary: g)
  case (Cons r rs)
  obtain res g' where st: "registry_store nfkc order r g = (res, g')" by force
  with Cons.prems(1) have "seed_registry nfkc order rs g' = Inr h" by (auto split: sum.splits)
  with Cons.IH registry_store_ok [OF st Cons.prems(2)] show ?case by blast
qed simp

interpretation registry: invariant_system registry_init registry_step registry_inv
proof unfold_locales
  show "registry_inv g" if "registry_init g" for g
  proof -
    have "registry_inv \<lparr>reg_records = [], reg_aliases = []\<rparr>" by (simp add: registry_inv_def)
    with that seed_registry_inv show ?thesis unfolding registry_init_def new_registry_def by blast
  qed
qed (blast dest: registry_step_ok)

lemma registry_le_trans: "registry_le f g \<Longrightarrow> registry_le g h \<Longrightarrow> registry_le f h"
  unfolding registry_le_alt by (meson aliases_le_trans)

interpretation registry_run: monotone_system "\<lambda>g h. registry_inv g \<and> registry_step g h" registry_le
proof unfold_locales
  show "registry_le g g" for g by (auto simp: registry_le_def)
qed (blast intro: registry_le_trans dest: registry_step_ok)+

section \<open>Ranking\<close>

text \<open>On finite scores the ranking is a sort by descending score, then by id.\<close>

definition rank_key :: "pystr \<times> pyfloat \<Rightarrow> rat \<times> pystr" where
  "rank_key a = (case snd a of FFin x \<Rightarrow> (- x, fst a) | _ \<Rightarrow> (0, fst a))"

definition finite_scores :: "(pystr \<times> pyfloat) list \<Rightarrow> bool" where
  "finite_scores = list_all (\<lambda>a. case snd a of FFin _ \<Rightarrow> True | _ \<Rightarrow> False)"

lemma rank_lt_key:
  "finite_scores [a, b] \<Longrightarrow> rank_lt a b \<longleftrightarrow> rank_key a < rank_key b"
  by (cases a; cases b) (auto simp: finite_scores_def rank_lt_def rank_key_def less_prod_simp split: pyfloat.splits)

lemma rank_insert_key:
  "finite_scores (x # ys) \<Longrightarrow> rank_insert x ys = insort_key rank_key x ys"
  by (induction ys) (auto simp: finite_scores_def rank_lt_key not_le)

lemma finite_scores_set: "set xs = set ys \<Longrightarrow> finite_scores xs = finite_scores ys"
  by (simp add: finite_scores_def list_all_iff)

lemma ranked_sort: "finite_scores xs \<Longrightarrow> ranked xs = sort_key rank_key xs"
proof (induction xs)
  case (Cons x xs)
  have "finite_scores (x # sort_key rank_key xs)"
    using Cons.prems finite_scores_set [of "x # sort_key rank_key xs" "x # xs"] by simp
  with Cons show ?case by (simp add: ranked_def rank_insert_key finite_scores_def)
qed (simp add: ranked_def)

lemma evidence_scores_keys: "map fst (evidence_scores cands ev) = cands"
  by (auto simp: evidence_scores_def comp_def split: option.splits)

lemma ranked_perm: "length (ranked xs) = length xs" "set (ranked xs) = set xs"
proof -
  have ins: "length (rank_insert x ys) = Suc (length ys)" "set (rank_insert x ys) = insert x (set ys)" for x ys
    by (induction ys) auto
  show "length (ranked xs) = length xs" "set (ranked xs) = set xs"
    by (induction xs) (auto simp: ranked_def ins)
qed

text \<open>Every score but the winner's is at most the runner-up's.\<close>

lemma ranked_top:
  assumes fin: "finite_scores xs" and r: "ranked xs = w # u # rest" and y: "y \<in> set xs" "y \<noteq> w"
  shows "\<not> float_lt (snd u) (snd y)" "\<not> float_lt (snd w) (snd u)"
proof -
  have sorted: "sorted (map rank_key (w # u # rest))" using ranked_sort [OF fin] r by (metis sorted_sort_key)
  have finr: "finite_scores (w # u # rest)"
    using fin r finite_scores_set [of "w # u # rest" xs] ranked_perm(2) [of xs] by simp
  have "y \<in> set (u # rest)" using y r ranked_perm(2) [of xs] by auto
  then have "rank_key u \<le> rank_key y" using sorted by auto
  moreover have "finite_scores [u, y]" using finr \<open>y \<in> set (u # rest)\<close> by (auto simp: finite_scores_def list_all_iff)
  ultimately show "\<not> float_lt (snd u) (snd y)"
    by (auto simp: finite_scores_def rank_key_def less_eq_prod_simp split: pyfloat.splits)
  have "rank_key w \<le> rank_key u" using sorted by simp
  with finr show "\<not> float_lt (snd w) (snd u)"
    by (auto simp: finite_scores_def rank_key_def less_eq_prod_simp split: pyfloat.splits)
qed

lemma candidates_registered:
  assumes "registry_inv g" "candidates nfkc i g = Inr cs"
  shows "distinct cs" "\<And>c. c \<in> set cs \<Longrightarrow> registry_get c g \<noteq> None"
proof -
  show "distinct cs" using assms(2) by (auto simp: candidates_def split: sum.splits option.splits)
  have "c \<in> dom (dict_get (reg_records g))" if c: "c \<in> set cs" for c
  proof -
    from assms(2) c obtain key s where "dict_get (reg_aliases g) key = Some s" "cs = sorted_list_of_set s"
      by (auto simp: candidates_def split: sum.splits option.splits)
    with assms(1) c show ?thesis unfolding registry_inv_def by (metis in_mono set_sorted_list_of_set)
  qed
  then show "\<And>c. c \<in> set cs \<Longrightarrow> registry_get c g \<noteq> None" by (auto simp: registry_get_def)
qed

section \<open>Properties\<close>

definition example_order :: "pystr set \<Rightarrow> pystr list" where
  "example_order s = sorted_list_of_set s"

definition example_record :: IdentityRecord where
  "example_record = \<lparr>canonical_id = lit ''p'', id_aliases = {}, id_attributes = []\<rparr>"

definition example_registry :: IdentityRegistry where
  "example_registry = \<lparr>reg_records = [(lit ''p'', example_record)], reg_aliases = [(lit ''p'', {lit ''p''})]\<rparr>"

lemma strip_p: "strip (lit ''p'') = lit ''p''"
  by (simp add: strip_def lit_def is_space_def)

lemma example_registry_new: "new_registry id example_order [example_record] = Inr example_registry"
  by (simp add: new_registry_def registry_store_def example_record_def identity_record_def strip_p example_order_def
      normalize_identifier_def link_alias_def example_registry_def)

lemma example_registry_inv: "registry_inv example_registry"
  by (rule registry.invar_init) (use example_registry_new in \<open>auto simp: registry_init_def\<close>)

text \<open>
  C16 [identities_are_immutable]: along any run of registrations, provisionings and alias additions a
  registered record is never changed or removed and an alias link never disappears; and the open
  registration path never introduces a record that carries a reserved principal attribute.
\<close>

theorem identities_are_immutable:
  assumes "new_registry nfkc order rs = Inr g0" and "registry_step\<^sup>*\<^sup>* g0 g" and "registry_step\<^sup>*\<^sup>* g h"
  shows "registry_le g h
    \<and> (\<forall>nfkc' order' r res h' cid x. register nfkc' order' r h = (res, h') \<longrightarrow> registry_get cid h = None \<longrightarrow>
         registry_get cid h' = Some x \<longrightarrow> RESERVED_PRINCIPAL_ATTRIBUTES \<inter> set (dict_keys (id_attributes x)) = {})"
proof (intro conjI allI impI)
  have "registry_inv g" using assms(1,2) registry.reachable_invar unfolding registry_init_def by blast
  then show "registry_le g h" using assms(3) by (blast intro: registry_run.run_le registry.run_restrict)
next
  fix nfkc' order' r res h' cid x
  assume reg: "register nfkc' order' r h = (res, h')" and new: "registry_get cid h = None" "registry_get cid h' = Some x"
  then have st: "registry_store nfkc' order' r h = (res, h')"
    and ok: "dict_get (reg_records h) (canonical_id r) = None \<longrightarrow>
        RESERVED_PRINCIPAL_ATTRIBUTES \<inter> set (dict_keys (id_attributes r)) = {}"
    by (auto simp: register_def split: if_splits)
  from st show "RESERVED_PRINCIPAL_ATTRIBUTES \<inter> set (dict_keys (id_attributes x)) = {}"
  proof (cases rule: registry_store_cases)
    case known
    with new show ?thesis by simp
  next
    case (added al lr)
    with new have "x = r" by (auto simp: registry_get_def split: if_splits)
    with added(1) ok show ?thesis by simp
  qed
qed

definition second_record :: IdentityRecord where
  "second_record = \<lparr>canonical_id = lit ''q'', id_aliases = {}, id_attributes = []\<rparr>"

definition grown_registry :: IdentityRegistry where
  "grown_registry = \<lparr>reg_records = [(lit ''p'', example_record), (lit ''q'', second_record)],
     reg_aliases = [(lit ''p'', {lit ''p''}), (lit ''q'', {lit ''q''}), (lit ''w'', {lit ''p''})]\<rparr>"

lemma grown_run: "registry_step\<^sup>*\<^sup>* example_registry grown_registry"
proof -
  let ?g = "\<lparr>reg_records = [(lit ''p'', example_record), (lit ''q'', second_record)],
     reg_aliases = [(lit ''p'', {lit ''p''}), (lit ''q'', {lit ''q''})]\<rparr>"
  have s: "strip (lit ''q'') = lit ''q''" "strip (lit ''w'') = lit ''w''" by (simp_all add: strip_def lit_def is_space_def)
  have "registry_step example_registry ?g"
    by (rule registry_step.registered [of id example_order second_record])
      (simp add: register_def registry_store_def second_record_def identity_record_def s example_order_def example_registry_def
        normalize_identifier_def link_alias_def)
  moreover have "registry_step ?g grown_registry"
    by (rule registry_step.aliased [of id "lit ''p''" "lit ''w''"])
      (simp add: add_alias_def s grown_registry_def normalize_identifier_def link_alias_def)
  ultimately show ?thesis by (meson converse_rtranclp_into_rtranclp r_into_rtranclp)
qed

theorem identities_are_immutable_witness:
  "registry_get (lit ''q'') example_registry = None \<and> registry_get (lit ''q'') grown_registry = Some second_record
   \<and> registry_get (lit ''p'') grown_registry = Some example_record
   \<and> (\<exists>s. dict_get (reg_aliases grown_registry) (lit ''p'') = Some s \<and> {lit ''p''} \<subseteq> s)"
proof -
  have le: "registry_le example_registry grown_registry"
    using identities_are_immutable [OF example_registry_new rtranclp.rtrancl_refl grown_run] by blast
  have "registry_get (lit ''p'') grown_registry = Some example_record"
    using le by (simp add: registry_le_def registry_get_def example_registry_def)
  moreover have "\<exists>s. dict_get (reg_aliases grown_registry) (lit ''p'') = Some s \<and> {lit ''p''} \<subseteq> s"
  proof -
    have "dict_get (reg_aliases example_registry) (lit ''p'') = Some {lit ''p''}" by (simp add: example_registry_def)
    with le show ?thesis unfolding registry_le_def by blast
  qed
  ultimately show ?thesis by (simp add: registry_get_def example_registry_def grown_registry_def)
qed

text \<open>
  C34 [resolution_is_unambiguous]: a resolution whose scores are all finite numbers (a NaN score passes the
  resolver's checks, see below) and that identifies someone names a registered candidate of the identifier whose
  score reaches the confidence threshold, and every other candidate
  scores at most a runner-up from which the winner keeps the required margin; without evidence and
  with a positive margin, two candidates always lead to abstention.
\<close>

theorem resolution_is_unambiguous:
  assumes "registry_inv g" and "resolve nfkc i evidence mc mm g = Inr out" and "candidates nfkc i g = Inr cs"
    and "finite_scores (evidence_scores cs evidence)"
  shows "(identified out \<longrightarrow> (\<exists>w c. ro_canonical_id out = Some w \<and> w \<in> set cs \<and> registry_get w g \<noteq> None
        \<and> (w, c) \<in> set (evidence_scores cs evidence) \<and> \<not> float_lt c mc
        \<and> (length cs = 1 \<or> (\<exists>ru. \<not> float_lt c ru \<and> \<not> float_lt (float_sub c ru) mm
             \<and> (\<forall>(x, sc) \<in> set (evidence_scores cs evidence). x \<noteq> w \<longrightarrow> \<not> float_lt ru sc)))))
    \<and> (evidence = None \<longrightarrow> 1 < length cs \<longrightarrow> float_lt float_0 mm \<longrightarrow> \<not> identified out)"
proof -
  let ?sc = "evidence_scores cs evidence"
  have keys: "map fst ?sc = cs" by (rule evidence_scores_keys)
  have len: "length ?sc = length cs" using keys by (metis length_map)
  have dec: "out = decide cs ?sc mc mm \<and> cs \<noteq> []" if "identified out"
    using assms(2,3) that by (auto simp: resolve_def abstain_def identified_def Let_def split: if_splits)
  have first: "\<exists>w c. ro_canonical_id out = Some w \<and> w \<in> set cs \<and> registry_get w g \<noteq> None
      \<and> (w, c) \<in> set ?sc \<and> \<not> float_lt c mc
      \<and> (length cs = 1 \<or> (\<exists>ru. \<not> float_lt c ru \<and> \<not> float_lt (float_sub c ru) mm
           \<and> (\<forall>(x, sc) \<in> set ?sc. x \<noteq> w \<longrightarrow> \<not> float_lt ru sc)))" if id: "identified out"
  proof -
    from dec [OF id] have out: "out = decide cs ?sc mc mm" and "cs \<noteq> []" by auto
    then obtain w c rest where r: "ranked ?sc = (w, c) # rest"
      using len ranked_perm(1) [of ?sc] by (metis length_0_conv list.exhaust prod.exhaust)
    have wc: "(w, c) \<in> set ?sc" using r ranked_perm(2) [of ?sc] by auto
    then have w: "w \<in> set cs" using keys by (metis fst_conv image_eqI set_map)
    have conf: "\<not> float_lt c mc" "ro_canonical_id out = Some w"
      using id out r by (auto simp: decide_def Let_def identified_def abstain_def split: if_splits)
    have "length cs = 1 \<or> (\<exists>ru. \<not> float_lt c ru \<and> \<not> float_lt (float_sub c ru) mm
        \<and> (\<forall>(x, sc) \<in> set ?sc. x \<noteq> w \<longrightarrow> \<not> float_lt ru sc))"
    proof (cases rest)
      case Nil
      then show ?thesis using r len ranked_perm(1) [of ?sc] by simp
    next
      case (Cons u us)
      with r have r2: "ranked ?sc = (w, c) # u # us" by simp
      have m: "\<not> float_lt (float_sub c (snd u)) mm"
        using id out r2 by (auto simp: decide_def Let_def identified_def abstain_def split: if_splits)
      have u: "u \<in> set ?sc" using r2 ranked_perm(2) [of ?sc] by auto
      have "distinct (map fst ?sc)" using keys candidates_registered(1) [OF assms(1,3)] by simp
      then have "distinct ?sc" by (simp add: distinct_map)
      then have "distinct (ranked ?sc)" using ranked_sort [OF assms(4)] by simp
      then have "u \<noteq> (w, c)" using r2 by auto
      then have "\<not> float_lt c (snd u)" using ranked_top(2) [OF assms(4) r2 u] by simp
      moreover have "\<forall>(x, sc) \<in> set ?sc. x \<noteq> w \<longrightarrow> \<not> float_lt (snd u) sc"
        using ranked_top(1) [OF assms(4) r2] by fastforce
      ultimately show ?thesis using m by blast
    qed
    with wc w conf candidates_registered(2) [OF assms(1,3) w] show ?thesis by blast
  qed
  moreover have "\<not> identified out" if ev: "evidence = None" and two: "1 < length cs" and mm: "float_lt float_0 mm"
  proof
    assume id: "identified out"
    have one: "sc = float_1" if "(x, sc) \<in> set ?sc" for x sc using that ev by (auto simp: evidence_scores_def)
    from dec [OF id] have out: "out = decide cs ?sc mc mm" by simp
    have two': "1 < length (ranked ?sc)" using two len ranked_perm(1) [of ?sc] by simp
    obtain a b rest where r: "ranked ?sc = a # b # rest"
    proof (cases "ranked ?sc")
      case (Cons a as)
      with two' that show ?thesis by (cases as) auto
    qed (use two' in simp)
    then have "a \<in> set ?sc" "b \<in> set ?sc" using ranked_perm(2) [of ?sc] by auto
    then have "snd a = float_1" "snd b = float_1" using one by (metis prod.collapse)+
    with id out r mm show False
      by (auto simp: decide_def Let_def identified_def abstain_def round64_def split: if_splits)
  qed
  ultimately show ?thesis by blast
qed

theorem resolution_is_unambiguous_witness:
  "\<exists>out. resolve id (lit ''p'') None float_1 float_1 example_registry = Inr out \<and> identified out
     \<and> ro_canonical_id out = Some (lit ''p'')"
proof -
  have cs: "candidates id (lit ''p'') example_registry = Inr [lit ''p'']"
    by (simp add: candidates_def normalize_identifier_def strip_p example_registry_def)
  have out: "resolve id (lit ''p'') None float_1 float_1 example_registry =
      Inr \<lparr>ro_status = IDENTIFIED, ro_canonical_id = Some (lit ''p''), ro_confidence = float_1,
           ro_reason = ''authoritative identity resolved'', ro_candidates = [lit ''p'']\<rparr>"
    by (simp add: resolve_def cs float_le_def evidence_scores_def decide_def ranked_def)
  from resolution_is_unambiguous [OF example_registry_inv out cs] out show ?thesis
    by (auto simp: identified_def evidence_scores_def finite_scores_def)
qed

section \<open>Behaviour of note\<close>

text \<open>A NaN score passes the range check and is identified: every comparison with NaN is false.\<close>

lemma nan_evidence_identifies:
  "resolve id (lit ''p'') (Some [(lit ''p'', FNan)]) float_1 float_1 example_registry =
     Inr \<lparr>ro_status = IDENTIFIED, ro_canonical_id = Some (lit ''p''), ro_confidence = FNan,
          ro_reason = ''authoritative identity resolved'', ro_candidates = [lit ''p'']\<rparr>"
  by (simp add: resolve_def candidates_def normalize_identifier_def strip_p example_registry_def float_le_def
      evidence_scores_def decide_def ranked_def)

text \<open>A registration that fails on a blank alias has already stored its record.\<close>

lemma failed_registration_keeps_record:
  assumes "set (order {lit ''q'', []}) = {lit ''q'', []}"
  shows "\<exists>e g. register id order \<lparr>canonical_id = lit ''q'', id_aliases = {[]}, id_attributes = []\<rparr> example_registry = (Inl e, g)
    \<and> registry_get (lit ''q'') g \<noteq> None"
proof -
  have blank: "[] \<in> set is \<Longrightarrow> \<exists>e al'. link_identifiers id cid is al = (Inl e, al')" for "is" cid al
    by (induction "is" arbitrary: al) (auto simp: normalize_identifier_def strip_def)
  obtain e al where l: "link_identifiers id (lit ''q'') (order {lit ''q'', []}) (reg_aliases example_registry) = (Inl e, al)"
    using blank [of "order {lit ''q'', []}"] assms by fastforce
  have "strip (lit ''q'') \<noteq> []" by (simp add: strip_def lit_def is_space_def)
  then show ?thesis
    using l by (simp add: register_def registry_store_def identity_record_def registry_get_def example_registry_def
        example_record_def insert_commute)
qed

end
