(* ===== verification/C7_Emission.thy ===== *)
theory C7_Emission
  imports C3_Store C4_Marking C6_Capabilities
begin

text \<open>
  The emission fence, \<^verbatim>\<open>c7_emission.py\<close>: the gate every outbox event crosses on its way to an external
  sink.  The state holds the fence's own dictionaries, the store and the authority it works on, and the
  log of the sink calls it has made with whether each was acknowledged.  The sink is a parameter: a
  function from the calls made so far and the event to its result or exception.
\<close>

section \<open>State\<close>

record EmissionReceipt =
  er_event_id :: pystr
  er_aggregate_id :: pystr
  er_aggregate_version :: int
  er_emitted_at :: datetime
  er_sink_result :: pyval
  er_deduplicated :: bool

record SinkCall =
  sc_event :: OutboxEvent
  sc_acknowledged :: bool

record EmissionFence =
  ef_store :: "AtomicOutboxStore option"
  ef_capability_authority :: "CapabilityAuthority option"
  ef_require_capability :: bool
  ef_marking_engine :: "MarkingEngine option"
  ef_registered :: "(pystr, OutboxEvent) dict"
  ef_receipts :: "(pystr, EmissionReceipt) dict"
  ef_last_version :: "(pystr, int) dict"
  ef_calls :: "SinkCall list"

type_synonym EventSink = "SinkCall list \<Rightarrow> OutboxEvent \<Rightarrow> pyval res"

definition new_fence ::
  "AtomicOutboxStore option \<Rightarrow> CapabilityAuthority option \<Rightarrow> bool \<Rightarrow> MarkingEngine option \<Rightarrow> EmissionFence res" where
  "new_fence store authority req marking =
     (if req \<and> authority = None then Inl (ValueError ''a capability authority is required by this fence'')
      else Inr \<lparr>ef_store = store, ef_capability_authority = authority, ef_require_capability = req,
                ef_marking_engine = marking, ef_registered = [], ef_receipts = [], ef_last_version = [],
                ef_calls = []\<rparr>)"

text \<open>The generated \<^verbatim>\<open>==\<close> of \<^verbatim>\<open>OutboxEvent\<close>: aware datetimes compare by instant, payloads by Python equality.\<close>

definition datetime_eq :: "datetime \<Rightarrow> datetime \<Rightarrow> bool" where
  "datetime_eq a b \<longleftrightarrow> (if dt_aware a = dt_aware b then dt_eq a b else False)"

definition event_eq :: "OutboxEvent \<Rightarrow> OutboxEvent \<Rightarrow> bool" where
  "event_eq e f \<longleftrightarrow> ev_event_id e = ev_event_id f \<and> ev_aggregate_id e = ev_aggregate_id f
     \<and> ev_aggregate_version e = ev_aggregate_version f \<and> ev_event_type e = ev_event_type f
     \<and> py_eq (ev_payload e) (ev_payload f) \<and> ev_payload_digest e = ev_payload_digest f
     \<and> ev_request_digest e = ev_request_digest f \<and> ev_idempotency_key e = ev_idempotency_key f
     \<and> ev_transaction_id e = ev_transaction_id f \<and> datetime_eq (ev_occurred_at e) (ev_occurred_at f)
     \<and> ev_committed e = ev_committed f
     \<and> (case (ev_emitted_at e, ev_emitted_at f) of (None, None) \<Rightarrow> True | (Some a, Some b) \<Rightarrow> datetime_eq a b | _ \<Rightarrow> False)"

section \<open>Operations\<close>

definition durable_event :: "EmissionFence \<Rightarrow> OutboxEvent \<Rightarrow> OutboxEvent res" where
  "durable_event f e =
     (case ef_store f of None \<Rightarrow> Inr e
      | Some st \<Rightarrow>
         (case get_event st (ev_event_id e) of
            None \<Rightarrow> Inl (EmissionBlocked ''event is not present in the durable outbox'')
          | Some d \<Rightarrow>
             if \<not> event_eq (e\<lparr>ev_emitted_at := ev_emitted_at d\<rparr>) d
             then Inl (EmissionBlocked ''event does not match its durable outbox record'')
             else Inr d))"

definition last_version :: "EmissionFence \<Rightarrow> pystr \<Rightarrow> int" where
  "last_version f a = (case dict_get (ef_last_version f) a of None \<Rightarrow> 0 | Some v \<Rightarrow> v)"

definition fence_register :: "OutboxEvent \<Rightarrow> EmissionFence \<Rightarrow> OutboxEvent res \<times> EmissionFence" where
  "fence_register e0 f =
     (case durable_event f e0 of Inl x \<Rightarrow> (Inl x, f)
      | Inr e \<Rightarrow>
         if \<not> ev_committed e then (Inl (EmissionBlocked ''EMISSION-FENCE rejected an uncommitted event''), f)
         else case verify_integrity e of Inl x \<Rightarrow> (Inl x, f)
         | Inr False \<Rightarrow> (Inl (EmissionBlocked ''EMISSION-FENCE rejected a payload digest mismatch''), f)
         | Inr True \<Rightarrow>
            if (case dict_get (ef_registered f) (ev_event_id e) of None \<Rightarrow> False | Some x \<Rightarrow> \<not> event_eq x e)
            then (Inl (EmissionBlocked ''event id collision at EMISSION-FENCE''), f)
            else
              let f' = f\<lparr>ef_registered := dict_set (ev_event_id e) e (ef_registered f)\<rparr> in
              case ev_emitted_at e of
                Some t \<Rightarrow>
                  if dict_get (ef_receipts f) (ev_event_id e) = None
                  then (Inr e, f'\<lparr>ef_receipts := dict_set (ev_event_id e)
                          \<lparr>er_event_id = ev_event_id e, er_aggregate_id = ev_aggregate_id e,
                           er_aggregate_version = ev_aggregate_version e, er_emitted_at = t,
                           er_sink_result = PNone, er_deduplicated = True\<rparr> (ef_receipts f),
                        ef_last_version := dict_set (ev_aggregate_id e)
                          (max (ev_aggregate_version e) (last_version f (ev_aggregate_id e))) (ef_last_version f)\<rparr>)
                  else (Inr e, f')
              | None \<Rightarrow> (Inr e, f'))"

definition check_order :: "OutboxEvent \<Rightarrow> EmissionFence \<Rightarrow> unit res" where
  "check_order e f =
     (if ev_aggregate_version e \<le> last_version f (ev_aggregate_id e)
      then Inl (EmissionBlocked ''aggregate version was already passed by the fence'')
      else let cands = dict_values (ef_registered f)
                 @ (case ef_store f of None \<Rightarrow> [] | Some st \<Rightarrow> outbox True st) in
           if list_ex (\<lambda>c. ev_aggregate_id c = ev_aggregate_id e \<and> ev_aggregate_version c < ev_aggregate_version e
                 \<and> ev_emitted_at c = None \<and> dict_get (ef_receipts f) (ev_event_id c) = None) cands
           then Inl (EmissionBlocked ''an earlier aggregate event is still pending'') else Inr ())"

text \<open>The arguments of \<^verbatim>\<open>emit\<close> besides the event; a lease is named by its id.\<close>

record EmitRequest =
  eq_at :: datetime
  eq_lease :: "pystr option"
  eq_subject :: "pystr option"
  eq_markings :: "MarkingSet option"
  eq_clearance :: "MarkingSet option"

definition marking_gate :: "EmitRequest \<Rightarrow> EmissionFence \<Rightarrow> unit res" where
  "marking_gate q f =
     (case ef_marking_engine f of None \<Rightarrow> Inr ()
      | Some eng \<Rightarrow>
         (case (eq_markings q, eq_clearance q) of
            (Some m, Some c) \<Rightarrow>
              (case is_authorized eng m c of Inl x \<Rightarrow> Inl x
               | Inr b \<Rightarrow> if b then Inr () else Inl (EmissionBlocked ''clearance does not dominate event markings''))
          | _ \<Rightarrow> Inl (EmissionBlocked ''marking and clearance are required for disclosure'')))"

definition capability_gate ::
  "stop_heap \<Rightarrow> EmitRequest \<Rightarrow> OutboxEvent \<Rightarrow> EmissionFence \<Rightarrow> unit res \<times> EmissionFence" where
  "capability_gate h q e f =
     (if \<not> ef_require_capability f then (Inr (), f)
      else case (eq_lease q, ef_capability_authority f) of
        (Some lease, Some auth) \<Rightarrow>
          (case authorize h lease (lit ''emit'') (ev_aggregate_id e) (eq_at q) (eq_subject q) True auth of
             (Inl x, auth') \<Rightarrow> (Inl (EmissionBlocked ''emission capability rejected''),
                               f\<lparr>ef_capability_authority := Some auth'\<rparr>)
           | (Inr _, auth') \<Rightarrow> (Inr (), f\<lparr>ef_capability_authority := Some auth'\<rparr>))
      | _ \<Rightarrow> (Inl (EmissionBlocked ''an emission capability lease is required''), f))"

text \<open>The end of \<^verbatim>\<open>emit\<close>: the sink call and, once it has acknowledged, the receipt and the marks.\<close>

definition deliver :: "EventSink \<Rightarrow> datetime \<Rightarrow> OutboxEvent \<Rightarrow> EmissionFence \<Rightarrow> EmissionReceipt res \<times> EmissionFence" where
  "deliver sink instant e f =
     (case sink (ef_calls f) e of
        Inl x \<Rightarrow> (Inl x, f\<lparr>ef_calls := ef_calls f @ [\<lparr>sc_event = e, sc_acknowledged = False\<rparr>]\<rparr>)
      | Inr result \<Rightarrow>
         let f1 = f\<lparr>ef_calls := ef_calls f @ [\<lparr>sc_event = e, sc_acknowledged = True\<rparr>]\<rparr>;
             receipt = \<lparr>er_event_id = ev_event_id e, er_aggregate_id = ev_aggregate_id e,
                        er_aggregate_version = ev_aggregate_version e, er_emitted_at = instant,
                        er_sink_result = result, er_deduplicated = False\<rparr>;
             f2 = f1\<lparr>ef_receipts := dict_set (ev_event_id e) receipt (ef_receipts f1),
                     ef_last_version := dict_set (ev_aggregate_id e) (ev_aggregate_version e) (ef_last_version f1)\<rparr>
         in case ef_store f1 of
              None \<Rightarrow> (Inr receipt, f2)
            | Some st \<Rightarrow>
               (case mark_emitted (ev_event_id e) instant st of
                  (Inl x, st') \<Rightarrow> (Inl x, f1\<lparr>ef_store := Some st'\<rparr>)
                | (Inr _, st') \<Rightarrow> (Inr receipt, f2\<lparr>ef_store := Some st'\<rparr>)))"

definition fence_emit ::
  "stop_heap \<Rightarrow> EventSink \<Rightarrow> EmitRequest \<Rightarrow> OutboxEvent \<Rightarrow> EmissionFence \<Rightarrow> EmissionReceipt res \<times> EmissionFence" where
  "fence_emit h sink q e0 f =
     (case require_aware ''at'' (eq_at q) of Inl x \<Rightarrow> (Inl x, f)
      | Inr instant \<Rightarrow>
       (case dict_get (ef_receipts f) (ev_event_id e0) of
          Some r \<Rightarrow> (Inr (r\<lparr>er_deduplicated := True\<rparr>), f)
        | None \<Rightarrow>
         (case fence_register e0 f of (Inl x, f') \<Rightarrow> (Inl x, f')
          | (Inr e, f') \<Rightarrow>
             if dt_lt instant (ev_occurred_at e)
             then (Inl (EmissionBlocked ''event cannot cross the fence before it occurred''), f')
             else case check_order e f' of Inl x \<Rightarrow> (Inl x, f')
             | Inr _ \<Rightarrow>
              (case marking_gate q f' of Inl x \<Rightarrow> (Inl x, f')
               | Inr _ \<Rightarrow>
                (case capability_gate h q e f' of (Inl x, f'') \<Rightarrow> (Inl x, f'')
                 | (Inr _, f'') \<Rightarrow> deliver sink instant e f'')))))"

fun register_all :: "OutboxEvent list \<Rightarrow> EmissionFence \<Rightarrow> unit res \<times> EmissionFence" where
  "register_all [] f = (Inr (), f)"
| "register_all (e # es) f =
     (case fence_register e f of (Inl x, f') \<Rightarrow> (Inl x, f') | (Inr _, f') \<Rightarrow> register_all es f')"

fun emit_all ::
  "stop_heap \<Rightarrow> EventSink \<Rightarrow> EmitRequest \<Rightarrow> OutboxEvent list \<Rightarrow> EmissionFence \<Rightarrow> EmissionReceipt list res \<times> EmissionFence" where
  "emit_all h sink q [] f = (Inr [], f)"
| "emit_all h sink q (e # es) f =
     (case fence_emit h sink q e f of (Inl x, f') \<Rightarrow> (Inl x, f')
      | (Inr r, f') \<Rightarrow> (case emit_all h sink q es f' of (Inl x, f'') \<Rightarrow> (Inl x, f'') | (Inr rs, f'') \<Rightarrow> (Inr (r # rs), f'')))"

definition drain ::
  "stop_heap \<Rightarrow> EventSink \<Rightarrow> EmitRequest \<Rightarrow> EmissionFence \<Rightarrow> EmissionReceipt list res \<times> EmissionFence" where
  "drain h sink q f =
     (case ef_store f of None \<Rightarrow> (Inl (RuntimeError ''drain requires a store-bound EMISSION-FENCE''), f)
      | Some st \<Rightarrow>
         (case register_all (outbox False st) f of (Inl x, f') \<Rightarrow> (Inl x, f')
          | (Inr _, f') \<Rightarrow> emit_all h sink q (outbox False st) f'))"

definition fence_receipt :: "pystr \<Rightarrow> EmissionFence \<Rightarrow> EmissionReceipt option" where
  "fence_receipt i f = dict_get (ef_receipts f) i"

section \<open>The fence invariant\<close>

text \<open>The acknowledged deliveries, in order.\<close>

definition acknowledged :: "EmissionFence \<Rightarrow> OutboxEvent list" where
  "acknowledged f = map sc_event (filter sc_acknowledged (ef_calls f))"

text \<open>
  Every acknowledged event crossed intact, is not passed over by a later version of its aggregate, and
  has a receipt (so it is never sent again) unless marking it in the store failed after the sink took it.
\<close>

definition fence_inv :: "EmissionFence \<Rightarrow> bool" where
  "fence_inv f \<longleftrightarrow>
     (\<forall>c \<in> set (ef_calls f). ev_committed (sc_event c) \<and> verify_integrity (sc_event c) = Inr True)
     \<and> (\<forall>e \<in> set (acknowledged f). dict_get (ef_receipts f) (ev_event_id e) \<noteq> None
          \<and> ev_aggregate_version e \<le> last_version f (ev_aggregate_id e))
     \<and> sorted_wrt (\<lambda>e e'. ev_event_id e \<noteq> ev_event_id e'
          \<and> (ev_aggregate_id e = ev_aggregate_id e' \<longrightarrow> ev_aggregate_version e < ev_aggregate_version e')) (acknowledged f)
     \<and> (\<forall>st. ef_store f = Some st \<longrightarrow> store_inv st)"

lemma new_fence_inv: "new_fence st a r m = Inr f \<Longrightarrow> (\<forall>s. st = Some s \<longrightarrow> store_inv s) \<Longrightarrow> fence_inv f"
  by (auto simp: new_fence_def fence_inv_def acknowledged_def split: if_splits)

lemma fence_register_cases:
  assumes "fence_register e0 f = (r, f')"
  shows "ef_calls f' = ef_calls f" "ef_store f' = ef_store f"
    "\<And>i. dict_get (ef_receipts f) i \<noteq> None \<Longrightarrow> dict_get (ef_receipts f') i \<noteq> None"
    "\<And>a. last_version f a \<le> last_version f' a"
    "\<And>e. r = Inr e \<Longrightarrow> ev_committed e \<and> verify_integrity e = Inr True \<and> durable_event f e0 = Inr e
       \<and> (dict_get (ef_receipts f') (ev_event_id e) = None \<longrightarrow> ev_emitted_at e = None)"
  using assms
  by (auto simp: fence_register_def Let_def last_version_def split: sum.splits if_splits bool.splits option.splits)

lemma fence_inv_grow:
  assumes "fence_inv f" "ef_calls f' = ef_calls f" "ef_store f' = ef_store f"
    "\<And>i. dict_get (ef_receipts f) i \<noteq> None \<Longrightarrow> dict_get (ef_receipts f') i \<noteq> None"
    "\<And>a. last_version f a \<le> last_version f' a"
  shows "fence_inv f'"
proof -
  have "acknowledged f' = acknowledged f" using assms(2) by (simp add: acknowledged_def)
  then show ?thesis using assms unfolding fence_inv_def by (fastforce intro: order_trans)
qed

lemma fence_register_inv:
  assumes "fence_register e0 f = (r, f')" and "fence_inv f"
  shows "fence_inv f'"
  by (rule fence_inv_grow [OF assms(2) fence_register_cases(1-4) [OF assms(1)]])

lemma capability_gate_cases:
  assumes "capability_gate h q e f = (r, f')"
  shows "\<exists>a. f' = f\<lparr>ef_capability_authority := a\<rparr>"
  using assms by (auto simp: capability_gate_def split: if_splits option.splits sum.splits prod.splits
      intro: exI [of _ "ef_capability_authority f"])

lemma capability_gate_inv:
  assumes "capability_gate h q e f = (r, f')" and "fence_inv f"
  shows "fence_inv f'"
proof -
  from capability_gate_cases [OF assms(1)] obtain a where f': "f' = f\<lparr>ef_capability_authority := a\<rparr>" by blast
  show ?thesis by (rule fence_inv_grow [OF assms(2)]) (simp_all add: f' last_version_def)
qed

text \<open>What \<^verbatim>\<open>deliver\<close> needs of the event it is given: the checks \<^verbatim>\<open>emit\<close> has made before.\<close>

definition deliverable :: "datetime \<Rightarrow> OutboxEvent \<Rightarrow> EmissionFence \<Rightarrow> bool" where
  "deliverable instant e f \<longleftrightarrow> dt_aware instant \<and> dt_le (ev_occurred_at e) instant
     \<and> ev_committed e \<and> verify_integrity e = Inr True
     \<and> last_version f (ev_aggregate_id e) < ev_aggregate_version e
     \<and> dict_get (ef_receipts f) (ev_event_id e) = None \<and> ev_emitted_at e = None
     \<and> (\<forall>st. ef_store f = Some st \<longrightarrow> dict_get (st_events st) (ev_event_id e) = Some e)"

text \<open>
  A delivery either fails at the sink and changes nothing but the log, or is acknowledged and then
  recorded everywhere: marking the event in the store cannot fail any more.
\<close>

lemma deliver_cases:
  assumes "deliver sink instant e f = (r, f')" and "deliverable instant e f"
  obtains (failed) x where "sink (ef_calls f) e = Inl x" "r = Inl x"
      "f' = f\<lparr>ef_calls := ef_calls f @ [\<lparr>sc_event = e, sc_acknowledged = False\<rparr>]\<rparr>"
  | (acknowledged) v st' where "sink (ef_calls f) e = Inr v"
      "r = Inr \<lparr>er_event_id = ev_event_id e, er_aggregate_id = ev_aggregate_id e,
                er_aggregate_version = ev_aggregate_version e, er_emitted_at = instant,
                er_sink_result = v, er_deduplicated = False\<rparr>"
      "ef_calls f' = ef_calls f @ [\<lparr>sc_event = e, sc_acknowledged = True\<rparr>]"
      "ef_receipts f' = dict_set (ev_event_id e) \<lparr>er_event_id = ev_event_id e, er_aggregate_id = ev_aggregate_id e,
                er_aggregate_version = ev_aggregate_version e, er_emitted_at = instant,
                er_sink_result = v, er_deduplicated = False\<rparr> (ef_receipts f)"
      "ef_last_version f' = dict_set (ev_aggregate_id e) (ev_aggregate_version e) (ef_last_version f)"
      "ef_registered f' = ef_registered f" "ef_capability_authority f' = ef_capability_authority f"
      "ef_require_capability f' = ef_require_capability f" "ef_marking_engine f' = ef_marking_engine f"
      "ef_store f' = st'"
      "ef_store f = None \<Longrightarrow> st' = None"
      "\<And>st. ef_store f = Some st \<Longrightarrow> \<exists>e' st1. st' = Some st1 \<and> mark_emitted (ev_event_id e) instant st = (Inr e', st1)"
proof (cases "sink (ef_calls f) e")
  case (Inl x)
  with assms(1) failed show ?thesis by (simp add: deliver_def)
next
  case (Inr v)
  note sink = this
  show ?thesis
  proof (cases "ef_store f")
    case None
    with assms(1) sink show ?thesis by (intro acknowledged [of v None]) (auto simp: deliver_def Let_def)
  next
    case (Some st)
    with assms(2) have ev: "dict_get (st_events st) (ev_event_id e) = Some e" "dt_aware instant"
      "\<not> dt_lt instant (ev_occurred_at e)" by (auto simp: deliverable_def)
    obtain e' st1 where m: "mark_emitted (ev_event_id e) instant st = (Inr e', st1)"
      using ev by (cases "ev_emitted_at e") (auto simp: mark_emitted_def Let_def)
    with assms(1) sink Some show ?thesis
      by (intro acknowledged [of v "Some st1"]) (auto simp: deliver_def Let_def)
  qed
qed

lemma deliver_inv:
  assumes "deliver sink instant e f = (r, f')" and ok: "deliverable instant e f" and inv: "fence_inv f"
  shows "fence_inv f'"
  using assms(1) ok
proof (cases rule: deliver_cases)
  case (failed x)
  then have "acknowledged f' = acknowledged f" by (simp add: acknowledged_def)
  with inv ok failed(3) show ?thesis by (auto simp: fence_inv_def deliverable_def last_version_def)
next
  case (acknowledged v st')
  have last: "last_version f' a = (if a = ev_aggregate_id e then ev_aggregate_version e else last_version f a)" for a
    using acknowledged(5) by (simp add: last_version_def)
  have ack: "acknowledged f' = acknowledged f @ [e]" using acknowledged(3) by (simp add: acknowledged_def)
  have lt: "last_version f (ev_aggregate_id e) < ev_aggregate_version e" using ok by (simp add: deliverable_def)
  have new: "ev_event_id d \<noteq> ev_event_id e" "ev_aggregate_id d = ev_aggregate_id e \<longrightarrow> ev_aggregate_version d < ev_aggregate_version e"
    if "d \<in> set (acknowledged f)" for d
    using that inv ok unfolding fence_inv_def deliverable_def by fastforce+
  have sorted: "sorted_wrt (\<lambda>e e'. ev_event_id e \<noteq> ev_event_id e'
      \<and> (ev_aggregate_id e = ev_aggregate_id e' \<longrightarrow> ev_aggregate_version e < ev_aggregate_version e')) (acknowledged f')"
    using inv new unfolding ack fence_inv_def by (simp add: sorted_wrt_append)
  have receipts: "dict_get (ef_receipts f') (ev_event_id d) \<noteq> None \<and> ev_aggregate_version d \<le> last_version f' (ev_aggregate_id d)"
    if "d \<in> set (acknowledged f')" for d
  proof (cases "d = e")
    case True
    then show ?thesis by (simp add: acknowledged(4) last)
  next
    case False
    with that have d: "d \<in> set (acknowledged f)" by (simp add: ack)
    with inv have "dict_get (ef_receipts f) (ev_event_id d) \<noteq> None" "ev_aggregate_version d \<le> last_version f (ev_aggregate_id d)"
      by (auto simp: fence_inv_def)
    with new [OF d] show ?thesis by (auto simp: acknowledged(4) last)
  qed
  have store: "store_inv st" if st: "ef_store f' = Some st" for st
  proof (cases "ef_store f")
    case None
    with acknowledged st show ?thesis by simp
  next
    case (Some st0)
    with acknowledged(10,12) st obtain e' where "mark_emitted (ev_event_id e) instant st0 = (Inr e', st)" by force
    moreover have "store_inv st0" using inv Some by (simp add: fence_inv_def)
    ultimately show ?thesis by (rule mark_emitted_inv [rotated])
  qed
  have calls: "\<forall>c \<in> set (ef_calls f'). ev_committed (sc_event c) \<and> verify_integrity (sc_event c) = Inr True"
    using inv ok by (auto simp: acknowledged(3) fence_inv_def deliverable_def)
  show ?thesis using sorted receipts store calls unfolding fence_inv_def by blast
qed

text \<open>Every path of \<^verbatim>\<open>emit\<close>: a known receipt, a refusal before the sink, or a delivery of a checked event.\<close>

lemma durable_eventD:
  assumes "durable_event f e0 = Inr e" and "fence_inv f"
  shows "ev_event_id e = ev_event_id e0"
    "ef_store f = Some st \<Longrightarrow> dict_get (st_events st) (ev_event_id e) = Some e"
    "ef_store f = None \<Longrightarrow> e = e0"
proof -
  show "ev_event_id e = ev_event_id e0"
    using assms(1) by (simp add: durable_event_def event_eq_def split: option.splits if_splits)
  then show "ef_store f = Some st \<Longrightarrow> dict_get (st_events st) (ev_event_id e) = Some e"
    using assms(1) by (simp add: durable_event_def get_event_def split: option.splits if_splits)
  show "ef_store f = None \<Longrightarrow> e = e0" using assms(1) by (simp add: durable_event_def)
qed

lemma fence_register_pending:
  assumes "fence_register e0 f = (Inr e, f')" and "last_version f' (ev_aggregate_id e) < ev_aggregate_version e"
    and "dict_get (ef_receipts f) (ev_event_id e) = None"
  shows "ev_emitted_at e = None \<and> ef_receipts f' = ef_receipts f \<and> ef_last_version f' = ef_last_version f
     \<and> ef_marking_engine f' = ef_marking_engine f
     \<and> ef_require_capability f' = ef_require_capability f \<and> ef_capability_authority f' = ef_capability_authority f"
proof -
  obtain d where d: "durable_event f e0 = Inr d" using assms(1) by (cases "durable_event f e0") (auto simp: fence_register_def)
  have form: "e = d" "verify_integrity d = Inr True"
    using fence_register_cases(5) [OF assms(1)] d by auto
  show ?thesis
  proof (cases "ev_emitted_at d")
    case None
    with assms(1) d form show ?thesis by (auto simp: fence_register_def Let_def split: if_splits)
  next
    case (Some t)
    with assms(1,3) d form have "last_version f' (ev_aggregate_id e) = max (ev_aggregate_version e) (last_version f (ev_aggregate_id e))"
      by (auto simp: fence_register_def Let_def last_version_def split: if_splits)
    with assms(2) show ?thesis by simp
  qed
qed

lemma check_orderD:
  assumes "check_order e f = Inr ()"
  shows "last_version f (ev_aggregate_id e) < ev_aggregate_version e"
    "\<And>st c. ef_store f = Some st \<Longrightarrow> store_inv st \<Longrightarrow> dict_get (st_events st) (ev_event_id c) = Some c \<Longrightarrow>
       ev_aggregate_id c = ev_aggregate_id e \<Longrightarrow> ev_aggregate_version c < ev_aggregate_version e \<Longrightarrow>
       ev_emitted_at c \<noteq> None \<or> dict_get (ef_receipts f) (ev_event_id c) \<noteq> None"
proof -
  show "last_version f (ev_aggregate_id e) < ev_aggregate_version e"
    using assms by (auto simp: check_order_def split: if_splits)
  fix st c
  assume c: "ef_store f = Some st" "store_inv st" "dict_get (st_events st) (ev_event_id c) = Some c"
    "ev_aggregate_id c = ev_aggregate_id e" "ev_aggregate_version c < ev_aggregate_version e"
  then have "c \<in> set (outbox True st)" by (auto simp: set_outbox)
  with assms c show "ev_emitted_at c \<noteq> None \<or> dict_get (ef_receipts f) (ev_event_id c) \<noteq> None"
    by (auto simp: check_order_def Let_def list_ex_iff split: if_splits)
qed

lemma emit_cases:
  assumes "fence_emit h sink q e0 f = (r, f')" and inv: "fence_inv f"
  obtains (known) rc where "dict_get (ef_receipts f) (ev_event_id e0) = Some rc" "f' = f"
      "r = Inr (rc\<lparr>er_deduplicated := True\<rparr>)"
  | (refused) x where "r = Inl x" "fence_inv f'" "ef_calls f' = ef_calls f" "ef_store f' = ef_store f"
      "\<And>i. dict_get (ef_receipts f) i \<noteq> None \<Longrightarrow> dict_get (ef_receipts f') i \<noteq> None"
  | (delivered) e f1 g where "fence_register e0 f = (Inr e, f1)" "check_order e f1 = Inr ()" "marking_gate q f = Inr ()"
      "capability_gate h q e f1 = (Inr (), g)" "deliver sink (eq_at q) e g = (r, f')"
      "deliverable (eq_at q) e g" "fence_inv g" "ef_calls g = ef_calls f" "ef_store g = ef_store f"
      "ef_receipts g = ef_receipts f" "ev_event_id e = ev_event_id e0"
proof (cases "dt_aware (eq_at q) \<and> dict_get (ef_receipts f) (ev_event_id e0) = None")
  case False
  consider rc where "dict_get (ef_receipts f) (ev_event_id e0) = Some rc" "f' = f" "r = Inr (rc\<lparr>er_deduplicated := True\<rparr>)"
    | x where "r = Inl x" "f' = f"
  proof (cases "require_aware ''at'' (eq_at q)")
    case (Inl x)
    with assms(1) have "r = Inl x" "f' = f" by (simp_all add: fence_emit_def)
    with that(2) show ?thesis by blast
  next
    case (Inr i)
    with False obtain rc where rc: "dict_get (ef_receipts f) (ev_event_id e0) = Some rc" by auto
    with Inr assms(1) have "f' = f" "r = Inr (rc\<lparr>er_deduplicated := True\<rparr>)" by (simp_all add: fence_emit_def)
    then show ?thesis by (rule that(1) [OF rc])
  qed
  then show ?thesis by cases (use known refused inv in auto)
next
  case True
  obtain r1 f1 where reg: "fence_register e0 f = (r1, f1)" by fastforce
  note reg_inv = fence_register_inv [OF reg inv] and reg_grow = fence_register_cases [OF reg]
  show ?thesis
  proof (cases "\<exists>e. r1 = Inr e \<and> \<not> dt_lt (eq_at q) (ev_occurred_at e) \<and> check_order e f1 = Inr () \<and> marking_gate q f1 = Inr ()")
    case False
    with True assms(1) reg have "\<exists>x. r = Inl x \<and> f' = f1"
      by (auto simp: fence_emit_def split: sum.splits if_splits)
    with refused reg_inv reg_grow(1-3) show ?thesis by blast
  next
    case t: True
    then obtain e where e: "r1 = Inr e" "\<not> dt_lt (eq_at q) (ev_occurred_at e)" "check_order e f1 = Inr ()"
      "marking_gate q f1 = Inr ()" by blast
    note lt = check_orderD(1) [OF e(3)]
    have dur: "durable_event f e0 = Inr e" "ev_committed e" "verify_integrity e = Inr True" using reg_grow(5) [OF e(1)] by blast+
    have id: "ev_event_id e = ev_event_id e0" by (rule durable_eventD(1) [OF dur(1) inv])
    have pend: "ev_emitted_at e = None" "ef_receipts f1 = ef_receipts f" "ef_marking_engine f1 = ef_marking_engine f"
      using fence_register_pending [OF reg [unfolded e(1)] lt] True id by auto
    obtain r2 g where cap: "capability_gate h q e f1 = (r2, g)" by fastforce
    obtain a where g: "g = f1\<lparr>ef_capability_authority := a\<rparr>" using capability_gate_cases [OF cap] by blast
    note g_inv = capability_gate_inv [OF cap reg_inv]
    have mark: "marking_gate q f = Inr ()" using e(4) pend(3) by (simp add: marking_gate_def)
    show ?thesis
    proof (cases r2)
      case (Inl x)
      with True assms(1) reg e cap have "r = Inl x \<and> f' = g" by (auto simp: fence_emit_def)
      then show ?thesis using refused [of x] g_inv reg_grow(1-3) g by auto
    next
      case (Inr u)
      with True assms(1) reg e cap have d: "deliver sink (eq_at q) e g = (r, f')" by (auto simp: fence_emit_def)
      have "deliverable (eq_at q) e g"
        using True e(2) dur(2,3) lt pend id durable_eventD(2) [OF dur(1) inv] reg_grow(2) g
        by (auto simp: deliverable_def last_version_def)
      then show ?thesis using delivered [OF _ e(3) mark _ d _ g_inv] reg cap Inr reg_grow(1,2) g pend e(1) id by simp
    qed
  qed
qed

lemma emit_inv:
  assumes "fence_emit h sink q e0 f = (r, f')" and inv: "fence_inv f"
  shows "fence_inv f'"
  using assms by (cases rule: emit_cases) (auto intro: deliver_inv inv)

lemma register_all_inv: "register_all es f = (r, f') \<Longrightarrow> fence_inv f \<Longrightarrow> fence_inv f'"
  by (induction es arbitrary: f) (auto split: prod.splits sum.splits dest: fence_register_inv)

lemma emit_all_inv: "emit_all h sink q es f = (r, f') \<Longrightarrow> fence_inv f \<Longrightarrow> fence_inv f'"
  by (induction es arbitrary: f r) (auto split: prod.splits sum.splits dest: emit_inv)

lemma drain_inv: "drain h sink q f = (r, f') \<Longrightarrow> fence_inv f \<Longrightarrow> fence_inv f'"
  by (auto simp: drain_def split: option.splits prod.splits sum.splits dest: register_all_inv emit_all_inv)

text \<open>
  One step is a call on the fence, or somebody else's call on the store or the authority it shares.
\<close>

inductive fence_step :: "EmissionFence \<Rightarrow> EmissionFence \<Rightarrow> bool" where
  registered: "fence_register e f = (r, f') \<Longrightarrow> fence_step f f'"
| emitted: "fence_emit h sink q e f = (r, f') \<Longrightarrow> fence_step f f'"
| drained: "drain h sink q f = (r, f') \<Longrightarrow> fence_step f f'"
| stored: "ef_store f = Some st \<Longrightarrow> store_step st st' \<Longrightarrow> fence_step f (f\<lparr>ef_store := Some st'\<rparr>)"
| authority: "fence_step f (f\<lparr>ef_capability_authority := a\<rparr>)"

inductive_cases fence_stepE: "fence_step f f'"

definition fence_init :: "EmissionFence \<Rightarrow> bool" where
  "fence_init f \<longleftrightarrow> (\<exists>st a req m. new_fence st a req m = Inr f
     \<and> (\<forall>s. st = Some s \<longrightarrow> (\<exists>w s0. new_store w = Inr s0 \<and> store_step\<^sup>*\<^sup>* s0 s)))"

lemma reachable_store_inv: "new_store w = Inr s0 \<Longrightarrow> store_step\<^sup>*\<^sup>* s0 s \<Longrightarrow> store_inv s"
  using store_sys.reachable_invar by (auto simp: store_init_def)

lemma fence_stored_inv:
  assumes "ef_store f = Some st" "store_step st st'" "fence_inv f"
  shows "fence_inv (f\<lparr>ef_store := Some st'\<rparr>)"
proof -
  have "store_inv st'" using assms store_sys.invar_step by (auto simp: fence_inv_def)
  then show ?thesis using assms(3) by (simp add: fence_inv_def acknowledged_def last_version_def)
qed

interpretation fence_sys: invariant_system fence_init fence_step fence_inv
proof
  show "fence_inv f" if "fence_init f" for f
    using that by (auto simp: fence_init_def intro!: new_fence_inv dest: reachable_store_inv)
  show "fence_inv f'" if "fence_inv f" "fence_step f f'" for f f'
    using that(2,1)
  proof cases
    case (authority a)
    with that(1) show ?thesis by (simp add: fence_inv_def acknowledged_def last_version_def)
  qed (auto intro: fence_register_inv emit_inv drain_inv fence_stored_inv that(1))
qed

section \<open>Draining the outbox\<close>

text \<open>
  The state of a drain over the pending events \<open>done @ todo\<close> of a store: the events in \<open>done\<close> have
  crossed and are marked, the fence has registered nothing but pending events, and no gate is set.
\<close>

definition draining :: "datetime \<Rightarrow> AtomicOutboxStore \<Rightarrow> OutboxEvent list \<Rightarrow> EmissionFence \<Rightarrow> bool" where
  "draining instant st0 dn f \<longleftrightarrow>
     ef_marking_engine f = None \<and> \<not> ef_require_capability f \<and> acknowledged f = dn \<and> dict_ok (ef_registered f)
     \<and> (\<forall>i. dict_get (ef_receipts f) i \<noteq> None \<longleftrightarrow> i \<in> ev_event_id ` set dn)
     \<and> (\<forall>a. last_version f a = 0 \<or> (\<exists>e \<in> set dn. ev_aggregate_id e = a \<and> ev_aggregate_version e = last_version f a))
     \<and> (\<forall>i x. dict_get (ef_registered f) i = Some x \<longrightarrow> dict_get (st_events st0) i = Some x \<and> ev_emitted_at x = None)
     \<and> (\<exists>st. ef_store f = Some st \<and> store_inv st
          \<and> (\<forall>i. dict_get (st_events st) i =
               (case dict_get (st_events st0) i of None \<Rightarrow> None
                | Some e \<Rightarrow> Some (if i \<in> ev_event_id ` set dn then e\<lparr>ev_emitted_at := Some instant\<rparr> else e))))"

lemma event_eq_refl: "py_eq (ev_payload e) (ev_payload e) \<Longrightarrow> event_eq e e"
  by (simp add: event_eq_def datetime_eq_def split: option.splits)

lemma pending_in_store:
  assumes inv: "store_inv st0" and "e \<in> set (outbox False st0)"
  shows "dict_get (st_events st0) (ev_event_id e) = Some e" "ev_emitted_at e = None" "ev_committed e"
    "verify_integrity e = Inr True" "1 \<le> ev_aggregate_version e"
proof -
  from assms(2) obtain k where k: "dict_get (st_events st0) k = Some e" "ev_emitted_at e = None"
    by (auto simp: set_outbox [OF inv])
  from store_invD(4) [OF inv k(1)] have ok: "event_ok st0 k e" .
  then have "ev_event_id e = k" by (simp add: event_ok_def)
  then show "dict_get (st_events st0) (ev_event_id e) = Some e" using k by simp
  show "ev_emitted_at e = None" by (rule k(2))
  show "ev_committed e" "verify_integrity e = Inr True" "1 \<le> ev_aggregate_version e"
    using ok by (simp_all add: event_ok_def verify_integrity_def)
qed

text \<open>Registering a pending event that is not done yet succeeds and only touches the registered dictionary.\<close>

lemma draining_register:
  assumes dr: "draining instant st0 dn f" and inv: "store_inv st0" and e: "e \<in> set (outbox False st0)"
    and fresh: "ev_event_id e \<notin> ev_event_id ` set dn" and refl: "py_eq (ev_payload e) (ev_payload e)"
  shows "\<exists>f'. fence_register e f = (Inr e, f') \<and> draining instant st0 dn f' \<and> ef_last_version f' = ef_last_version f
     \<and> ef_receipts f' = ef_receipts f \<and> ef_store f' = ef_store f \<and> ef_calls f' = ef_calls f"
proof -
  note p = pending_in_store [OF inv e]
  from dr obtain st where st: "ef_store f = Some st" "dict_get (st_events st) (ev_event_id e) = Some e"
    using p(1) fresh by (auto simp: draining_def)
  have dur: "durable_event f e = Inr e"
    using st refl by (simp add: durable_event_def get_event_def event_eq_refl)
  have reg: "fence_register e f = (Inr e, f\<lparr>ef_registered := dict_set (ev_event_id e) e (ef_registered f)\<rparr>)"
  proof (cases "dict_get (ef_registered f) (ev_event_id e)")
    case None
    then show ?thesis using dur p by (simp add: fence_register_def Let_def)
  next
    case (Some x)
    with dr p(1) have "x = e" by (auto simp: draining_def)
    with Some show ?thesis using dur p refl by (simp add: fence_register_def Let_def event_eq_refl)
  qed
  moreover have "draining instant st0 dn (f\<lparr>ef_registered := dict_set (ev_event_id e) e (ef_registered f)\<rparr>)"
    using dr p(1,2) by (auto simp: draining_def acknowledged_def last_version_def)
  ultimately show ?thesis by simp
qed

lemma draining_register_all:
  assumes inv: "store_inv st0"
  shows "draining instant st0 [] f \<Longrightarrow> set es \<subseteq> set (outbox False st0) \<Longrightarrow> \<forall>e \<in> set es. py_eq (ev_payload e) (ev_payload e) \<Longrightarrow>
    \<exists>f'. register_all es f = (Inr (), f') \<and> draining instant st0 [] f'"
proof (induction es arbitrary: f)
  case (Cons e es)
  then obtain f' where f': "fence_register e f = (Inr e, f')" "draining instant st0 [] f'"
    using draining_register [OF _ inv, of instant "[]" f e] by auto
  with Cons.IH [OF f'(2)] Cons.prems show ?case by auto
qed simp

lemma outbox_split_order:
  assumes inv: "store_inv st0" and split: "outbox False st0 = dn @ e # es"
  shows "\<And>d. d \<in> set dn \<Longrightarrow> ev_aggregate_id d = ev_aggregate_id e \<Longrightarrow> ev_aggregate_version d < ev_aggregate_version e"
    "\<And>d. d \<in> set es \<Longrightarrow> ev_aggregate_id d = ev_aggregate_id e \<Longrightarrow> ev_aggregate_version e < ev_aggregate_version d"
    "ev_event_id e \<notin> ev_event_id ` set dn"
proof -
  let ?o = "outbox False st0" and ?n = "length dn"
  have e: "?o ! ?n = e" "?n < length ?o" by (simp_all add: split)
  show "ev_aggregate_version d < ev_aggregate_version e"
    if "d \<in> set dn" and agg: "ev_aggregate_id d = ev_aggregate_id e" for d
  proof -
    from that obtain i where "i < ?n" "?o ! i = d" by (auto simp: in_set_conv_nth split nth_append)
    with outbox_causal [OF inv, of i ?n False] e agg show ?thesis by simp
  qed
  show "ev_aggregate_version e < ev_aggregate_version d"
    if "d \<in> set es" and agg: "ev_aggregate_id d = ev_aggregate_id e" for d
  proof -
    from that obtain i where "i < length es" "es ! i = d" by (auto simp: in_set_conv_nth)
    then have "?o ! (?n + Suc i) = d" "?n + Suc i < length ?o" by (simp_all add: split nth_append)
    with outbox_causal [OF inv, of ?n "?n + Suc i" False] e agg show ?thesis by simp
  qed
  show "ev_event_id e \<notin> ev_event_id ` set dn"
  proof
    assume "ev_event_id e \<in> ev_event_id ` set dn"
    then obtain d where d: "d \<in> set dn" "ev_event_id d = ev_event_id e" by auto
    have "d \<in> set (outbox False st0)" "e \<in> set (outbox False st0)" using d(1) by (simp_all add: split)
    note this [THEN pending_in_store(1) [OF inv]]
    then have "Some d = Some e" by (metis d(2))
    then have "d = e" by (rule option.inject [THEN iffD1])
    with d(1) distinct_outbox [OF inv, of False] split show False by auto
  qed
qed

lemma draining_check_order:
  assumes dr: "draining instant st0 dn f" and inv: "store_inv st0" and split: "outbox False st0 = dn @ e # es"
  shows "check_order e f = Inr ()"
proof -
  note ord = outbox_split_order [OF inv split]
  have e: "e \<in> set (outbox False st0)" by (simp add: split)
  have last: "last_version f (ev_aggregate_id e) < ev_aggregate_version e"
    using dr ord(1) pending_in_store(5) [OF inv e] unfolding draining_def by (metis less_le_trans zero_less_one)
  obtain st where st: "ef_store f = Some st" "store_inv st"
    "\<And>i. dict_get (st_events st) i = (case dict_get (st_events st0) i of None \<Rightarrow> None
        | Some e \<Rightarrow> Some (if i \<in> ev_event_id ` set dn then e\<lparr>ev_emitted_at := Some instant\<rparr> else e))"
    using dr by (auto simp: draining_def)
  have pending: "c \<in> set dn" if c: "dict_get (st_events st0) (ev_event_id c) = Some c" "ev_emitted_at c = None"
    "ev_aggregate_id c = ev_aggregate_id e" "ev_aggregate_version c < ev_aggregate_version e" for c
  proof -
    have "c \<in> set (outbox False st0)" using c by (auto simp: set_outbox [OF inv])
    moreover have "c \<notin> set es" "c \<noteq> e" using ord(2) [of c] c(3,4) by auto
    ultimately show ?thesis by (simp add: split)
  qed
  have receipt: "dict_get (ef_receipts f) (ev_event_id c) \<noteq> None" if "c \<in> set dn" for c
    using dr that by (auto simp: draining_def)
  have reg: "dict_get (ef_receipts f) (ev_event_id c) \<noteq> None"
    if "c \<in> set (dict_values (ef_registered f))" "ev_aggregate_id c = ev_aggregate_id e"
      "ev_aggregate_version c < ev_aggregate_version e" for c
  proof -
    from dr that(1) obtain i where "dict_get (ef_registered f) i = Some c" by (auto simp: draining_def dict_mem_values)
    with dr have i: "dict_get (st_events st0) i = Some c" "ev_emitted_at c = None" by (auto simp: draining_def)
    moreover from store_invD(4) [OF inv i(1)] have "ev_event_id c = i" by (simp add: event_ok_def)
    ultimately show ?thesis using pending receipt that by blast
  qed
  have "dict_get (ef_receipts f) (ev_event_id c) \<noteq> None"
    if "c \<in> set (outbox True st)" "ev_emitted_at c = None" "ev_aggregate_id c = ev_aggregate_id e"
      "ev_aggregate_version c < ev_aggregate_version e" for c
  proof -
    from that(1) obtain k where k: "dict_get (st_events st) k = Some c" by (auto simp: set_outbox [OF st(2)])
    then have "ev_event_id c = k" using store_invD(4) [OF st(2)] by (auto simp: event_ok_def)
    moreover have "dict_get (st_events st0) k = Some c"
      using k st(3) [of k] that(2) by (auto split: option.splits if_splits)
    ultimately show ?thesis using pending receipt that by blast
  qed
  with reg last st(1) show ?thesis by (auto simp: check_order_def Let_def list_ex_iff)
qed

lemma draining_emit:
  assumes dr: "draining (eq_at q) st0 dn f" and inv: "store_inv st0" and split: "outbox False st0 = dn @ e # es"
    and refl: "py_eq (ev_payload e) (ev_payload e)" and ack: "\<And>cs. is_ok (sink cs e)"
    and at: "dt_aware (eq_at q)" "dt_le (ev_occurred_at e) (eq_at q)"
  shows "\<exists>rc f'. fence_emit h sink q e f = (Inr rc, f') \<and> er_event_id rc = ev_event_id e \<and> draining (eq_at q) st0 (dn @ [e]) f'"
proof -
  note ord = outbox_split_order [OF inv split]
  have e: "e \<in> set (outbox False st0)" by (simp add: split)
  note p = pending_in_store [OF inv e]
  obtain f1 where f1: "fence_register e f = (Inr e, f1)" "draining (eq_at q) st0 dn f1"
    using draining_register [OF dr inv e ord(3) refl] by blast
  have gates: "check_order e f1 = Inr ()" "marking_gate q f1 = Inr ()" "capability_gate h q e f1 = (Inr (), f1)"
    using draining_check_order [OF f1(2) inv split] f1(2) by (simp_all add: marking_gate_def capability_gate_def draining_def)
  have none: "dict_get (ef_receipts f) (ev_event_id e) = None" "dict_get (ef_receipts f1) (ev_event_id e) = None"
    using dr f1(2) ord(3) unfolding draining_def by blast+
  obtain rc f' where d: "deliver sink (eq_at q) e f1 = (rc, f')" by fastforce
  have emit: "fence_emit h sink q e f = (rc, f')"
    using d f1(1) gates none at by (simp add: fence_emit_def)
  obtain st where st: "ef_store f1 = Some st" "store_inv st"
    "\<And>i. dict_get (st_events st) i = (case dict_get (st_events st0) i of None \<Rightarrow> None
        | Some e \<Rightarrow> Some (if i \<in> ev_event_id ` set dn then e\<lparr>ev_emitted_at := Some (eq_at q)\<rparr> else e))"
    using f1(2) by (auto simp: draining_def)
  have "deliverable (eq_at q) e f1"
    using at p none check_orderD(1) [OF gates(1)] st(1,3) ord(3) by (simp add: deliverable_def)
  with d show ?thesis
  proof (cases rule: deliver_cases)
    case (failed x)
    with ack [of "ef_calls f1"] show ?thesis by simp
  next
    case (acknowledged v st')
    from acknowledged(12) [OF st(1)] obtain e' st1 where
      st1: "st' = Some st1" "mark_emitted (ev_event_id e) (eq_at q) st = (Inr e', st1)" by blast
    have in_st: "dict_get (st_events st) (ev_event_id e) = Some e" using st(3) p(1) ord(3) by simp
    have st1_inv: "store_inv st1" by (rule mark_emitted_inv [OF st(2) st1(2)])
    have st1_ev: "st_events st1 = dict_set (ev_event_id e) (e\<lparr>ev_emitted_at := Some (eq_at q)\<rparr>) (st_events st)"
      using st1(2) in_st at p(2) by (auto simp: mark_emitted_def Let_def)
    have last: "last_version f' a = (if a = ev_aggregate_id e then ev_aggregate_version e else last_version f1 a)" for a
      using acknowledged(5) by (simp add: last_version_def)
    have "draining (eq_at q) st0 (dn @ [e]) f'"
      unfolding draining_def
    proof (intro conjI)
      show "acknowledged f' = dn @ [e]" using f1(2) acknowledged(3) by (simp add: draining_def acknowledged_def)
      show "\<forall>i. dict_get (ef_receipts f') i \<noteq> None \<longleftrightarrow> i \<in> ev_event_id ` set (dn @ [e])"
        using f1(2) acknowledged(4) by (auto simp: draining_def)
      show "\<forall>a. last_version f' a = 0 \<or> (\<exists>d \<in> set (dn @ [e]). ev_aggregate_id d = a \<and> ev_aggregate_version d = last_version f' a)"
        using f1(2) by (auto simp: draining_def last)
      show "\<exists>st. ef_store f' = Some st \<and> store_inv st \<and> (\<forall>i. dict_get (st_events st) i =
          (case dict_get (st_events st0) i of None \<Rightarrow> None
           | Some d \<Rightarrow> Some (if i \<in> ev_event_id ` set (dn @ [e]) then d\<lparr>ev_emitted_at := Some (eq_at q)\<rparr> else d)))"
        using acknowledged(10) st1(1) st1_inv p(1) by (auto simp: st1_ev st(3) split: option.splits)
    qed (use f1(2) acknowledged(6-9) in \<open>auto simp: draining_def\<close>)
    with emit acknowledged(2) show ?thesis by auto
  qed
qed

lemma draining_emit_all:
  assumes inv: "store_inv st0" and at: "dt_aware (eq_at q)"
    and ok: "\<And>e. e \<in> set (outbox False st0) \<Longrightarrow>
      py_eq (ev_payload e) (ev_payload e) \<and> dt_le (ev_occurred_at e) (eq_at q) \<and> (\<forall>cs. is_ok (sink cs e))"
  shows "draining (eq_at q) st0 dn f \<Longrightarrow> outbox False st0 = dn @ es \<Longrightarrow>
    \<exists>rs f'. emit_all h sink q es f = (Inr rs, f') \<and> map er_event_id rs = map ev_event_id es
      \<and> draining (eq_at q) st0 (dn @ es) f'"
proof (induction es arbitrary: dn f)
  case (Cons e es)
  have "e \<in> set (outbox False st0)" using Cons.prems(2) by simp
  from ok [OF this] obtain rc f' where
    f': "fence_emit h sink q e f = (Inr rc, f')" "er_event_id rc = ev_event_id e" "draining (eq_at q) st0 (dn @ [e]) f'"
    using draining_emit [OF Cons.prems(1) inv Cons.prems(2) _ _ at] by blast
  from Cons.IH [OF f'(3)] Cons.prems(2) f' show ?case by auto
qed auto

lemma draining_done:
  assumes "draining instant st0 (outbox False st0) f" and inv: "store_inv st0"
  obtains st where "ef_store f = Some st" "store_inv st" "outbox False st = []"
proof -
  obtain st where st: "ef_store f = Some st" "store_inv st"
    "\<And>i. dict_get (st_events st) i = (case dict_get (st_events st0) i of None \<Rightarrow> None
        | Some e \<Rightarrow> Some (if i \<in> ev_event_id ` set (outbox False st0) then e\<lparr>ev_emitted_at := Some instant\<rparr> else e))"
    using assms(1) by (auto simp: draining_def)
  have "e \<notin> set (outbox False st)" for e
  proof
    assume "e \<in> set (outbox False st)"
    then obtain k where k: "dict_get (st_events st) k = Some e" "ev_emitted_at e = None" by (auto simp: set_outbox [OF st(2)])
    with st(3) [of k] have e0: "dict_get (st_events st0) k = Some e" "k \<notin> ev_event_id ` set (outbox False st0)"
      by (auto split: option.splits if_splits)
    moreover have "ev_event_id e = k" using store_invD(4) [OF inv e0(1)] by (simp add: event_ok_def)
    moreover have "e \<in> set (outbox False st0)" using e0(1) k(2) by (auto simp: set_outbox [OF inv])
    ultimately show False by auto
  qed
  then have "outbox False st = []" by (metis last_in_set)
  with st that show ?thesis by blast
qed

section \<open>Properties\<close>

definition example_fence :: EmissionFence where
  "example_fence = \<lparr>ef_store = Some example_written, ef_capability_authority = None, ef_require_capability = False,
     ef_marking_engine = None, ef_registered = [], ef_receipts = [], ef_last_version = [], ef_calls = []\<rparr>"

definition example_emit :: EmitRequest where
  "example_emit = \<lparr>eq_at = utc_at 0, eq_lease = None, eq_subject = None, eq_markings = None, eq_clearance = None\<rparr>"

definition example_sink :: EventSink where
  "example_sink cs e = Inr PNone"

definition example_heap :: stop_heap where
  "example_heap n = \<lparr>sea_epoch = 0, sea_history = [], sea_guard_dispatch = (\<lambda>_. Inr ())\<rparr>"

lemma example_reachable: "new_store (lit ''w'') = Inr example_store" "store_step\<^sup>*\<^sup>* example_store example_written"
  using example_step by (auto simp: new_store_def example_store_def)

lemma example_fence_new: "new_fence (Some example_written) None False None = Inr example_fence"
  by (simp add: new_fence_def example_fence_def)

lemma example_fence_init: "fence_init example_fence"
  using example_fence_new example_reachable unfolding fence_init_def by fastforce

lemma example_outbox: "outbox False example_written = [example_event]"
  by (simp add: outbox_def example_written_def example_store_def example_event_def)

lemma example_delivery:
  "\<exists>rc f'. fence_emit example_heap example_sink example_emit example_event example_fence = (Inr rc, f')
     \<and> acknowledged f' = [example_event]"
proof -
  have inv: "store_inv example_written" by (rule reachable_store_inv [OF example_reachable])
  then have "draining (eq_at example_emit) example_written [] example_fence"
    by (auto simp: example_fence_def draining_def acknowledged_def last_version_def split: option.splits)
  from draining_emit [OF this inv, of example_event "[]" example_sink example_heap] show ?thesis
    by (auto simp: example_outbox example_emit_def example_sink_def example_event_def draining_def)
qed

text \<open>
  C4 [fence_delivers_once]: whatever is called on a fence, and whatever else happens to its store and its
  authority in between, the events a sink has acknowledged have pairwise different ids, and those of one
  aggregate were acknowledged in increasing version order; every event a sink was ever given was
  committed and matched its payload digest; every acknowledged event has a receipt.
\<close>

theorem fence_delivers_once:
  assumes "fence_init f" and "fence_step\<^sup>*\<^sup>* f g"
  shows "distinct (map ev_event_id (acknowledged g))
    \<and> (\<forall>i j. i < j \<longrightarrow> j < length (acknowledged g) \<longrightarrow>
         ev_aggregate_id (acknowledged g ! i) = ev_aggregate_id (acknowledged g ! j) \<longrightarrow>
         ev_aggregate_version (acknowledged g ! i) < ev_aggregate_version (acknowledged g ! j))
    \<and> (\<forall>c \<in> set (ef_calls g). ev_committed (sc_event c) \<and> verify_integrity (sc_event c) = Inr True)
    \<and> (\<forall>e \<in> set (acknowledged g). fence_receipt (ev_event_id e) g \<noteq> None)"
proof -
  have "fence_inv g" by (rule fence_sys.reachable_invar [OF assms])
  then have calls: "\<forall>c \<in> set (ef_calls g). ev_committed (sc_event c) \<and> verify_integrity (sc_event c) = Inr True"
    and rec: "\<forall>e \<in> set (acknowledged g). dict_get (ef_receipts g) (ev_event_id e) \<noteq> None"
    and srt: "sorted_wrt (\<lambda>e e'. ev_event_id e \<noteq> ev_event_id e'
          \<and> (ev_aggregate_id e = ev_aggregate_id e' \<longrightarrow> ev_aggregate_version e < ev_aggregate_version e')) (acknowledged g)"
    unfolding fence_inv_def by blast+
  have pair: "ev_event_id (acknowledged g ! i) \<noteq> ev_event_id (acknowledged g ! j)
      \<and> (ev_aggregate_id (acknowledged g ! i) = ev_aggregate_id (acknowledged g ! j) \<longrightarrow>
         ev_aggregate_version (acknowledged g ! i) < ev_aggregate_version (acknowledged g ! j))"
    if "i < j" "j < length (acknowledged g)" for i j
    using sorted_wrt_nth_less [OF srt that] .
  have "distinct (map ev_event_id (acknowledged g))"
    unfolding distinct_conv_nth using pair by (metis length_map linorder_neqE_nat nth_map)
  with pair calls rec show ?thesis by (simp add: fence_receipt_def)
qed

theorem fence_delivers_once_witness:
  "\<exists>g. fence_step\<^sup>*\<^sup>* example_fence g \<and> acknowledged g = [example_event] \<and> fence_receipt (ev_event_id example_event) g \<noteq> None"
proof -
  obtain rc g where g: "fence_emit example_heap example_sink example_emit example_event example_fence = (Inr rc, g)"
    "acknowledged g = [example_event]" using example_delivery by blast
  then have run: "fence_step\<^sup>*\<^sup>* example_fence g" by (blast intro: fence_step.emitted)
  from fence_delivers_once [OF example_fence_init run] g run show ?thesis by auto
qed

lemma emit_gated:
  assumes "fence_inv f" and "fence_emit h sink q e0 f = (r, f')"
  shows "(\<not> is_ok r \<longrightarrow> acknowledged f' = acknowledged f \<and> ef_store f' = ef_store f) \<and> (ef_calls f' = ef_calls f \<or>
     (\<exists>e. ef_calls f' = ef_calls f @ [\<lparr>sc_event = e, sc_acknowledged = is_ok r\<rparr>] \<and> durable_event f e0 = Inr e
        \<and> ev_committed e \<and> verify_integrity e = Inr True \<and> dt_le (ev_occurred_at e) (eq_at q) \<and> fence_receipt (ev_event_id e0) f = None
        \<and> (\<forall>st c. ef_store f = Some st \<longrightarrow> get_event st (ev_event_id c) = Some c \<longrightarrow> ev_aggregate_id c = ev_aggregate_id e
             \<longrightarrow> ev_aggregate_version c < ev_aggregate_version e
             \<longrightarrow> ev_emitted_at c \<noteq> None \<or> fence_receipt (ev_event_id c) f \<noteq> None)
        \<and> (\<forall>eng. ef_marking_engine f = Some eng \<longrightarrow>
             (\<exists>m c. eq_markings q = Some m \<and> eq_clearance q = Some c \<and> is_authorized eng m c = Inr True))
        \<and> (ef_require_capability f \<longrightarrow>
             (\<exists>lease a a' l. eq_lease q = Some lease \<and> ef_capability_authority f = Some a
                \<and> authorize h lease (lit ''emit'') (ev_aggregate_id e) (eq_at q) (eq_subject q) True a = (Inr l, a')
                \<and> ef_capability_authority f' = Some a'))
        \<and> (\<forall>st'. is_ok r \<longrightarrow> ef_store f' = Some st' \<longrightarrow>
             (\<exists>x. get_event st' (ev_event_id e) = Some x \<and> ev_emitted_at x \<noteq> None))))"
proof -
  from assms(2,1) show ?thesis
  proof (cases rule: emit_cases)
    case (delivered e f1 g)
    note reg = fence_register_cases(5) [OF delivered(1) refl]
    have lt: "last_version f1 (ev_aggregate_id e) < ev_aggregate_version e" by (rule check_orderD(1) [OF delivered(2)])
    have no_receipt: "dict_get (ef_receipts f) (ev_event_id e) = None" using delivered(6,10) by (simp add: deliverable_def)
    note same = fence_register_pending [OF delivered(1) lt no_receipt]
    have earlier: "\<forall>st c. ef_store f = Some st \<longrightarrow> get_event st (ev_event_id c) = Some c \<longrightarrow> ev_aggregate_id c = ev_aggregate_id e
        \<longrightarrow> ev_aggregate_version c < ev_aggregate_version e \<longrightarrow> ev_emitted_at c \<noteq> None \<or> fence_receipt (ev_event_id c) f \<noteq> None"
      using check_orderD(2) [OF delivered(2)] fence_register_cases(2) [OF delivered(1)] same assms(1)
      by (auto simp: fence_inv_def get_event_def fence_receipt_def)
    have marking: "\<forall>eng. ef_marking_engine f = Some eng \<longrightarrow>
        (\<exists>m c. eq_markings q = Some m \<and> eq_clearance q = Some c \<and> is_authorized eng m c = Inr True)"
      using delivered(3) by (auto simp: marking_gate_def split: option.splits sum.splits if_splits)
    have cap: "ef_require_capability f \<longrightarrow> (\<exists>lease a a' l. eq_lease q = Some lease \<and> ef_capability_authority f = Some a
        \<and> authorize h lease (lit ''emit'') (ev_aggregate_id e) (eq_at q) (eq_subject q) True a = (Inr l, a')
        \<and> ef_capability_authority g = Some a')"
      using delivered(4) same by (auto simp: capability_gate_def split: option.splits sum.splits if_splits prod.splits)
    have basic: "durable_event f e0 = Inr e" "ev_committed e" "verify_integrity e = Inr True" "dt_le (ev_occurred_at e) (eq_at q)" "fence_receipt (ev_event_id e0) f = None"
      using reg delivered(6,11) no_receipt by (auto simp: deliverable_def fence_receipt_def)
    from delivered(5,6) show ?thesis
    proof (cases rule: deliver_cases)
      case (failed x)
      then have "acknowledged f' = acknowledged f" "ef_store f' = ef_store f"
        "ef_calls f' = ef_calls f @ [\<lparr>sc_event = e, sc_acknowledged = is_ok r\<rparr>]"
        "ef_capability_authority f' = ef_capability_authority g" "\<not> is_ok r"
        using delivered(8,9) by (simp_all add: acknowledged_def)
      with earlier marking cap basic show ?thesis by auto
    next
      case (acknowledged v st')
      then have calls: "ef_calls f' = ef_calls f @ [\<lparr>sc_event = e, sc_acknowledged = is_ok r\<rparr>]"
        "ef_capability_authority f' = ef_capability_authority g" "is_ok r" using delivered(8) by simp_all
      have marked: "\<exists>x. get_event s (ev_event_id e) = Some x \<and> ev_emitted_at x \<noteq> None" if s: "ef_store f' = Some s" for s
      proof -
        from s acknowledged(10,11) obtain s0 where s0: "ef_store g = Some s0" by (cases "ef_store g") auto
        with s acknowledged(10,12) obtain e' where m: "mark_emitted (ev_event_id e) (eq_at q) s0 = (Inr e', s)" by force
        from m show ?thesis by (cases rule: mark_emitted_cases) (auto simp: get_event_def)
      qed
      show ?thesis using calls earlier marking cap basic marked by auto
    qed
  qed (simp_all add: acknowledged_def)
qed

text \<open>
  C5 [emit_only_through_gates]: a call of \<^verbatim>\<open>emit\<close> reaches the sink at most once, and only with the durable,
  committed and intact record of the event it was given, at or after the instant the event occurred, when every earlier
  version of the aggregate in the store is already emitted or has a receipt, with a clearance the marking
  engine accepts, and with a capability use the authority has granted and counted.  When it returns a
  first receipt the store says the event is emitted; when it raises, no acknowledgement was recorded and
  the store is as it was, so the event stays pending.
\<close>

theorem emit_only_through_gates:
  assumes "fence_init f0" and "fence_step\<^sup>*\<^sup>* f0 f" and "fence_emit h sink q e0 f = (r, f')"
  shows "(\<not> is_ok r \<longrightarrow> acknowledged f' = acknowledged f \<and> ef_store f' = ef_store f) \<and> (ef_calls f' = ef_calls f \<or>
     (\<exists>e. ef_calls f' = ef_calls f @ [\<lparr>sc_event = e, sc_acknowledged = is_ok r\<rparr>] \<and> durable_event f e0 = Inr e
        \<and> ev_committed e \<and> verify_integrity e = Inr True \<and> dt_le (ev_occurred_at e) (eq_at q) \<and> fence_receipt (ev_event_id e0) f = None
        \<and> (\<forall>st c. ef_store f = Some st \<longrightarrow> get_event st (ev_event_id c) = Some c \<longrightarrow> ev_aggregate_id c = ev_aggregate_id e
             \<longrightarrow> ev_aggregate_version c < ev_aggregate_version e
             \<longrightarrow> ev_emitted_at c \<noteq> None \<or> fence_receipt (ev_event_id c) f \<noteq> None)
        \<and> (\<forall>eng. ef_marking_engine f = Some eng \<longrightarrow>
             (\<exists>m c. eq_markings q = Some m \<and> eq_clearance q = Some c \<and> is_authorized eng m c = Inr True))
        \<and> (ef_require_capability f \<longrightarrow>
             (\<exists>lease a a' l. eq_lease q = Some lease \<and> ef_capability_authority f = Some a
                \<and> authorize h lease (lit ''emit'') (ev_aggregate_id e) (eq_at q) (eq_subject q) True a = (Inr l, a')
                \<and> ef_capability_authority f' = Some a'))
        \<and> (\<forall>st'. is_ok r \<longrightarrow> ef_store f' = Some st' \<longrightarrow>
             (\<exists>x. get_event st' (ev_event_id e) = Some x \<and> ev_emitted_at x \<noteq> None))))"
  by (rule emit_gated [OF fence_sys.reachable_invar [OF assms(1,2)] assms(3)])

text \<open>
  C35 [drain_empties_outbox]: a fresh fence without a marking or capability gate over a reachable store
  delivers the whole outbox in one \<^verbatim>\<open>drain\<close>: when the sink acknowledges every pending event and none of them
  lies after the drain instant, \<^verbatim>\<open>drain\<close> returns one receipt per pending event in outbox order, the sink
  has seen exactly those events in that order, and nothing is pending any more.  (\<open>py_eq\<close> of a payload
  with itself holds unless a dictionary repeats a key or holds a NaN.)
\<close>

theorem drain_empties_outbox:
  assumes "new_store w = Inr s0" and "store_step\<^sup>*\<^sup>* s0 st" and "new_fence (Some st) a False None = Inr f"
    and "dt_aware (eq_at q)"
    and "\<And>e. e \<in> set (outbox False st) \<Longrightarrow>
      py_eq (ev_payload e) (ev_payload e) \<and> dt_le (ev_occurred_at e) (eq_at q) \<and> (\<forall>cs. is_ok (sink cs e))"
  shows "\<exists>rs f' st'. drain h sink q f = (Inr rs, f') \<and> map er_event_id rs = map ev_event_id (outbox False st)
    \<and> acknowledged f' = outbox False st \<and> ef_store f' = Some st' \<and> outbox False st' = []"
proof -
  have inv: "store_inv st" by (rule reachable_store_inv [OF assms(1,2)])
  have "draining (eq_at q) st [] f"
    using assms(3) inv
    by (auto simp: new_fence_def draining_def acknowledged_def last_version_def split: option.splits)
  then obtain f1 where f1: "register_all (outbox False st) f = (Inr (), f1)" "draining (eq_at q) st [] f1"
    using draining_register_all [OF inv _ subset_refl] assms(5) by blast
  then obtain rs f' where f': "emit_all h sink q (outbox False st) f1 = (Inr rs, f')"
    "map er_event_id rs = map ev_event_id (outbox False st)" "draining (eq_at q) st (outbox False st) f'"
    using draining_emit_all [OF inv assms(4,5) f1(2)] by fastforce
  obtain st' where "ef_store f' = Some st'" "outbox False st' = []" using draining_done [OF f'(3) inv] by blast
  moreover have "drain h sink q f = (Inr rs, f')"
    using assms(3) f1(1) f'(1) by (auto simp: drain_def new_fence_def)
  moreover have "acknowledged f' = outbox False st" using f'(3) by (simp add: draining_def)
  ultimately show ?thesis using f'(2) by blast
qed

theorem drain_empties_outbox_witness:
  "\<exists>rs f' st'. drain example_heap example_sink example_emit example_fence = (Inr rs, f')
    \<and> acknowledged f' = [example_event] \<and> ef_store f' = Some st' \<and> outbox False st' = []"
  using drain_empties_outbox [OF example_reachable example_fence_new, of example_emit example_sink]
  by (force simp: example_outbox example_emit_def example_sink_def example_event_def)

theorem emit_only_through_gates_witness:
  "\<exists>rc f'. fence_emit example_heap example_sink example_emit example_event example_fence = (Inr rc, f')
     \<and> ef_calls f' = [\<lparr>sc_event = example_event, sc_acknowledged = True\<rparr>]"
proof -
  obtain rc g where g: "fence_emit example_heap example_sink example_emit example_event example_fence = (Inr rc, g)"
    "acknowledged g = [example_event]" using example_delivery by blast
  have "ef_calls g \<noteq> ef_calls example_fence" "ef_calls example_fence = []"
    using g(2) by (auto simp: acknowledged_def example_fence_def)
  then obtain e where "ef_calls g = [\<lparr>sc_event = e, sc_acknowledged = True\<rparr>]"
    using emit_only_through_gates [OF example_fence_init rtranclp.rtrancl_refl g(1)] by auto
  with g show ?thesis by (auto simp: acknowledged_def)
qed

end
