(* ===== verification/Kernel_Canonical.thy ===== *)
theory Kernel_Canonical
  imports Canonical
begin

text \<open>
  The boundary primitives of \<^verbatim>\<open>kernel/canonical.py\<close>: SHA-256 URNs of canonical bytes and their
  verification, sets in canonical order, RFC 3339 UTC timestamps, and RFC 4122 identifiers.
  \<^verbatim>\<open>parse_i_json\<close> is defined where it is used, in \<open>Kernel_Context\<close>.
\<close>

section \<open>Digests\<close>

definition canonical_bytes :: "pyval \<Rightarrow> byte list res" where
  "canonical_bytes v = canonicalize v"

definition canonical_digest :: "pyval \<Rightarrow> pystr res" where
  "canonical_digest v =
     (case canonical_bytes v of Inl e \<Rightarrow> Inl e | Inr b \<Rightarrow> Inr (lit ''urn:sha256:'' @ sha256_hex b))"

definition is_lower_hex :: "nat \<Rightarrow> bool" where
  "is_lower_hex c \<longleftrightarrow> (48 \<le> c \<and> c \<le> 57) \<or> (97 \<le> c \<and> c \<le> 102)"

text \<open>\<^verbatim>\<open>DIGEST.fullmatch\<close>\<close>

definition is_digest :: "pystr \<Rightarrow> bool" where
  "is_digest s \<longleftrightarrow> take 11 s = lit ''urn:sha256:'' \<and> length s = 75 \<and> list_all is_lower_hex (drop 11 s)"

definition verify_canonical_digest :: "pyval \<Rightarrow> pyval \<Rightarrow> pystr res" where
  "verify_canonical_digest v claimed =
     (case claimed of
        PStr s \<Rightarrow>
          if \<not> is_digest s then Inl (DigestError ''claimed digest is not a canonical SHA-256 URN'')
          else (case canonical_digest v of Inl e \<Rightarrow> Inl e
                | Inr calculated \<Rightarrow> if calculated \<noteq> s then Inl (DigestError ''canonical digest mismatch'') else Inr calculated)
      | _ \<Rightarrow> Inl (DigestError ''claimed digest is not a canonical SHA-256 URN''))"

section \<open>Semantic sets\<close>

fun adjacent_equal :: "('a \<times> 'b) list \<Rightarrow> bool" where
  "adjacent_equal (x # y # xs) \<longleftrightarrow> fst x = fst y \<or> adjacent_equal (y # xs)"
| "adjacent_equal _ = False"

definition canonical_set :: "pyval list \<Rightarrow> pyval list res" where
  "canonical_set vs =
     (case sequence_res (map (\<lambda>v. case canonical_bytes v of Inl e \<Rightarrow> Inl e | Inr b \<Rightarrow> Inr (b, v)) vs) of
        Inl e \<Rightarrow> Inl e
      | Inr keyed0 \<Rightarrow>
         let keyed = sort_key fst keyed0 in
         if adjacent_equal keyed then Inl (CanonicalizationError ''duplicate canonical value in semantic set'')
         else Inr (map snd keyed))"

section \<open>UTC timestamps\<close>

definition is_digit :: "nat \<Rightarrow> bool" where
  "is_digit c \<longleftrightarrow> 48 \<le> c \<and> c \<le> 57"

definition digits_value :: "pystr \<Rightarrow> int" where
  "digits_value ds = foldl (\<lambda>a c. a * 10 + (int c - 48)) 0 ds"

text \<open>The pieces of \<^verbatim>\<open>UTC_TIMESTAMP\<close>: a fixed number of digits, a literal character, the optional fraction.\<close>

definition scan_digits :: "nat \<Rightarrow> pystr \<Rightarrow> (int \<times> pystr) option" where
  "scan_digits n s =
     (if length (take n s) = n \<and> list_all is_digit (take n s) then Some (digits_value (take n s), drop n s) else None)"

definition scan_char :: "nat \<Rightarrow> pystr \<Rightarrow> pystr option" where
  "scan_char c s = (case s of [] \<Rightarrow> None | x # xs \<Rightarrow> if x = c then Some xs else None)"

text \<open>The microseconds of a fraction of one to six digits, and the text after it.\<close>

definition scan_fraction :: "pystr \<Rightarrow> (int \<times> pystr) option" where
  "scan_fraction s =
     (case s of [] \<Rightarrow> Some (0, [])
      | x # xs \<Rightarrow>
          if x \<noteq> 46 then Some (0, s)
          else let ds = takeWhile is_digit xs in
               if 1 \<le> length ds \<and> length ds \<le> 6
               then Some (digits_value ds * 10 ^ (6 - length ds), dropWhile is_digit xs) else None)"

record timestamp_fields =
  tf_year :: int
  tf_month :: int
  tf_day :: int
  tf_hour :: int
  tf_minute :: int
  tf_second :: int
  tf_micros :: int

definition match_timestamp :: "pystr \<Rightarrow> timestamp_fields option" where
  "match_timestamp s0 =
     Option.bind (scan_digits 4 s0) (\<lambda>(y, s). Option.bind (scan_char 45 s) (\<lambda>s.
     Option.bind (scan_digits 2 s) (\<lambda>(mo, s). Option.bind (scan_char 45 s) (\<lambda>s.
     Option.bind (scan_digits 2 s) (\<lambda>(d, s). Option.bind (scan_char 84 s) (\<lambda>s.
     Option.bind (scan_digits 2 s) (\<lambda>(h, s). Option.bind (scan_char 58 s) (\<lambda>s.
     Option.bind (scan_digits 2 s) (\<lambda>(mi, s). Option.bind (scan_char 58 s) (\<lambda>s.
     Option.bind (scan_digits 2 s) (\<lambda>(se, s). Option.bind (scan_fraction s) (\<lambda>(us, s).
     if s = [90] then Some \<lparr>tf_year = y, tf_month = mo, tf_day = d, tf_hour = h, tf_minute = mi, tf_second = se,
        tf_micros = us\<rparr> else None))))))))))))"

text \<open>
  \<^verbatim>\<open>datetime.fromisoformat\<close> on a text of that form: the calendar and clock ranges, and the wall-clock time.
  Days before a year and before a month are counted as CPython's \<^verbatim>\<open>_ymd2ord\<close> does.
\<close>

definition is_leap :: "int \<Rightarrow> bool" where
  "is_leap y \<longleftrightarrow> y mod 4 = 0 \<and> (y mod 100 \<noteq> 0 \<or> y mod 400 = 0)"

definition days_in_month :: "int \<Rightarrow> int \<Rightarrow> int" where
  "days_in_month y m =
     (if m = 2 then (if is_leap y then 29 else 28) else if m \<in> {4, 6, 9, 11} then 30 else 31)"

definition days_of_ymd :: "int \<Rightarrow> int \<Rightarrow> int \<Rightarrow> int" where
  "days_of_ymd y m d =
     (y - 1) * 365 + (y - 1) div 4 - (y - 1) div 100 + (y - 1) div 400
       + int (days_before (is_leap y) ! nat (m - 1)) + d - 1"

definition datetime_of_fields :: "timestamp_fields \<Rightarrow> datetime option" where
  "datetime_of_fields f =
     (if 1 \<le> tf_year f \<and> 1 \<le> tf_month f \<and> tf_month f \<le> 12 \<and> 1 \<le> tf_day f
         \<and> tf_day f \<le> days_in_month (tf_year f) (tf_month f) \<and> tf_hour f \<le> 23 \<and> tf_minute f \<le> 59 \<and> tf_second f \<le> 59
      then Some \<lparr>dt_wall = (days_of_ymd (tf_year f) (tf_month f) (tf_day f) * 86400
                  + tf_hour f * 3600 + tf_minute f * 60 + tf_second f) * 1000000 + tf_micros f, dt_tz = Offset 0\<rparr>
      else None)"

definition parse_utc_timestamp :: "pyval \<Rightarrow> datetime res" where
  "parse_utc_timestamp v =
     (case v of
        PStr s \<Rightarrow>
          (case match_timestamp s of
             None \<Rightarrow> Inl (TimestampError ''timestamp must be canonical RFC 3339 UTC with Z suffix'')
           | Some f \<Rightarrow> (case datetime_of_fields f of None \<Rightarrow> Inl (TimestampError ''invalid UTC timestamp'') | Some d \<Rightarrow> Inr d))
      | _ \<Rightarrow> Inl (TimestampError ''timestamp must be canonical RFC 3339 UTC with Z suffix''))"

definition rstrip_zeros :: "pystr \<Rightarrow> pystr" where
  "rstrip_zeros s = rev (dropWhile (\<lambda>c. c = 48) (rev s))"

definition format_utc_timestamp :: "datetime \<Rightarrow> pystr res" where
  "format_utc_timestamp d =
     (if \<not> dt_aware d then Inl (TimestampError ''naive datetime is forbidden at a UTC boundary'')
      else let w = dt_instant d in
        if w < 0 \<or> max_wall \<le> w then Inl OverflowError
        else let us = w mod 1000000; s = w div 1000000 mod 86400; (y, m, dd) = ymd_of_days (w div 86400000000) in
          Inr (dec_pad 4 y @ [45] @ dec_pad 2 m @ [45] @ dec_pad 2 dd @ [84]
            @ dec_pad 2 (s div 3600) @ [58] @ dec_pad 2 (s div 60 mod 60) @ [58] @ dec_pad 2 (s mod 60)
            @ (if us = 0 then [] else rstrip_zeros ([46] @ dec_pad 6 us)) @ [90]))"

section \<open>Identifiers\<close>

text \<open>
  \<^verbatim>\<open>uuid.UUID(value)\<close> followed by the comparison with \<^verbatim>\<open>str(parsed)\<close> accepts exactly the lowercase hyphenated
  form; the value is the number its 32 digits denote and the variant is in the top bits of the seventeenth.
  The messages for a text that is no UUID and for one in another spelling are one message here.
\<close>

definition hex_value :: "nat \<Rightarrow> nat" where
  "hex_value c = (if c \<le> 57 then c - 48 else c - 87)"

definition uuid_hex :: "pystr \<Rightarrow> pystr" where
  "uuid_hex s = filter (\<lambda>c. c \<noteq> 45) s"

definition canonical_uuid_text :: "pystr \<Rightarrow> bool" where
  "canonical_uuid_text s \<longleftrightarrow> map length (split_at 45 s) = [8, 4, 4, 4, 12] \<and> list_all is_lower_hex (uuid_hex s)"

definition uuid_int :: "pystr \<Rightarrow> nat" where
  "uuid_int s = foldl (\<lambda>a c. a * 16 + hex_value c) 0 (uuid_hex s)"

definition uuid_variant_rfc4122 :: "pystr \<Rightarrow> bool" where
  "uuid_variant_rfc4122 s \<longleftrightarrow> hex_value (uuid_hex s ! 16) div 4 = 2"

definition validate_identifier :: "string \<Rightarrow> pyval \<Rightarrow> pystr res" where
  "validate_identifier fld v =
     (case v of
        PStr s \<Rightarrow>
          if s = [] then Inl (IdentifierError (fld @ '' must be a non-empty canonical UUID''))
          else if \<not> canonical_uuid_text s then Inl (IdentifierError (fld @ '' must be a canonical UUID''))
          else if uuid_int s = 0 \<or> \<not> uuid_variant_rfc4122 s
          then Inl (IdentifierError (fld @ '' must be a non-nil RFC 4122 UUID''))
          else Inr s
      | _ \<Rightarrow> Inl (IdentifierError (fld @ '' must be a non-empty canonical UUID'')))"

definition validate_correlation_id :: "pyval \<Rightarrow> pystr res" where
  "validate_correlation_id v = validate_identifier ''correlation_id'' v"

definition validate_causation_id :: "pyval \<Rightarrow> pystr res" where
  "validate_causation_id v = validate_identifier ''causation_id'' v"

record TraceIdentifiers =
  ti_correlation_id :: pyval
  ti_causation_id :: pyval

definition trace_post_init :: "TraceIdentifiers \<Rightarrow> TraceIdentifiers res" where
  "trace_post_init t =
     (case validate_correlation_id (ti_correlation_id t) of Inl e \<Rightarrow> Inl e
      | Inr _ \<Rightarrow>
         if ti_causation_id t = PNone then Inr t
         else case validate_causation_id (ti_causation_id t) of Inl e \<Rightarrow> Inl e | Inr _ \<Rightarrow> Inr t)"

definition trace_as_dict :: "TraceIdentifiers \<Rightarrow> pyval" where
  "trace_as_dict t = obj [(''correlation_id'', ti_correlation_id t), (''causation_id'', ti_causation_id t)]"

section \<open>The calendar\<close>

lemma last_filter_upt:
  assumes "f 0 \<le> (r :: int)" "0 < n" "m = last (filter (\<lambda>i. f i \<le> r) [0..<n])"
  shows "m < n" "f m \<le> r" "m + 1 < n \<Longrightarrow> r < f (m + 1)"
proof -
  let ?xs = "filter (\<lambda>i. f i \<le> r) [0..<n]"
  have ne: "?xs \<noteq> []" using assms(1,2) by (force simp: filter_empty_conv)
  then have "m \<in> set ?xs" unfolding assms(3) by (rule last_in_set)
  then show "m < n" "f m \<le> r" by auto
  have srt: "sorted ?xs" by (simp add: sorted_wrt_filter)
  have max: "i \<le> m" if "i \<in> set ?xs" for i
    using that srt ne unfolding assms(3) by (metis append_butlast_last_id in_set_butlastD order_refl snoc_eq_iff_butlast sorted_append
        list.set_intros(1) Un_iff set_append last_snoc empty_iff empty_set set_ConsD)
  show "r < f (m + 1)" if "m + 1 < n"
  proof (rule ccontr)
    assume "\<not> r < f (m + 1)"
    with that have "m + 1 \<in> set ?xs" by auto
    with max show False by fastforce
  qed
qed

lemma days_before_0: "days_before leap ! 0 = 0"
  by (simp add: days_before_def Let_def)

lemmas month_bounds = last_filter_upt [of "\<lambda>i. int (days_before leap ! i)" for leap, where n = 12]

lemma mod_eq_0_within: "1 \<le> x \<Longrightarrow> x \<le> k \<Longrightarrow> (q * k + x) mod k = 0 \<longleftrightarrow> x = (k :: int)"
  by (cases "x = k") simp_all

lemma div_within: "0 \<le> x \<Longrightarrow> x < k \<Longrightarrow> (q * k + x) div k = (q :: int)"
  by simp

lemma leap_year_parts:
  fixes a b c e :: int
  assumes "0 \<le> b" "b \<le> 3" "0 \<le> c" "c \<le> 24" "0 \<le> e" "e \<le> 3"
  shows "is_leap (400 * a + 100 * b + 4 * c + e + 1) \<longleftrightarrow> e = 3 \<and> (c \<noteq> 24 \<or> b = 3)"
proof -
  let ?y = "400 * a + 100 * b + 4 * c + e + 1"
  have split: "?y = (100 * a + 25 * b + c) * 4 + (e + 1)" "?y = (4 * a + b) * 100 + (4 * c + e + 1)"
    "?y = a * 400 + (100 * b + 4 * c + e + 1)" by simp_all
  have "?y mod 4 = 0 \<longleftrightarrow> e + 1 = 4" unfolding split(1) using assms by (intro mod_eq_0_within) auto
  moreover have "?y mod 100 = 0 \<longleftrightarrow> 4 * c + e + 1 = 100" unfolding split(2) using assms by (intro mod_eq_0_within) auto
  moreover have "?y mod 400 = 0 \<longleftrightarrow> 100 * b + 4 * c + e + 1 = 400" unfolding split(3) using assms by (intro mod_eq_0_within) auto
  ultimately show ?thesis unfolding is_leap_def using assms by auto
qed

lemma year_start_parts:
  fixes a b c e :: int
  assumes "0 \<le> b" "b \<le> 3" "0 \<le> c" "c \<le> 24" "0 \<le> e" "e \<le> 3"
  shows "(400 * a + 100 * b + 4 * c + e) div 4 = 100 * a + 25 * b + c"
    "(400 * a + 100 * b + 4 * c + e) div 100 = 4 * a + b" "(400 * a + 100 * b + 4 * c + e) div 400 = a"
proof -
  let ?y = "400 * a + 100 * b + 4 * c + e"
  have split: "?y = (100 * a + 25 * b + c) * 4 + e" "?y = (4 * a + b) * 100 + (4 * c + e)"
    "?y = a * 400 + (100 * b + 4 * c + e)" by simp_all
  show "?y div 4 = 100 * a + 25 * b + c" unfolding split(1) using assms by (intro div_within) auto
  show "?y div 100 = 4 * a + b" unfolding split(2) using assms by (intro div_within) auto
  show "?y div 400 = a" unfolding split(3) using assms by (intro div_within) auto
qed

text \<open>The division steps invert the count of days, and give a valid month and day.\<close>

lemma days_of_ymd_parts:
  fixes a b c e :: int
  assumes "0 \<le> b" "b \<le> 3" "0 \<le> c" "c \<le> 24" "0 \<le> e" "e \<le> 3"
  shows "days_of_ymd (400 * a + 100 * b + 4 * c + e + 1) m d =
    146097 * a + 36524 * b + 1461 * c + 365 * e + int (days_before (e = 3 \<and> (c \<noteq> 24 \<or> b = 3)) ! nat (m - 1)) + d - 1"
  using leap_year_parts [OF assms] year_start_parts [OF assms] by (simp add: days_of_ymd_def)

lemma month_day_valid:
  assumes "0 \<le> r" "r < 365 \<or> leap \<and> r = 365" "m = last (filter (\<lambda>i. int (days_before leap ! i) \<le> r) [0..<12])"
    and "is_leap y = leap"
  shows "r - int (days_before leap ! m) + 1 \<le> days_in_month y (int m + 1)"
proof -
  have "int (days_before leap ! 0) \<le> r" using assms(1) by (simp add: days_before_0)
  note b = month_bounds [OF this _ assms(3), simplified]
  have "m = 0 \<or> m = 1 \<or> m = 2 \<or> m = 3 \<or> m = 4 \<or> m = 5 \<or> m = 6 \<or> m = 7 \<or> m = 8 \<or> m = 9 \<or> m = 10 \<or> m = 11"
    using b(1) by arith
  then show ?thesis using b(2,3) assms(2,4)
    by (elim disjE) (auto simp: days_before_def Let_def days_in_month_def split: if_splits)
qed

text \<open>The last day of a leap cycle, which the division steps treat apart.\<close>

lemma days_of_ymd_leap_end:
  fixes a b c :: int
  assumes "0 \<le> b" "b \<le> 3" "0 \<le> c" "c \<le> 24" "c \<noteq> 24 \<or> b = 3"
  shows "days_of_ymd (400 * a + 100 * b + 4 * c + 4) 12 31 = 146097 * a + 36524 * b + 1461 * c + 1460"
  using days_of_ymd_parts [OF assms(1-4), of 3 a 12 31] assms(5)
  by (simp_all add: days_before_def Let_def days_in_month_def algebra_simps)

lemma ymd_parts:
  fixes n :: int
  assumes "0 \<le> n"
  obtains a b c e r where "n = 146097 * a + 36524 * b + 1461 * c + 365 * e + r" "0 \<le> a" "0 \<le> b" "0 \<le> c" "c \<le> 24" "0 \<le> e" "0 \<le> r"
    "r < 365" "b \<le> 4" "e \<le> 4" "b = 4 \<Longrightarrow> c = 0 \<and> e = 0 \<and> r = 0" "e = 4 \<Longrightarrow> r = 0 \<and> b \<le> 3 \<and> (c \<noteq> 24)"
    "ymd_of_days n = (if e = 4 \<or> b = 4 then (400 * a + 100 * b + 4 * c + e, 12, 31)
       else let leap = (e = 3 \<and> (c \<noteq> 24 \<or> b = 3)); m = last (filter (\<lambda>i. int (days_before leap ! i) \<le> r) [0..<12])
            in (400 * a + 100 * b + 4 * c + e + 1, int m + 1, r - int (days_before leap ! m) + 1))"
proof -
  let ?n = "n mod 146097" let ?n' = "?n mod 36524" let ?n'' = "?n' mod 1461"
  have n: "0 \<le> ?n" "?n < 146097" and n': "0 \<le> ?n'" "?n' < 36524" and n'': "0 \<le> ?n''" "?n'' < 1461" by simp_all
  define a where "a = n div 146097"
  define b where "b = ?n div 36524"
  define c where "c = ?n' div 1461"
  define e where "e = ?n'' div 365"
  define r where "r = ?n'' mod 365"
  have d: "n = 146097 * a + ?n" "?n = 36524 * b + ?n'" "?n' = 1461 * c + ?n''" "?n'' = 365 * e + r"
    unfolding a_def b_def c_def e_def r_def by simp_all
  have r: "0 \<le> r" "r < 365" unfolding r_def by simp_all
  have pos: "0 \<le> a" "0 \<le> b" "0 \<le> c" "0 \<le> e"
    unfolding a_def b_def c_def e_def using assms n n' n'' by (simp_all add: pos_imp_zdiv_nonneg_iff)
  have up: "b \<le> 4" "c \<le> 24" "e \<le> 4" using d n n' n'' r pos by linarith+
  have b4: "c = 0 \<and> e = 0 \<and> r = 0" if "b = 4" using that d n n' n'' r pos by linarith
  have e4: "r = 0 \<and> b \<le> 3 \<and> c \<noteq> 24" if "e = 4"
  proof -
    have "b \<noteq> 4" using b4 that by auto
    moreover have "c \<noteq> 24" "r = 0" using that d n' n'' r pos by linarith+
    ultimately show ?thesis using up by simp
  qed
  have sum: "n = 146097 * a + 36524 * b + 1461 * c + 365 * e + r" using d by linarith
  have "ymd_of_days n = (if e = 4 \<or> b = 4 then (400 * a + 100 * b + 4 * c + e, 12, 31)
       else let leap = (e = 3 \<and> (c \<noteq> 24 \<or> b = 3)); m = last (filter (\<lambda>i. int (days_before leap ! i) \<le> r) [0..<12])
            in (400 * a + 100 * b + 4 * c + e + 1, int m + 1, r - int (days_before leap ! m) + 1))"
    unfolding ymd_of_days_def Let_def a_def b_def c_def e_def r_def by (simp add: algebra_simps)
  from that [OF sum pos(1-3) up(2) pos(4) r up(1,3) b4 e4 this] show ?thesis by blast
qed

lemma ymd_of_days_inverse:
  assumes "0 \<le> n" and ymd: "ymd_of_days n = (y, m, d)"
  shows "days_of_ymd y m d = n" "1 \<le> m" "m \<le> 12" "1 \<le> d" "d \<le> days_in_month y m" "1 \<le> y" "n < 3652059 \<Longrightarrow> y \<le> 9999"
proof -
  have "days_of_ymd y m d = n \<and> 1 \<le> m \<and> m \<le> 12 \<and> 1 \<le> d \<and> d \<le> days_in_month y m \<and> 1 \<le> y \<and> (n < 3652059 \<longrightarrow> y \<le> 9999)"
    using assms(1)
  proof (cases rule: ymd_parts)
    case (1 a b c e r)
    note pos = 1(2-8) and up = 1(9,10) and form = 1(13)
    consider (cycle) "b = 4" | (leap_end) "e = 4" "b \<noteq> 4" | (day) "b \<noteq> 4" "e \<noteq> 4" by blast
    then show ?thesis
    proof cases
      case cycle
      with 1(1,11) ymd form have "n = 146097 * a + 146096" "y = 400 * a + 400" "m = 12" "d = 31" by auto
      then show ?thesis using days_of_ymd_leap_end [of 3 24 a] pos by (simp add: days_in_month_def algebra_simps)
    next
      case leap_end
      with 1(1,12) ymd form have "n = 146097 * a + 36524 * b + 1461 * c + 1460" "y = 400 * a + 100 * b + 4 * c + 4" "m = 12" "d = 31"
        "b \<le> 3" "c \<noteq> 24" by auto
      then show ?thesis using days_of_ymd_leap_end [of b c a] pos by (simp add: days_in_month_def)
    next
      case day
      with up have be: "b \<le> 3" "e \<le> 3" by auto
      let ?leap = "e = 3 \<and> (c \<noteq> 24 \<or> b = 3)"
      let ?m = "last (filter (\<lambda>i. int (days_before ?leap ! i) \<le> r) [0..<12])"
      have ymd': "y = 400 * a + 100 * b + 4 * c + e + 1" "m = int ?m + 1" "d = r - int (days_before ?leap ! ?m) + 1"
        using day ymd form by (auto simp: Let_def)
      have leap: "is_leap y = ?leap" unfolding ymd'(1) using pos be by (intro leap_year_parts)
      have "int (days_before ?leap ! 0) \<le> r" using pos by (simp add: days_before_0)
      note bounds = month_bounds [OF this _ refl, simplified]
      have "d \<le> days_in_month y m" unfolding ymd'(2,3) using pos leap by (intro month_day_valid) auto
      moreover have "days_of_ymd y m d = n"
        unfolding ymd'(1) using days_of_ymd_parts [of b c e a m d] pos be ymd'(2,3) 1(1) by simp
      moreover have "n < 3652059 \<longrightarrow> y \<le> 9999" using 1(1) ymd'(1) pos be by linarith
      ultimately show ?thesis using bounds ymd' pos by simp
    qed
  qed
  then show "days_of_ymd y m d = n" "1 \<le> m" "m \<le> 12" "1 \<le> d" "d \<le> days_in_month y m" "1 \<le> y" "n < 3652059 \<Longrightarrow> y \<le> 9999"
    by blast+
qed

section \<open>Reading back what was printed\<close>

lemma digits_value_snoc: "digits_value (ds @ [c]) = digits_value ds * 10 + (int c - 48)"
  by (simp add: digits_value_def)

lemma digits_value_zeros: "digits_value (replicate k 48 @ ds) = digits_value ds"
  by (induction k) (simp_all add: digits_value_def)

lemma dec_nat_value: "digits_value (dec_nat n) = int n" "list_all is_digit (dec_nat n)"
proof (induction n rule: dec_nat.induct)
  case (1 n)
  have "n mod 10 < 10" by simp
  then have digit: "is_digit (48 + n mod 10)" unfolding is_digit_def by linarith
  { case 1
    show ?case
      using "1.IH"(1) by (subst dec_nat.simps) (auto simp: digits_value_snoc digits_value_def zdiv_int zmod_int)
  next
    case 2
    show ?case
      using "1.IH"(2) digit by (subst dec_nat.simps) auto }
qed

lemma dec_nat_length: "n < 10 ^ k \<Longrightarrow> 0 < k \<Longrightarrow> length (dec_nat n) \<le> k"
proof (induction n arbitrary: k rule: dec_nat.induct)
  case (1 n)
  show ?case
  proof (cases "n < 10")
    case True
    with 1 show ?thesis by (simp add: dec_nat.simps)
  next
    case False
    obtain k' where k: "k = Suc k'" using 1 by (cases k) auto
    with False 1 have "0 < k'" by (cases k') auto
    moreover have "n div 10 < 10 ^ k'" using 1 k by (simp add: less_mult_imp_div_less mult.commute)
    ultimately have "length (dec_nat (n div 10)) \<le> k'" using "1.IH" False by blast
    with False k show ?thesis by (subst dec_nat.simps) simp
  qed
qed

lemma dec_pad_props:
  assumes "0 \<le> i" "i < 10 ^ w" "0 < w"
  shows "length (dec_pad w i) = w" "list_all is_digit (dec_pad w i)" "digits_value (dec_pad w i) = i"
proof -
  have "nat i < 10 ^ w" using assms by (simp add: nat_less_iff)
  then show "length (dec_pad w i) = w" using dec_nat_length assms(3) by (simp add: dec_pad_def pad_left_def)
  show "list_all is_digit (dec_pad w i)" using dec_nat_value(2) by (auto simp: dec_pad_def pad_left_def list_all_iff is_digit_def)
  show "digits_value (dec_pad w i) = i" using assms by (simp add: dec_pad_def pad_left_def digits_value_zeros dec_nat_value)
qed

lemma scan_dec_pad: "0 \<le> i \<Longrightarrow> i < 10 ^ w \<Longrightarrow> 0 < w \<Longrightarrow> scan_digits w (dec_pad w i @ s) = Some (i, s)"
  by (simp add: scan_digits_def dec_pad_props)

lemma scan_char_Cons [simp]: "scan_char c (c # s) = Some s"
  by (simp add: scan_char_def)

text \<open>The fraction: what is left after the trailing zeros are gone denotes the same microseconds.\<close>

lemma rstrip_zeros_props:
  assumes "list_all is_digit ds"
  shows "rstrip_zeros ds @ replicate (length ds - length (rstrip_zeros ds)) 48 = ds" "length (rstrip_zeros ds) \<le> length ds"
proof -
  define z where "z = takeWhile (\<lambda>c. c = 48) (rev ds)"
  have "\<forall>x \<in> set z. x = 48" unfolding z_def by (auto dest: set_takeWhileD)
  then have z: "replicate (length z) 48 = rev z" by (metis length_rev replicate_length_same set_rev)
  have "rev (takeWhile (\<lambda>c. c = 48) (rev ds) @ dropWhile (\<lambda>c. c = 48) (rev ds)) = ds"
    by (simp only: takeWhile_dropWhile_id rev_rev_ident)
  then have split: "rstrip_zeros ds @ rev z = ds" unfolding rstrip_zeros_def z_def by (simp only: rev_append)
  have len: "length ds = length (rstrip_zeros ds) + length z" by (subst split [symmetric]) simp
  show "rstrip_zeros ds @ replicate (length ds - length (rstrip_zeros ds)) 48 = ds"
    using split z len by simp
  show "length (rstrip_zeros ds) \<le> length ds" using len by simp
qed

lemma digits_value_scale: "digits_value (ds @ replicate k 48) = digits_value ds * 10 ^ k"
proof (induction k)
  case (Suc k)
  have "ds @ replicate (Suc k) 48 = (ds @ replicate k 48) @ [48]" by (simp add: replicate_append_same [symmetric])
  then have "digits_value (ds @ replicate (Suc k) 48) = digits_value ((ds @ replicate k 48) @ [48])" by (simp only:)
  also have "\<dots> = digits_value ds * 10 ^ Suc k" by (simp only: digits_value_snoc Suc) simp
  finally show ?case .
qed simp

lemma scan_fraction_text:
  assumes "0 < us" "us < 1000000"
  shows "scan_fraction (rstrip_zeros ([46] @ dec_pad 6 us) @ [90]) = Some (us, [90])"
proof -
  let ?ds = "dec_pad 6 us"
  have ds: "length ?ds = 6" "list_all is_digit ?ds" "digits_value ?ds = us" using assms by (simp_all add: dec_pad_props)
  let ?t = "rstrip_zeros ?ds"
  note p = rstrip_zeros_props [OF ds(2)]
  have val: "digits_value ?t * 10 ^ (6 - length ?t) = us" using digits_value_scale [of ?t "6 - length ?t"] p(1) ds by simp
  have ne: "?t \<noteq> []" using val assms(1) by (auto simp: digits_value_def)
  then have dot: "rstrip_zeros ([46] @ ?ds) = 46 # ?t"
    by (simp add: rstrip_zeros_def dropWhile_append3)
  have dig: "list_all is_digit ?t" using ds(2) p(1) by (metis list_all_append)
  then have tw: "takeWhile is_digit (?t @ [90]) = ?t" "dropWhile is_digit (?t @ [90]) = [90]"
    by (simp_all add: list_all_iff takeWhile_append dropWhile_append2 is_digit_def)
  have "1 \<le> length ?t" using ne by (cases ?t) auto
  with p(2) ds(1) val tw show ?thesis unfolding dot by (simp add: scan_fraction_def Let_def)
qed

lemma clock_parts:
  fixes w :: int
  assumes "0 \<le> w"
  shows "((w div 86400000000) * 86400 + (w div 1000000 mod 86400) div 3600 * 3600
      + (w div 1000000 mod 86400) div 60 mod 60 * 60 + (w div 1000000 mod 86400) mod 60) * 1000000 + w mod 1000000 = w"
proof -
  define s where "s = w div 1000000"
  have day: "w div 86400000000 = s div 86400" unfolding s_def by (simp add: zdiv_zmult2_eq [symmetric])
  have "s div 86400 * 86400 + s mod 86400 = s" by simp
  moreover have "(s mod 86400) div 3600 * 3600 + (s mod 86400) div 60 mod 60 * 60 + (s mod 86400) mod 60 = s mod 86400"
  proof -
    define t where "t = s mod 86400"
    have "t div 3600 = t div 60 div 60" by (simp add: zdiv_zmult2_eq [symmetric])
    then have "t div 3600 * 3600 + t div 60 mod 60 * 60 = t div 60 * 60" using div_mult_mod_eq [of "t div 60" 60] by linarith
    then show ?thesis unfolding t_def [symmetric] by simp
  qed
  ultimately have "s div 86400 * 86400 + (s mod 86400) div 3600 * 3600 + (s mod 86400) div 60 mod 60 * 60 + (s mod 86400) mod 60 = s"
    by linarith
  moreover have "s * 1000000 + w mod 1000000 = w" unfolding s_def by simp
  ultimately show ?thesis unfolding day s_def [symmetric] by presburger
qed

lemma match_timestamp_text:
  assumes "scan_fraction (f @ [90]) = Some (us, [90])"
    and "0 \<le> y" "y < 10000" "0 \<le> m" "m < 100" "0 \<le> d" "d < 100" "0 \<le> h" "h < 100" "0 \<le> mi" "mi < 100" "0 \<le> se" "se < 100"
  shows "match_timestamp (dec_pad 4 y @ [45] @ dec_pad 2 m @ [45] @ dec_pad 2 d @ [84] @ dec_pad 2 h @ [58]
    @ dec_pad 2 mi @ [58] @ dec_pad 2 se @ f @ [90]) = Some \<lparr>tf_year = y, tf_month = m, tf_day = d, tf_hour = h,
      tf_minute = mi, tf_second = se, tf_micros = us\<rparr>"
  using assms by (simp add: match_timestamp_def scan_dec_pad)

lemma format_parse_utc:
  assumes "dt_aware d" and "0 \<le> dt_instant d" and "dt_instant d < max_wall"
  shows "\<exists>t. format_utc_timestamp d = Inr t \<and> parse_utc_timestamp (PStr t) = Inr \<lparr>dt_wall = dt_instant d, dt_tz = Offset 0\<rparr>"
proof -
  define w where "w = dt_instant d"
  define s where "s = w div 1000000 mod 86400"
  have w: "0 \<le> w" "w < 3652059 * 86400000000" using assms by (simp_all add: w_def max_wall_def)
  obtain y m dd where ymd: "ymd_of_days (w div 86400000000) = (y, m, dd)" by (cases "ymd_of_days (w div 86400000000)")
  have "0 \<le> w div 86400000000" "w div 86400000000 < 3652059" using w by (simp_all add: pos_imp_zdiv_nonneg_iff div_less_iff_less_mult)
  note cal = ymd_of_days_inverse [OF this(1) ymd] and year = ymd_of_days_inverse(7) [OF this(1) ymd this(2)]
  have dd: "dd \<le> 31" using cal(5) by (auto simp: days_in_month_def split: if_splits)
  have s: "0 \<le> s" "s < 86400" by (simp_all add: s_def)
  have clock: "0 \<le> s div 3600" "s div 3600 \<le> 23" "0 \<le> s div 60 mod 60" "s div 60 mod 60 \<le> 59" "0 \<le> s mod 60" "s mod 60 \<le> 59"
    using s by (auto simp: pos_imp_zdiv_nonneg_iff)
  let ?f = "if w mod 1000000 = 0 then [] else rstrip_zeros ([46] @ dec_pad 6 (w mod 1000000))"
  let ?t = "dec_pad 4 y @ [45] @ dec_pad 2 m @ [45] @ dec_pad 2 dd @ [84] @ dec_pad 2 (s div 3600) @ [58]
    @ dec_pad 2 (s div 60 mod 60) @ [58] @ dec_pad 2 (s mod 60) @ ?f @ [90]"
  have fraction: "scan_fraction (?f @ [90]) = Some (w mod 1000000, [90])"
  proof (cases "w mod 1000000 = 0")
    case False
    then have "0 < w mod 1000000" by (simp add: order_less_le)
    with False show ?thesis using scan_fraction_text [of "w mod 1000000"] by simp
  qed (simp add: scan_fraction_def)
  have "format_utc_timestamp d = Inr ?t"
    using assms w ymd by (simp add: format_utc_timestamp_def w_def [symmetric] s_def [symmetric] max_wall_def Let_def)
  moreover have "match_timestamp ?t = Some \<lparr>tf_year = y, tf_month = m, tf_day = dd, tf_hour = s div 3600,
      tf_minute = s div 60 mod 60, tf_second = s mod 60, tf_micros = w mod 1000000\<rparr>"
  proof (rule match_timestamp_text [OF fraction])
    show "0 \<le> y" "y < 10000" "0 \<le> m" "m < 100" "0 \<le> dd" "dd < 100" using cal(2-4,6) year dd by linarith+
    show "0 \<le> s div 3600" "s div 3600 < 100" "0 \<le> s div 60 mod 60" "s div 60 mod 60 < 100" "0 \<le> s mod 60" "s mod 60 < 100"
      using clock by linarith+
  qed
  moreover have wall: "(days_of_ymd y m dd * 86400 + s div 3600 * 3600 + s div 60 mod 60 * 60 + s mod 60) * 1000000 + w mod 1000000 = w"
    unfolding cal(1) s_def by (rule clock_parts [OF w(1)])
  have "datetime_of_fields \<lparr>tf_year = y, tf_month = m, tf_day = dd, tf_hour = s div 3600,
      tf_minute = s div 60 mod 60, tf_second = s mod 60, tf_micros = w mod 1000000\<rparr> = Some \<lparr>dt_wall = w, dt_tz = Offset 0\<rparr>"
    unfolding datetime_of_fields_def timestamp_fields.select_convs wall using cal(2-6) clock by (simp only: simp_thms if_True)
  ultimately show ?thesis
    unfolding w_def [symmetric] by (intro exI [of _ ?t]) (simp only: parse_utc_timestamp_def pyval.case option.case simp_thms)
qed

text \<open>
  C36 [timestamp_roundtrip]: printing and reading a UTC timestamp are inverse.  Whatever \<^verbatim>\<open>format_utc_timestamp\<close>
  prints, \<^verbatim>\<open>parse_utc_timestamp\<close> accepts and reads as the same instant in UTC, to the microsecond; and
  every aware datetime whose UTC instant lies in years 1 to 9999 can be printed.
\<close>

theorem timestamp_roundtrip:
  assumes "dt_aware d" and "0 \<le> dt_instant d" and "dt_instant d < max_wall"
  shows "\<exists>t. format_utc_timestamp d = Inr t \<and> parse_utc_timestamp (PStr t) = Inr \<lparr>dt_wall = dt_instant d, dt_tz = Offset 0\<rparr>"
  by (rule format_parse_utc [OF assms])

theorem timestamp_roundtrip_witness:
  "\<exists>t. format_utc_timestamp (utc_at 1500000) = Inr t \<and> parse_utc_timestamp (PStr t) = Inr (utc_at 1500000)"
proof -
  have "dt_aware (utc_at 1500000)" "0 \<le> dt_instant (utc_at 1500000)" "dt_instant (utc_at 1500000) < max_wall"
    by (simp_all add: max_wall_def)
  from timestamp_roundtrip [OF this] show ?thesis by (simp add: utc_at_def dt_instant_def)
qed

section \<open>Semantic sets and digests\<close>

lemma canonical_digest_iff: "canonical_digest v = Inr d \<longleftrightarrow> (\<exists>h. canonical_sha256 v = Inr h \<and> d = lit ''urn:sha256:'' @ h)"
  by (auto simp: canonical_digest_def canonical_bytes_def canonical_sha256_def split: sum.splits)

lemma canonical_digest_i_json: "i_json v \<Longrightarrow> canonical_digest v = Inr (lit ''urn:sha256:'' @ digest_of v)"
  by (simp add: canonical_digest_iff canonical_sha256_i_json)

lemma verify_canonical_digest_iff:
  "verify_canonical_digest v claimed = Inr d \<longleftrightarrow> claimed = PStr d \<and> is_digest d \<and> canonical_digest v = Inr d"
  by (auto simp: verify_canonical_digest_def split: pyval.splits if_splits sum.splits)

lemma adjacent_equal_sorted:
  "sorted (map fst (xs :: ('a :: linorder \<times> 'b) list)) \<Longrightarrow> adjacent_equal xs \<longleftrightarrow> \<not> distinct (map fst xs)"
proof (induction xs rule: adjacent_equal.induct)
  case (1 x y xs)
  then have "x \<noteq> y \<longrightarrow> fst x \<noteq> fst y \<longrightarrow> (\<forall>z \<in> set xs. fst x < fst z)" by (auto simp: order_less_le)
  with 1 show ?case by fastforce
qed auto

text \<open>Two objects with the same distinct member names and the same JSON value agree member by member.\<close>

lemma assoc_list_eqI:
  assumes "set xs = set ys" "map fst xs = map fst ys" "distinct (map fst xs)"
  shows "xs = ys"
proof -
  have "map_of xs = map_of ys" using assms by (intro map_of_eqI) (auto simp: map_of_inject_set)
  moreover have "map snd l = map (the \<circ> map_of l) (map fst l)" if "distinct (map fst l)" for l :: "('a \<times> 'b) list"
    using that by (auto simp: map_of_eq_Some_iff)
  ultimately have "map snd xs = map snd ys" using assms(2,3) by metis
  with assms(2) show ?thesis by (metis zip_map_fst_snd)
qed

lemma json_view_obj_eq:
  assumes "json_view (obj kvs) = json_view (obj kvs')" and "map fst kvs = map fst kvs'" and "distinct (map fst kvs)"
  shows "map (json_view \<circ> snd) kvs = map (json_view \<circ> snd) kvs'"
proof -
  let ?e = "map (\<lambda>x. (lit (fst x), json_view (snd x)))"
  have view: "json_view (obj l) = JObj (sort_key (utf16_key \<circ> fst) (?e l))" for l
    by (simp add: comp_def case_prod_beta)
  have "sort_key (utf16_key \<circ> fst) (?e kvs) = sort_key (utf16_key \<circ> fst) (?e kvs')"
    using assms(1) unfolding view by (simp only: jv.inject)
  from arg_cong [OF this, of mset] have "mset (?e kvs) = mset (?e kvs')" by (simp only: mset_sort)
  then have "set (?e kvs) = set (?e kvs')" by (rule mset_eq_setD)
  moreover have "map fst (?e kvs) = map fst (?e kvs')" using arg_cong [OF assms(2), of "map lit"] by (simp add: comp_def)
  moreover have "distinct (map fst (?e kvs))" using assms(3) by (auto simp: distinct_map inj_on_def comp_def)
  ultimately have "?e kvs = ?e kvs'" by (rule assoc_list_eqI)
  from arg_cong [OF this, of "map snd"] show ?thesis by (simp add: comp_def)
qed

text \<open>The canonical bytes of a value that has some.\<close>

definition bytes_of :: "pyval \<Rightarrow> byte list" where
  "bytes_of v = utf8 (render (json_view v))"

lemma canonical_bytes_i_json: "canonical_bytes v = (if i_json v then Inr (bytes_of v) else canonicalize v)"
  by (simp add: canonical_bytes_def canonicalize_i_json bytes_of_def)

lemma canonical_set_i_json:
  assumes "list_all i_json vs"
  shows "canonical_set vs =
    (if distinct (map bytes_of vs) then Inr (sort_key bytes_of vs)
     else Inl (CanonicalizationError ''duplicate canonical value in semantic set''))"
proof -
  let ?k = "map (\<lambda>v. (bytes_of v, v)) vs"
  have seq: "sequence_res (map (\<lambda>v. case canonical_bytes v of Inl e \<Rightarrow> Inl e | Inr b \<Rightarrow> Inr (b, v)) vs) = Inr ?k"
    using assms by (induction vs) (auto simp: canonical_bytes_i_json)
  have sort: "sort_key fst ?k = map (\<lambda>v. (bytes_of v, v)) (sort_key bytes_of vs)"
    by (induction vs) (simp_all add: insort_key_map [of fst "\<lambda>v. (bytes_of v, v)", symmetric, simplified])
  have "adjacent_equal (sort_key fst ?k) \<longleftrightarrow> \<not> distinct (map fst (sort_key fst ?k))"
    by (intro adjacent_equal_sorted) simp
  also have "\<dots> \<longleftrightarrow> \<not> distinct (map bytes_of vs)" by (simp add: sort comp_def distinct_map)
  finally show ?thesis using seq sort by (simp add: canonical_set_def Let_def comp_def)
qed

text \<open>
  \<^verbatim>\<open>canonical_set\<close> gives a set one form.  Two lists with the same I-JSON values
  in any order have the same result; it is refused exactly when two values have the same canonical
  bytes, and otherwise lists exactly the given values in strictly increasing canonical bytes.
\<close>

theorem canonical_set_order_free:
  assumes "mset vs = mset ws" and "list_all i_json vs"
  shows "canonical_set vs = canonical_set ws
    \<and> (is_ok (canonical_set vs) \<longleftrightarrow> distinct (map canonical_bytes vs))
    \<and> (\<forall>xs. canonical_set vs = Inr xs \<longrightarrow> mset xs = mset vs
         \<and> sorted_wrt (\<lambda>x y. \<exists>a b. canonical_bytes x = Inr a \<and> canonical_bytes y = Inr b \<and> a < b) xs)"
proof -
  have ws: "list_all i_json ws" using assms by (metis list_all_iff mset_eq_setD)
  have perm: "mset (map bytes_of vs) = mset (map bytes_of ws)" using assms(1) by simp
  have distinct_iff: "distinct (map bytes_of vs) \<longleftrightarrow> distinct (map bytes_of ws)" by (rule mset_eq_imp_distinct_iff [OF perm])
  have srt: "sort_key bytes_of vs = sort_key bytes_of ws" if "distinct (map bytes_of vs)"
    using that assms(1) by (intro sort_key_inj_key_eq) (simp_all add: distinct_map)
  have bytes: "distinct (map canonical_bytes vs) \<longleftrightarrow> distinct (map bytes_of vs)"
    using assms(2) by (induction vs) (auto simp: canonical_bytes_i_json list_all_iff image_iff)
  have strict: "sorted_wrt (\<lambda>x y. \<exists>a b. canonical_bytes x = Inr a \<and> canonical_bytes y = Inr b \<and> a < b) (sort_key bytes_of vs)"
    if "distinct (map bytes_of vs)"
  proof -
    have "distinct (map bytes_of (sort_key bytes_of vs))" "sorted (map bytes_of (sort_key bytes_of vs))"
      using that by (simp_all add: distinct_map)
    then have "sorted_wrt (<) (map bytes_of (sort_key bytes_of vs))" by (simp add: strict_sorted_iff)
    then have "sorted_wrt (\<lambda>x y. bytes_of x < bytes_of y) (sort_key bytes_of vs)" by (simp add: sorted_wrt_map)
    then show ?thesis
      by (rule sorted_wrt_mono_rel [rotated]) (use assms(2) in \<open>simp add: list_all_iff canonical_bytes_i_json\<close>)
  qed
  show ?thesis
    using canonical_set_i_json [OF assms(2)] canonical_set_i_json [OF ws] distinct_iff srt bytes strict assms(1) by auto
qed

theorem canonical_set_order_free_witness:
  "canonical_set [PStr (lit ''b''), PStr (lit ''a'')] = canonical_set [PStr (lit ''a''), PStr (lit ''b'')]"
  using canonical_set_order_free [of "[PStr (lit ''b''), PStr (lit ''a'')]" "[PStr (lit ''a''), PStr (lit ''b'')]"] by simp

end
