(* ===== verification/C6_HumanGate.thy ===== *)
theory C6_HumanGate
  imports C2_Identity Kernel_Canonical
begin

text \<open>
  The human gate, \<^verbatim>\<open>c6/human_gate.py\<close>: who counts as an active human and with which roles, the approval
  policy, signatures, and the validation that needs a quorum of distinct people and a different person for
  every required role.  The role assignment is the augmenting-path search of the code; it is shown
  to end and to find an assignment whenever one exists.
\<close>

section \<open>Records\<close>

record Approval =
  ap_action_id :: pystr
  ap_approver :: pystr
  ap_approved :: bool
  ap_approved_at :: datetime

definition approval_post_init :: "Approval \<Rightarrow> Approval res" where
  "approval_post_init a =
     (case require_aware ''approved_at'' (ap_approved_at a) of Inl e \<Rightarrow> Inl e
      | Inr _ \<Rightarrow> if ap_approver a = [] then Inl (ValueError ''an Approval requires an approver'') else Inr a)"

record ApprovalPolicy =
  po_required_roles :: "pystr set"
  po_minimum_signatories :: int
  po_ttl :: int
  po_excluded_principal_id :: "pystr option"

definition policy_post_init :: "ApprovalPolicy \<Rightarrow> ApprovalPolicy res" where
  "policy_post_init p =
     (if po_minimum_signatories p < 1 then Inl (ValueError ''minimum_signatories must be at least one'')
      else if po_ttl p \<le> 0 then Inl (ValueError ''ttl must be a positive duration'')
      else Inr p)"

record GateSignature =
  gs_action_id :: pystr
  gs_principal_id :: pystr
  gs_role :: pystr
  gs_scope :: pystr
  gs_signed_at :: datetime

definition signature_post_init :: "GateSignature \<Rightarrow> GateSignature res" where
  "signature_post_init s =
     (case require_aware ''signed_at'' (gs_signed_at s) of Inl e \<Rightarrow> Inl e
      | Inr _ \<Rightarrow>
         if gs_action_id s = [] then Inl (ValueError ''a GateSignature requires an action_id'')
         else if gs_principal_id s = [] then Inl (ValueError ''a GateSignature requires a principal_id'')
         else if gs_role s = [] then Inl (ValueError ''a GateSignature requires a role'')
         else if gs_scope s = [] then Inl (ValueError ''a GateSignature requires a scope'')
         else Inr s)"

definition integrity_view :: "GateSignature \<Rightarrow> pyval" where
  "integrity_view s = obj [(''action_id'', PStr (gs_action_id s)), (''principal_id'', PStr (gs_principal_id s)),
     (''role'', PStr (gs_role s)), (''scope'', PStr (gs_scope s)), (''signed_at'', PStr (isoformat (gs_signed_at s)))]"

definition integrity_digest :: "GateSignature \<Rightarrow> pystr res" where
  "integrity_digest s = canonical_digest (integrity_view s)"

section \<open>Active humans and their roles\<close>

text \<open>The full match of \<^verbatim>\<open>[A-Z][A-Z0-9_]*(?::\S+)?\<close>.\<close>

definition is_upper :: "nat \<Rightarrow> bool" where
  "is_upper c \<longleftrightarrow> 65 \<le> c \<and> c \<le> 90"

definition is_role_char :: "nat \<Rightarrow> bool" where
  "is_role_char c \<longleftrightarrow> is_upper c \<or> (48 \<le> c \<and> c \<le> 57) \<or> c = 95"

definition role_token :: "pystr \<Rightarrow> bool" where
  "role_token t =
     (case t of [] \<Rightarrow> False
      | c # cs \<Rightarrow> is_upper c \<and>
         (case dropWhile is_role_char cs of [] \<Rightarrow> True
          | d # ds \<Rightarrow> d = 58 \<and> ds \<noteq> [] \<and> list_all (\<lambda>x. \<not> is_space x) ds))"

definition active_human_roles :: "IdentityRecord option \<Rightarrow> pystr set option" where
  "active_human_roles r =
     (case r of None \<Rightarrow> None
      | Some rec \<Rightarrow>
         if dict_get (id_attributes rec) (lit ''principal_kind'') \<noteq> Some (PStr (lit ''HUMAN''))
            \<or> dict_get (id_attributes rec) (lit ''status'') \<noteq> Some (PStr (lit ''ACTIVE'')) then None
         else (case dict_get (id_attributes rec) (lit ''roles'') of
                 Some (PStr raw) \<Rightarrow>
                   let tokens = (if raw = [] then [] else split_at 32 raw) in
                   if tokens \<noteq> sorted_list_of_set (set tokens) \<or> list_ex (\<lambda>t. \<not> role_token t) tokens then None
                   else Some (set tokens)
               | _ \<Rightarrow> None))"

section \<open>The validation\<close>

text \<open>
  The arguments of \<^verbatim>\<open>validate\<close> but for the control check; the trusted clock's reading and the registry are
  what a call sees at that moment.
\<close>

record GateRequest =
  gr_action_id :: pystr
  gr_proposer_id :: pystr
  gr_policy :: ApprovalPolicy
  gr_signatures :: "GateSignature list"
  gr_scope :: pystr

record GateWorld =
  gw_identities :: IdentityRegistry
  gw_now :: datetime

definition excluded_principals :: "GateRequest \<Rightarrow> pystr set" where
  "excluded_principals q = insert (gr_proposer_id q)
     (case po_excluded_principal_id (gr_policy q) of None \<Rightarrow> {} | Some p \<Rightarrow> if p = [] then {} else {p})"

definition counts :: "GateWorld \<Rightarrow> GateRequest \<Rightarrow> GateSignature \<Rightarrow> bool" where
  "counts w q s \<longleftrightarrow>
     gs_action_id s = gr_action_id q \<and> gs_principal_id s \<notin> excluded_principals q
     \<and> (case active_human_roles (registry_get (gs_principal_id s) (gw_identities w)) of None \<Rightarrow> False
        | Some roles \<Rightarrow> gs_role s \<in> roles)
     \<and> gs_scope s = gr_scope q
     \<and> 0 \<le> dt_instant (gw_now w) - dt_instant (gs_signed_at s)
     \<and> dt_instant (gw_now w) - dt_instant (gs_signed_at s) < po_ttl (gr_policy q)"

text \<open>The loop over the signatures: the valid principals, and for every required role its candidates.\<close>

type_synonym candidate_dict = "(pystr, pystr set) dict"

definition role_candidates :: "candidate_dict \<Rightarrow> pystr \<Rightarrow> pystr set" where
  "role_candidates rc role = (case dict_get rc role of None \<Rightarrow> {} | Some s \<Rightarrow> s)"

fun collect :: "GateWorld \<Rightarrow> GateRequest \<Rightarrow> GateSignature list \<Rightarrow> pystr set \<times> candidate_dict \<Rightarrow> pystr set \<times> candidate_dict" where
  "collect w q [] acc = acc"
| "collect w q (s # ss) (valid, rc) =
     (if counts w q s
      then collect w q ss (insert (gs_principal_id s) valid,
             if gs_role s \<in> po_required_roles (gr_policy q)
             then dict_set (gs_role s) (insert (gs_principal_id s) (role_candidates rc (gs_role s))) rc else rc)
      else collect w q ss (valid, rc))"

text \<open>
  \<^verbatim>\<open>assign\<close>: the search for a principal for one role, moving principals already assigned to other roles.
  The list is what is left of \<^verbatim>\<open>sorted(role_candidates[role])\<close>; the set \<^verbatim>\<open>visited\<close> and the dictionary
  \<^verbatim>\<open>role_by_principal\<close> are threaded through.  The first argument bounds the depth of the recursion, and
  \<open>None\<close> is running out of it, which the lemmas below exclude.
\<close>

fun assign :: "nat \<Rightarrow> candidate_dict \<Rightarrow> pystr \<Rightarrow> pystr list \<Rightarrow> pystr set \<Rightarrow> (pystr, pystr) dict \<Rightarrow>
    (bool \<times> pystr set \<times> (pystr, pystr) dict) option" where
  "assign n rc role [] v b = Some (False, v, b)"
| "assign 0 rc role (p # ps) v b = None"
| "assign (Suc n) rc role (p # ps) v b =
     (if p \<in> v then assign (Suc n) rc role ps v b
      else case dict_get b p of
        None \<Rightarrow> Some (True, insert p v, dict_set p role b)
      | Some previous \<Rightarrow>
         (case assign n rc previous (sorted_list_of_set (role_candidates rc previous)) (insert p v) b of
            None \<Rightarrow> None
          | Some (True, v2, b2) \<Rightarrow> Some (True, v2, dict_set p role b2)
          | Some (False, v2, b2) \<Rightarrow> assign (Suc n) rc role ps v2 b2))"

fun assign_all :: "nat \<Rightarrow> candidate_dict \<Rightarrow> pystr list \<Rightarrow> (pystr, pystr) dict \<Rightarrow> (pystr, pystr) dict option" where
  "assign_all n rc [] b = Some b"
| "assign_all n rc (role # roles) b =
     (case assign n rc role (sorted_list_of_set (role_candidates rc role)) {} b of None \<Rightarrow> None
      | Some (_, _, b') \<Rightarrow> assign_all n rc roles b')"

definition validate_now :: "GateWorld \<Rightarrow> GateRequest \<Rightarrow> Approval res" where
  "validate_now w q =
     (case require_aware ''trusted clock'' (gw_now w) of Inl e \<Rightarrow> Inl e
      | Inr instant \<Rightarrow>
         let required = po_required_roles (gr_policy q);
             (valid, rc) = collect w q (gr_signatures q) ({}, map (\<lambda>r. (r, {})) (sorted_list_of_set required)) in
         if int (card valid) < po_minimum_signatories (gr_policy q) then Inl (HumanGateError ''QUORUM_NOT_MET'')
         else case assign_all (Suc (length (gr_signatures q))) rc (sorted_list_of_set required) [] of
                None \<Rightarrow> Inl NoReturn
              | Some b \<Rightarrow>
                  if required - set (dict_values b) \<noteq> {} then Inl (HumanGateError ''MISSING_REQUIRED_ROLE'')
                  else approval_post_init \<lparr>ap_action_id = gr_action_id q,
                         ap_approver = join_with [44] (sorted_list_of_set valid),
                         ap_approved = True, ap_approved_at = instant\<rparr>)"

text \<open>
  With a control check, the first validation only decides whether the check runs; the approval is the
  one of a second validation in the world the check leaves behind.
\<close>

definition validate :: "GateWorld \<Rightarrow> (unit res \<times> GateWorld) option \<Rightarrow> GateRequest \<Rightarrow> Approval res" where
  "validate w control q =
     (case control of None \<Rightarrow> validate_now w q
      | Some (outcome, w') \<Rightarrow>
         (case validate_now w q of Inl e \<Rightarrow> Inl e
          | Inr _ \<Rightarrow> (case outcome of Inl e \<Rightarrow> Inl e | Inr _ \<Rightarrow> validate_now w' q)))"

section \<open>The role assignment\<close>

text \<open>
  What a call of \<^verbatim>\<open>assign\<close> does.  It ends when the depth exceeds the number of principals not visited yet.
  When it fails, nothing has moved, and the visited principals form a closed set: everybody who could
  take the role, or the role of somebody in the set, is in the set and is already assigned.
\<close>

lemma assign_mono: "assign n rc role ps v b = Some (ok, v', b') \<Longrightarrow> v \<subseteq> v'"
  by (induction n rc role ps v b arbitrary: ok v' b' rule: assign.induct)
    (fastforce split: if_splits option.splits prod.splits bool.splits)+

lemma assign_total:
  assumes fin: "finite P"
  shows "(\<And>r. role_candidates rc r \<subseteq> P) \<Longrightarrow> set ps \<subseteq> P \<Longrightarrow> card (P - v) < n \<Longrightarrow> assign n rc role ps v b \<noteq> None"
proof (induction n rc role ps v b rule: assign.induct)
  case (3 n rc role p ps v b)
  note cand = 3(4) and ps = 3(5) and fuel = 3(6)
  show ?case
  proof (cases "p \<in> v")
    case True
    with 3(1) cand ps fuel show ?thesis by simp
  next
    case False
    show ?thesis
    proof (cases "dict_get b p")
      case (Some previous)
      let ?call = "assign n rc previous (sorted_list_of_set (role_candidates rc previous)) (insert p v) b"
      have "card (P - insert p v) < card (P - v)" using fin ps False by (intro psubset_card_mono) auto
      then have "?call \<noteq> None"
        using 3(2) [OF False Some cand] cand fuel finite_subset [OF cand fin] by simp
      then obtain ok v2 b2 where call: "?call = Some (ok, v2, b2)" by (metis not_Some_eq surj_pair)
      then have "v \<subseteq> v2" using assign_mono by blast
      then have "card (P - v2) \<le> card (P - v)" using fin by (intro card_mono) auto
      then have "\<not> ok \<Longrightarrow> assign (Suc n) rc role ps v2 b2 \<noteq> None"
        using 3(3) [OF False Some call refl] cand ps fuel by simp
      then show ?thesis using False Some call by (cases ok) simp_all
    qed (use False in simp)
  qed
qed auto

lemma assign_False:
  "(\<And>r. finite (role_candidates rc r)) \<Longrightarrow> assign n rc role ps v b = Some (False, v', b') \<Longrightarrow>
    b' = b \<and> set ps \<subseteq> v' \<and> (\<forall>p \<in> v' - v. \<exists>r. dict_get b p = Some r \<and> role_candidates rc r \<subseteq> v')"
proof (induction n rc role ps v b arbitrary: v' b' rule: assign.induct)
  case (3 n rc role p ps v b)
  note fin = 3(4) and run = 3(5)
  show ?case
  proof (cases "p \<in> v")
    case True
    with 3(1) [OF True fin] run assign_mono [OF run] show ?thesis by auto
  next
    case False
    from run False obtain previous v2 b2 where prev: "dict_get b p = Some previous"
      and call: "assign n rc previous (sorted_list_of_set (role_candidates rc previous)) (insert p v) b = Some (False, v2, b2)"
      and rest: "assign (Suc n) rc role ps v2 b2 = Some (False, v', b')"
      by (auto split: option.splits prod.splits bool.splits)
    from 3(2) [OF False prev fin call] fin have inner: "b2 = b" "role_candidates rc previous \<subseteq> v2"
      "\<forall>q \<in> v2 - insert p v. \<exists>r. dict_get b q = Some r \<and> role_candidates rc r \<subseteq> v2" by auto
    from 3(3) [OF False prev call refl refl refl fin rest] have outer: "b' = b2" "set ps \<subseteq> v'"
      "\<forall>q \<in> v' - v2. \<exists>r. dict_get b2 q = Some r \<and> role_candidates rc r \<subseteq> v'" by auto
    have sub: "insert p v \<subseteq> v2" "v2 \<subseteq> v'" using assign_mono [OF call] assign_mono [OF rest] .
    have "\<exists>r. dict_get b q = Some r \<and> role_candidates rc r \<subseteq> v'" if "q \<in> v' - v" for q
    proof -
      from that consider "q = p" | "q \<in> v2 - insert p v" | "q \<in> v' - v2" by blast
      then show ?thesis
      proof cases
        case 1
        with prev inner(2) sub(2) show ?thesis by auto
      next
        case 2
        with inner(3) sub(2) show ?thesis by (meson subset_trans)
      next
        case 3
        with outer(3) inner(1) show ?thesis by simp
      qed
    qed
    with outer(1,2) inner(1) sub show ?thesis by auto
  qed
qed auto

text \<open>
  A partial assignment maps principals to roles they can take, no role twice.  \<open>held b v\<close> are the
  roles held by the principals outside \<open>v\<close>; a successful call adds its role to them and moves nobody in \<open>v\<close>.
\<close>

definition held :: "(pystr, pystr) dict \<Rightarrow> pystr set \<Rightarrow> pystr set" where
  "held b v = {r. \<exists>p. p \<notin> v \<and> dict_get b p = Some r}"

definition exclusive :: "(pystr, pystr) dict \<Rightarrow> pystr set \<Rightarrow> bool" where
  "exclusive b v \<longleftrightarrow> (\<forall>p q r. p \<notin> v \<longrightarrow> q \<notin> v \<longrightarrow> dict_get b p = Some r \<longrightarrow> dict_get b q = Some r \<longrightarrow> p = q)"

definition fits :: "candidate_dict \<Rightarrow> (pystr, pystr) dict \<Rightarrow> bool" where
  "fits rc b \<longleftrightarrow> (\<forall>p r. dict_get b p = Some r \<longrightarrow> p \<in> role_candidates rc r)"

lemma held_split: "p \<notin> v \<Longrightarrow> held b v = held b (insert p v) \<union> set_option (dict_get b p)"
  by (auto simp: held_def)

lemma exclusive_narrow:
  assumes v2: "v \<subseteq> v2" and exc: "exclusive b v" and new: "role \<notin> held b v"
    and r: "exclusive b' v2" "held b' v2 = insert role (held b v2)" "\<forall>q \<in> v2. dict_get b' q = dict_get b q"
  shows "exclusive b' v \<and> held b' v = insert role (held b v)"
proof
  have mem: "s \<in> held c v \<longleftrightarrow> s \<in> held c v2 \<or> (\<exists>q \<in> v2 - v. dict_get c q = Some s)" for s c
    using v2 by (auto simp: held_def)
  show "held b' v = insert role (held b v)" using r(2,3) by (auto simp: mem)
  show "exclusive b' v"
    unfolding exclusive_def
  proof (intro allI impI)
    fix q q' s
    assume q: "q \<notin> v" "q' \<notin> v" "dict_get b' q = Some s" "dict_get b' q' = Some s"
    have cross: "x = y" if "x \<in> v2" "x \<notin> v" "y \<notin> v2" "dict_get b' x = Some s" "dict_get b' y = Some s" for x y
    proof -
      have "s \<in> insert role (held b v2)" using that(3,5) r(2) unfolding held_def by blast
      moreover have "dict_get b x = Some s" using that(1,4) r(3) by simp
      ultimately show ?thesis using exc new that v2 unfolding exclusive_def held_def by blast
    qed
    show "q = q'"
    proof (cases "q \<in> v2 \<and> q' \<in> v2 \<or> q \<notin> v2 \<and> q' \<notin> v2")
      case True
      with q r(1,3) exc show ?thesis unfolding exclusive_def by metis
    next
      case False
      with q cross [of q q'] cross [of q' q] show ?thesis by blast
    qed
  qed
qed

lemma assign_True:
  "(\<And>r. finite (role_candidates rc r)) \<Longrightarrow> assign n rc role ps v b = Some (True, v', b') \<Longrightarrow>
    set ps \<subseteq> role_candidates rc role \<Longrightarrow> fits rc b \<Longrightarrow> exclusive b v \<Longrightarrow> role \<notin> held b v \<Longrightarrow>
    fits rc b' \<and> exclusive b' v \<and> held b' v = insert role (held b v) \<and> (\<forall>p \<in> v. dict_get b' p = dict_get b p)"
proof (induction n rc role ps v b arbitrary: v' b' rule: assign.induct)
  case (3 n rc role p ps v b)
  note fin = 3(4) and run = 3(5) and cand = 3(6) and fit = 3(7) and exc = 3(8) and new = 3(9)
  show ?case
  proof (cases "p \<in> v")
    case True
    with 3(1) [OF True fin] run cand fit exc new show ?thesis by simp
  next
    case False
    note p_cand = cand [simplified, THEN conjunct1] and split = held_split [OF False, of b]
    show ?thesis
    proof (cases "dict_get b p")
      case None
      with run False have b': "b' = dict_set p role b" by simp
      with None split have "held b' v = insert role (held b v)" using False by (auto simp: held_def split: if_splits)
      moreover have "exclusive b' v" using exc new False by (auto simp: b' exclusive_def held_def)
      ultimately show ?thesis using b' fit p_cand False by (auto simp: fits_def)
    next
      case (Some previous)
      let ?call = "assign n rc previous (sorted_list_of_set (role_candidates rc previous)) (insert p v) b"
      from run False Some consider
        (moved) v2 b2 where "?call = Some (True, v2, b2)" "b' = dict_set p role b2"
        | (stuck) v2 b2 where "?call = Some (False, v2, b2)" "assign (Suc n) rc role ps v2 b2 = Some (True, v', b')"
        by (auto split: option.splits prod.splits bool.splits)
      then show ?thesis
      proof cases
        case moved
        have "previous \<notin> held b (insert p v)" "exclusive b (insert p v)"
          using exc Some False unfolding held_def exclusive_def by blast+
        with 3(2) [OF False Some fin moved(1)] fin fit have
          b2: "fits rc b2" "exclusive b2 (insert p v)" "held b2 (insert p v) = insert previous (held b (insert p v))"
            "\<forall>q \<in> insert p v. dict_get b2 q = dict_get b q" by auto
        have "held b' v = insert role (held b2 (insert p v))"
          using False by (auto simp: moved(2) held_def split: if_splits)
        then have "held b' v = insert role (held b v)" using b2(3) split Some by auto
        moreover have "role \<notin> held b2 (insert p v)" using b2(3) new split Some by auto
        then have "exclusive b' v" using b2(2) False by (auto simp: moved(2) exclusive_def held_def)
        ultimately show ?thesis using moved(2) b2(1,4) p_cand False by (auto simp: fits_def)
      next
        case stuck
        from assign_False [OF fin stuck(1)] have b2: "b2 = b" by blast
        have v2: "insert p v \<subseteq> v2" by (rule assign_mono [OF stuck(1)])
        have "exclusive b v2" "role \<notin> held b v2" using exc new v2 unfolding exclusive_def held_def by blast+
        with 3(3) [OF False Some stuck(1) refl refl refl fin stuck(2)] cand fit b2 have
          r: "fits rc b'" "exclusive b' v2" "held b' v2 = insert role (held b v2)" "\<forall>q \<in> v2. dict_get b' q = dict_get b q" by auto
        note exclusive_narrow [OF _ exc new r(2-4)]
        then show ?thesis using r v2 by auto
      qed
    qed
  qed
qed auto

lemma assign_dict_ok: "assign n rc role ps v b = Some (ok, v', b') \<Longrightarrow> dict_ok b \<Longrightarrow> dict_ok b'"
  by (induction n rc role ps v b arbitrary: ok v' b' rule: assign.induct)
    (fastforce split: if_splits option.splits prod.splits bool.splits)+

text \<open>
  \<open>representatives rc R f\<close>: \<open>f\<close> gives every role of \<open>R\<close> a candidate of its own.  When one exists for the role
  and those already held, the call succeeds: a failure leaves more roles than people to hold them.
\<close>

definition representatives :: "candidate_dict \<Rightarrow> pystr set \<Rightarrow> (pystr \<Rightarrow> pystr) \<Rightarrow> bool" where
  "representatives rc R f \<longleftrightarrow> inj_on f R \<and> (\<forall>r \<in> R. f r \<in> role_candidates rc r)"

lemma assign_succeeds:
  assumes fin: "finite P" "\<And>r. role_candidates rc r \<subseteq> P"
    and run: "assign n rc role (sorted_list_of_set (role_candidates rc role)) {} b = Some (ok, v', b')"
    and b: "fits rc b" "exclusive b {}" "role \<notin> held b {}"
    and f: "representatives rc (insert role (held b {})) f"
  shows ok
proof (rule ccontr)
  assume "\<not> ok"
  have finc: "\<And>r. finite (role_candidates rc r)" using finite_subset fin by blast
  from run \<open>\<not> ok\<close> have run': "assign n rc role (sorted_list_of_set (role_candidates rc role)) {} b = Some (False, v', b')" by simp
  from assign_False [OF finc run'] finc have
    closed: "role_candidates rc role \<subseteq> v'" "\<forall>p \<in> v'. \<exists>r. dict_get b p = Some r \<and> role_candidates rc r \<subseteq> v'" by auto
  let ?R = "the ` dict_get b ` v'"
  have finv: "finite v'" using closed(2) b(1) fin unfolding fits_def by (meson finite_subset subsetI subset_iff)
  have held: "?R \<subseteq> held b {}" using closed(2) by (force simp: held_def)
  have "inj_on (the \<circ> dict_get b) v'"
  proof (rule inj_onI)
    fix p q
    assume pq: "p \<in> v'" "q \<in> v'" "(the \<circ> dict_get b) p = (the \<circ> dict_get b) q"
    with closed(2) obtain r r' where "dict_get b p = Some r" "dict_get b q = Some r'" by blast
    with pq(3) b(2) show "p = q" unfolding exclusive_def by simp
  qed
  then have "card ?R = card v'" by (metis card_image image_comp)
  moreover have "role \<notin> ?R" using b(3) held by blast
  ultimately have card: "card (insert role ?R) = Suc (card v')" using finv by simp
  have "f r \<in> v'" if r: "r \<in> insert role ?R" for r
  proof -
    have "f r \<in> role_candidates rc r" using f r held unfolding representatives_def by blast
    moreover have "role_candidates rc r \<subseteq> v'" using r closed by (fastforce simp: image_iff)
    ultimately show ?thesis by blast
  qed
  then have "f ` insert role ?R \<subseteq> v'" by blast
  moreover have "inj_on f (insert role ?R)" using f held unfolding representatives_def by (meson inj_on_subset insert_mono)
  ultimately have "card (insert role ?R) \<le> card v'" by (metis card_image card_mono finv)
  with card show False by simp
qed

text \<open>All roles one after another.\<close>

lemma assign_all_spec:
  assumes fin: "finite P" "\<And>r. role_candidates rc r \<subseteq> P" "card P < n"
  shows "fits rc b \<Longrightarrow> exclusive b {} \<Longrightarrow> dict_ok b \<Longrightarrow> distinct roles \<Longrightarrow> set roles \<inter> held b {} = {} \<Longrightarrow>
    \<exists>b'. assign_all n rc roles b = Some b' \<and> fits rc b' \<and> exclusive b' {} \<and> dict_ok b' \<and> held b' {} \<subseteq> held b {} \<union> set roles
      \<and> ((\<exists>f. representatives rc (held b {} \<union> set roles) f) \<longrightarrow> held b' {} = held b {} \<union> set roles)"
proof (induction roles arbitrary: b)
  case (Cons role roles)
  have finc: "\<And>r. finite (role_candidates rc r)" using finite_subset fin by blast
  let ?call = "assign n rc role (sorted_list_of_set (role_candidates rc role)) {} b"
  have "?call \<noteq> None" using fin finc by (intro assign_total [OF fin(1)]) auto
  then obtain ok v' b1 where call: "?call = Some (ok, v', b1)" by (metis not_Some_eq surj_pair)
  have new: "role \<notin> held b {}" using Cons.prems by auto
  have b1: "fits rc b1" "exclusive b1 {}" "held b1 {} = (if ok then insert role (held b {}) else held b {})"
    using assign_True [OF finc, of n role] assign_False [OF finc, of n role] call Cons.prems new finc
    by (cases ok; fastforce)+
  have ok1: "dict_ok b1" by (rule assign_dict_ok [OF call Cons.prems(3)])
  have "set roles \<inter> held b1 {} = {}" using b1(3) Cons.prems(4,5) by auto
  from Cons.IH [OF b1(1,2) ok1 _ this] Cons.prems(4) obtain b' where
    b': "assign_all n rc roles b1 = Some b'" "fits rc b'" "exclusive b' {}" "dict_ok b'" "held b' {} \<subseteq> held b1 {} \<union> set roles"
      "(\<exists>f. representatives rc (held b1 {} \<union> set roles) f) \<longrightarrow> held b' {} = held b1 {} \<union> set roles" by auto
  have "held b' {} = held b {} \<union> set (role # roles)" if f: "representatives rc (held b {} \<union> set (role # roles)) f" for f
  proof -
    have "representatives rc (insert role (held b {})) f"
      using f unfolding representatives_def by (auto intro: inj_on_subset)
    then have ok by (rule assign_succeeds [OF fin(1,2) call Cons.prems(1,2) new])
    then have "held b {} \<union> set (role # roles) = held b1 {} \<union> set roles" using b1(3) by auto
    with b'(6) f show ?thesis by auto
  qed
  with b' b1(3) call show ?case by (auto split: if_splits)
qed auto

text \<open>The loop over the signatures collects exactly the principals and candidates of the signatures that count.\<close>

definition signers :: "GateWorld \<Rightarrow> GateRequest \<Rightarrow> pystr set" where
  "signers w q = gs_principal_id ` {s \<in> set (gr_signatures q). counts w q s}"

definition signers_for :: "GateWorld \<Rightarrow> GateRequest \<Rightarrow> pystr \<Rightarrow> pystr set" where
  "signers_for w q r = gs_principal_id ` {s \<in> set (gr_signatures q). counts w q s \<and> gs_role s = r}"

lemma collect_spec:
  "collect w q ss (v, rc) = (v', rc') \<Longrightarrow>
     v' = v \<union> gs_principal_id ` {s \<in> set ss. counts w q s}
     \<and> (\<forall>r. role_candidates rc' r = role_candidates rc r \<union>
          (if r \<in> po_required_roles (gr_policy q) then gs_principal_id ` {s \<in> set ss. counts w q s \<and> gs_role s = r} else {}))"
proof (induction ss arbitrary: v rc)
  case (Cons s ss)
  show ?case
  proof (cases "counts w q s")
    case True
    with Cons.prems Cons.IH [of "insert (gs_principal_id s) v"] show ?thesis
      by (auto simp: role_candidates_def split: if_splits)
  next
    case False
    with Cons.prems Cons.IH [of v rc] show ?thesis by auto
  qed
qed simp

lemma collect_all:
  assumes "collect w q (gr_signatures q) ({}, map (\<lambda>r. (r, {})) rs) = (valid, rc)"
  shows "valid = signers w q"
    "\<And>r. role_candidates rc r = (if r \<in> po_required_roles (gr_policy q) then signers_for w q r else {})"
proof -
  have "role_candidates (map (\<lambda>r. (r, {})) rs) r = {}" for r
    by (induction rs) (auto simp: role_candidates_def split: option.splits)
  with collect_spec [OF assms] show "valid = signers w q"
    "\<And>r. role_candidates rc r = (if r \<in> po_required_roles (gr_policy q) then signers_for w q r else {})"
    by (auto simp: signers_def signers_for_def)
qed

lemma finite_signers: "finite (signers w q)" "card (signers w q) < Suc (length (gr_signatures q))"
proof -
  have sub: "signers w q \<subseteq> set (map gs_principal_id (gr_signatures q))" by (auto simp: signers_def)
  show "finite (signers w q)" using finite_subset [OF sub] by simp
  have "card (signers w q) \<le> card (set (map gs_principal_id (gr_signatures q)))" using sub by (rule card_mono [rotated]) simp
  also have "\<dots> \<le> length (gr_signatures q)" by (metis card_length length_map)
  finally show "card (signers w q) < Suc (length (gr_signatures q))" by simp
qed

lemma assignment_exists_iff:
  assumes fin: "finite (po_required_roles (gr_policy q))"
    and col: "collect w q (gr_signatures q) ({}, map (\<lambda>r. (r, {})) (sorted_list_of_set (po_required_roles (gr_policy q)))) = (valid, rc)"
  shows "\<exists>b. assign_all (Suc (length (gr_signatures q))) rc (sorted_list_of_set (po_required_roles (gr_policy q))) [] = Some b
    \<and> (po_required_roles (gr_policy q) - set (dict_values b) = {} \<longleftrightarrow>
         (\<exists>f. inj_on f (po_required_roles (gr_policy q)) \<and> (\<forall>r \<in> po_required_roles (gr_policy q). f r \<in> signers_for w q r)))"
proof -
  let ?R = "po_required_roles (gr_policy q)"
  note c = collect_all [OF col]
  have P: "finite (signers w q)" "\<And>r. role_candidates rc r \<subseteq> signers w q"
    "card (signers w q) < Suc (length (gr_signatures q))"
    using finite_signers c(2) by (auto simp: signers_def signers_for_def)
  have empty: "held [] {} = {}" "fits rc []" "exclusive [] {}" by (simp_all add: held_def fits_def exclusive_def)
  have rep: "representatives rc ?R f \<longleftrightarrow> inj_on f ?R \<and> (\<forall>r \<in> ?R. f r \<in> signers_for w q r)" for f
    by (simp add: representatives_def c(2))
  obtain b where b: "assign_all (Suc (length (gr_signatures q))) rc (sorted_list_of_set ?R) [] = Some b"
    "fits rc b" "exclusive b {}" "dict_ok b" "held b {} \<subseteq> ?R" "(\<exists>f. representatives rc ?R f) \<longrightarrow> held b {} = ?R"
    using assign_all_spec [OF P empty(2,3), of "sorted_list_of_set ?R"] fin empty(1) by auto
  have vals: "set (dict_values b) = held b {}" using dict_mem_values [OF b(4)] by (auto simp: held_def)
  have "\<exists>f. representatives rc ?R f" if "?R \<subseteq> held b {}"
  proof -
    have "\<forall>r \<in> ?R. \<exists>p. dict_get b p = Some r" using that by (auto simp: held_def)
    then obtain f where f: "\<forall>r \<in> ?R. dict_get b (f r) = Some r" by metis
    then have "inj_on f ?R" by (metis inj_onI option.inject)
    with f b(2) show ?thesis unfolding representatives_def fits_def by blast
  qed
  then have "?R - set (dict_values b) = {} \<longleftrightarrow> (\<exists>f. representatives rc ?R f)"
    unfolding vals using b(6) by blast
  then show ?thesis unfolding rep [symmetric] using b(1) by blast
qed

lemma join_with_nonempty: "xs \<noteq> [] \<Longrightarrow> [] \<notin> set xs \<Longrightarrow> join_with sep xs \<noteq> []"
  by (cases xs rule: list.exhaust) (auto elim: join_with.elims)

lemma validate_now_iff:
  assumes fin: "finite (po_required_roles (gr_policy q))" and pol: "policy_post_init p = Inr (gr_policy q)"
    and aware: "dt_aware (gw_now w)" and ids: "\<And>s. s \<in> set (gr_signatures q) \<Longrightarrow> gs_principal_id s \<noteq> []"
  shows "validate_now w q =
    (if int (card (signers w q)) < po_minimum_signatories (gr_policy q) then Inl (HumanGateError ''QUORUM_NOT_MET'')
     else if \<exists>f. inj_on f (po_required_roles (gr_policy q)) \<and> (\<forall>r \<in> po_required_roles (gr_policy q). f r \<in> signers_for w q r)
     then Inr \<lparr>ap_action_id = gr_action_id q, ap_approver = join_with [44] (sorted_list_of_set (signers w q)),
               ap_approved = True, ap_approved_at = gw_now w\<rparr>
     else Inl (HumanGateError ''MISSING_REQUIRED_ROLE''))"
proof -
  let ?R = "po_required_roles (gr_policy q)"
  obtain valid rc where col: "collect w q (gr_signatures q) ({}, map (\<lambda>r. (r, {})) (sorted_list_of_set ?R)) = (valid, rc)"
    by fastforce
  have valid: "valid = signers w q" by (rule collect_all(1) [OF col])
  obtain b where b: "assign_all (Suc (length (gr_signatures q))) rc (sorted_list_of_set ?R) [] = Some b"
    "?R - set (dict_values b) = {} \<longleftrightarrow> (\<exists>f. inj_on f ?R \<and> (\<forall>r \<in> ?R. f r \<in> signers_for w q r))"
    using assignment_exists_iff [OF fin col] by blast
  have approver: "join_with [44] (sorted_list_of_set (signers w q)) \<noteq> []" if "\<not> int (card (signers w q)) < po_minimum_signatories (gr_policy q)"
  proof -
    have "1 \<le> po_minimum_signatories (gr_policy q)" using pol by (auto simp: policy_post_init_def split: if_splits)
    with that have "signers w q \<noteq> {}" by auto
    moreover have "[] \<notin> signers w q" using ids unfolding signers_def by force
    ultimately show ?thesis using finite_signers(1) [of w q]
      by (intro join_with_nonempty) (simp_all add: sorted_list_of_set_eq_Nil_iff del: sorted_list_of_set_nonempty)
  qed
  show ?thesis
    using col b approver aware unfolding valid
    by (auto simp: validate_now_def approval_post_init_def Let_def)
qed

section \<open>Properties\<close>

text \<open>Ann holds both roles, Bob only the second; both sign within the hour, Ann for the first role.\<close>

definition example_human :: "string \<Rightarrow> string \<Rightarrow> IdentityRecord" where
  "example_human i roles = \<lparr>canonical_id = lit i, id_aliases = {}, id_attributes =
     [(lit ''principal_kind'', PStr (lit ''HUMAN'')), (lit ''status'', PStr (lit ''ACTIVE'')), (lit ''roles'', PStr (lit roles))]\<rparr>"

definition example_world :: GateWorld where
  "example_world = \<lparr>gw_identities = \<lparr>reg_records = [(lit ''ann'', example_human ''ann'' ''A B''), (lit ''bob'', example_human ''bob'' ''B'')],
     reg_aliases = []\<rparr>, gw_now = utc_at 10\<rparr>"

definition example_policy :: ApprovalPolicy where
  "example_policy = \<lparr>po_required_roles = {lit ''A'', lit ''B''}, po_minimum_signatories = 2, po_ttl = 3600,
     po_excluded_principal_id = None\<rparr>"

definition example_signature :: "string \<Rightarrow> string \<Rightarrow> GateSignature" where
  "example_signature p r = \<lparr>gs_action_id = lit ''act'', gs_principal_id = lit p, gs_role = lit r, gs_scope = lit ''s'',
     gs_signed_at = utc_at 0\<rparr>"

definition example_gate :: GateRequest where
  "example_gate = \<lparr>gr_action_id = lit ''act'', gr_proposer_id = lit ''eve'', gr_policy = example_policy,
     gr_signatures = [example_signature ''ann'' ''B'', example_signature ''ann'' ''A'', example_signature ''bob'' ''B''],
     gr_scope = lit ''s''\<rparr>"

lemma example_signatures:
  "set (gr_signatures example_gate) = {example_signature ''ann'' ''A'', example_signature ''ann'' ''B'', example_signature ''bob'' ''B''}"
  "gs_principal_id (example_signature p r) = lit p" "gs_role (example_signature p r) = lit r"
  by (auto simp: example_gate_def example_signature_def)

lemma example_counts:
  "counts example_world example_gate (example_signature ''ann'' ''A'')"
  "counts example_world example_gate (example_signature ''ann'' ''B'')"
  "counts example_world example_gate (example_signature ''bob'' ''B'')"
  by (simp_all add: counts_def example_gate_def example_signature_def excluded_principals_def example_policy_def
      example_world_def example_human_def registry_get_def active_human_roles_def role_token_def is_upper_def
      lit_def insort_key_def Let_def)

text \<open>
  C9 [human_gate_exact]: the human gate decides exactly its policy.  A request is refused for want of a
  quorum when fewer distinct people than the policy asks for have a signature that counts (right
  action and scope, not excluded, an active human holding the signed role now, signed within the time to
  live); otherwise it is approved exactly when the required roles can be covered by signers who are all
  different people, whatever the order of the signatures, and the approval names the signers.  The
  search always ends.  With a control check the approval returned is the one of a fresh validation in
  the world after the check.
\<close>

theorem human_gate_exact:
  assumes "policy_post_init p = Inr (gr_policy q)" and "finite (po_required_roles (gr_policy q))"
    and "\<And>s. s \<in> set (gr_signatures q) \<Longrightarrow> signature_post_init s = Inr s" and "dt_aware (gw_now w)"
  shows "validate w None q =
    (if int (card (signers w q)) < po_minimum_signatories (gr_policy q) then Inl (HumanGateError ''QUORUM_NOT_MET'')
     else if \<exists>f. inj_on f (po_required_roles (gr_policy q)) \<and> (\<forall>r \<in> po_required_roles (gr_policy q). f r \<in> signers_for w q r)
     then Inr \<lparr>ap_action_id = gr_action_id q, ap_approver = join_with [44] (sorted_list_of_set (signers w q)),
               ap_approved = True, ap_approved_at = gw_now w\<rparr>
     else Inl (HumanGateError ''MISSING_REQUIRED_ROLE''))
    \<and> (\<forall>outcome w0 a. validate w0 (Some (outcome, w)) q = Inr a \<longrightarrow> is_ok outcome \<and> validate w None q = Inr a)"
proof -
  have ids: "gs_principal_id s \<noteq> []" if "s \<in> set (gr_signatures q)" for s
    using assms(3) [OF that] by (auto simp: signature_post_init_def split: if_splits sum.splits)
  have "\<forall>outcome w0 a. validate w0 (Some (outcome, w)) q = Inr a \<longrightarrow> is_ok outcome \<and> validate w None q = Inr a"
    by (auto simp: validate_def split: sum.splits)
  with validate_now_iff [OF assms(2,1,4) ids] show ?thesis by (simp add: validate_def)
qed

theorem human_gate_exact_witness:
  "validate example_world None example_gate =
     Inr \<lparr>ap_action_id = lit ''act'', ap_approver = lit ''ann,bob'', ap_approved = True, ap_approved_at = utc_at 10\<rparr>"
proof -
  let ?f = "\<lambda>r. if r = lit ''A'' then lit ''ann'' else lit ''bob''"
  have signers: "signers example_world example_gate = {lit ''ann'', lit ''bob''}"
  proof -
    have "{s \<in> set (gr_signatures example_gate). counts example_world example_gate s}
        = {example_signature ''ann'' ''A'', example_signature ''ann'' ''B'', example_signature ''bob'' ''B''}"
      unfolding example_signatures(1) using example_counts by blast
    then show ?thesis by (simp add: signers_def example_signatures)
  qed
  have f: "inj_on ?f {lit ''A'', lit ''B''}" by (auto simp: inj_on_def)
  have g: "\<forall>r \<in> {lit ''A'', lit ''B''}. ?f r \<in> signers_for example_world example_gate r"
  proof
    show "?f r \<in> signers_for example_world example_gate r" if "r \<in> {lit ''A'', lit ''B''}" for r
      using that example_counts example_signatures unfolding signers_for_def
      by (intro image_eqI [where x = "if r = lit ''A'' then example_signature ''ann'' ''A'' else example_signature ''bob'' ''B''"]) auto
  qed
  have sdr: "\<exists>f. inj_on f (po_required_roles (gr_policy example_gate))
      \<and> (\<forall>r \<in> po_required_roles (gr_policy example_gate). f r \<in> signers_for example_world example_gate r)"
    by (rule exI [of _ ?f]) (use f g in \<open>simp add: example_gate_def example_policy_def\<close>)
  have ok: "policy_post_init example_policy = Inr (gr_policy example_gate)" "finite (po_required_roles (gr_policy example_gate))"
    "\<And>s. s \<in> set (gr_signatures example_gate) \<Longrightarrow> signature_post_init s = Inr s" "dt_aware (gw_now example_world)"
    by (auto simp: example_gate_def example_policy_def policy_post_init_def example_signature_def
        signature_post_init_def example_world_def)
  have quorum: "\<not> int (card (signers example_world example_gate)) < po_minimum_signatories (gr_policy example_gate)"
    unfolding signers by (simp add: example_gate_def example_policy_def)
  have "validate example_world None example_gate =
     Inr \<lparr>ap_action_id = gr_action_id example_gate, ap_approver = join_with [44] (sorted_list_of_set {lit ''ann'', lit ''bob''}),
          ap_approved = True, ap_approved_at = gw_now example_world\<rparr>"
  proof -
    have "x = (if c then e else if d then y else z) \<Longrightarrow> \<not> c \<Longrightarrow> d \<Longrightarrow> x = y" for x y z e :: "Approval res" and c d by simp
    from this [OF conjunct1 [OF human_gate_exact [OF ok(1,2) _ ok(4)]] quorum sdr] ok(3) show ?thesis
      unfolding signers by blast
  qed
  then show ?thesis by (simp add: lit_def example_gate_def example_world_def)
qed

end
