(* ===== verification/Json_Text.thy ===== *)
theory Json_Text
  imports Canonical
begin

text \<open>
  JSON as text.  The scanner is the one of Python's \<^verbatim>\<open>json\<close> module, with the four hooks its callers may
  replace; \<open>dumps\<close> is \<^verbatim>\<open>json.dumps(v, sort_keys=True, separators=(",", ":"))\<close>.  On them rests
  \<^verbatim>\<open>load_i_json\<close> of \<^verbatim>\<open>canonical.py\<close>, here for documents that the interpreter's stack is deep enough for; \<open>Json_Depth\<close> adds
  the limit and its \<^verbatim>\<open>RecursionError\<close>.  The lemmas show that the scanner reads back every text that the
  canonicalizer or \<open>dumps\<close> writes.
\<close>

section \<open>Scanning\<close>

definition is_ws :: "nat \<Rightarrow> bool" where
  "is_ws c \<longleftrightarrow> c = 32 \<or> c = 9 \<or> c = 10 \<or> c = 13"

definition skip_ws :: "pystr \<Rightarrow> pystr" where
  "skip_ws s = dropWhile is_ws s"

definition digit :: "nat \<Rightarrow> bool" where
  "digit c \<longleftrightarrow> 48 \<le> c \<and> c \<le> 57"

definition hex_char_value :: "nat \<Rightarrow> nat option" where
  "hex_char_value c =
     (if digit c then Some (c - 48) else if 97 \<le> c \<and> c \<le> 102 then Some (c - 87)
      else if 65 \<le> c \<and> c \<le> 70 then Some (c - 55) else None)"

definition scan_hex4 :: "pystr \<Rightarrow> (nat \<times> pystr) option" where
  "scan_hex4 s =
     (case s of a # b # c # d # r \<Rightarrow>
        (case (hex_char_value a, hex_char_value b, hex_char_value c, hex_char_value d) of
           (Some a, Some b, Some c, Some d) \<Rightarrow> Some (4096 * a + 256 * b + 16 * c + d, r)
         | _ \<Rightarrow> None)
      | _ \<Rightarrow> None)"

definition unescape :: "nat \<Rightarrow> nat option" where
  "unescape e = map_of [(34, 34), (92, 92), (47, 47), (98, 8), (102, 12), (110, 10), (114, 13), (116, 9)] e"

definition is_high :: "nat \<Rightarrow> bool" where
  "is_high u \<longleftrightarrow> 0xD800 \<le> u \<and> u \<le> 0xDBFF"

definition is_low :: "nat \<Rightarrow> bool" where
  "is_low u \<longleftrightarrow> 0xDC00 \<le> u \<and> u \<le> 0xDFFF"

definition join_surrogates :: "nat \<Rightarrow> nat \<Rightarrow> nat" where
  "join_surrogates u l = 0x10000 + (u - 0xD800) * 1024 + (l - 0xDC00)"

text \<open>
  One \<^verbatim>\<open>\uXXXX\<close> escape after its \<^verbatim>\<open>\u\<close>; a high surrogate that is followed by an escaped low one is read
  together with it.
\<close>

definition scan_unicode :: "pystr \<Rightarrow> (nat \<times> pystr) option" where
  "scan_unicode s =
     (case scan_hex4 s of None \<Rightarrow> None
      | Some (u, r) \<Rightarrow>
         if is_high u \<and> take 2 r = [92, 117]
         then (case scan_hex4 (drop 2 r) of None \<Rightarrow> None
               | Some (l, r') \<Rightarrow> if is_low l then Some (join_surrogates u l, r') else Some (u, r))
         else Some (u, r))"

lemma scan_hex4_length: "scan_hex4 s = Some (u, r) \<Longrightarrow> length r < length s"
  by (auto simp: scan_hex4_def split: list.splits option.splits)

lemma scan_unicode_length: "scan_unicode s = Some (u, r) \<Longrightarrow> length r < length s"
  by (auto simp: scan_unicode_def split: option.splits if_splits dest!: scan_hex4_length)

text \<open>The characters of a string after its opening quote.\<close>

definition cons_char :: "nat \<Rightarrow> (pystr \<times> pystr) res \<Rightarrow> (pystr \<times> pystr) res" where
  "cons_char c r = (case r of Inl e \<Rightarrow> Inl e | Inr (cs, t) \<Rightarrow> Inr (c # cs, t))"

function scan_chars :: "pystr \<Rightarrow> (pystr \<times> pystr) res" where
  "scan_chars [] = Inl (ValueError ''Unterminated string'')"
| "scan_chars (c # s) =
     (if c = 34 then Inr ([], s)
      else if c = 92 then
        (case s of [] \<Rightarrow> Inl (ValueError ''Unterminated string'')
         | e # s' \<Rightarrow>
            if e = 117
            then (case scan_unicode s' of None \<Rightarrow> Inl (ValueError ''Invalid uXXXX escape'')
                  | Some (u, r) \<Rightarrow> cons_char u (scan_chars r))
            else (case unescape e of None \<Rightarrow> Inl (ValueError ''Invalid escape'')
                  | Some d \<Rightarrow> cons_char d (scan_chars s')))
      else if c \<le> 0x1F then Inl (ValueError ''Invalid control character'')
      else cons_char c (scan_chars s))"
  by pat_completeness auto

termination
  by (relation "measure length") (auto dest: scan_unicode_length)

text \<open>
  The number token \<^verbatim>\<open>(-?(?:0|[1-9]\d*))(\.\d+)?([eE][-+]?\d+)?\<close>: the integer part, the fraction with
  its point and the exponent with its letter.
\<close>

definition scan_int_part :: "pystr \<Rightarrow> pystr" where
  "scan_int_part s = (if take 1 s = [48] then [48] else takeWhile digit s)"

definition scan_frac_part :: "pystr \<Rightarrow> pystr" where
  "scan_frac_part s =
     (if take 1 s = [46] \<and> takeWhile digit (drop 1 s) \<noteq> [] then 46 # takeWhile digit (drop 1 s) else [])"

definition scan_exp_part :: "pystr \<Rightarrow> pystr" where
  "scan_exp_part s =
     (if take 1 s = [101] \<or> take 1 s = [69]
      then let sg = (if take 1 (drop 1 s) = [43] \<or> take 1 (drop 1 s) = [45] then 1 else 0);
               ds = takeWhile digit (drop (1 + sg) s)
           in if ds = [] then [] else take (1 + sg) s @ ds
      else [])"

definition scan_number :: "pystr \<Rightarrow> (pystr \<times> pystr \<times> pystr) option" where
  "scan_number s =
     (let sg = (if take 1 s = [45] then [45] else []); s1 = drop (length sg) s; ip = scan_int_part s1 in
      if ip = [] then None
      else let s2 = drop (length ip) s1; fr = scan_frac_part s2; ex = scan_exp_part (drop (length fr) s2)
           in Some (sg @ ip, fr, ex))"

text \<open>The hooks of \<^verbatim>\<open>json.loads\<close> and the value scanner.\<close>

record json_hooks =
  object_pairs_hook :: "(pystr \<times> pyval) list \<Rightarrow> pyval res"
  parse_float :: "pystr \<Rightarrow> pyval res"
  parse_int :: "pystr \<Rightarrow> pyval res"
  parse_constant :: "pystr \<Rightarrow> pyval res"

definition with_rest :: "pyval res \<Rightarrow> pystr \<Rightarrow> (pyval \<times> pystr) res" where
  "with_rest r s = (case r of Inl e \<Rightarrow> Inl e | Inr v \<Rightarrow> Inr (v, s))"

definition scan_atom :: "json_hooks \<Rightarrow> pystr \<Rightarrow> (pyval \<times> pystr) res" where
  "scan_atom h s =
     (if startswith s (lit ''null'') then Inr (PNone, drop 4 s)
      else if startswith s (lit ''true'') then Inr (PBool True, drop 4 s)
      else if startswith s (lit ''false'') then Inr (PBool False, drop 5 s)
      else if startswith s (lit ''NaN'') then with_rest (parse_constant h (lit ''NaN'')) (drop 3 s)
      else if startswith s (lit ''Infinity'') then with_rest (parse_constant h (lit ''Infinity'')) (drop 8 s)
      else if startswith s (lit ''-Infinity'') then with_rest (parse_constant h (lit ''-Infinity'')) (drop 9 s)
      else case scan_number s of
             None \<Rightarrow> Inl (ValueError ''Expecting value'')
           | Some (ip, fr, ex) \<Rightarrow>
               with_rest (if fr = [] \<and> ex = [] then parse_int h ip else parse_float h (ip @ fr @ ex))
                 (drop (length ip + length fr + length ex) s))"

fun scan_value :: "json_hooks \<Rightarrow> nat \<Rightarrow> pystr \<Rightarrow> (pyval \<times> pystr) res"
  and scan_items :: "json_hooks \<Rightarrow> nat \<Rightarrow> pystr \<Rightarrow> (pyval list \<times> pystr) res"
  and scan_pairs :: "json_hooks \<Rightarrow> nat \<Rightarrow> pystr \<Rightarrow> ((pystr \<times> pyval) list \<times> pystr) res" where
  "scan_value h 0 s = Inl NoReturn"
| "scan_value h (Suc n) s =
     (case s of [] \<Rightarrow> Inl (ValueError ''Expecting value'')
      | c # r \<Rightarrow>
         if c = 34 then (case scan_chars r of Inl e \<Rightarrow> Inl e | Inr (t, r') \<Rightarrow> Inr (PStr t, r'))
         else if c = 123 then
           (if take 1 (skip_ws r) = [125] then with_rest (object_pairs_hook h []) (drop 1 (skip_ws r))
            else case scan_pairs h n (skip_ws r) of Inl e \<Rightarrow> Inl e
                 | Inr (kvs, r') \<Rightarrow> with_rest (object_pairs_hook h kvs) r')
         else if c = 91 then
           (if take 1 (skip_ws r) = [93] then Inr (PList [], drop 1 (skip_ws r))
            else case scan_items h n (skip_ws r) of Inl e \<Rightarrow> Inl e | Inr (xs, r') \<Rightarrow> Inr (PList xs, r'))
         else scan_atom h s)"
| "scan_items h 0 s = Inl NoReturn"
| "scan_items h (Suc n) s =
     (case scan_value h n s of Inl e \<Rightarrow> Inl e
      | Inr (v, r) \<Rightarrow>
         (case skip_ws r of [] \<Rightarrow> Inl (ValueError ''Expecting delimiter'')
          | c # r' \<Rightarrow>
             if c = 93 then Inr ([v], r')
             else if c = 44 then (case scan_items h n (skip_ws r') of Inl e \<Rightarrow> Inl e
                                  | Inr (vs, r'') \<Rightarrow> Inr (v # vs, r''))
             else Inl (ValueError ''Expecting delimiter'')))"
| "scan_pairs h 0 s = Inl NoReturn"
| "scan_pairs h (Suc n) s =
     (if take 1 s \<noteq> [34] then Inl (ValueError ''Expecting property name enclosed in double quotes'')
      else case scan_chars (drop 1 s) of Inl e \<Rightarrow> Inl e
      | Inr (k, r) \<Rightarrow>
         if take 1 (skip_ws r) \<noteq> [58] then Inl (ValueError ''Expecting colon delimiter'')
         else (case scan_value h n (skip_ws (drop 1 (skip_ws r))) of Inl e \<Rightarrow> Inl e
          | Inr (v, r1) \<Rightarrow>
             (case skip_ws r1 of [] \<Rightarrow> Inl (ValueError ''Expecting delimiter'')
              | c # r2 \<Rightarrow>
                 if c = 125 then Inr ([(k, v)], r2)
                 else if c = 44 then (case scan_pairs h n (skip_ws r2) of Inl e \<Rightarrow> Inl e
                                      | Inr (kvs, r3) \<Rightarrow> Inr ((k, v) # kvs, r3))
                 else Inl (ValueError ''Expecting delimiter''))))"

text \<open>
  A value, an item or a member starts a call, and each character starts at most two of them, so twice
  the length of the text is enough fuel; \<open>loads_returns\<close> below proves it.
\<close>

definition loads_with :: "json_hooks \<Rightarrow> pystr \<Rightarrow> pyval res" where
  "loads_with h s =
     (if take 1 s = [0xFEFF] then Inl (ValueError ''Unexpected UTF-8 BOM'')
      else case scan_value h (2 * length s + 2) (skip_ws s) of Inl e \<Rightarrow> Inl e
      | Inr (v, r) \<Rightarrow> if skip_ws r = [] then Inr v else Inl (ValueError ''Extra data''))"

text \<open>\<^verbatim>\<open>int(text)\<close> with its limit on the number of digits, and \<^verbatim>\<open>float(text)\<close>, of a number token.\<close>

definition int_digits_limit :: nat where
  "int_digits_limit = 4300"

definition int_token :: "pystr \<Rightarrow> pyval res" where
  "int_token t =
     (if int_digits_limit < length (filter digit t)
      then Inl (ValueError ''Exceeds the limit for integer string conversion'') else Inr (PInt (int_of_text t)))"

definition decimal_value :: "pystr \<times> pystr \<times> pystr \<Rightarrow> rat" where
  "decimal_value = (\<lambda>(ip, fr, ex).
     let ds = filter digit ip @ drop 1 fr;
         e = (if ex = [] then 0 else int_of_text (drop 1 ex)) - int (length (drop 1 fr));
         v = of_nat (nat_of_digits ds) * rpow 10 e
     in if take 1 ip = [45] then - v else v)"

definition float_token :: "pystr \<Rightarrow> pyval res" where
  "float_token t =
     (case scan_number t of None \<Rightarrow> Inl (ValueError ''could not convert string to float'')
      | Some parts \<Rightarrow> Inr (PFloat (round64 (decimal_value parts))))"

definition constant_token :: "pystr \<Rightarrow> pyval res" where
  "constant_token t =
     Inr (PFloat (if t = lit ''NaN'' then FNan else FInf (t = lit ''-Infinity'')))"

definition object_of_pairs :: "(pystr \<times> pyval) list \<Rightarrow> pyval res" where
  "object_of_pairs kvs = Inr (PDict (dict_of (map (\<lambda>(k, v). (KStr k, v)) kvs)))"

definition default_hooks :: json_hooks where
  "default_hooks = \<lparr>object_pairs_hook = object_of_pairs, parse_float = float_token, parse_int = int_token,
     parse_constant = constant_token\<rparr>"

definition loads :: "pystr \<Rightarrow> pyval res" where
  "loads s = loads_with default_hooks s"

section \<open>Printing\<close>

definition ascii_char :: "nat \<Rightarrow> pystr" where
  "ascii_char c =
     (if c = 34 then [92, 34] else if c = 92 then [92, 92] else if c = 10 then [92, 110]
      else if c = 13 then [92, 114] else if c = 9 then [92, 116] else if c = 12 then [92, 102]
      else if c = 8 then [92, 98] else if 32 \<le> c \<and> c \<le> 126 then [c]
      else if c < 0x10000 then [92, 117] @ hex4 c
      else [92, 117] @ hex4 (0xD800 + (c - 0x10000) div 1024) @ [92, 117] @ hex4 (0xDC00 + (c - 0x10000) mod 1024))"

definition quote_ascii :: "pystr \<Rightarrow> pystr" where
  "quote_ascii s = [34] @ concat (map ascii_char s) @ [34]"

definition dumps_int :: "int \<Rightarrow> pystr res" where
  "dumps_int i =
     (if int_digits_limit < length (dec_nat (nat \<bar>i\<bar>))
      then Inl (ValueError ''Exceeds the limit for integer string conversion'') else Inr (dec_int i))"

definition float_text :: "pyfloat \<Rightarrow> pystr" where
  "float_text f =
     (case f of FNan \<Rightarrow> lit ''NaN'' | FInf s \<Rightarrow> if s then lit ''-Infinity'' else lit ''Infinity''
      | FFin x \<Rightarrow> if x = 0 then lit ''0.0'' else (if x < 0 then [45] else []) @ float_repr \<bar>x\<bar>)"

definition member_text :: "pystr \<Rightarrow> pystr res \<Rightarrow> pystr res" where
  "member_text k r = (case r of Inl e \<Rightarrow> Inl e | Inr t \<Rightarrow> Inr (quote_ascii k @ [58] @ t))"

fun dumps :: "pyval \<Rightarrow> pystr res" where
  "dumps PNone = Inr (lit ''null'')"
| "dumps (PBool b) = Inr (if b then lit ''true'' else lit ''false'')"
| "dumps (PStr s) = Inr (quote_ascii s)"
| "dumps (PInt i) = dumps_int i"
| "dumps (PFloat f) = Inr (float_text f)"
| "dumps (PDict kvs) =
     (if list_ex (\<lambda>(k, v). \<not> is_KStr k) kvs
      then Inl (TypeError ''keys must be str, int, float, bool or None'')
      else case sequence_res (map snd (sort_key fst
               (map (\<lambda>(k, v). (key_text k, member_text (key_text k) (dumps v))) kvs)))
           of Inl e \<Rightarrow> Inl e | Inr es \<Rightarrow> Inr ([123] @ join_with [44] es @ [125]))"
| "dumps (PList xs) =
     (case sequence_res (map dumps xs) of Inl e \<Rightarrow> Inl e | Inr es \<Rightarrow> Inr ([91] @ join_with [44] es @ [93]))"
| "dumps (PTuple xs) =
     (case sequence_res (map dumps xs) of Inl e \<Rightarrow> Inl e | Inr es \<Rightarrow> Inr ([91] @ join_with [44] es @ [93]))"
| "dumps (PBytes b) = Inl (TypeError ''Object is not JSON serializable'')"
| "dumps (PObject n) = Inl (TypeError ''Object is not JSON serializable'')"

section \<open>The strict parser of canonical.py\<close>

definition i_json_hooks :: json_hooks where
  "i_json_hooks =
     \<lparr>object_pairs_hook = (\<lambda>kvs. case reject_duplicate_keys kvs of Inl e \<Rightarrow> Inl e | Inr d \<Rightarrow> Inr (PDict d)),
      parse_float = float_token, parse_int = parse_integer, parse_constant = reject_constant\<rparr>"

definition load_i_json :: "pystr \<Rightarrow> pyval res" where
  "load_i_json document =
     (case loads_with i_json_hooks document of
        Inl e \<Rightarrow> (case e of ValueError m \<Rightarrow> Inl (CanonicalizationError ''invalid I-JSON document'') | _ \<Rightarrow> Inl e)
      | Inr parsed \<Rightarrow> (case canonicalize parsed of Inl e \<Rightarrow> Inl e | Inr _ \<Rightarrow> Inr parsed))"

section \<open>The scanner always returns\<close>

lemma skip_ws_length: "length (skip_ws s) \<le> length s"
  by (simp add: skip_ws_def length_dropWhile_le)

lemma scan_chars_length: "scan_chars s = Inr (t, r) \<Longrightarrow> length r < length s"
proof (induction s arbitrary: t rule: scan_chars.induct)
  case (2 c s)
  show ?case
  proof (cases "c = 34 \<or> c \<noteq> 92")
    case True
    then show ?thesis using "2.prems" "2.IH"(3) by (fastforce simp: cons_char_def split: if_splits sum.splits)
  next
    case False
    then have c: "c = 92" by simp
    with "2.prems" obtain e s' where s: "s = e # s'" by (cases s) auto
    show ?thesis
    proof (cases "e = 117")
      case True
      with "2.prems" c s obtain u r' where u: "scan_unicode s' = Some (u, r')" "cons_char u (scan_chars r') = Inr (t, r)"
        by (auto split: option.splits)
      then obtain t' where "scan_chars r' = Inr (t', r)" by (auto simp: cons_char_def split: sum.splits)
      with "2.IH"(1) [of e s' _ u r' t'] c s True u(1) have "length r < length r'" by simp
      with scan_unicode_length [OF u(1)] s show ?thesis by simp
    next
      case False
      with "2.prems" c s obtain d where u: "unescape e = Some d" "cons_char d (scan_chars s') = Inr (t, r)"
        by (auto split: option.splits)
      then obtain t' where "scan_chars s' = Inr (t', r)" by (auto simp: cons_char_def split: sum.splits)
      with "2.IH"(2) [of e s' d t'] c s False u(1) show ?thesis by simp
    qed
  qed
qed simp

lemma scan_atom_length: "scan_atom h s = Inr (v, r) \<Longrightarrow> length r \<le> length s"
  by (auto simp: scan_atom_def with_rest_def split: if_splits sum.splits option.splits)

lemma skip_ws_Cons: "skip_ws r = c # r' \<Longrightarrow> length r' < length r"
  using skip_ws_length [of r] by simp

lemma scan_length:
  "scan_value h n s = Inr (v, r) \<Longrightarrow> length r \<le> length s"
  "scan_items h n s = Inr (vs, r) \<Longrightarrow> length r \<le> length s"
  "scan_pairs h n s = Inr (kvs, r) \<Longrightarrow> length r \<le> length s"
proof (induction h n s and h n s and h n s arbitrary: v r and vs r and kvs r
    rule: scan_value_scan_items_scan_pairs.induct)
  case (2 h n s)
  show ?case
  proof (cases s)
    case (Cons c t)
    have "length (skip_ws t) \<le> length t" by (rule skip_ws_length)
    with 2 Cons show ?thesis
      by (fastforce simp: with_rest_def split: if_splits sum.splits prod.splits
          dest: scan_chars_length scan_atom_length)
  qed (use 2 in simp)
next
  case (4 h n s)
  from "4.prems" obtain v r1 c r2 where v: "scan_value h n s = Inr (v, r1)" and c: "skip_ws r1 = c # r2"
    and rest: "c = 93 \<and> r = r2 \<or> c = 44 \<and> (\<exists>us. scan_items h n (skip_ws r2) = Inr (us, r))"
    by (auto split: sum.splits list.splits if_splits)
  from "4.IH"(1) [OF v] have "length r1 \<le> length s" .
  with skip_ws_Cons [OF c] have "length r2 \<le> length s" by simp
  moreover have "length r \<le> length r2"
    using rest "4.IH"(2) [OF v refl c] skip_ws_length [of r2] by fastforce
  ultimately show ?case by simp
next
  case (6 h n s)
  from "6.prems" obtain k r0 v r1 c r2 where k: "take 1 s = [34]" "scan_chars (drop 1 s) = Inr (k, r0)"
    and d: "take 1 (skip_ws r0) = [58]"
    and v: "scan_value h n (skip_ws (drop 1 (skip_ws r0))) = Inr (v, r1)" and c: "skip_ws r1 = c # r2"
    and rest: "c = 125 \<and> r = r2 \<or> c = 44 \<and> (\<exists>us. scan_pairs h n (skip_ws r2) = Inr (us, r))"
    by (auto split: sum.splits list.splits if_splits)
  have "length r1 \<le> length (skip_ws (drop 1 (skip_ws r0)))"
    using "6.IH"(1) [OF _ k(2) refl _ v] k(1) d by simp
  also have "\<dots> \<le> length r0"
    using skip_ws_length [of "drop 1 (skip_ws r0)"] skip_ws_length [of r0] by simp
  also have "\<dots> \<le> length s" using scan_chars_length [OF k(2)] by simp
  finally have "length r2 \<le> length s" using skip_ws_Cons [OF c] by simp
  moreover have "length r \<le> length r2"
    using rest "6.IH"(2) [OF _ k(2) refl _ v refl c] k(1) d skip_ws_length [of r2] by fastforce
  ultimately show ?case by simp
qed auto

text \<open>Hooks that return do not make the scanner run out of fuel.\<close>

definition hooks_return :: "json_hooks \<Rightarrow> bool" where
  "hooks_return h \<longleftrightarrow> (\<forall>kvs. object_pairs_hook h kvs \<noteq> Inl NoReturn) \<and> (\<forall>t. parse_float h t \<noteq> Inl NoReturn)
     \<and> (\<forall>t. parse_int h t \<noteq> Inl NoReturn) \<and> (\<forall>t. parse_constant h t \<noteq> Inl NoReturn)"

lemma scan_chars_returns: "scan_chars s \<noteq> Inl NoReturn"
proof (induction s rule: scan_chars.induct)
  case (2 c s)
  have cons: "cons_char d r \<noteq> Inl NoReturn" if "r \<noteq> Inl NoReturn" for d r
    using that by (auto simp: cons_char_def split: sum.splits)
  from 2 show ?case
    by (simp add: cons del: scan_chars.simps add: scan_chars.simps(2) split: list.split option.split)
qed simp

lemma with_rest_returns: "r \<noteq> Inl NoReturn \<Longrightarrow> with_rest r s \<noteq> Inl NoReturn"
  by (auto simp: with_rest_def split: sum.splits)

lemma scan_atom_returns: "hooks_return h \<Longrightarrow> scan_atom h s \<noteq> Inl NoReturn"
  by (simp add: scan_atom_def hooks_return_def with_rest_returns split: option.split)

lemma scan_returns:
  "hooks_return h \<Longrightarrow> 2 * length s + 1 \<le> n \<Longrightarrow> scan_value h n s \<noteq> Inl NoReturn"
  "hooks_return h \<Longrightarrow> 2 * length s + 2 \<le> n \<Longrightarrow> scan_items h n s \<noteq> Inl NoReturn"
  "hooks_return h \<Longrightarrow> 2 * length s + 2 \<le> n \<Longrightarrow> scan_pairs h n s \<noteq> Inl NoReturn"
proof (induction h n s and h n s and h n s rule: scan_value_scan_items_scan_pairs.induct)
  case (2 h n s)
  show ?case
  proof (cases s)
    case (Cons c t)
    have fuel: "2 * length (skip_ws t) + 2 \<le> n"
      using skip_ws_length [of t] "2.prems"(2) Cons by simp
    have h: "object_pairs_hook h kvs \<noteq> Inl NoReturn" for kvs
      using "2.prems"(1) by (simp add: hooks_return_def)
    have items: "c = 91 \<Longrightarrow> take 1 (skip_ws t) \<noteq> [93] \<Longrightarrow> scan_items h n (skip_ws t) \<noteq> Inl NoReturn"
      and pairs: "c = 123 \<Longrightarrow> take 1 (skip_ws t) \<noteq> [125] \<Longrightarrow> scan_pairs h n (skip_ws t) \<noteq> Inl NoReturn"
      using "2.IH"(1) [OF Cons _ _ _ "2.prems"(1) fuel] "2.IH"(2) [OF Cons _ _ _ _ "2.prems"(1) fuel] by auto
    show ?thesis
      using items pairs scan_chars_returns [of t] scan_atom_returns [OF "2.prems"(1), of s] Cons
      by (auto simp: with_rest_returns h simp del: One_nat_def split: sum.splits)
  qed simp
next
  case (4 h n s)
  have v: "scan_value h n s \<noteq> Inl NoReturn"
    using "4.IH"(1) "4.prems" by simp
  have rest: "scan_items h n (skip_ws r') \<noteq> Inl NoReturn"
    if val: "scan_value h n s = Inr (v, r)" and c: "skip_ws r = 44 # r'" for v r r'
  proof (rule "4.IH"(2) [OF val refl c])
    show "2 * length (skip_ws r') + 2 \<le> n"
      using scan_length(1) [OF val] skip_ws_Cons [OF c] skip_ws_length [of r'] "4.prems"(2) by simp
  qed (use "4.prems" in auto)
  show ?case using v rest by (auto split: sum.splits list.splits)
next
  case (6 h n s)
  show ?case
  proof (cases "take 1 s = [34]")
    case True
    have s0: "length (skip_ws (drop 1 (skip_ws r))) < length s" if "scan_chars (drop 1 s) = Inr (k, r)" for k r
      using scan_chars_length [OF that] skip_ws_length [of r] skip_ws_length [of "drop 1 (skip_ws r)"] True
      by (cases s) auto
    have v: "scan_value h n (skip_ws (drop 1 (skip_ws r))) \<noteq> Inl NoReturn"
      if "scan_chars (drop 1 s) = Inr (k, r)" "take 1 (skip_ws r) = [58]" for k r
      using "6.IH"(1) [OF _ that(1) refl] that s0 [OF that(1)] True "6.prems" by simp
    have rest: "scan_pairs h n (skip_ws r2) \<noteq> Inl NoReturn"
      if k: "scan_chars (drop 1 s) = Inr (k, r)" "take 1 (skip_ws r) = [58]"
        and val: "scan_value h n (skip_ws (drop 1 (skip_ws r))) = Inr (v, r1)" and c: "skip_ws r1 = 44 # r2"
      for k r v r1 r2
    proof (rule "6.IH"(2) [OF _ k(1) refl _ val refl c])
      show "2 * length (skip_ws r2) + 2 \<le> n"
        using scan_length(1) [OF val] skip_ws_Cons [OF c] skip_ws_length [of r2] s0 [OF k(1)] "6.prems"(2) by simp
    qed (use k True "6.prems" in auto)
    show ?thesis
      using v rest scan_chars_returns [of "drop 1 s"] True
      by (auto split: sum.splits list.splits simp del: One_nat_def)
  qed simp
qed auto

lemma loads_with_returns: "hooks_return h \<Longrightarrow> loads_with h s \<noteq> Inl NoReturn"
  using scan_returns(1) [of h "skip_ws s" "2 * length s + 2"] skip_ws_length [of s]
  by (auto simp: loads_with_def split: sum.splits)

lemma reject_duplicate_keys_returns: "reject_duplicate_keys_from d kvs \<noteq> Inl NoReturn"
  by (induction d kvs rule: reject_duplicate_keys_from.induct) auto

lemma hooks_return_default: "hooks_return default_hooks"
  by (auto simp: hooks_return_def default_hooks_def object_of_pairs_def float_token_def int_token_def
      constant_token_def split: option.splits)

lemma hooks_return_i_json: "hooks_return i_json_hooks"
  using reject_duplicate_keys_returns
  by (auto simp: hooks_return_def i_json_hooks_def float_token_def parse_integer_def reject_constant_def
      reject_duplicate_keys_def split: option.splits pyfloat.splits sum.splits)

section \<open>Printed text is read back\<close>

fun jtext :: "(pystr \<Rightarrow> pystr) \<Rightarrow> jv \<Rightarrow> pystr" where
  "jtext q JNull = lit ''null''"
| "jtext q (JBool b) = (if b then lit ''true'' else lit ''false'')"
| "jtext q (JNum t) = t"
| "jtext q (JStr s) = q s"
| "jtext q (JArr xs) = [91] @ join_with [44] (map (jtext q) xs) @ [93]"
| "jtext q (JObj kvs) = [123] @ join_with [44] (map (\<lambda>(k, v). q k @ [58] @ jtext q v) kvs) @ [125]"

lemma render_jtext: "render j = jtext quote_string j"
proof (induction j)
  case (JArr xs)
  then have "map render xs = map (jtext quote_string) xs" by simp
  then show ?case unfolding render.simps jtext.simps by (simp only:)
next
  case (JObj kvs)
  then have "map (\<lambda>(k, v). quote_string k @ [58] @ render v) kvs = map (\<lambda>(k, v). quote_string k @ [58] @ jtext quote_string v) kvs"
    by auto
  then show ?case unfolding render.simps jtext.simps by (simp only:)
qed auto

text \<open>The value the hooks make of an abstract document, and the documents whose text the scanner can read.\<close>

definition atom_value :: "json_hooks \<Rightarrow> pystr \<Rightarrow> pyval res" where
  "atom_value h t = (case scan_atom h t of Inl e \<Rightarrow> Inl e | Inr (v, _) \<Rightarrow> Inr v)"

definition pair_value :: "pystr \<Rightarrow> pyval res \<Rightarrow> (pystr \<times> pyval) res" where
  "pair_value k r = (case r of Inl e \<Rightarrow> Inl e | Inr v \<Rightarrow> Inr (k, v))"

fun tree_value :: "json_hooks \<Rightarrow> jv \<Rightarrow> pyval res" where
  "tree_value h JNull = Inr PNone"
| "tree_value h (JBool b) = Inr (PBool b)"
| "tree_value h (JNum t) = atom_value h t"
| "tree_value h (JStr s) = Inr (PStr s)"
| "tree_value h (JArr xs) =
     (case sequence_res (map (tree_value h) xs) of Inl e \<Rightarrow> Inl e | Inr vs \<Rightarrow> Inr (PList vs))"
| "tree_value h (JObj kvs) =
     (case sequence_res (map (\<lambda>(k, v). pair_value k (tree_value h v)) kvs) of
        Inl e \<Rightarrow> Inl e | Inr ps \<Rightarrow> object_pairs_hook h ps)"

definition quote_ok :: "(pystr \<Rightarrow> pystr) \<Rightarrow> pystr \<Rightarrow> bool" where
  "quote_ok q s \<longleftrightarrow> (\<exists>b. q s = 34 # b \<and> (\<forall>r. scan_chars (b @ r) = Inr (s, r)))"

definition atom_ok :: "json_hooks \<Rightarrow> pystr \<Rightarrow> bool" where
  "atom_ok h t \<longleftrightarrow> t \<noteq> [] \<and> hd t \<notin> {34, 123, 91, 93, 125} \<and> \<not> is_ws (hd t)
     \<and> (\<forall>r. delimited r \<longrightarrow> scan_atom h (t @ r) = with_rest (atom_value h t) r)"

fun readable :: "json_hooks \<Rightarrow> (pystr \<Rightarrow> pystr) \<Rightarrow> jv \<Rightarrow> bool" where
  "readable h q JNull = True"
| "readable h q (JBool b) = True"
| "readable h q (JNum t) = atom_ok h t"
| "readable h q (JStr s) = quote_ok q s"
| "readable h q (JArr xs) = list_all (readable h q) xs"
| "readable h q (JObj kvs) = list_all (\<lambda>(k, v). quote_ok q k \<and> readable h q v) kvs"

lemma skip_ws_delimited: "delimited r \<Longrightarrow> skip_ws r = r"
  by (cases r) (auto simp: delimited_def skip_ws_def is_ws_def)

lemma jtext_hd:
  "readable h q j \<Longrightarrow> \<exists>c t. jtext q j = c # t \<and> \<not> is_ws c \<and> c \<noteq> 93 \<and> c \<noteq> 125"
  by (cases j) (auto simp: lit_def atom_ok_def quote_ok_def is_ws_def neq_Nil_conv)

lemma skip_ws_jtext: "readable h q j \<Longrightarrow> skip_ws (jtext q j @ r) = jtext q j @ r"
  using jtext_hd [of h q j] by (auto simp: skip_ws_def)


lemma scan_items_text:
  assumes "\<And>x n r v. x \<in> set xs \<Longrightarrow> tree_value h x = Inr v \<Longrightarrow> delimited r \<Longrightarrow> 2 * length (jtext q x) \<le> n \<Longrightarrow>
      scan_value h n (jtext q x @ r) = Inr (v, r)"
    and "list_all (readable h q) xs" "xs \<noteq> []" "map (tree_value h) xs = map Inr vs"
    and "2 * length (join_with [44] (map (jtext q) xs)) + 1 \<le> n"
  shows "scan_items h n (join_with [44] (map (jtext q) xs) @ 93 # r) = Inr (vs, r)"
  using assms
proof (induction xs arbitrary: n vs)
  case (Cons x xs)
  then obtain v vs' m where v: "tree_value h x = Inr v" and vs: "vs = v # vs'" "map (tree_value h) xs = map Inr vs'"
    and n: "n = Suc m" by (cases vs; cases n) auto
  show ?case
  proof (cases xs)
    case Nil
    then have "scan_value h m (jtext q x @ 93 # r) = Inr (v, 93 # r)"
      using Cons.prems(1) [OF _ v, of "93 # r" m] Cons.prems(5) n by simp
    then show ?thesis using Nil vs n by (simp add: skip_ws_delimited)
  next
    case (Cons y ys)
    let ?t = "join_with [44] (map (jtext q) xs)"
    have len: "length (join_with [44] (map (jtext q) (x # xs))) = length (jtext q x) + 1 + length ?t"
      using Cons by simp
    have "scan_value h m (jtext q x @ 44 # ?t @ 93 # r) = Inr (v, 44 # ?t @ 93 # r)"
      using Cons.prems(1) [OF _ v, of "44 # ?t @ 93 # r" m] Cons.prems(5) n len by simp
    moreover have "skip_ws (?t @ 93 # r) = ?t @ 93 # r"
      using Cons.prems(2) Cons skip_ws_jtext [of h q y] by (simp add: join_with_Cons)
    moreover have "scan_items h m (?t @ 93 # r) = Inr (vs', r)"
      using Cons.prems(2,5) Cons vs n len by (intro Cons.IH Cons.prems(1)) auto
    ultimately show ?thesis using Cons vs n by (simp add: skip_ws_delimited)
  qed
qed simp

lemma scan_pairs_text:
  assumes "\<And>k x n r v. (k, x) \<in> set kvs \<Longrightarrow> tree_value h x = Inr v \<Longrightarrow> delimited r \<Longrightarrow> 2 * length (jtext q x) \<le> n \<Longrightarrow>
      scan_value h n (jtext q x @ r) = Inr (v, r)"
    and "list_all (\<lambda>(k, v). quote_ok q k \<and> readable h q v) kvs" "kvs \<noteq> []"
    and "map (\<lambda>(k, v). pair_value k (tree_value h v)) kvs = map Inr ps"
    and "2 * length (join_with [44] (map (\<lambda>(k, v). q k @ [58] @ jtext q v) kvs)) + 1 \<le> n"
  shows "scan_pairs h n (join_with [44] (map (\<lambda>(k, v). q k @ [58] @ jtext q v) kvs) @ 125 # r) = Inr (ps, r)"
  using assms
proof (induction kvs arbitrary: n ps)
  case (Cons kx kvs)
  obtain k x where kx: "kx = (k, x)" by (cases kx)
  with Cons.prems(4) obtain v ps' where v: "tree_value h x = Inr v" and ps: "ps = (k, v) # ps'"
    "map (\<lambda>(k, v). pair_value k (tree_value h v)) kvs = map Inr ps'"
    by (cases ps) (auto simp: pair_value_def split: sum.splits)
  from Cons.prems(5) obtain m where n: "n = Suc m" by (cases n) auto
  from Cons.prems(2) kx obtain b where b: "q k = 34 # b" "\<And>s. scan_chars (b @ s) = Inr (k, s)" and x: "readable h q x"
    by (auto simp: quote_ok_def)
  let ?f = "\<lambda>(k, v). q k @ [58] @ jtext q v"
  show ?case
  proof (cases kvs)
    case Nil
    then have "scan_value h m (jtext q x @ 125 # r) = Inr (v, 125 # r)"
      using Cons.prems(1) [OF _ v, of k "125 # r" m] Cons.prems(5) n kx by simp
    then show ?thesis using Nil ps n kx b skip_ws_jtext [OF x]
      by (simp add: skip_ws_delimited) (simp add: skip_ws_def is_ws_def)
  next
    case (Cons ky kvs')
    let ?t = "join_with [44] (map ?f kvs)"
    have len: "length (join_with [44] (map ?f (kx # kvs))) = length (q k) + 1 + length (jtext q x) + 1 + length ?t"
      using Cons kx by simp
    have "scan_value h m (jtext q x @ 44 # ?t @ 125 # r) = Inr (v, 44 # ?t @ 125 # r)"
      using Cons.prems(1) [OF _ v, of k "44 # ?t @ 125 # r" m] Cons.prems(5) n len kx by simp
    moreover have "skip_ws (?t @ 125 # r) = ?t @ 125 # r"
      using Cons.prems(2) Cons by (auto simp: join_with_Cons quote_ok_def skip_ws_def is_ws_def)
    moreover have "scan_pairs h m (?t @ 125 # r) = Inr (ps', r)"
      using Cons.prems(2,5) Cons ps n len by (intro Cons.IH Cons.prems(1)) auto
    ultimately show ?thesis using Cons ps n kx b skip_ws_jtext [OF x]
      by (simp add: skip_ws_delimited) (simp add: skip_ws_def is_ws_def)
  qed
qed simp

lemma scan_value_text:
  "readable h q j \<Longrightarrow> tree_value h j = Inr v \<Longrightarrow> delimited r \<Longrightarrow> 2 * length (jtext q j) \<le> n \<Longrightarrow>
     scan_value h n (jtext q j @ r) = Inr (v, r)"
proof (induction j arbitrary: n r v)
  case (JNum t)
  then obtain m where "n = Suc m" by (cases n) (auto simp: atom_ok_def)
  with JNum show ?case by (cases t) (auto simp: atom_ok_def with_rest_def)
next
  case (JStr s)
  then obtain m where "n = Suc m" by (cases n) (auto simp: quote_ok_def)
  with JStr show ?case by (auto simp: quote_ok_def)
next
  case (JArr xs)
  then obtain vs m where vs: "map (tree_value h) xs = map Inr vs" "v = PList vs" and n: "n = Suc m"
    by (cases n) (auto simp: sequence_res_Inr_iff split: sum.splits)
  show ?case
  proof (cases xs)
    case Nil
    with vs n show ?thesis by (simp add: skip_ws_delimited)
  next
    case (Cons x xs')
    let ?t = "join_with [44] (map (jtext q) xs)"
    obtain c t where hd: "jtext q x = c # t" "\<not> is_ws c" "c \<noteq> 93"
      using jtext_hd [of h q x] JArr.prems(1) Cons by auto
    have "scan_items h m (?t @ 93 # r) = Inr (vs, r)"
      using JArr.prems vs Cons n by (intro scan_items_text JArr.IH) (auto simp: list_all_iff)
    moreover have "\<exists>u. ?t = c # u" using hd Cons by (simp add: join_with_Cons)
    ultimately show ?thesis using vs n hd by (auto simp: skip_ws_def)
  qed
next
  case (JObj kvs)
  then obtain ps m where ps: "map (\<lambda>(k, v). pair_value k (tree_value h v)) kvs = map Inr ps"
    "object_pairs_hook h ps = Inr v" and n: "n = Suc m"
    by (cases n) (auto simp: sequence_res_Inr_iff split: sum.splits)
  show ?case
  proof (cases kvs)
    case Nil
    with ps n show ?thesis by (simp add: skip_ws_delimited with_rest_def)
  next
    case (Cons kx kvs')
    let ?t = "join_with [44] (map (\<lambda>(k, v). q k @ [58] @ jtext q v) kvs)"
    have "scan_pairs h m (?t @ 125 # r) = Inr (ps, r)"
    proof (rule scan_pairs_text)
      fix k x n r v assume kx: "(k, x) \<in> set kvs" and "tree_value h x = Inr v" "delimited r" "2 * length (jtext q x) \<le> n"
      moreover have "readable h q x" using kx JObj.prems(1) by (auto simp: list_all_iff)
      ultimately show "scan_value h n (jtext q x @ r) = Inr (v, r)" by (intro JObj.IH [of "(k, x)" x]) auto
    qed (use JObj.prems ps Cons n in auto)
    moreover have "\<exists>u. ?t = 34 # u"
      using Cons JObj.prems(1) by (auto simp: join_with_Cons quote_ok_def)
    ultimately show ?thesis using ps n by (auto simp: skip_ws_def is_ws_def with_rest_def)
  qed
next
  case JNull
  then obtain m where "n = Suc m" by (cases n) auto
  with JNull show ?case by (simp add: lit_def scan_atom_def)
next
  case (JBool b)
  then obtain m where "n = Suc m" by (cases n; cases b) (auto simp: lit_def)
  with JBool show ?case by (cases b) (auto simp: lit_def scan_atom_def)
qed

theorem loads_with_text:
  assumes "readable h q j" "tree_value h j = Inr v" "take 1 (jtext q j) \<noteq> [0xFEFF]"
  shows "loads_with h (jtext q j) = Inr v"
proof -
  have "skip_ws (jtext q j) = jtext q j" using skip_ws_jtext [OF assms(1), of "[]"] by simp
  moreover have "scan_value h (2 * length (jtext q j) + 2) (jtext q j) = Inr (v, [])"
    using scan_value_text [OF assms(1,2), of "[]" "2 * length (jtext q j) + 2"] by (simp del: scan_value.simps)
  ultimately show ?thesis using assms(3) by (simp add: loads_with_def skip_ws_def)
qed

section \<open>Quoted strings\<close>

lemma hex_char_value_digit: "d < 16 \<Longrightarrow> hex_char_value (hex_digit d) = Some d"
  by (auto simp: hex_char_value_def hex_digit_def digit_def)

lemma hex_positions:
  "16 * f + p = e \<Longrightarrow> 16 * e + q = d \<Longrightarrow> 16 * d + r = c \<Longrightarrow> 4096 * f + 256 * p + 16 * q + r = (c :: nat)"
  by linarith

lemma scan_hex4_hex4: "c < 0x10000 \<Longrightarrow> scan_hex4 (hex4 c @ r) = Some (c, r)"
proof -
  assume c: "c < 0x10000"
  define d where "d = c div 16"
  define e where "e = d div 16"
  have "e < 256" using c by (simp add: e_def d_def div_mult2_eq [symmetric])
  then have "16 * (e div 16 mod 16) + e mod 16 = e" by simp
  moreover have "16 * e + d mod 16 = d" "16 * d + c mod 16 = c"
    by (simp_all add: d_def e_def)
  ultimately have "4096 * (e div 16 mod 16) + 256 * (e mod 16) + 16 * (d mod 16) + c mod 16 = c"
    by (rule hex_positions)
  moreover have "c div 4096 = e div 16" "c div 256 = e" "c div 16 = d"
    by (simp_all add: e_def d_def div_mult2_eq [symmetric])
  ultimately have "4096 * (c div 4096 mod 16) + 256 * (c div 256 mod 16) + 16 * (c div 16 mod 16) + c mod 16 = c"
    by (simp only:)
  moreover have "c div 4096 < 16" using c by simp
  ultimately show ?thesis by (simp add: scan_hex4_def hex4_def upt_rec hex_char_value_digit)
qed

lemma scan_chars_escape:
  assumes "\<not> is_surrogate c"
  shows "scan_chars (escape_char c @ s) = cons_char c (scan_chars s)"
proof -
  have "scan_unicode (hex4 c @ s) = Some (c, s)" if "c \<le> 31"
    using that by (simp add: scan_unicode_def scan_hex4_hex4 is_high_def)
  then show ?thesis by (simp add: escape_char_def unescape_def)
qed

lemma scan_chars_quoted:
  assumes "\<And>c r. P c \<Longrightarrow> scan_chars (f c @ r) = cons_char c (scan_chars r)" "list_all P s"
  shows "scan_chars (concat (map f s) @ 34 # r) = Inr (s, r)"
  using assms(2) by (induction s) (auto simp: assms(1) cons_char_def)

lemma quote_ok_string: "\<not> list_ex is_surrogate s \<Longrightarrow> quote_ok quote_string s"
  using scan_chars_quoted [of "\<lambda>c. \<not> is_surrogate c" escape_char s] scan_chars_escape
  by (auto simp: quote_ok_def quote_string_def list_all_iff list_ex_iff)

lemma scan_chars_ascii:
  assumes "c < 0x110000 \<and> \<not> is_surrogate c"
  shows "scan_chars (ascii_char c @ s) = cons_char c (scan_chars s)"
proof (cases "c < 0x10000")
  case True
  have "scan_unicode (hex4 c @ s) = Some (c, s)"
    using True assms by (auto simp: scan_unicode_def scan_hex4_hex4 is_high_def is_surrogate_def)
  with True show ?thesis by (simp add: ascii_char_def unescape_def)
next
  case False
  let ?u = "0xD800 + (c - 0x10000) div 1024" and ?l = "0xDC00 + (c - 0x10000) mod 1024"
  have u: "?u < 0x10000" "is_high ?u" using assms by (auto simp: is_high_def)
  have l: "?l < 0x10000" "is_low ?l" using mod_less_divisor [of 1024 "c - 0x10000"] by (auto simp: is_low_def simp del: mod_less_divisor)
  have "join_surrogates ?u ?l = c"
    using False div_mult_mod_eq [of "c - 0x10000" 1024] by (simp add: join_surrogates_def)
  then have "scan_unicode (hex4 ?u @ [92, 117] @ hex4 ?l @ s) = Some (c, s)"
    using u l by (simp add: scan_unicode_def scan_hex4_hex4)
  with False show ?thesis by (simp add: ascii_char_def)
qed

lemma quote_ok_ascii: "text_ok s \<Longrightarrow> quote_ok quote_ascii s"
  using scan_chars_quoted [of "\<lambda>c. c < 0x110000 \<and> \<not> is_surrogate c" ascii_char s] scan_chars_ascii
  by (auto simp: quote_ok_def quote_ascii_def text_ok_def)

section \<open>Number tokens\<close>

definition frac_ok :: "pystr \<Rightarrow> bool" where
  "frac_ok fr \<longleftrightarrow> fr = [] \<or> (\<exists>ds. fr = 46 # ds \<and> ds \<noteq> [] \<and> list_all digit ds)"

definition exp_ok :: "pystr \<Rightarrow> bool" where
  "exp_ok ex \<longleftrightarrow> ex = [] \<or> (\<exists>sg ds. ex = 101 # sg @ ds \<and> (sg = [] \<or> sg = [43] \<or> sg = [45]) \<and> ds \<noteq> [] \<and> list_all digit ds)"

definition int_ok :: "pystr \<Rightarrow> bool" where
  "int_ok ip \<longleftrightarrow> ip \<noteq> [] \<and> list_all digit ip \<and> (ip = [48] \<or> hd ip \<noteq> 48)"

definition sign_text :: "bool \<Rightarrow> pystr" where
  "sign_text neg = (if neg then [45] else [])"

lemma takeWhile_digits:
  assumes "list_all digit ds" "r = [] \<or> \<not> digit (hd r)"
  shows "takeWhile digit (ds @ r) = ds"
  using assms by (cases r) (auto simp: list_all_iff takeWhile_append)

lemma delimited_char: "delimited r \<Longrightarrow> r = [] \<or> hd r = 44 \<or> hd r = 93 \<or> hd r = 125"
  by (cases r) (auto simp: delimited_def)

lemma scan_exp_text:
  assumes "exp_ok ex" "delimited r"
  shows "scan_exp_part (ex @ r) = ex"
proof (cases "ex = []")
  case True
  with delimited_char [OF assms(2)] show ?thesis by (cases r) (auto simp: scan_exp_part_def)
next
  case False
  then obtain sg ds where ex: "ex = 101 # sg @ ds" "sg = [] \<or> sg = [43] \<or> sg = [45]" "ds \<noteq> []" "list_all digit ds"
    using assms(1) by (auto simp: exp_ok_def)
  obtain c cs where ds: "ds = c # cs" "digit c" using ex(3,4) by (cases ds) auto
  have c: "c \<noteq> 43" "c \<noteq> 45" using ds(2) by (auto simp: digit_def)
  have t: "takeWhile digit (ds @ r) = ds"
    using ex(4) delimited_char [OF assms(2)] by (intro takeWhile_digits) (auto simp: digit_def)
  show ?thesis using ex(1,2,3) t c ds(1) by (elim disjE) (simp_all add: scan_exp_part_def Let_def)
qed

lemma scan_frac_text:
  assumes "frac_ok fr" "exp_ok ex" "delimited r"
  shows "scan_frac_part (fr @ ex @ r) = fr"
proof -
  have hd: "ex @ r = [] \<or> \<not> digit (hd (ex @ r)) \<and> hd (ex @ r) \<noteq> 46"
    using assms(2) delimited_char [OF assms(3)] by (cases ex) (auto simp: exp_ok_def digit_def)
  show ?thesis
  proof (cases "fr = []")
    case True
    with hd show ?thesis by (cases "ex @ r") (auto simp: scan_frac_part_def)
  next
    case False
    then obtain ds where fr: "fr = 46 # ds" "ds \<noteq> []" "list_all digit ds" using assms(1) by (auto simp: frac_ok_def)
    from hd have "takeWhile digit (ds @ ex @ r) = ds" by (intro takeWhile_digits [OF fr(3)]) auto
    with fr(1,2) show ?thesis unfolding scan_frac_part_def by (simp only: append_Cons) simp
  qed
qed

lemma scan_int_text:
  assumes "int_ok ip" "frac_ok fr" "exp_ok ex" "delimited r"
  shows "scan_int_part (ip @ fr @ ex @ r) = ip"
proof -
  have hd: "fr @ ex @ r = [] \<or> \<not> digit (hd (fr @ ex @ r))"
    using assms(2,3) delimited_char [OF assms(4)] by (cases fr; cases ex) (auto simp: frac_ok_def exp_ok_def digit_def)
  with assms(1) takeWhile_digits [of ip "fr @ ex @ r"] show ?thesis
    by (cases ip) (auto simp: int_ok_def scan_int_part_def)
qed

lemma scan_number_text:
  assumes "int_ok ip" "frac_ok fr" "exp_ok ex" "delimited r"
  shows "scan_number (sign_text neg @ ip @ fr @ ex @ r) = Some (sign_text neg @ ip, fr, ex)"
proof -
  obtain c cs where ip: "ip = c # cs" "digit c" using assms(1) by (cases ip) (auto simp: int_ok_def)
  then have "c \<noteq> 45" by (auto simp: digit_def)
  then show ?thesis
    using scan_int_text [OF assms] scan_frac_text [OF assms(2-4)] scan_exp_text [OF assms(3,4)] ip
    by (auto simp: scan_number_def Let_def sign_text_def)
qed

definition number_value :: "json_hooks \<Rightarrow> pystr \<Rightarrow> pystr \<Rightarrow> pystr \<Rightarrow> pyval res" where
  "number_value h ip fr ex = (if fr = [] \<and> ex = [] then parse_int h ip else parse_float h (ip @ fr @ ex))"

lemma scan_atom_number:
  assumes "int_ok ip" "frac_ok fr" "exp_ok ex" "delimited r"
  shows "scan_atom h (sign_text neg @ ip @ fr @ ex @ r)
    = with_rest (number_value h (sign_text neg @ ip) fr ex) r"
proof -
  let ?s = "sign_text neg @ ip @ fr @ ex @ r"
  obtain c cs where ip: "ip = c # cs" "48 \<le> c" "c \<le> 57" using assms(1) by (cases ip) (auto simp: int_ok_def digit_def)
  have hd: "(\<exists>t. ?s = c # t) \<or> (\<exists>t. ?s = 45 # c # t)" using ip by (auto simp: sign_text_def)
  have no: "\<not> prefix (lit ''null'') ?s" "\<not> prefix (lit ''true'') ?s" "\<not> prefix (lit ''false'') ?s"
    "\<not> prefix (lit ''NaN'') ?s" "\<not> prefix (lit ''Infinity'') ?s" "\<not> prefix (lit ''-Infinity'') ?s"
    using hd ip by (auto simp: lit_def)
  show ?thesis
    unfolding scan_atom_def scan_number_text [OF assms] using no by (simp add: number_value_def)
qed

lemma atom_number:
  assumes "int_ok ip" "frac_ok fr" "exp_ok ex"
  shows "atom_ok h (sign_text neg @ ip @ fr @ ex)"
    "atom_value h (sign_text neg @ ip @ fr @ ex) = number_value h (sign_text neg @ ip) fr ex"
proof -
  show v: "atom_value h (sign_text neg @ ip @ fr @ ex) = number_value h (sign_text neg @ ip) fr ex"
    using scan_atom_number [OF assms, of "[]" h neg] by (simp add: atom_value_def with_rest_def split: sum.splits)
  have "scan_atom h ((sign_text neg @ ip @ fr @ ex) @ r) = with_rest (number_value h (sign_text neg @ ip) fr ex) r"
    if "delimited r" for r
    using scan_atom_number [OF assms that, of h neg] by simp
  moreover obtain c cs where "ip = c # cs" "48 \<le> c" "c \<le> 57"
    using assms(1) by (cases ip) (auto simp: int_ok_def digit_def)
  ultimately show "atom_ok h (sign_text neg @ ip @ fr @ ex)"
    unfolding atom_ok_def v by (auto simp: sign_text_def is_ws_def)
qed

end
