(* ===== verification/Json_Float.thy ===== *)
theory Json_Float
  imports Json_Text
begin

text \<open>
  The decimal text of a float reads back as the same float.  Seventeen significant digits tell any two
  neighbouring binary64 numbers apart, so the search of \<open>shortest\<close> ends with a decimal that rounds to the
  number; the texts laid out from it, by \<^verbatim>\<open>repr\<close> and by the canonicalizer, denote that decimal.
\<close>

section \<open>Powers and logarithms\<close>

lemma rpow_power_int: "rpow b k = power_int b k"
  by (simp add: rpow_def power_int_def power_inverse divide_inverse)

lemma rpow_add: "b \<noteq> 0 \<Longrightarrow> rpow b (i + j) = rpow b i * rpow b j"
  by (simp add: rpow_power_int power_int_add)

lemma rpow_pos: "0 < b \<Longrightarrow> 0 < rpow b k"
  by (simp add: rpow_power_int)

lemma rpow_less: "1 < b \<Longrightarrow> i < j \<Longrightarrow> rpow b i < rpow b j"
  by (simp add: rpow_power_int power_int_strict_increasing)

lemma rpow_le: "1 \<le> b \<Longrightarrow> i \<le> j \<Longrightarrow> rpow b i \<le> rpow b j"
  by (simp add: rpow_power_int power_int_increasing)

lemma rpow_nat: "rpow b (int n) = b ^ n"
  by (simp add: rpow_def)

lemma rpow_0 [simp]: "rpow b 0 = 1"
  by (simp add: rpow_def)

lemma rpow_step: "b \<noteq> 0 \<Longrightarrow> rpow b (k + 1) = b * rpow b k" "b \<noteq> 0 \<Longrightarrow> b * rpow b (k - 1) = rpow b k"
  using rpow_add [of b k 1] rpow_add [of b 1 "k - 1"] by (simp_all add: rpow_def [of b 1])

lemma bit_length_bounds: "0 < n \<Longrightarrow> 2 ^ bit_length n \<le> 2 * n \<and> n < 2 ^ bit_length n"
proof (induction n rule: bit_length.induct)
  case (1 n)
  show ?case
  proof (cases "n div 2 = 0")
    case True
    with 1 have "n = 1" by simp
    then show ?thesis by (simp add: bit_length.simps)
  next
    case False
    with 1 have "2 ^ bit_length (n div 2) \<le> 2 * (n div 2)" "n div 2 < 2 ^ bit_length (n div 2)" by simp_all
    moreover have "bit_length n = Suc (bit_length (n div 2))" using 1 by (subst bit_length.simps) simp
    ultimately show ?thesis by simp linarith
  qed
qed

lemma ilog2_bounds:
  assumes "0 < x"
  shows "rpow 2 (ilog2 x) \<le> x" "x < rpow 2 (ilog2 x + 1)"
proof -
  obtain n d where q: "quotient_of x = (n, d)" by force
  have d: "0 < d" using quotient_of_denom_pos [OF q] .
  have x: "x = of_int n / of_int d" using quotient_of_div [OF q] .
  with assms d have n: "0 < n" by (simp add: zero_less_divide_iff)
  define L M where "L = bit_length (nat n)" and "M = bit_length (nat d)"
  define k where "k = int L - int M"
  have "(2::rat) ^ L \<le> of_nat (2 * nat n)" "of_nat (nat n) < (2::rat) ^ L"
    using bit_length_bounds [of "nat n"] n unfolding L_def
    by (metis of_nat_le_iff of_nat_numeral of_nat_power zero_less_nat_eq, metis of_nat_less_iff of_nat_numeral of_nat_power zero_less_nat_eq)
  then have nL: "(2::rat) ^ L \<le> 2 * of_int n" "of_int n < (2::rat) ^ L" using n by simp_all
  have "(2::rat) ^ M \<le> of_nat (2 * nat d)" "of_nat (nat d) < (2::rat) ^ M"
    using bit_length_bounds [of "nat d"] d unfolding M_def
    by (metis of_nat_le_iff of_nat_numeral of_nat_power zero_less_nat_eq, metis of_nat_less_iff of_nat_numeral of_nat_power zero_less_nat_eq)
  then have dM: "(2::rat) ^ M \<le> 2 * of_int d" "of_int d < (2::rat) ^ M" using d by simp_all
  have k: "rpow 2 k * 2 ^ M = (2::rat) ^ L"
    using rpow_add [of 2 k "int M"] by (simp add: k_def rpow_nat)
  have dp: "(0::rat) < of_int d" using d by simp
  have "x * 2 ^ M \<le> 2 * of_int n"
  proof -
    have "x * 2 ^ M \<le> x * (2 * of_int d)" using dM(1) assms by (intro mult_left_mono) auto
    also have "\<dots> = 2 * of_int n" using x dp by simp
    finally show ?thesis .
  qed
  then have "x * 2 ^ M < 2 * (rpow 2 k * 2 ^ M)" using nL(2) k by linarith
  then have "x * 2 ^ M < (2 * rpow 2 k) * 2 ^ M" by (simp add: mult_ac)
  then have up: "x < rpow 2 (k + 1)" by (simp add: rpow_step)
  have "of_int n < x * 2 ^ M"
  proof -
    have "of_int n = x * of_int d" using x dp by simp
    also have "\<dots> < x * 2 ^ M" using dM(2) assms by simp
    finally show ?thesis .
  qed
  then have "rpow 2 k * 2 ^ M < 2 * (x * 2 ^ M)" using nL(1) k by linarith
  then have "rpow 2 k * 2 ^ M < (2 * x) * 2 ^ M" by (simp add: mult_ac)
  then have "2 * rpow 2 (k - 1) < 2 * x" by (simp add: rpow_step)
  then have lo: "rpow 2 (k - 1) < x" by simp
  have "ilog2 x = (if rpow 2 k \<le> x then k else k - 1)"
    by (simp add: ilog2_def q Let_def k_def L_def M_def)
  with up lo show "rpow 2 (ilog2 x) \<le> x" "x < rpow 2 (ilog2 x + 1)" by auto
qed

lemma ilog2_unique:
  assumes "rpow 2 k \<le> x" "x < rpow 2 (k + 1)"
  shows "ilog2 x = k"
proof -
  have x: "0 < x" using assms(1) rpow_pos [of 2 k] by simp
  have "\<not> ilog2 x < k" using rpow_le [of 2 "ilog2 x + 1" k] ilog2_bounds(2) [OF x] assms(1) by fastforce
  moreover have "\<not> k < ilog2 x" using rpow_le [of 2 "k + 1" "ilog2 x"] ilog2_bounds(1) [OF x] assms(2) by fastforce
  ultimately show ?thesis by simp
qed

lemma dec_nat_bounds: "0 < n \<Longrightarrow> 10 ^ length (dec_nat n) \<le> 10 * n \<and> n < 10 ^ length (dec_nat n)"
proof (induction n rule: dec_nat.induct)
  case (1 n)
  show ?case
  proof (cases "n < 10")
    case True
    with 1 show ?thesis by (simp add: dec_nat.simps [of n])
  next
    case False
    then have "10 ^ length (dec_nat (n div 10)) \<le> 10 * (n div 10)" "n div 10 < 10 ^ length (dec_nat (n div 10))"
      using 1 by simp_all
    moreover have "length (dec_nat n) = Suc (length (dec_nat (n div 10)))"
      using False by (subst dec_nat.simps) simp
    ultimately show ?thesis by simp linarith
  qed
qed

lemma find_upt_Some:
  "find P [a..<b] = Some k \<Longrightarrow> a \<le> k \<and> P k \<and> (\<forall>j. a \<le> j \<and> j < k \<longrightarrow> \<not> P j)"
proof -
  assume "find P [a..<b] = Some k"
  then obtain i where i: "i < b - a" "P (a + i)" "k = a + i" "\<forall>j < i. \<not> P ([a..<b] ! j)"
    by (auto simp: find_Some_iff)
  have "\<not> P j" if "a \<le> j" "j < k" for j
    using i(4) [THEN spec, of "j - a"] that i(1,3) by simp
  with i(2,3) show ?thesis by simp
qed

lemma find_upt_None: "find P [a..<b] = None \<Longrightarrow> a \<le> j \<Longrightarrow> j < b \<Longrightarrow> \<not> P j"
  by (auto simp: find_None_iff)

lemma ilog10_cases:
  "1 \<le> x \<Longrightarrow> ilog10 x = int (length (dec_nat (nat \<lfloor>x\<rfloor>))) - 1"
  "\<not> 1 \<le> x \<Longrightarrow> find (\<lambda>k. 1 \<le> x * 10 ^ k) [1..<400] = Some k \<Longrightarrow> ilog10 x = - int k"
  unfolding ilog10_def by (simp_all only: if_True if_False option.case)

lemma ilog10_bounds:
  assumes "1 / 2 ^ 1074 \<le> x"
  shows "rpow 10 (ilog10 x) \<le> x" "x < rpow 10 (ilog10 x + 1)"
proof -
  have "rpow 10 (ilog10 x) \<le> x \<and> x < rpow 10 (ilog10 x + 1)"
  proof (cases "1 \<le> x")
    case True
    define n where "n = nat \<lfloor>x\<rfloor>"
    define l where "l = length (dec_nat n)"
    have n: "0 < n" using True by (simp add: n_def)
    have "of_nat n = (of_int \<lfloor>x\<rfloor> :: rat)" using True by (simp add: n_def)
    then have x: "of_nat n \<le> x" "x < of_nat n + 1" by linarith+
    have "10 ^ l \<le> 10 * n" "n + 1 \<le> 10 ^ l" using dec_nat_bounds [OF n] by (simp_all add: l_def)
    then have "of_nat (10 ^ l) \<le> (of_nat (10 * n) :: rat)" "of_nat (n + 1) \<le> (of_nat (10 ^ l) :: rat)"
      by (simp_all only: of_nat_le_iff)
    then have r: "(10::rat) ^ l \<le> 10 * of_nat n" "of_nat n + 1 \<le> (10::rat) ^ l" by simp_all
    have "ilog10 x = int l - 1" using ilog10_cases(1) [OF True] by (simp add: n_def l_def)
    moreover have "10 * rpow 10 (int l - 1) = (10::rat) ^ l" using rpow_step(2) [of 10 "int l"] by (simp add: rpow_nat)
    ultimately show ?thesis using x r by (simp add: rpow_nat)
  next
    case False
    have "1 \<le> (1 / 2 ^ 1074) * (10::rat) ^ 324" by simp
    also have "\<dots> \<le> x * 10 ^ 324" using assms by (intro mult_right_mono) auto
    finally have w: "1 \<le> x * 10 ^ 324" .
    define F where "F = find (\<lambda>k. 1 \<le> x * 10 ^ k) [1..<400]"
    have "F \<noteq> None"
    proof
      assume "F = None"
      then have "\<not> 1 \<le> x * 10 ^ 324" unfolding F_def by (rule find_upt_None) (rule less_imp_le, simp_all)
      with w show False by contradiction
    qed
    then obtain k where k: "F = Some k" by blast
    have "1 \<le> k \<and> 1 \<le> x * 10 ^ k \<and> (\<forall>j. 1 \<le> j \<and> j < k \<longrightarrow> \<not> 1 \<le> x * 10 ^ j)"
      using k unfolding F_def by (rule find_upt_Some)
    then have "1 \<le> k" "1 \<le> x * 10 ^ k" and below: "\<And>j. 1 \<le> j \<Longrightarrow> j < k \<Longrightarrow> \<not> 1 \<le> x * 10 ^ j" by auto
    then obtain i where i: "k = i + 1" "1 \<le> x * 10 ^ k" by (cases k) auto
    have less: "x * 10 ^ i < 1"
    proof (cases i)
      case 0
      then show ?thesis using False by simp
    next
      case (Suc j)
      then show ?thesis using below [of i] i(1) by simp
    qed
    have lg: "ilog10 x = - int k" using ilog10_cases(2) [OF False k [unfolded F_def]] .
    have a: "rpow 10 (- int k) * 10 ^ k = 1" using rpow_add [of 10 "- int k" "int k"] by (simp add: rpow_nat)
    have b: "rpow 10 (- int k + 1) * 10 ^ i = 1" using rpow_add [of 10 "- int k + 1" "int i"] i(1) by (simp add: rpow_nat)
    have "rpow 10 (- int k) * 10 ^ k \<le> x * 10 ^ k" "x * 10 ^ i < rpow 10 (- int k + 1) * 10 ^ i"
      using i(2) less unfolding a b by simp_all
    then have "rpow 10 (- int k) \<le> x" "x < rpow 10 (- int k + 1)"
      by (simp_all only: mult_le_cancel_right_pos mult_less_cancel_right_pos zero_less_power zero_less_numeral)
    with lg show ?thesis by simp
  qed
  then show "rpow 10 (ilog10 x) \<le> x" "x < rpow 10 (ilog10 x + 1)" by auto
qed

section \<open>Rounding\<close>

lemma round_half_even_near: "\<bar>y - of_int m\<bar> < 1 / 2 \<Longrightarrow> round_half_even y = m"
proof -
  assume y: "\<bar>y - of_int m\<bar> < 1 / 2"
  show ?thesis
  proof (cases "of_int m \<le> y")
    case True
    with y have "\<lfloor>y\<rfloor> = m" by (intro floor_unique) linarith+
    with True y show ?thesis by (auto simp: round_half_even_def Let_def)
  next
    case False
    with y have "of_int (m - 1) \<le> y" "y < of_int (m - 1) + 1" by (simp_all add: abs_if split: if_splits)
    then have "\<lfloor>y\<rfloor> = m - 1" by (rule floor_unique)
    with False y show ?thesis by (auto simp: round_half_even_def Let_def)
  qed
qed

definition ulp_exp :: "rat \<Rightarrow> int" where
  "ulp_exp x = max (ilog2 x - 52) (- 1074)"

lemma round64_pos:
  "0 < x \<Longrightarrow> round64 x =
     (let v = of_int (round_half_even (x / rpow 2 (ulp_exp x))) * rpow 2 (ulp_exp x)
      in if 2 ^ 1024 \<le> v then FInf False else FFin v)"
  by (simp add: round64_def ulp_exp_def Let_def)

text \<open>A positive float is a multiple of its unit in the last place, by a factor below \<open>2 ^ 53\<close>.\<close>

lemma float_parts:
  assumes "0 < x" "round64 x = FFin x"
  obtains m where "x = of_int m * rpow 2 (ulp_exp x)" "0 < m" "m < 2 ^ 53" "x < 2 ^ 1024"
    "2 ^ 52 \<le> m \<or> ulp_exp x = - 1074"
proof -
  define q where "q = ulp_exp x"
  define m where "m = round_half_even (x / rpow 2 q)"
  have p: "0 < rpow 2 q" by (simp add: rpow_pos)
  have x: "x = of_int m * rpow 2 q" "x < 2 ^ 1024"
    using assms by (auto simp: round64_pos q_def [symmetric] m_def [symmetric] Let_def split: if_splits)
  have m: "0 < m" using assms(1) p unfolding x(1) by (simp add: zero_less_mult_iff)
  have "x < rpow 2 (ilog2 x + 1)" using ilog2_bounds [OF assms(1)] by simp
  also have "\<dots> \<le> rpow 2 (q + 53)" by (intro rpow_le) (auto simp: q_def ulp_exp_def)
  also have "\<dots> = rpow 2 q * 2 ^ 53" using rpow_add [of 2 q 53] rpow_nat [of 2 53] by simp
  finally have "of_int m * rpow 2 q < 2 ^ 53 * rpow 2 q" using x(1) by (simp add: mult_ac)
  then have "of_int m < (2::rat) ^ 53" using p by (simp only: mult_less_cancel_right_pos)
  then have "of_int m < (of_int (2 ^ 53) :: rat)" by simp
  then have m53: "m < 2 ^ 53" by (simp only: of_int_less_iff)
  have "2 ^ 52 \<le> m" if "q \<noteq> - 1074"
  proof -
    have "q + 52 = ilog2 x" using that by (auto simp: q_def ulp_exp_def)
    then have "2 ^ 52 * rpow 2 q \<le> of_int m * rpow 2 q"
      using ilog2_bounds(1) [OF assms(1)] rpow_add [of 2 q 52] rpow_nat [of 2 52] x(1) by (simp add: mult_ac)
    then have "(2::rat) ^ 52 \<le> of_int m" using p by (simp only: mult_le_cancel_right_pos)
    then have "of_int (2 ^ 52) \<le> (of_int m :: rat)" by simp
    then show ?thesis by (simp only: of_int_le_iff)
  qed
  with m m53 x show thesis using that [of m] by (auto simp: q_def)
qed

lemma round64_at:
  assumes "0 < z" "ulp_exp z = q" "\<bar>z - of_int m * rpow 2 q\<bar> < rpow 2 q / 2" "of_int m * rpow 2 q < 2 ^ 1024"
  shows "round64 z = FFin (of_int m * rpow 2 q)"
proof -
  have p: "0 < rpow 2 q" by (simp add: rpow_pos)
  have "\<bar>z / rpow 2 q - of_int m\<bar> = \<bar>z - of_int m * rpow 2 q\<bar> / rpow 2 q"
    using p by (simp add: abs_if field_simps)
  also have "\<dots> < 1 / 2" using assms(3) p by (simp add: field_simps)
  finally have "round_half_even (z / rpow 2 q) = m" by (rule round_half_even_near)
  with assms(4) show ?thesis by (simp add: round64_pos [OF assms(1)] assms(2) Let_def)
qed

text \<open>What lies within \<open>2 ^ -54\<close> of a float, relatively, rounds to it.\<close>

lemma round64_close:
  assumes x: "0 < x" "round64 x = FFin x" and z: "\<bar>z - x\<bar> * 2 ^ 54 < x"
  shows "round64 z = FFin x"
proof -
  define q where "q = ulp_exp x"
  obtain m where xm: "x = of_int m * rpow 2 q" and m: "0 < m" "m < 2 ^ 53" "x < 2 ^ 1024" and mq: "2 ^ 52 \<le> m \<or> q = - 1074"
    using float_parts [OF x] unfolding q_def by blast
  have p: "0 < rpow 2 q" by (simp add: rpow_pos)
  have z0: "0 < z" using z x(1) by (simp add: abs_if split: if_splits)
  from m(2) have "of_int m < (of_int (2 ^ 53) :: rat)" by (simp only: of_int_less_iff)
  then have "of_int m < (2::rat) ^ 53" by simp
  then have "x < 2 ^ 53 * rpow 2 q" using p unfolding xm by simp
  with z have near: "\<bar>z - x\<bar> < rpow 2 q / 2" by simp
  have same: "round64 z = FFin x" if "ulp_exp z = q"
    using round64_at [OF z0 that] near m(3) unfolding xm by simp
  have above: "z < rpow 2 (q + 53)"
  proof -
    from m(2) have "of_int m \<le> (of_int (2 ^ 53 - 1) :: rat)" by (simp only: of_int_le_iff zle_diff1_eq)
    then have "of_int m \<le> (2::rat) ^ 53 - 1" by simp
    then have "of_int m * rpow 2 q \<le> (2 ^ 53 - 1) * rpow 2 q" using p by (simp only: mult_le_cancel_right_pos)
    with near have "z < 2 ^ 53 * rpow 2 q" unfolding xm [symmetric] by (simp add: abs_if left_diff_distrib split: if_splits)
    then show ?thesis using rpow_add [of 2 q 53] rpow_nat [of 2 53] by (simp add: mult_ac)
  qed
  have upz: "ilog2 z < q + 53"
    using ilog2_bounds(1) [OF z0] above rpow_le [of 2 "q + 53" "ilog2 z"] by fastforce
  show ?thesis
  proof (cases "q = - 1074")
    case True
    with upz have "ulp_exp z = q" by (simp add: ulp_exp_def)
    then show ?thesis by (rule same)
  next
    case False
    with mq have m52: "2 ^ 52 \<le> m" by simp
    have q52: "rpow 2 (q + 52) = 2 ^ 52 * rpow 2 q" using rpow_add [of 2 q 52] rpow_nat [of 2 52] by (simp add: mult_ac)
    show ?thesis
    proof (cases "rpow 2 (q + 52) \<le> z")
      case True
      then have "\<not> ilog2 z < q + 52"
        using ilog2_bounds(2) [OF z0] rpow_le [of 2 "ilog2 z + 1" "q + 52"] by fastforce
      with upz False have "ulp_exp z = q" unfolding ulp_exp_def q_def by auto
      then show ?thesis by (rule same)
    next
      case z52: False
      have "m = 2 ^ 52"
      proof (rule ccontr)
        assume "m \<noteq> 2 ^ 52"
        with m52 have "2 ^ 52 + 1 \<le> m" by simp
        then have "of_int (2 ^ 52 + 1) \<le> (of_int m :: rat)" by (simp only: of_int_le_iff)
        then have "(2::rat) ^ 52 + 1 \<le> of_int m" by simp
        then have "(2 ^ 52 + 1) * rpow 2 q \<le> x" unfolding xm using p by (simp only: mult_le_cancel_right_pos)
        with near z52 show False unfolding q52 by (simp add: abs_if distrib_right split: if_splits)
      qed
      then have xq: "x = rpow 2 (q + 52)" "x = of_int (2 * m) * rpow 2 (q - 1)"
        using xm rpow_step(2) [of 2 q] unfolding q52 by simp_all
      have "rpow 2 (q + 51) * 2 = x" using rpow_step(1) [of 2 "q + 51"] xq(1) by (simp add: mult_ac add.commute)
      then have "rpow 2 (q + 51) \<le> z" using z x(1) by (simp add: abs_if split: if_splits)
      then have "ilog2 z = q + 51" using z52 by (intro ilog2_unique) (auto simp: add.commute)
      then have uz: "ulp_exp z = q - 1" using False unfolding ulp_exp_def q_def by auto
      have "x = 2 ^ 53 * rpow 2 (q - 1)" using xq(2) \<open>m = 2 ^ 52\<close> by simp
      with z have "\<bar>z - x\<bar> < rpow 2 (q - 1) / 2" by simp
      then show ?thesis using round64_at [OF z0 uz, of "2 * m"] m(3) unfolding xq(2) [symmetric] by simp
    qed
  qed
qed

section \<open>The shortest decimal\<close>

lemma shortest_at_good:
  "shortest_at x n = Some (d, e) \<Longrightarrow> 0 < d \<and> round64 (of_int d * rpow 10 e) = FFin x"
proof -
  define e' where "e' = ilog10 x - int n + 1"
  define y where "y = x / rpow 10 e'"
  define good where "good = (\<lambda>d. 0 < d \<and> round64 (of_int d * rpow 10 e') = FFin x)"
  have re: "round_half_even y = \<lfloor>y\<rfloor> \<or> round_half_even y = \<lfloor>y\<rfloor> + 1"
    by (simp add: round_half_even_def Let_def)
  assume "shortest_at x n = Some (d, e)"
  then have "e = e'" "(good \<lfloor>y\<rfloor> \<and> good (\<lfloor>y\<rfloor> + 1) \<and> d = round_half_even y) \<or> good d"
    unfolding shortest_at_def Let_def e'_def [symmetric] y_def [symmetric] good_def [symmetric]
    by (auto simp: good_def split: if_splits)
  with re show ?thesis by (auto simp: good_def)
qed

lemma shortest_at_17:
  assumes x: "0 < x" "round64 x = FFin x"
  shows "\<exists>p. shortest_at x 17 = Some p"
proof -
  define e where "e = ilog10 x - 16"
  define y where "y = x / rpow 10 e"
  have p: "0 < rpow 10 e" by (simp add: rpow_pos)
  have xy: "x = y * rpow 10 e" using p by (simp add: y_def)
  obtain m where m: "x = of_int m * rpow 2 (ulp_exp x)" "0 < m" using float_parts [OF x] by blast
  have "1 / 2 ^ 1074 = rpow 2 (- 1074)" by (simp add: rpow_def)
  also have "\<dots> \<le> rpow 2 (ulp_exp x)" by (intro rpow_le) (auto simp: ulp_exp_def)
  also have "\<dots> \<le> of_int m * rpow 2 (ulp_exp x)"
    using m(2) rpow_pos [of 2 "ulp_exp x"] mult_right_mono [of 1 "of_int m :: rat" "rpow 2 (ulp_exp x)"] by simp
  also have "\<dots> = x" using m(1) by simp
  finally have "rpow 10 (ilog10 x) \<le> x" by (rule ilog10_bounds)
  moreover have "rpow 10 (ilog10 x) = 10 ^ 16 * rpow 10 e"
    using rpow_add [of 10 e 16] rpow_nat [of 10 16] by (simp add: e_def mult_ac)
  ultimately have y: "10 ^ 16 \<le> y" using p unfolding xy by (simp only: mult_le_cancel_right_pos)
  define d where "d = (if y - of_int \<lfloor>y\<rfloor> \<le> 1 / 2 then \<lfloor>y\<rfloor> else \<lfloor>y\<rfloor> + 1)"
  have d: "\<bar>of_int d - y\<bar> \<le> 1 / 2" unfolding d_def by (simp add: abs_if) linarith
  have "\<bar>of_int d * rpow 10 e - x\<bar> = \<bar>of_int d - y\<bar> * rpow 10 e"
    unfolding xy using p by (simp add: abs_mult left_diff_distrib [symmetric])
  also have "\<dots> \<le> 1 / 2 * rpow 10 e" using d p by (intro mult_right_mono) auto
  finally have "\<bar>of_int d * rpow 10 e - x\<bar> * 2 ^ 54 \<le> 2 ^ 53 * rpow 10 e" by simp
  also have "\<dots> < 10 ^ 16 * rpow 10 e" using p by (intro mult_strict_right_mono) auto
  also have "\<dots> \<le> x" unfolding xy using y p by (intro mult_right_mono) auto
  finally have "round64 (of_int d * rpow 10 e) = FFin x" by (rule round64_close [OF x])
  moreover have "0 < d" using d y by (simp add: abs_if split: if_splits)
  moreover have "d = \<lfloor>y\<rfloor> \<or> d = \<lfloor>y\<rfloor> + 1" by (simp add: d_def)
  ultimately show ?thesis
    unfolding shortest_at_def Let_def using e_def y_def by auto
qed

lemma shortest_reads_back:
  assumes "0 < x" "round64 x = FFin x" "shortest x = (d, e)"
  shows "0 < d" "round64 (of_int d * rpow 10 e) = FFin x"
proof -
  obtain p where "shortest_at x 17 = Some p" using shortest_at_17 [OF assms(1,2)] by blast
  then have "p \<in> set (List.map_filter (shortest_at x) [1..<18])"
    by (auto simp: List.map_filter_def intro!: rev_image_eqI [of 17])
  then obtain ps where "List.map_filter (shortest_at x) [1..<18] = (d, e) # ps"
    using assms(3) unfolding shortest_def by (auto split: list.splits)
  then have "(d, e) \<in> set (List.map_filter (shortest_at x) [1..<18])" by simp
  then obtain n where "shortest_at x n = Some (d, e)" by (auto simp: List.map_filter_def)
  then show "0 < d" "round64 (of_int d * rpow 10 e) = FFin x" by (auto dest: shortest_at_good)
qed

section \<open>Decimal texts and their values\<close>

lemma nat_of_digits_append: "nat_of_digits (a @ b) = nat_of_digits a * 10 ^ length b + nat_of_digits b"
proof (induction b rule: rev_induct)
  case (snoc d b)
  then show ?case
    using nat_of_digits_snoc [of "a @ b" d] nat_of_digits_snoc [of b d] by (simp add: algebra_simps)
qed (simp add: nat_of_digits_def)

lemma nat_of_digits_zeros: "nat_of_digits (replicate k 48) = 0"
proof (induction k)
  case (Suc k)
  then show ?case using nat_of_digits_append [of "[48]" "replicate k 48"] by (simp add: nat_of_digits_def)
qed (simp add: nat_of_digits_def)

lemma nat_of_digits_Nil [simp]: "nat_of_digits [] = 0"
  by (simp add: nat_of_digits_def)

lemma nat_of_digits_zero [simp]: "nat_of_digits (48 # ds) = nat_of_digits ds"
  by (simp add: nat_of_digits_def)

lemma dec_nat_int_ok: "int_ok (dec_nat n)"
proof (induction n rule: dec_nat.induct)
  case (1 n)
  show ?case
  proof (cases "n < 10")
    case True
    then show ?thesis by (auto simp: dec_nat.simps [of n] int_ok_def digit_def)
  next
    case False
    then have "int_ok (dec_nat (n div 10))" using 1 by simp
    moreover have "dec_nat (n div 10) \<noteq> [48]"
    proof
      assume "dec_nat (n div 10) = [48]"
      then have "nat_of_digits (dec_nat (n div 10)) = 0" by simp
      with False show False by (simp add: nat_of_digits_dec_nat)
    qed
    ultimately show ?thesis using False
      by (subst dec_nat.simps) (auto simp: int_ok_def digit_def)
  qed
qed

lemma dec_nat_hd: "0 < n \<Longrightarrow> hd (dec_nat n) \<noteq> 48"
proof
  assume "0 < n" "hd (dec_nat n) = 48"
  with dec_nat_int_ok [of n] have "dec_nat n = [48]" by (simp add: int_ok_def)
  then have "nat_of_digits (dec_nat n) = 0" by simp
  with \<open>0 < n\<close> show False by (simp add: nat_of_digits_dec_nat)
qed

text \<open>Digits with the decimal point after the first \<open>p\<close> of them, and the texts that write such a number.\<close>

definition point_value :: "pystr \<Rightarrow> int \<Rightarrow> rat" where
  "point_value ds p = of_nat (nat_of_digits ds) * rpow 10 (p - int (length ds))"

definition exp_of :: "pystr \<Rightarrow> int" where
  "exp_of ex = (if ex = [] then 0 else int_of_text (drop 1 ex))"

definition writes :: "pystr \<Rightarrow> pystr \<Rightarrow> pystr \<Rightarrow> rat \<Rightarrow> bool" where
  "writes ip fr ex v \<longleftrightarrow> int_ok ip \<and> frac_ok fr \<and> exp_ok ex \<and> v = point_value (ip @ drop 1 fr) (int (length ip) + exp_of ex)"

lemma decimal_value_writes:
  assumes "writes ip fr ex v"
  shows "decimal_value (sign_text neg @ ip, fr, ex) = (if neg then - v else v)"
proof -
  have ip: "filter digit (sign_text neg @ ip) = ip" "take 1 (sign_text neg @ ip) = [45] \<longleftrightarrow> neg"
    using assms by (cases ip; auto simp: writes_def int_ok_def sign_text_def digit_def list_all_iff filter_id_conv)+
  show ?thesis
    using assms unfolding decimal_value_def Let_def split ip writes_def point_value_def exp_of_def
    by (simp add: algebra_simps)
qed

lemma point_value_zeros:
  "point_value (replicate k 48 @ ds) (p + int k) = point_value ds p"
  "point_value (ds @ replicate k 48) p = point_value ds p"
proof -
  show "point_value (replicate k 48 @ ds) (p + int k) = point_value ds p"
    by (simp add: point_value_def nat_of_digits_append nat_of_digits_zeros)
  have "rpow 10 (p - int (length ds)) = rpow 10 (p - int (length (ds @ replicate k 48))) * 10 ^ k"
    using rpow_add [of 10 "p - int (length (ds @ replicate k 48))" "int k"] by (simp add: rpow_nat)
  then show "point_value (ds @ replicate k 48) p = point_value ds p"
    by (simp add: point_value_def nat_of_digits_append nat_of_digits_zeros)
qed

lemma exp_text: "exp_ok (101 # (if k < 0 then [45] else [43]) @ replicate z 48 @ dec_nat (nat \<bar>k\<bar>))"
    "exp_of (101 # (if k < 0 then [45] else [43]) @ replicate z 48 @ dec_nat (nat \<bar>k\<bar>)) = k"
proof -
  have "list_all digit (replicate z 48 @ dec_nat (nat \<bar>k\<bar>))" "replicate z 48 @ dec_nat (nat \<bar>k\<bar>) \<noteq> []"
    using dec_nat_int_ok [of "nat \<bar>k\<bar>"] by (auto simp: int_ok_def list_all_iff digit_def)
  then show "exp_ok (101 # (if k < 0 then [45] else [43]) @ replicate z 48 @ dec_nat (nat \<bar>k\<bar>))"
    unfolding exp_ok_def by (intro disjI2 exI [of _ "if k < 0 then [45] else [43]"] exI [of _ "replicate z 48 @ dec_nat (nat \<bar>k\<bar>)"]) auto
  have "nat_of_digits (replicate z 48 @ dec_nat (nat \<bar>k\<bar>)) = nat \<bar>k\<bar>"
    by (simp add: nat_of_digits_append nat_of_digits_zeros nat_of_digits_dec_nat)
  then show "exp_of (101 # (if k < 0 then [45] else [43]) @ replicate z 48 @ dec_nat (nat \<bar>k\<bar>)) = k"
    by (auto simp: exp_of_def int_of_text_def)
qed

text \<open>The four layouts of digits that start with no zero.\<close>

lemma writes_layouts:
  assumes ds: "int_ok ds" "hd ds \<noteq> 48"
  shows "p \<le> 0 \<Longrightarrow> writes [48] (46 # replicate (nat (- p)) 48 @ ds) [] (point_value ds p)"
    "int (length ds) \<le> p \<Longrightarrow> writes (ds @ replicate (nat (p - int (length ds))) 48) [] [] (point_value ds p)"
    "int (length ds) \<le> p \<Longrightarrow> writes (ds @ replicate (nat (p - int (length ds))) 48) [46, 48] [] (point_value ds p)"
    "0 < p \<Longrightarrow> p < int (length ds) \<Longrightarrow> writes (take (nat p) ds) (46 # drop (nat p) ds) [] (point_value ds p)"
    "exp_ok ex \<Longrightarrow> exp_of ex = p - 1 \<Longrightarrow>
       writes (take 1 ds) (if 1 < length ds then 46 # drop 1 ds else []) ex (point_value ds p)"
proof -
  have dg: "list_all digit ds" "ds \<noteq> []" using ds by (auto simp: int_ok_def)
  have z: "list_all digit (replicate k 48)" for k by (simp add: digit_def list_all_iff)
  show "writes [48] (46 # replicate (nat (- p)) 48 @ ds) [] (point_value ds p)" if "p \<le> 0"
    using that dg z point_value_zeros(1) [of "Suc (nat (- p))" ds p]
    by (simp add: writes_def int_ok_def frac_ok_def exp_ok_def exp_of_def digit_def [of 48])
  show "writes (ds @ replicate (nat (p - int (length ds))) 48) [] [] (point_value ds p)" if "int (length ds) \<le> p"
    using that dg z ds point_value_zeros(2) [of ds "nat (p - int (length ds))" p]
    by (simp add: writes_def int_ok_def frac_ok_def exp_ok_def exp_of_def)
  show "writes (ds @ replicate (nat (p - int (length ds))) 48) [46, 48] [] (point_value ds p)" if "int (length ds) \<le> p"
    using that dg z ds point_value_zeros(2) [of ds "Suc (nat (p - int (length ds)))" p]
    by (simp add: writes_def int_ok_def frac_ok_def exp_ok_def exp_of_def replicate_append_same digit_def [of 48])
  show "writes (take (nat p) ds) (46 # drop (nat p) ds) [] (point_value ds p)" if "0 < p" "p < int (length ds)"
    using that dg ds list_all_takeD [of digit ds "nat p"]
    by (simp add: writes_def int_ok_def frac_ok_def exp_ok_def exp_of_def hd_take)
  show "writes (take 1 ds) (if 1 < length ds then 46 # drop 1 ds else []) ex (point_value ds p)"
    if "exp_ok ex" "exp_of ex = p - 1"
    using that dg ds list_all_takeD [of digit ds 1]
    by (cases ds) (auto simp: writes_def int_ok_def frac_ok_def)
qed

lemma float_repr_writes:
  assumes "shortest x = (d, e)" "0 < d"
  obtains ip fr ex where "float_repr x = ip @ fr @ ex" "writes ip fr ex (of_int d * rpow 10 e)" "fr \<noteq> [] \<or> ex \<noteq> []"
proof -
  define ds where "ds = dec_nat (nat d)"
  define p where "p = e + int (length ds)"
  have ds: "int_ok ds" "hd ds \<noteq> 48" using assms(2) dec_nat_int_ok dec_nat_hd [of "nat d"] by (auto simp: ds_def)
  have v: "of_int d * rpow 10 e = point_value ds p"
    using assms(2) by (simp add: point_value_def p_def ds_def nat_of_digits_dec_nat)
  have r: "float_repr x = (if - 4 < p \<and> p \<le> 16 then
        (if p \<le> 0 then lit ''0.'' @ replicate (nat (- p)) 48 @ ds
         else if int (length ds) \<le> p then ds @ replicate (nat (p - int (length ds))) 48 @ lit ''.0''
         else take (nat p) ds @ [46] @ drop (nat p) ds)
      else take 1 ds @ (if 1 < length ds then 46 # drop 1 ds else [])
           @ [101] @ (if p - 1 < 0 then [45] else [43]) @ pad_left 2 (dec_nat (nat \<bar>p - 1\<bar>)))"
    by (simp add: float_repr_def assms(1) Let_def ds_def [symmetric] p_def)
  show thesis
  proof (cases "- 4 < p \<and> p \<le> 16")
    case fixed: True
    show thesis
    proof (cases "p \<le> 0")
      case True
      from r fixed True have "float_repr x = [48] @ (46 # replicate (nat (- p)) 48 @ ds) @ []" by (simp add: lit_def)
      then show thesis using writes_layouts(1) [OF ds True] unfolding v [symmetric] by (rule that) simp
    next
      case pos: False
      show thesis
      proof (cases "int (length ds) \<le> p")
        case True
        from r fixed pos True have "float_repr x = (ds @ replicate (nat (p - int (length ds))) 48) @ [46, 48] @ []"
          by (simp add: lit_def)
        then show thesis using writes_layouts(3) [OF ds True] unfolding v [symmetric] by (rule that) simp
      next
        case False
        from r fixed pos False have "float_repr x = take (nat p) ds @ (46 # drop (nat p) ds) @ []" by simp
        moreover have "writes (take (nat p) ds) (46 # drop (nat p) ds) [] (point_value ds p)"
          using pos False by (intro writes_layouts(4) [OF ds]) auto
        ultimately show thesis unfolding v [symmetric] by (rule that) simp
      qed
    qed
  next
    case False
    let ?ex = "101 # (if p - 1 < 0 then [45] else [43]) @ replicate (2 - length (dec_nat (nat \<bar>p - 1\<bar>))) 48 @ dec_nat (nat \<bar>p - 1\<bar>)"
    from r False have "float_repr x = take 1 ds @ (if 1 < length ds then 46 # drop 1 ds else []) @ ?ex"
      by (simp add: pad_left_def)
    moreover have "writes (take 1 ds) (if 1 < length ds then 46 # drop 1 ds else []) ?ex (of_int d * rpow 10 e)"
      unfolding v by (intro writes_layouts(5) ds exp_text)
    ultimately show thesis using that by blast
  qed
qed

lemma layout_writes:
  assumes ds: "int_ok ds" "hd ds \<noteq> 48"
  obtains ip fr ex where "layout_number ds p = ip @ fr @ ex" "writes ip fr ex (point_value ds p)"
proof (cases "21 \<le> p - 1 \<or> p - 1 \<le> - 7")
  case True
  let ?ex = "101 # (if p - 1 < 0 then [45] else [43]) @ replicate 0 48 @ dec_nat (nat \<bar>p - 1\<bar>)"
  from True have "layout_number ds p = take 1 ds @ (if 1 < length ds then 46 # drop 1 ds else []) @ ?ex"
    by (auto simp: layout_number_def Let_def dec_int_def)
  moreover have "writes (take 1 ds) (if 1 < length ds then 46 # drop 1 ds else []) ?ex (point_value ds p)"
    by (intro writes_layouts(5) ds exp_text)
  ultimately show thesis using that by blast
next
  case fixed: False
  consider "p \<le> 0" | "0 < p" "int (length ds) \<le> p" | "0 < p" "p < int (length ds)" by linarith
  then show thesis
  proof cases
    case 1
    with fixed have "layout_number ds p = [48] @ (46 # replicate (nat (- p)) 48 @ ds) @ []"
      by (simp add: layout_number_def Let_def lit_def)
    then show thesis using that writes_layouts(1) [OF ds 1] by blast
  next
    case 2
    with fixed have "layout_number ds p = (ds @ replicate (nat (p - int (length ds))) 48) @ [] @ []"
      by (simp add: layout_number_def Let_def)
    then show thesis using that writes_layouts(2) [OF ds 2(2)] by blast
  next
    case 3
    with fixed have "layout_number ds p = take (nat p) ds @ (46 # drop (nat p) ds) @ []"
      by (simp add: layout_number_def Let_def)
    then show thesis using that writes_layouts(4) [OF ds 3] by blast
  qed
qed

section \<open>Reading the digits of a text\<close>

lemma strip_leading_zeros_point:
  "ds \<noteq> [] \<Longrightarrow> list_all digit ds \<Longrightarrow> strip_leading_zeros ds p = (a, b) \<Longrightarrow>
     int_ok a \<and> point_value a b = point_value ds p \<and> (\<exists>k. ds = replicate k 48 @ a)"
proof (induction ds p rule: strip_leading_zeros.induct)
  case (1 d d' ds p)
  show ?case
  proof (cases "d = 48")
    case True
    with 1 obtain k where "int_ok a" "point_value a b = point_value (d' # ds) (p - 1)" "d' # ds = replicate k 48 @ a"
      by auto
    moreover have "point_value (48 # d' # ds) p = point_value (d' # ds) (p - 1)"
      using point_value_zeros(1) [of 1 "d' # ds" "p - 1"] by simp
    ultimately show ?thesis using True by (auto intro: exI [of _ "Suc k"])
  next
    case False
    with 1 show ?thesis by (auto simp: int_ok_def intro: exI [of _ 0])
  qed
qed (auto simp: int_ok_def intro: exI [of _ 0])

lemma strip_leading_zeros_suffix: "\<exists>k. ds = replicate k 48 @ fst (strip_leading_zeros ds p)"
proof (induction ds p rule: strip_leading_zeros.induct)
  case (1 d d' ds p)
  show ?case
  proof (cases "d = 48")
    case True
    with 1 obtain k where "d' # ds = replicate k 48 @ fst (strip_leading_zeros (d' # ds) (p - 1))" by blast
    then have "d # d' # ds = replicate (Suc k) 48 @ fst (strip_leading_zeros (d # d' # ds) p)" using True by simp
    then show ?thesis by (rule exI)
  next
    case False
    then show ?thesis by (intro exI [of _ 0]) simp
  qed
qed (rule exI [of _ 0], simp)+

lemma strip_trailing_zeros_point:
  "\<exists>k. ds = strip_trailing_zeros ds @ replicate k 48"
proof -
  obtain k where "rev ds = replicate k 48 @ fst (strip_leading_zeros (rev ds) 0)"
    using strip_leading_zeros_suffix by blast
  then have "ds = rev (fst (strip_leading_zeros (rev ds) 0)) @ replicate k 48"
    by (metis rev_append rev_replicate rev_rev_ident)
  then show ?thesis by (auto simp: strip_trailing_zeros_def)
qed

lemma split_once_text: "c \<notin> set a \<Longrightarrow> split_once c (a @ c # b) = (a, b)"
proof -
  assume "c \<notin> set a"
  then have "\<And>x. x \<in> set a \<Longrightarrow> x \<noteq> c" by blast
  then show ?thesis by (simp add: split_once_def takeWhile_append2 dropWhile_append2)
qed

text \<open>\<open>decimal_parts\<close> recovers the digits and the place of the point from every such text.\<close>

lemma digits_no_sign: "list_all digit ds \<Longrightarrow> c \<in> set ds \<Longrightarrow> c \<noteq> 46 \<and> c \<noteq> 101"
  by (auto simp: list_all_iff digit_def)

lemma mantissa_parts:
  assumes "int_ok ip" "frac_ok fr"
  shows "(if 46 \<in> set (ip @ fr) then let (i, f) = split_once 46 (ip @ fr) in (i @ f, int (length i) + k)
          else (ip @ fr, int (length (ip @ fr)) + k)) = (ip @ drop 1 fr, int (length ip) + k)"
proof (cases "fr = []")
  case True
  have "46 \<notin> set ip" using assms(1) digits_no_sign [of ip] by (auto simp: int_ok_def)
  with True show ?thesis by simp
next
  case False
  then obtain ds where "fr = 46 # ds" using assms(2) by (auto simp: frac_ok_def)
  moreover have "46 \<notin> set ip" using assms(1) digits_no_sign [of ip] by (auto simp: int_ok_def)
  ultimately show ?thesis by (simp add: split_once_text)
qed

lemma decimal_parts_text:
  assumes "int_ok ip" "frac_ok fr" "exp_ok ex"
  shows "decimal_parts (ip @ fr @ ex) =
    (case strip_leading_zeros (ip @ drop 1 fr) (int (length ip) + exp_of ex) of (a, b) \<Rightarrow> (strip_trailing_zeros a, b))"
proof -
  have no: "101 \<notin> set (ip @ fr)"
    using assms(1,2) digits_no_sign by (fastforce simp: int_ok_def frac_ok_def)
  have "(if 101 \<in> set (ip @ fr @ ex) then let (m, t) = split_once 101 (ip @ fr @ ex) in (m, int_of_text t)
      else (ip @ fr @ ex, 0)) = (ip @ fr, exp_of ex)"
  proof (cases "ex = []")
    case True
    with no show ?thesis by (simp add: exp_of_def)
  next
    case False
    then obtain u where "ex = 101 # u" using assms(3) by (auto simp: exp_ok_def)
    with split_once_text [OF no, of u] show ?thesis by (simp add: exp_of_def)
  qed
  then show ?thesis
    unfolding decimal_parts_def Let_def split mantissa_parts [OF assms(1,2), unfolded Let_def]
    by (simp only: split mantissa_parts [OF assms(1,2), unfolded Let_def])
qed

lemma decimal_parts_writes:
  assumes "writes ip fr ex v" "0 < v"
  obtains ds p where "decimal_parts (ip @ fr @ ex) = (ds, p)" "int_ok ds" "hd ds \<noteq> 48" "point_value ds p = v"
proof -
  have w: "int_ok ip" "frac_ok fr" "exp_ok ex" "v = point_value (ip @ drop 1 fr) (int (length ip) + exp_of ex)"
    using assms(1) by (auto simp: writes_def)
  obtain a b where ab: "strip_leading_zeros (ip @ drop 1 fr) (int (length ip) + exp_of ex) = (a, b)" by force
  have "list_all digit (ip @ drop 1 fr)" "ip @ drop 1 fr \<noteq> []"
    using w(1,2) by (auto simp: int_ok_def frac_ok_def)
  with strip_leading_zeros_point [OF _ _ ab] have a: "int_ok a" "point_value a b = v" using w(4) by auto
  have "a \<noteq> [48]" using a(2) assms(2) by (auto simp: point_value_def)
  with a(1) have hd: "hd a \<noteq> 48" by (auto simp: int_ok_def)
  obtain k where k: "a = strip_trailing_zeros a @ replicate k 48" using strip_trailing_zeros_point by blast
  define ds where "ds = strip_trailing_zeros a"
  have k': "a = ds @ replicate k 48" using k by (simp only: ds_def)
  have "ds \<noteq> []" using k' hd a(1) by (cases k) (auto simp: int_ok_def)
  then have "hd ds = hd a" "int_ok ds" "point_value ds b = v"
    using k' a hd point_value_zeros(2) [of ds k b] by (auto simp: int_ok_def)
  with hd show thesis
    using that [of ds b] decimal_parts_text [OF w(1-3)] ab by (simp add: ds_def)
qed

section \<open>Small integers are floats\<close>

lemma round_half_even_int: "round_half_even (of_int m) = m"
  by (rule round_half_even_near) simp

lemma round64_small_int:
  assumes "0 < n" "n \<le> 2 ^ 53"
  shows "round64 (of_int n) = FFin (of_int n)"
proof -
  define q where "q = ulp_exp (of_int n)"
  have n: "(0::rat) < of_int n" using assms(1) by simp
  have le: "of_int n \<le> (2::rat) ^ 53"
    using assms(2) of_int_le_iff [of n "2 ^ 53", where 'a = rat] by (simp only: of_int_power of_int_numeral)
  have "ilog2 (of_int n) \<le> 53"
    using ilog2_bounds(1) [OF n] le rpow_less [of 2 53 "ilog2 (of_int n)"] rpow_nat [of 2 53] by fastforce
  moreover have "ilog2 (of_int n) = 53 \<Longrightarrow> n = 2 ^ 53"
    using ilog2_bounds(1) [OF n] rpow_nat [of 2 53] assms(2) of_int_le_iff [of "2 ^ 53" n, where 'a = rat] by simp
  ultimately have q: "q = 1 \<and> n = 2 ^ 53 \<or> q \<le> 0" unfolding q_def ulp_exp_def by linarith
  then have "\<exists>m. of_int n / rpow 2 q = of_int m"
  proof
    assume "q \<le> 0"
    then have "of_int n / rpow 2 q = of_int (n * 2 ^ nat (- q))" by (auto simp: rpow_def)
    then show ?thesis by blast
  next
    assume "q = 1 \<and> n = 2 ^ 53"
    then have "of_int n / rpow 2 q = of_int (2 ^ 52)" by (simp add: rpow_def)
    then show ?thesis by blast
  qed
  then obtain m where m: "of_int n / rpow 2 q = of_int m" by blast
  moreover have "of_int m * rpow 2 q = of_int n" using m [symmetric] rpow_pos [of 2 q] by simp
  moreover have "of_int n < (2::rat) ^ 1024" using le by (rule le_less_trans) simp
  ultimately show ?thesis
    by (simp add: round64_pos [OF n] q_def [symmetric] Let_def round_half_even_int)
qed

lemma round64_large_int:
  assumes "2 ^ 53 \<le> n" "round64 (of_int n) = FFin x"
  shows "2 ^ 53 \<le> x"
proof -
  define k where "k = ilog2 (of_int n)"
  have n: "(0::rat) < of_int n" using assms(1) by simp
  have ge: "(2::rat) ^ 53 \<le> of_int n"
    using assms(1) of_int_le_iff [of "2 ^ 53" n, where 'a = rat] by (simp only: of_int_power of_int_numeral)
  have k: "53 \<le> k"
    using ilog2_bounds(2) [OF n] ge rpow_le [of 2 "k + 1" 53] rpow_nat [of 2 53] unfolding k_def by fastforce
  then have q: "ulp_exp (of_int n) = k - 52" by (simp add: ulp_exp_def k_def)
  have p: "0 < rpow 2 (k - 52)" by (simp add: rpow_pos)
  have kk: "rpow 2 k = 2 ^ 52 * rpow 2 (k - 52)" using rpow_add [of 2 "k - 52" 52] rpow_nat [of 2 52] by (simp add: mult_ac)
  have "2 ^ 52 \<le> of_int n / rpow 2 (k - 52)"
    using ilog2_bounds(1) [OF n] p unfolding k_def [symmetric] kk by (simp add: field_simps)
  then have "2 ^ 52 \<le> \<lfloor>of_int n / rpow 2 (k - 52)\<rfloor>" by (simp add: le_floor_iff)
  also have "\<dots> \<le> round_half_even (of_int n / rpow 2 (k - 52))" by (simp add: round_half_even_def Let_def)
  finally have "of_int (2 ^ 52) \<le> (of_int (round_half_even (of_int n / rpow 2 (k - 52))) :: rat)" by (simp only: of_int_le_iff)
  then have "2 ^ 52 * rpow 2 (k - 52) \<le> of_int (round_half_even (of_int n / rpow 2 (k - 52))) * rpow 2 (k - 52)"
    using p by (intro mult_right_mono) auto
  also have "\<dots> = x" using assms(2) by (simp add: round64_pos [OF n] q Let_def split: if_splits)
  finally have "rpow 2 k \<le> x" unfolding kk .
  moreover have "2 ^ 53 \<le> rpow 2 k" using rpow_le [of 2 53 k] rpow_nat [of 2 53] k by simp
  ultimately show ?thesis by simp
qed

end
