(* ===== verification/Json_Codec.thy ===== *)
theory Json_Codec
  imports Json_Float
begin

text \<open>
  The two round trips of JSON text: what \<open>canonicalize_json\<close> writes, \<open>load_i_json\<close> reads back as a value with
  the same canonical form, and what \<open>dumps\<close> writes, \<open>loads\<close> reads back as the value itself, with keys in
  order and tuples as lists.  The floats of a value are binary64 numbers and its mappings have each key once.
\<close>

section \<open>Values\<close>

definition is_float64 :: "rat \<Rightarrow> bool" where
  "is_float64 x \<longleftrightarrow> round64 x = FFin x"

fun py_wf :: "pyval \<Rightarrow> bool" where
  "py_wf (PFloat f) = (case f of FFin x \<Rightarrow> is_float64 x | _ \<Rightarrow> True)"
| "py_wf (PDict kvs) = (dict_ok kvs \<and> list_all (\<lambda>(k, v). py_wf v) kvs)"
| "py_wf (PList xs) = list_all py_wf xs"
| "py_wf (PTuple xs) = list_all py_wf xs"
| "py_wf _ = True"

lemma round64_uminus:
  assumes "0 < x"
  shows "round64 (- x) = (case round64 x of FFin v \<Rightarrow> FFin (- v) | FInf s \<Rightarrow> FInf True | FNan \<Rightarrow> FNan)"
  using assms by (simp add: round64_def Let_def)

lemma is_float64_abs: "is_float64 x \<Longrightarrow> is_float64 \<bar>x\<bar>"
proof (cases "x < 0")
  case True
  assume "is_float64 x"
  with True round64_uminus [of "- x"] have "round64 (- x) = FFin (- x)"
    by (auto simp: is_float64_def split: pyfloat.splits)
  with True show ?thesis by (simp add: is_float64_def)
qed simp

lemma round64_signed:
  assumes "round64 v = FFin \<bar>x\<bar>" "0 < v" "x \<noteq> 0"
  shows "round64 (if x < 0 then - v else v) = FFin x"
  using assms round64_uminus [of v] by (auto split: if_splits)

section \<open>Float texts\<close>

lemma float_token_writes:
  assumes "writes ip fr ex v"
  shows "float_token (sign_text neg @ ip @ fr @ ex) = Inr (PFloat (round64 (if neg then - v else v)))"
proof -
  have w: "int_ok ip" "frac_ok fr" "exp_ok ex" using assms by (auto simp: writes_def)
  show ?thesis
    using scan_number_text [OF w, of "[]" neg] decimal_value_writes [OF assms, of neg] by (simp add: float_token_def)
qed

lemma float_text_atom:
  assumes "is_float64 x" "parse_float h = float_token"
  shows "atom_ok h (float_text (FFin x)) \<and> atom_value h (float_text (FFin x)) = Inr (PFloat (FFin x))"
proof (cases "x = 0")
  case True
  have w: "writes [48] [46, 48] [] 0"
    by (simp add: writes_def int_ok_def frac_ok_def exp_ok_def digit_def point_value_def)
  then have "int_ok [48]" "frac_ok [46, 48]" "exp_ok []" by (auto simp: writes_def)
  note a = atom_number [OF this, of h False]
  have "float_text (FFin x) = sign_text False @ [48] @ [46, 48] @ []"
    using True by (simp add: float_text_def sign_text_def lit_def)
  moreover have "number_value h (sign_text False @ [48]) [46, 48] [] = Inr (PFloat (FFin 0))"
    using float_token_writes [OF w, of False] assms(2) by (simp add: number_value_def round64_def)
  ultimately show ?thesis using a True by simp
next
  case False
  obtain d e where de: "shortest \<bar>x\<bar> = (d, e)" by force
  have x: "0 < \<bar>x\<bar>" "round64 \<bar>x\<bar> = FFin \<bar>x\<bar>" using False is_float64_abs [OF assms(1)] by (simp_all add: is_float64_def)
  note good = shortest_reads_back [OF x de]
  obtain ip fr ex where t: "float_repr \<bar>x\<bar> = ip @ fr @ ex" and w: "writes ip fr ex (of_int d * rpow 10 e)"
    and fr: "fr \<noteq> [] \<or> ex \<noteq> []" using float_repr_writes [OF de good(1)] by blast
  have ok: "int_ok ip" "frac_ok fr" "exp_ok ex" using w by (auto simp: writes_def)
  have ft: "float_text (FFin x) = sign_text (x < 0) @ ip @ fr @ ex"
    using False t by (simp add: float_text_def sign_text_def)
  have "round64 (if x < 0 then - (of_int d * rpow 10 e) else of_int d * rpow 10 e) = FFin x"
    using round64_signed [OF good(2) _ False] good(1) rpow_pos [of 10 e] by simp
  then have "number_value h (sign_text (x < 0) @ ip) fr ex = Inr (PFloat (FFin x))"
    using fr float_token_writes [OF w, of "x < 0"] assms(2) by (auto simp: number_value_def)
  with atom_number [OF ok, of h "x < 0"] show ?thesis unfolding ft by simp
qed

lemma int_text_atom: "atom_ok h (dec_int i) \<and> atom_value h (dec_int i) = parse_int h (dec_int i)"
proof -
  have "dec_int i = sign_text (i < 0) @ dec_nat (nat \<bar>i\<bar>) @ [] @ []"
    by (simp add: dec_int_def sign_text_def)
  moreover have "frac_ok []" "exp_ok []" by (simp_all add: frac_ok_def exp_ok_def)
  ultimately show ?thesis using atom_number [OF dec_nat_int_ok, of "[]" "[]" h "i < 0"] by (simp add: number_value_def)
qed

lemma int_of_text_dec_int: "int_of_text (dec_int i) = i"
proof (cases "i < 0")
  case True
  then show ?thesis by (simp add: dec_int_def int_of_text_def nat_of_digits_dec_nat)
next
  case False
  obtain c cs where c: "dec_nat (nat i) = c # cs" "digit c"
    using dec_nat_int_ok [of "nat i"] by (cases "dec_nat (nat i)") (auto simp: int_ok_def)
  then have "int_of_text (dec_nat (nat i)) = int (nat_of_digits (dec_nat (nat i)))"
    by (auto simp: int_of_text_def digit_def)
  with False show ?thesis by (simp add: dec_int_def nat_of_digits_dec_nat)
qed

lemma dec_nat_snoc: "0 < n \<Longrightarrow> m < 10 \<Longrightarrow> dec_nat (10 * n + m) = dec_nat n @ [48 + m]"
  by (subst dec_nat.simps) simp

lemma dec_nat_of_digits: "int_ok ds \<Longrightarrow> dec_nat (nat_of_digits ds) = ds"
proof (induction ds rule: rev_induct)
  case (snoc d ds)
  then have d: "digit d" "list_all digit ds" by (auto simp: int_ok_def)
  show ?case
  proof (cases "ds = []")
    case True
    with d show ?thesis by (auto simp: nat_of_digits_def dec_nat.simps [of "d - 48"] digit_def)
  next
    case False
    with snoc.prems have ok: "int_ok ds" "hd ds \<noteq> 48" by (auto simp: int_ok_def)
    have "nat_of_digits ds \<noteq> 0"
    proof
      assume "nat_of_digits ds = 0"
      with snoc.IH [OF ok(1)] have "ds = [48]" by (simp add: dec_nat.simps [of 0])
      with ok(2) show False by simp
    qed
    moreover obtain m where m: "m = d - 48" "m < 10" "48 + m = d" using d(1) by (auto simp: digit_def)
    ultimately have "dec_nat (10 * nat_of_digits ds + m) = dec_nat (nat_of_digits ds) @ [48 + m]"
      using dec_nat_snoc [of "nat_of_digits ds" m] by blast
    with snoc.IH [OF ok(1)] m show ?thesis by (simp add: nat_of_digits_snoc)
  qed
qed (simp add: int_ok_def)

section \<open>Canonical numbers are read back\<close>

definition numeric_value :: "pyval \<Rightarrow> rat" where
  "numeric_value v = (case v of PInt i \<Rightarrow> of_int i | PFloat (FFin x) \<Rightarrow> x | _ \<Rightarrow> 0)"

text \<open>What the canonicalizer writes for a number reads as this number, and it writes what was read the same way.\<close>

definition number_fixed :: "pystr \<Rightarrow> rat \<Rightarrow> bool" where
  "number_fixed t q \<longleftrightarrow> (\<exists>w. atom_value i_json_hooks t = Inr w \<and> i_json w \<and> py_wf w \<and> json_view w = JNum t \<and> numeric_value w = q)"

lemma round64_small:
  assumes "\<bar>i\<bar> \<le> MAX_SAFE_INTEGER"
  shows "round64 (of_int i) = FFin (of_int i)"
proof -
  consider "i = 0" | "0 < i" | "i < 0" by linarith
  then show ?thesis
  proof cases
    case 2
    then show ?thesis using round64_small_int [of i] assms by (simp add: MAX_SAFE_INTEGER_def)
  next
    case 3
    then show ?thesis
      using round64_small_int [of "- i"] round64_uminus [of "of_int (- i)"] assms by (simp add: MAX_SAFE_INTEGER_def)
  qed (simp add: round64_def)
qed

lemma parse_small_int:
  "\<bar>i\<bar> \<le> MAX_SAFE_INTEGER \<Longrightarrow> parse_integer (dec_int i) = Inr (PInt i)"
proof -
  assume i: "\<bar>i\<bar> \<le> MAX_SAFE_INTEGER"
  then have "\<bar>of_int i\<bar> \<le> (of_int MAX_SAFE_INTEGER :: rat)" by (simp only: of_int_abs [symmetric] of_int_le_iff)
  with round64_small [OF i] show ?thesis by (simp add: parse_integer_def int_of_text_dec_int)
qed

lemma small_int_fixed:
  assumes "\<bar>i\<bar> \<le> MAX_SAFE_INTEGER"
  shows "atom_ok h (dec_int i)" "number_fixed (dec_int i) (of_int i)"
proof -
  show "atom_ok h (dec_int i)" using int_text_atom by blast
  have "atom_value i_json_hooks (dec_int i) = Inr (PInt i)"
    using int_text_atom [of i_json_hooks i] parse_small_int [OF assms] by (simp add: i_json_hooks_def)
  then show "number_fixed (dec_int i) (of_int i)"
    unfolding number_fixed_def using assms by (intro exI [of _ "PInt i"]) (simp add: serialize_integer_def num_text_def numeric_value_def)
qed

lemma integer_text_value:
  assumes "writes ip [] [] v"
  shows "v = of_nat (nat_of_digits ip)" "int_of_text (sign_text neg @ ip) = (if neg then - int (nat_of_digits ip) else int (nat_of_digits ip))"
    "dec_int (int_of_text (sign_text neg @ ip)) = sign_text neg @ ip \<or> nat_of_digits ip = 0"
proof -
  have ok: "int_ok ip" "list_all digit ip" "ip \<noteq> []" using assms by (auto simp: writes_def int_ok_def)
  show "v = of_nat (nat_of_digits ip)" using assms by (simp add: writes_def exp_of_def point_value_def)
  show i: "int_of_text (sign_text neg @ ip) = (if neg then - int (nat_of_digits ip) else int (nat_of_digits ip))"
    using ok(2,3) by (cases ip) (auto simp: int_of_text_def sign_text_def digit_def)
  show "dec_int (int_of_text (sign_text neg @ ip)) = sign_text neg @ ip \<or> nat_of_digits ip = 0"
    unfolding i using dec_nat_of_digits [OF ok(1)] by (auto simp: dec_int_def sign_text_def)
qed

lemma float_fixed_int:
  assumes w: "writes ip [] [] v" and v: "0 < v" and t: "t = sign_text (x < 0) @ ip"
    and x: "round64 v = FFin \<bar>x\<bar>" "x \<noteq> 0" and s: "serialize_float (FFin x) = Inr t" "is_float64 x"
  shows "number_fixed t x"
proof -
  define i where "i = int_of_text t"
  have vi: "(if x < 0 then - v else v) = of_int i"
    using integer_text_value(1,2) [OF w] by (simp add: i_def t)
  have "frac_ok []" "exp_ok []" "int_ok ip" using w by (simp_all add: frac_ok_def exp_ok_def writes_def)
  then have a: "atom_value i_json_hooks t = parse_integer t"
    using atom_number(2) [of ip "[]" "[]" i_json_hooks "x < 0"] by (simp add: t number_value_def i_json_hooks_def)
  have ti: "dec_int i = t" using integer_text_value(3) [OF w, of "x < 0"] integer_text_value(1) [OF w] v by (auto simp: i_def t)
  show ?thesis
  proof (cases "\<bar>i\<bar> \<le> MAX_SAFE_INTEGER")
    case True
    have "round64 (if x < 0 then - v else v) = FFin x" using round64_signed [OF x(1) v x(2)] .
    then have "x = of_int i" using round64_small [OF True] unfolding vi by simp
    then show ?thesis using small_int_fixed(2) [OF True] ti by simp
  next
    case False
    then have "2 ^ 53 \<le> \<bar>i\<bar>" by (simp add: MAX_SAFE_INTEGER_def)
    moreover have "of_int \<bar>i\<bar> = v" using vi v by (auto simp: abs_if split: if_splits)
    ultimately have "2 ^ 53 \<le> \<bar>x\<bar>" using round64_large_int [of "\<bar>i\<bar>"] x(1) by simp
    then have "\<not> \<bar>x\<bar> \<le> of_int MAX_SAFE_INTEGER" by (simp add: MAX_SAFE_INTEGER_def)
    moreover have "round64 (of_int i) = FFin x" using round64_signed [OF x(1) v x(2)] unfolding vi .
    ultimately have "parse_integer t = Inr (PFloat (FFin x))" by (simp add: parse_integer_def i_def [symmetric])
    with a show ?thesis
      unfolding number_fixed_def using s by (intro exI [of _ "PFloat (FFin x)"]) (simp add: num_text_def numeric_value_def)
  qed
qed

lemma float_fixed:
  assumes x: "is_float64 x" and s: "serialize_float (FFin x) = Inr t"
  shows "atom_ok h t" "number_fixed t x"
proof -
  have "atom_ok h t \<and> number_fixed t x"
  proof (cases "x = 0")
    case True
    then have "t = dec_int 0" using s by (simp add: serialize_float_def dec_int_def dec_nat.simps [of 0] lit_def)
    then show ?thesis using small_int_fixed [of 0] True by (simp add: MAX_SAFE_INTEGER_def)
  next
    case False
    obtain d e where de: "shortest \<bar>x\<bar> = (d, e)" by force
    define v where "v = of_int d * rpow 10 e"
    have x': "0 < \<bar>x\<bar>" "round64 \<bar>x\<bar> = FFin \<bar>x\<bar>" using False is_float64_abs [OF x] by (simp_all add: is_float64_def)
    note good = shortest_reads_back [OF x' de]
    have v: "0 < v" "round64 v = FFin \<bar>x\<bar>" using good rpow_pos [of 10 e] by (simp_all add: v_def)
    obtain i0 f0 e0 where r: "float_repr \<bar>x\<bar> = i0 @ f0 @ e0" and w0: "writes i0 f0 e0 v"
      using float_repr_writes [OF de good(1)] unfolding v_def by blast
    obtain ds p where dp: "decimal_parts (i0 @ f0 @ e0) = (ds, p)" "int_ok ds" "hd ds \<noteq> 48" "point_value ds p = v"
      using decimal_parts_writes [OF w0 v(1)] by blast
    obtain ip fr ex where l: "layout_number ds p = ip @ fr @ ex" and w: "writes ip fr ex v"
      using layout_writes [OF dp(2,3), of p] unfolding dp(4) by blast
    have t: "t = sign_text (x < 0) @ ip @ fr @ ex"
      using s False r dp(1) l by (simp add: serialize_float_def sign_text_def)
    have ok: "int_ok ip" "frac_ok fr" "exp_ok ex" using w by (auto simp: writes_def)
    have "number_fixed t x"
    proof (cases "fr = [] \<and> ex = []")
      case True
      then show ?thesis using w t by (intro float_fixed_int [OF _ v(1) _ v(2) False s x]) auto
    next
      case nonint: False
      have "atom_value i_json_hooks t = float_token t"
        unfolding t atom_number(2) [OF ok] using nonint by (auto simp: number_value_def i_json_hooks_def)
      also have "\<dots> = Inr (PFloat (FFin x))"
        using float_token_writes [OF w, of "x < 0"] round64_signed [OF v(2,1) False] by (simp add: t)
      finally show ?thesis
        unfolding number_fixed_def using s x by (intro exI [of _ "PFloat (FFin x)"]) (simp add: num_text_def numeric_value_def)
    qed
    then show ?thesis using atom_number(1) [OF ok] t by simp
  qed
  then show "atom_ok h t" "number_fixed t x" by auto
qed

lemma integer_fixed:
  assumes "serialize_integer i = Inr t"
  shows "atom_ok h t" "number_fixed t (of_int i)"
proof -
  have "atom_ok h t \<and> number_fixed t (of_int i)"
  proof (cases "\<bar>i\<bar> \<le> MAX_SAFE_INTEGER")
    case True
    then show ?thesis using assms small_int_fixed [OF True] by (simp add: serialize_integer_def)
  next
    case False
    with assms have "is_float64 (of_int i)" "serialize_float (FFin (of_int i)) = Inr t"
      by (auto simp: serialize_integer_def is_float64_def split: pyfloat.splits if_splits)
    then show ?thesis using float_fixed by blast
  qed
  then show "atom_ok h t" "number_fixed t (of_int i)" by auto
qed

section \<open>Canonical text is read back\<close>

text \<open>An abstract document that the strict parser turns into a value with this document as its view.\<close>

definition doc_fixed :: "jv \<Rightarrow> bool" where
  "doc_fixed j \<longleftrightarrow> readable i_json_hooks quote_string j
     \<and> (\<exists>w. tree_value i_json_hooks j = Inr w \<and> i_json w \<and> py_wf w \<and> json_view w = j)"

lemma dict_set_fresh: "dict_get d k = None \<Longrightarrow> dict_set k v d = d @ [(k, v)]"
  by (induction d) (auto split: if_splits)

lemma reject_duplicate_keys_from_distinct:
  "distinct (map fst kvs) \<Longrightarrow> (\<And>k. k \<in> set (map fst kvs) \<Longrightarrow> dict_get d (KStr k) = None) \<Longrightarrow>
     reject_duplicate_keys_from d kvs = Inr (d @ map (\<lambda>(k, v). (KStr k, v)) kvs)"
proof (induction kvs arbitrary: d)
  case (Cons kv kvs)
  obtain k v where kv: "kv = (k, v)" by (cases kv)
  have k: "dict_get d (KStr k) = None" using Cons.prems(2) kv by simp
  have "dict_get (dict_set (KStr k) v d) (KStr l) = None" if "l \<in> set (map fst kvs)" for l
    using Cons.prems kv that by auto
  with Cons.IH [of "dict_set (KStr k) v d"] Cons.prems(1) kv k show ?case by (simp add: dict_set_fresh)
qed simp

lemma reject_duplicate_keys_distinct:
  "distinct (map fst kvs) \<Longrightarrow> reject_duplicate_keys kvs = Inr (map (\<lambda>(k, v). (KStr k, v)) kvs)"
  using reject_duplicate_keys_from_distinct [of kvs "[]"] by (simp add: reject_duplicate_keys_def)

lemma seq_choice:
  "(\<And>x. x \<in> set xs \<Longrightarrow> \<exists>w. f x = Inr w \<and> P x w) \<Longrightarrow> \<exists>ws. sequence_res (map f xs) = Inr ws \<and> list_all2 P xs ws"
proof (induction xs)
  case (Cons x xs)
  from Cons.IH [OF Cons.prems] obtain ws where ws: "sequence_res (map f xs) = Inr ws" "list_all2 P xs ws"
    by auto
  from Cons.prems [of x] obtain w where w: "f x = Inr w" "P x w" by auto
  from ws w show ?case by (intro exI [of _ "w # ws"]) simp
qed simp

lemma doc_fixed_array:
  assumes "\<And>j. j \<in> set js \<Longrightarrow> doc_fixed j"
  shows "doc_fixed (JArr js)"
proof -
  have "\<exists>w. tree_value i_json_hooks j = Inr w \<and> (i_json w \<and> py_wf w \<and> json_view w = j)" if "j \<in> set js" for j
    using assms [OF that] by (auto simp: doc_fixed_def)
  from seq_choice [of js "tree_value i_json_hooks" "\<lambda>j w. i_json w \<and> py_wf w \<and> json_view w = j", OF this]
  obtain ws where ws: "sequence_res (map (tree_value i_json_hooks) js) = Inr ws"
    "list_all2 (\<lambda>j w. i_json w \<and> py_wf w \<and> json_view w = j) js ws"
    by (auto simp only:)
  have "list_all i_json ws \<and> list_all py_wf ws \<and> map json_view ws = js"
    using ws(2) by (induction rule: list_all2_induct) auto
  with ws(1) assms show ?thesis
    unfolding doc_fixed_def by (auto simp: list_all_iff doc_fixed_def intro!: exI [of _ "PList ws"])
qed

lemma doc_fixed_object:
  assumes "\<And>k j. (k, j) \<in> set kjs \<Longrightarrow> doc_fixed j \<and> \<not> list_ex is_surrogate k"
    and d: "distinct (map fst kjs)" and s: "sorted (map (utf16_key \<circ> fst) kjs)"
  shows "doc_fixed (JObj kjs)"
proof -
  let ?f = "\<lambda>(k, j). pair_value k (tree_value i_json_hooks j)"
  have "\<exists>kw. ?f kj = Inr kw \<and> (fst kw = fst kj \<and> i_json (snd kw) \<and> py_wf (snd kw) \<and> json_view (snd kw) = snd kj)"
    if "kj \<in> set kjs" for kj
  proof -
    obtain k j where kj: "kj = (k, j)" by (cases kj)
    with assms(1) [of k j] that obtain w where "tree_value i_json_hooks j = Inr w" "i_json w" "py_wf w" "json_view w = j"
      by (auto simp: doc_fixed_def)
    with kj show ?thesis by (intro exI [of _ "(k, w)"]) (simp add: pair_value_def)
  qed
  from seq_choice [of kjs ?f "\<lambda>kj kw. fst kw = fst kj \<and> i_json (snd kw) \<and> py_wf (snd kw) \<and> json_view (snd kw) = snd kj", OF this]
  obtain ps where ps: "sequence_res (map ?f kjs) = Inr ps"
    "list_all2 (\<lambda>kj kw. fst kw = fst kj \<and> i_json (snd kw) \<and> py_wf (snd kw) \<and> json_view (snd kw) = snd kj) kjs ps"
    by (auto simp only:)
  have keys: "map fst ps = map fst kjs" and view: "map (\<lambda>(k, w). (k, json_view w)) ps = kjs"
    and ok: "\<forall>(k, w) \<in> set ps. i_json w \<and> py_wf w"
    using ps(2) by (induction rule: list_all2_induct) auto
  let ?w = "PDict (map (\<lambda>(k, v). (KStr k, v)) ps)"
  have "tree_value i_json_hooks (JObj kjs) = Inr ?w"
    using ps(1) reject_duplicate_keys_distinct [of ps] d keys by (simp add: i_json_hooks_def)
  moreover have "\<forall>(k, w) \<in> set ps. \<not> list_ex is_surrogate k"
  proof (intro ballI, clarify)
    fix k w assume "(k, w) \<in> set ps" "list_ex is_surrogate k"
    moreover from this(1) have "k \<in> fst ` set kjs" using keys by (metis fst_conv image_eqI list.set_map)
    ultimately show False using assms(1) by auto
  qed
  then have "i_json ?w" using ok by (auto simp: list_all_iff)
  moreover have "map fst (map (\<lambda>(k, v). (KStr k, v)) ps) = map KStr (map fst ps)" by auto
  then have "dict_ok (map (\<lambda>(k, v). (KStr k, v)) ps)"
    using d keys by (simp only: distinct_map [of KStr]) (simp add: inj_on_def)
  then have "py_wf ?w" using ok by (auto simp: list_all_iff)
  moreover have "json_view ?w = JObj kjs"
    using view s by (simp add: case_prod_unfold comp_def sort_key_id_if_sorted)
  moreover have "readable i_json_hooks quote_string (JObj kjs)"
    using assms(1) by (auto simp: list_all_iff doc_fixed_def quote_ok_string)
  ultimately show ?thesis unfolding doc_fixed_def by blast
qed


lemma distinct_map_sort_key: "distinct (map g xs) \<Longrightarrow> distinct (map g (sort_key f xs))"
  by (simp add: distinct_map)

lemma json_view_fixed: "i_json v \<Longrightarrow> py_wf v \<Longrightarrow> doc_fixed (json_view v)"
proof (induction v rule: json_view.induct)
  case (4 i)
  then obtain t where "serialize_integer i = Inr t"
    using serialize_integer_ok_iff [of i] by (auto simp: is_ok_iff)
  then show ?case using integer_fixed [of i t] by (auto simp: doc_fixed_def num_text_def number_fixed_def)
next
  case (5 f)
  then obtain x where x: "f = FFin x" "is_float64 x" by (auto split: pyfloat.splits)
  then obtain t where "serialize_float (FFin x) = Inr t" by (simp add: serialize_float_def)
  then show ?case using float_fixed [OF x(2), of t] x(1) by (auto simp: doc_fixed_def num_text_def number_fixed_def)
next
  case (6 kvs)
  let ?g = "\<lambda>(k, v). (key_text k, json_view v)"
  have keys: "\<forall>(k, v) \<in> set kvs. is_KStr k \<and> \<not> list_ex is_surrogate (key_text k) \<and> i_json v \<and> py_wf v"
    and d: "distinct (map fst kvs)" using "6.prems" by (auto simp: list_all_iff)
  have "is_KStr k" if "k \<in> set (map fst kvs)" for k using keys that by auto
  then have "inj_on key_text (set (map fst kvs))" by (intro inj_onI) (metis dkey.collapse(1))
  with d have "distinct (map key_text (map fst kvs))" by (simp only: distinct_map)
  moreover have "map fst (map ?g kvs) = map key_text (map fst kvs)" by auto
  ultimately have "distinct (map fst (map ?g kvs))" by (simp only:)
  then have "distinct (map fst (sort_key (utf16_key \<circ> fst) (map ?g kvs)))"
    by (rule distinct_map_sort_key)
  moreover have "doc_fixed j \<and> \<not> list_ex is_surrogate k" if "(k, j) \<in> set (map ?g kvs)" for k j
    using that keys "6.IH" by fastforce
  ultimately show ?case by (auto intro!: doc_fixed_object)
next
  case (7 xs)
  then show ?case by (auto simp: list_all_iff intro!: doc_fixed_array)
next
  case (8 xs)
  then show ?case by (auto simp: list_all_iff intro!: doc_fixed_array)
next
  case (3 s)
  then show ?case by (simp add: doc_fixed_def quote_ok_string)
qed (auto simp: doc_fixed_def)

lemma render_not_bom: "wf_jv j \<Longrightarrow> take 1 (render j) \<noteq> [0xFEFF]"
  using render_hd [of j] by (cases j) (auto simp: num_char_def split: if_splits)

lemma load_canonical:
  assumes "canonicalize_json v = Inr t" "py_wf v"
  obtains w where "load_i_json t = Inr w" "tree_value i_json_hooks (json_view v) = Inr w" "json_view w = json_view v" "i_json w" "py_wf w"
proof -
  have v: "i_json v" and t: "t = jtext quote_string (json_view v)"
    using assms(1) by (simp_all add: canonicalize_json_iff render_jtext)
  obtain w where w: "tree_value i_json_hooks (json_view v) = Inr w" "i_json w" "py_wf w" "json_view w = json_view v"
    and r: "readable i_json_hooks quote_string (json_view v)"
    using json_view_fixed [OF v assms(2)] by (auto simp: doc_fixed_def)
  have "loads_with i_json_hooks t = Inr w"
    unfolding t using render_not_bom [OF wf_json_view [OF v]] by (intro loads_with_text r w) (simp add: render_jtext)
  then have "load_i_json t = Inr w"
    using canonicalize_i_json [OF w(2)] by (simp add: load_i_json_def)
  then show thesis using that w by blast
qed

section \<open>Dumped text is read back\<close>

text \<open>The values \<open>dumps\<close> accepts and \<open>loads\<close> returns unchanged, up to the order of keys and tuples.\<close>

fun dump_ok :: "pyval \<Rightarrow> bool" where
  "dump_ok (PStr s) = text_ok s"
| "dump_ok (PInt i) = (length (dec_nat (nat \<bar>i\<bar>)) \<le> int_digits_limit)"
| "dump_ok (PFloat f) = (case f of FFin x \<Rightarrow> is_float64 x | _ \<Rightarrow> True)"
| "dump_ok (PDict kvs) = (dict_ok kvs \<and> list_all (\<lambda>(k, v). is_KStr k \<and> text_ok (key_text k) \<and> dump_ok v) kvs)"
| "dump_ok (PList xs) = list_all dump_ok xs"
| "dump_ok (PTuple xs) = list_all dump_ok xs"
| "dump_ok (PBytes b) = False"
| "dump_ok (PObject n) = False"
| "dump_ok _ = True"

fun json_image :: "pyval \<Rightarrow> pyval" where
  "json_image (PDict kvs) = PDict (sort_key (key_text \<circ> fst) (map (\<lambda>(k, v). (k, json_image v)) kvs))"
| "json_image (PList xs) = PList (map json_image xs)"
| "json_image (PTuple xs) = PList (map json_image xs)"
| "json_image v = v"

fun dump_view :: "pyval \<Rightarrow> jv" where
  "dump_view PNone = JNull"
| "dump_view (PBool b) = JBool b"
| "dump_view (PStr s) = JStr s"
| "dump_view (PInt i) = JNum (dec_int i)"
| "dump_view (PFloat f) = JNum (float_text f)"
| "dump_view (PDict kvs) = JObj (sort_key fst (map (\<lambda>(k, v). (key_text k, dump_view v)) kvs))"
| "dump_view (PList xs) = JArr (map dump_view xs)"
| "dump_view (PTuple xs) = JArr (map dump_view xs)"
| "dump_view (PBytes b) = JNull"
| "dump_view (PObject n) = JNull"

lemma dumps_list:
  assumes "\<And>x. x \<in> set xs \<Longrightarrow> dumps x = Inr (jtext quote_ascii (dump_view x))"
  shows "(case sequence_res (map dumps xs) of Inl e \<Rightarrow> Inl e | Inr es \<Rightarrow> Inr ([91] @ join_with [44] es @ [93]))
    = Inr (jtext quote_ascii (JArr (map dump_view xs)))"
proof -
  have "sequence_res (map dumps xs) = Inr (map (jtext quote_ascii) (map dump_view xs))"
    using assms map_Inr_ok [of xs dumps "\<lambda>x. jtext quote_ascii (dump_view x)"] by (simp add: comp_def)
  then show ?thesis by simp
qed

lemma dumps_members:
  assumes "\<And>k v. (k, v) \<in> set kvs \<Longrightarrow> dumps v = Inr (jtext quote_ascii (dump_view v))"
  shows "sequence_res (map snd (sort_key fst (map (\<lambda>(k, v). (key_text k, member_text (key_text k) (dumps v))) kvs)))
    = Inr (map (\<lambda>(k, j). quote_ascii k @ [58] @ jtext quote_ascii j)
        (sort_key fst (map (\<lambda>(k, v). (key_text k, dump_view v)) kvs)))"
proof -
  let ?g = "\<lambda>(k, j). (k, Inr (quote_ascii k @ [58] @ jtext quote_ascii j) :: pystr res)"
  define L where "L = map (\<lambda>(k, v). (key_text k, dump_view v)) kvs"
  have "map (\<lambda>(k, v). (key_text k, member_text (key_text k) (dumps v))) kvs = map ?g L"
    using assms by (auto simp: member_text_def L_def)
  moreover have "(\<lambda>x. fst (?g x)) = fst" "snd \<circ> ?g = Inr \<circ> (\<lambda>(k, j). quote_ascii k @ [58] @ jtext quote_ascii j)"
    by (auto simp: fun_eq_iff)
  ultimately show ?thesis
    unfolding L_def [symmetric] by (simp only: sort_key_map [of fst ?g L] map_map) (simp only: map_map [symmetric] sequence_res_map_Inr)
qed

lemma dumps_view: "dump_ok v \<Longrightarrow> dumps v = Inr (jtext quote_ascii (dump_view v))"
proof (induction v rule: dumps.induct)
  case (6 kvs)
  then have n: "\<not> list_ex (\<lambda>(k, v). \<not> is_KStr k) kvs" by (auto simp: list_all_iff list_ex_iff)
  have "dumps v = Inr (jtext quote_ascii (dump_view v))" if "(k, v) \<in> set kvs" for k v
    using "6.IH" [OF n that refl] "6.prems" that by (auto simp: list_all_iff)
  from dumps_members [OF this] n show ?case by simp
next
  case (7 xs)
  then show ?case unfolding dumps.simps dump_view.simps by (intro dumps_list) (auto simp: list_all_iff)
next
  case (8 xs)
  then show ?case unfolding dumps.simps dump_view.simps by (intro dumps_list) (auto simp: list_all_iff)
qed (auto simp: dumps_int_def)

text \<open>An abstract document that \<open>loads\<close> turns into the given value.\<close>

definition doc_reads :: "jv \<Rightarrow> pyval \<Rightarrow> bool" where
  "doc_reads j v \<longleftrightarrow> readable default_hooks quote_ascii j \<and> tree_value default_hooks j = Inr v"

lemma doc_reads_array: "list_all2 doc_reads js vs \<Longrightarrow> doc_reads (JArr js) (PList vs)"
proof -
  assume "list_all2 doc_reads js vs"
  then have "list_all (readable default_hooks quote_ascii) js \<and> map (tree_value default_hooks) js = map Inr vs"
    by (induction rule: list_all2_induct) (auto simp: doc_reads_def)
  then show ?thesis by (simp add: doc_reads_def)
qed

lemma fold_dict_set_fresh:
  "distinct (map fst kvs) \<Longrightarrow> (\<And>k. k \<in> set (map fst kvs) \<Longrightarrow> dict_get d k = None) \<Longrightarrow>
     List.fold (\<lambda>(k, v). dict_set k v) kvs d = d @ kvs"
proof (induction kvs arbitrary: d)
  case (Cons kv kvs)
  obtain k v where kv: "kv = (k, v)" by (cases kv)
  have k: "dict_get d k = None" using Cons.prems(2) kv by simp
  have "dict_get (dict_set k v d) l = None" if "l \<in> set (map fst kvs)" for l
    using Cons.prems kv that by auto
  with Cons.IH [of "dict_set k v d"] Cons.prems(1) kv k show ?case by (simp add: dict_set_fresh)
qed simp

lemma dict_of_distinct: "distinct (map fst kvs) \<Longrightarrow> dict_of kvs = kvs"
  using fold_dict_set_fresh [of kvs "[]"] by (simp add: dict_of_def)

lemma doc_reads_object:
  assumes "list_all2 (\<lambda>(k, j) (k', v). k' = k \<and> text_ok k \<and> doc_reads j v) kjs kvs" "distinct (map fst kvs)"
  shows "doc_reads (JObj kjs) (PDict (map (\<lambda>(k, v). (KStr k, v)) kvs))"
proof -
  have "list_all (\<lambda>(k, j). quote_ok quote_ascii k \<and> readable default_hooks quote_ascii j) kjs
      \<and> map (\<lambda>(k, j). pair_value k (tree_value default_hooks j)) kjs = map Inr kvs"
    using assms(1) by (induction rule: list_all2_induct) (auto simp: doc_reads_def quote_ok_ascii pair_value_def)
  moreover have "map fst (map (\<lambda>(k, v). (KStr k, v)) kvs) = map KStr (map fst kvs)" by auto
  then have "distinct (map fst (map (\<lambda>(k, v). (KStr k, v)) kvs))"
    using assms(2) by (simp only: distinct_map [of KStr]) (simp add: inj_on_def)
  ultimately show ?thesis
    by (simp add: doc_reads_def default_hooks_def object_of_pairs_def dict_of_distinct)
qed

lemma doc_reads_dict:
  assumes ok: "dict_ok kvs" and v: "\<And>k v. (k, v) \<in> set kvs \<Longrightarrow> is_KStr k \<and> text_ok (key_text k) \<and> doc_reads (dump_view v) (json_image v)"
  shows "doc_reads (dump_view (PDict kvs)) (json_image (PDict kvs))"
proof -
  define K where "K = sort_key (\<lambda>kv. key_text (fst kv)) kvs"
  have set: "set K = set kvs" by (simp add: K_def)
  have "dict_ok K" using ok unfolding K_def by (rule distinct_map_sort_key)
  moreover have "is_KStr k" if "k \<in> set (map fst K)" for k using v that set by auto
  then have "inj_on key_text (set (map fst K))" by (intro inj_onI) (metis dkey.collapse(1))
  ultimately have d: "distinct (map key_text (map fst K))" by (simp only: distinct_map)
  let ?G = "\<lambda>(k, v). (key_text k, json_image v)"
  have "(\<lambda>x. fst (case x of (k, v) \<Rightarrow> (key_text k, dump_view v))) = (\<lambda>kv. key_text (fst kv))"
    "(\<lambda>x. (key_text \<circ> fst) (case x of (k, v) \<Rightarrow> (k, json_image v))) = (\<lambda>kv. key_text (fst kv))" by auto
  then have view: "dump_view (PDict kvs) = JObj (map (\<lambda>(k, v). (key_text k, dump_view v)) K)"
    and image: "json_image (PDict kvs) = PDict (map (\<lambda>(k, v). (k, json_image v)) K)"
    by (simp_all add: sort_key_map K_def)
  have "map (\<lambda>(k, v). (k, json_image v)) K = map (\<lambda>(k, v). (KStr k, v)) (map ?G K)"
    using v set by (auto simp: dkey.collapse)
  moreover have "list_all2 (\<lambda>(k, j) (k', v). k' = k \<and> text_ok k \<and> doc_reads j v) (map (\<lambda>(k, v). (key_text k, dump_view v)) K) (map ?G K)"
    using v set by (auto simp: list_all2_conv_all_nth case_prod_unfold) (metis nth_mem prod.collapse)+
  moreover have "map fst (map ?G K) = map key_text (map fst K)" by auto
  then have "distinct (map fst (map ?G K))" using d by (simp only:)
  ultimately show ?thesis unfolding view image by (simp only: doc_reads_object)
qed

lemma constant_atom:
  assumes "t = lit ''NaN'' \<or> t = lit ''Infinity'' \<or> t = lit ''-Infinity''"
  shows "atom_ok h t" "atom_value h t = parse_constant h t"
proof -
  have s: "scan_atom h (t @ r) = with_rest (parse_constant h t) r" for r
    using assms by (elim disjE) (simp_all add: scan_atom_def lit_def)
  from s [of "[]"] show v: "atom_value h t = parse_constant h t"
    by (simp add: atom_value_def with_rest_def split: sum.splits)
  show "atom_ok h t"
    unfolding atom_ok_def v using s assms by (auto simp: lit_def is_ws_def)
qed

lemma dump_view_reads: "dump_ok v \<Longrightarrow> doc_reads (dump_view v) (json_image v)"
proof (induction v rule: dump_view.induct)
  case (3 s)
  then show ?case by (simp add: doc_reads_def quote_ok_ascii)
next
  case (4 i)
  have "length (filter digit (dec_int i)) = length (dec_nat (nat \<bar>i\<bar>))"
    using dec_nat_int_ok [of "nat \<bar>i\<bar>"] by (auto simp: dec_int_def int_ok_def list_all_iff digit_def filter_id_conv [THEN iffD2])
  with 4 have "parse_int default_hooks (dec_int i) = Inr (PInt i)"
    by (simp add: default_hooks_def int_token_def int_of_text_dec_int)
  then show ?case using int_text_atom [of default_hooks i] by (simp add: doc_reads_def)
next
  case (5 f)
  show ?case
  proof (cases "\<exists>x. f = FFin x")
    case True
    with 5 float_text_atom [of _ default_hooks] show ?thesis by (auto simp: doc_reads_def default_hooks_def)
  next
    case False
    then have t: "float_text f = lit ''NaN'' \<or> float_text f = lit ''Infinity'' \<or> float_text f = lit ''-Infinity''"
      by (auto simp: float_text_def split: pyfloat.splits)
    have "constant_token (float_text f) = Inr (PFloat f)"
      using False by (auto simp: constant_token_def float_text_def split: pyfloat.splits)
    then show ?thesis
      using constant_atom [OF t, of default_hooks] by (simp add: doc_reads_def default_hooks_def)
  qed
next
  case (6 kvs)
  show ?case
  proof (rule doc_reads_dict)
    show "is_KStr k \<and> text_ok (key_text k) \<and> doc_reads (dump_view v) (json_image v)" if "(k, v) \<in> set kvs" for k v
      using 6 that by (fastforce simp: list_all_iff)
  qed (use 6 in simp)
next
  case (7 xs)
  then show ?case by (auto simp: list_all_iff list_all2_conv_all_nth intro!: doc_reads_array)
next
  case (8 xs)
  then show ?case by (auto simp: list_all_iff list_all2_conv_all_nth intro!: doc_reads_array)
qed (auto simp: doc_reads_def)

text \<open>The text is ascii_printable ASCII: no line break and no character that UTF-8 could refuse.\<close>

definition ascii_printable :: "pystr \<Rightarrow> bool" where
  "ascii_printable s \<longleftrightarrow> list_all (\<lambda>c. 32 \<le> c \<and> c \<le> 126) s"

lemma printable_simps [simp]:
  "ascii_printable []" "ascii_printable (c # s) \<longleftrightarrow> 32 \<le> c \<and> c \<le> 126 \<and> ascii_printable s" "ascii_printable (s @ t) \<longleftrightarrow> ascii_printable s \<and> ascii_printable t"
  by (auto simp: ascii_printable_def)

lemma printable_num: "list_all num_char t \<Longrightarrow> ascii_printable t"
  by (auto simp: ascii_printable_def list_all_iff num_char_def)

lemma printable_hex4: "ascii_printable (hex4 c)"
  by (auto simp: ascii_printable_def hex4_def list_all_iff hex_digit_def)

lemma printable_quote: "ascii_printable (quote_ascii s)"
proof -
  have "ascii_printable (ascii_char c)" for c by (simp add: ascii_char_def printable_hex4)
  then have "ascii_printable (concat (map ascii_char s))" by (induction s) auto
  then show ?thesis by (simp add: quote_ascii_def)
qed

lemma printable_join: "list_all ascii_printable xs \<Longrightarrow> ascii_printable (join_with [44] xs)"
  by (induction xs rule: induct_list012) auto

lemma printable_dump: "ascii_printable (jtext quote_ascii (dump_view v))"
proof (induction v rule: dump_view.induct)
  case (5 f)
  have "ascii_printable (float_repr x)" for x by (simp add: printable_num float_repr_num)
  then show ?case by (auto simp: float_text_def lit_def split: pyfloat.splits)
next
  case (6 kvs)
  have "list_all ascii_printable (map (\<lambda>(k, j). quote_ascii k @ [58] @ jtext quote_ascii j)
      (sort_key fst (map (\<lambda>(k, v). (key_text k, dump_view v)) kvs)))"
    using 6 by (auto simp: list_all_iff printable_quote)
  then show ?case by (simp add: printable_join)
next
  case (7 xs)
  then have "list_all ascii_printable (map (jtext quote_ascii) (map dump_view xs))" by (simp add: list_all_iff)
  from printable_join [OF this] show ?case by simp
next
  case (8 xs)
  then have "list_all ascii_printable (map (jtext quote_ascii) (map dump_view xs))" by (simp add: list_all_iff)
  from printable_join [OF this] show ?case by simp
qed (auto simp: lit_def printable_quote printable_num dec_int_num)

lemma loads_dumps:
  assumes "dump_ok v"
  obtains t where "dumps v = Inr t" "loads t = Inr (json_image v)" "ascii_printable t"
proof -
  let ?t = "jtext quote_ascii (dump_view v)"
  have r: "readable default_hooks quote_ascii (dump_view v)" "tree_value default_hooks (dump_view v) = Inr (json_image v)"
    using dump_view_reads [OF assms] by (simp_all add: doc_reads_def)
  have "take 1 ?t \<noteq> [0xFEFF]" using printable_dump [of v] by (cases ?t) auto
  then have "loads ?t = Inr (json_image v)" unfolding loads_def by (rule loads_with_text [OF r])
  with dumps_view [OF assms] printable_dump show thesis using that by blast
qed

section \<open>What the parser can raise\<close>

definition hook_errors :: "json_hooks \<Rightarrow> (exn \<Rightarrow> bool) \<Rightarrow> bool" where
  "hook_errors h P \<longleftrightarrow> (\<forall>kvs e. object_pairs_hook h kvs = Inl e \<longrightarrow> P e) \<and> (\<forall>t e. parse_float h t = Inl e \<longrightarrow> P e)
     \<and> (\<forall>t e. parse_int h t = Inl e \<longrightarrow> P e) \<and> (\<forall>t e. parse_constant h t = Inl e \<longrightarrow> P e)
     \<and> (\<forall>m. P (ValueError m)) \<and> P NoReturn"

lemma hook_errorsD:
  "hook_errors h P \<Longrightarrow> object_pairs_hook h kvs = Inl e \<Longrightarrow> P e" "hook_errors h P \<Longrightarrow> parse_float h t = Inl e \<Longrightarrow> P e"
  "hook_errors h P \<Longrightarrow> parse_int h t = Inl e \<Longrightarrow> P e" "hook_errors h P \<Longrightarrow> parse_constant h t = Inl e \<Longrightarrow> P e"
  "hook_errors h P \<Longrightarrow> P (ValueError m)" "hook_errors h P \<Longrightarrow> P NoReturn"
  by (simp_all add: hook_errors_def)

lemma cons_char_Inl: "cons_char c r = Inl e \<longleftrightarrow> r = Inl e"
  by (auto simp: cons_char_def split: sum.splits)

lemma with_rest_Inl: "with_rest r s = Inl e \<longleftrightarrow> r = Inl e"
  by (auto simp: with_rest_def split: sum.splits)

lemma scan_chars_Inl: "scan_chars s = Inl e \<Longrightarrow> \<exists>m. e = ValueError m"
proof (induction s rule: scan_chars.induct)
  case (2 c s)
  then show ?case
    by (simp only: scan_chars.simps(2) split: if_split_asm list.split_asm option.split_asm prod.split_asm)
      (auto simp: cons_char_Inl)
qed auto

lemma scan_atom_Inl: "hook_errors h P \<Longrightarrow> scan_atom h s = Inl e \<Longrightarrow> P e"
  by (auto simp: scan_atom_def with_rest_Inl dest: hook_errorsD split: if_split_asm option.split_asm prod.split_asm)

lemma scan_Inl:
  "hook_errors h P \<Longrightarrow> scan_value h n s = Inl e \<Longrightarrow> P e"
  "hook_errors h P \<Longrightarrow> scan_items h n s = Inl e \<Longrightarrow> P e"
  "hook_errors h P \<Longrightarrow> scan_pairs h n s = Inl e \<Longrightarrow> P e"
proof (induction h n s and h n s and h n s rule: scan_value_scan_items_scan_pairs.induct)
  case (2 h n s)
  show ?case
  proof (cases s)
    case (Cons c t)
    with "2.prems" "2.IH" [OF Cons] show ?thesis
      by (auto simp: with_rest_Inl hook_errorsD simp del: One_nat_def
          dest: scan_chars_Inl scan_atom_Inl split: if_split_asm sum.split_asm prod.split_asm)
  qed (use 2 in \<open>auto simp: hook_errorsD\<close>)
next
  case (4 h n s)
  then show ?case
    by (simp only: scan_items.simps(2) split: sum.split_asm prod.split_asm list.split_asm if_split_asm)
      (auto simp: hook_errorsD)
next
  case (6 h n s)
  then show ?case
    by (simp only: scan_pairs.simps(2) split: sum.split_asm prod.split_asm list.split_asm if_split_asm)
      (auto simp: hook_errorsD dest: scan_chars_Inl)
qed (auto simp: hook_errorsD)

lemma loads_with_Inl: "hook_errors h P \<Longrightarrow> loads_with h s = Inl e \<Longrightarrow> P e"
  by (auto simp: loads_with_def hook_errorsD simp del: scan_value.simps dest: scan_Inl(1)
      split: sum.split_asm prod.split_asm if_split_asm)

lemma reject_duplicate_keys_Inl: "reject_duplicate_keys_from d kvs = Inl e \<Longrightarrow> \<exists>m. e = CanonicalizationError m"
  by (induction d kvs rule: reject_duplicate_keys_from.induct) (auto split: if_splits)

lemma i_json_hook_errors:
  "hook_errors i_json_hooks (\<lambda>e. (\<exists>m. e = ValueError m) \<or> (\<exists>m. e = CanonicalizationError m) \<or> e = NoReturn)"
  by (auto simp: hook_errors_def i_json_hooks_def float_token_def parse_integer_def reject_constant_def
      reject_duplicate_keys_def split: option.splits pyfloat.splits sum.splits if_splits dest: reject_duplicate_keys_Inl)

text \<open>Parsing a text returns: a value with a canonical text and a digest, or \<^verbatim>\<open>CanonicalizationError\<close>.\<close>

lemma load_text_total:
  "case load_i_json document of
     Inl e \<Rightarrow> \<exists>m. e = CanonicalizationError m
   | Inr w \<Rightarrow> is_ok (canonicalize_json w) \<and> is_ok (canonical_sha256 w)"
proof (cases "loads_with i_json_hooks document")
  case (Inl e)
  from loads_with_Inl [OF i_json_hook_errors Inl] loads_with_returns [OF hooks_return_i_json, of document] Inl
  show ?thesis by (auto simp: load_i_json_def)
next
  case (Inr w)
  show ?thesis
  proof (cases "i_json w")
    case True
    then show ?thesis by (simp add: load_i_json_def Inr canonicalize_i_json canonical_sha256_i_json canonicalize_json_iff is_ok_iff)
  next
    case False
    then obtain e where e: "serialize w = Inl e" using serialize_ok_i_json [of w] by (cases "serialize w") auto
    with serialize_Inl [OF e] show ?thesis by (auto simp: load_i_json_def Inr canonicalize_def canonicalize_json_def)
  qed
qed

section \<open>What a value means as JSON\<close>

text \<open>
  The JSON document of a Python value, written without the serializer: numbers are rational numbers, the members of an
  object are listed by the code points of their names, lists and tuples are both arrays.
\<close>

datatype json_doc =
    DNull
  | DBool bool
  | DNum rat
  | DStr pystr
  | DArr "json_doc list"
  | DObj "(pystr \<times> json_doc) list"

fun json_value :: "pyval \<Rightarrow> json_doc" where
  "json_value PNone = DNull"
| "json_value (PBool b) = DBool b"
| "json_value (PStr s) = DStr s"
| "json_value (PInt i) = DNum (of_int i)"
| "json_value (PFloat f) = DNum (case f of FFin x \<Rightarrow> x | _ \<Rightarrow> 0)"
| "json_value (PDict kvs) = DObj (sort_key fst (map (\<lambda>(k, v). (key_text k, json_value v)) kvs))"
| "json_value (PList xs) = DArr (map json_value xs)"
| "json_value (PTuple xs) = DArr (map json_value xs)"
| "json_value (PBytes b) = DNull"
| "json_value (PObject n) = DNull"

text \<open>The document of an abstract JSON text, with its numbers read.\<close>

definition text_number :: "pystr \<Rightarrow> rat" where
  "text_number t = (case atom_value i_json_hooks t of Inr w \<Rightarrow> numeric_value w | Inl _ \<Rightarrow> 0)"

fun doc_of :: "jv \<Rightarrow> json_doc" where
  "doc_of JNull = DNull"
| "doc_of (JBool b) = DBool b"
| "doc_of (JNum t) = DNum (text_number t)"
| "doc_of (JStr s) = DStr s"
| "doc_of (JArr xs) = DArr (map doc_of xs)"
| "doc_of (JObj kvs) = DObj (sort_key fst (map (\<lambda>(k, j). (k, doc_of j)) kvs))"

lemma text_number_fixed: "number_fixed t q \<Longrightarrow> text_number t = q"
  by (auto simp: number_fixed_def text_number_def)

lemma sort_key_idem_fst:
  assumes "distinct (map fst xs)"
  shows "sort_key fst (map (\<lambda>(k, j). (k, h j)) (sort_key f xs)) = sort_key fst (map (\<lambda>(k, j). (k, h j)) xs)"
proof (rule sort_key_perm)
  show "mset (map (\<lambda>(k, j). (k, h j)) (sort_key f xs)) = mset (map (\<lambda>(k, j). (k, h j)) xs)" by simp
  have "distinct (map fst (sort_key f xs))" using assms by (rule distinct_map_sort_key)
  moreover have "map fst (map (\<lambda>(k, j). (k, h j)) (sort_key f xs)) = map fst (sort_key f xs)" by (simp add: comp_def case_prod_beta)
  ultimately have "distinct (map fst (map (\<lambda>(k, j). (k, h j)) (sort_key f xs)))" by (simp only:)
  then show "inj_on fst (set (map (\<lambda>(k, j). (k, h j)) (sort_key f xs)))" by (simp only: distinct_map)
qed

lemma distinct_member_names:
  assumes "\<And>k v. (k, v) \<in> set kvs \<Longrightarrow> is_KStr k" "distinct (map fst kvs)"
  shows "distinct (map fst (map (\<lambda>(k, v). (key_text k, h v)) kvs))"
proof -
  have "inj_on key_text (set (map fst kvs))" using assms(1) by (intro inj_onI) (auto, metis dkey.collapse(1))
  with assms(2) have "distinct (map key_text (map fst kvs))" by (simp only: distinct_map)
  moreover have "map fst (map (\<lambda>(k, v). (key_text k, h v)) kvs) = map key_text (map fst kvs)" by auto
  ultimately show ?thesis by (simp only:)
qed

lemma json_value_view: "i_json v \<Longrightarrow> py_wf v \<Longrightarrow> doc_of (json_view v) = json_value v"
proof (induction v rule: json_view.induct)
  case (4 i)
  then obtain t where "serialize_integer i = Inr t"
    using serialize_integer_ok_iff [of i] by (auto simp: is_ok_iff)
  then show ?case using integer_fixed(2) [of i t] by (simp add: num_text_def text_number_fixed)
next
  case (5 f)
  then obtain x where x: "f = FFin x" "is_float64 x" by (auto split: pyfloat.splits)
  then obtain t where "serialize_float (FFin x) = Inr t" by (simp add: serialize_float_def)
  then show ?case using float_fixed(2) [OF x(2), of t] x(1) by (simp add: num_text_def text_number_fixed)
next
  case (6 kvs)
  have keys: "is_KStr k \<and> i_json v \<and> py_wf v" if "(k, v) \<in> set kvs" for k v
    using "6.prems" that by (auto simp: list_all_iff)
  have "distinct (map fst kvs)" using "6.prems" by simp
  then have d: "distinct (map fst (map (\<lambda>(k, v). (key_text k, json_view v)) kvs))"
    using keys by (intro distinct_member_names) blast
  have "map (\<lambda>(k, j). (k, doc_of j)) (map (\<lambda>(k, v). (key_text k, json_view v)) kvs) = map (\<lambda>(k, v). (key_text k, json_value v)) kvs"
    using "6.IH" keys by auto
  then show ?case using sort_key_idem_fst [OF d, of doc_of "utf16_key \<circ> fst"] by (simp only: json_view.simps doc_of.simps json_value.simps)
qed (auto simp: list_all_iff)

section \<open>Properties\<close>

text \<open>
  C27 [canonical_load_roundtrip]: canonical text is stable under parsing.  \<^verbatim>\<open>load_i_json\<close> reads every text that
  \<^verbatim>\<open>canonicalize_json\<close> writes, and the value it returns has the same canonical text and the same digest.
\<close>

theorem canonical_load_roundtrip:
  assumes "canonicalize_json v = Inr t" "py_wf v"
  shows "\<exists>w. load_i_json t = Inr w \<and> canonicalize_json w = Inr t \<and> canonical_sha256 w = canonical_sha256 v"
proof -
  obtain w where w: "load_i_json t = Inr w" "json_view w = json_view v" "i_json w"
    using load_canonical [OF assms] by blast
  moreover have "i_json v" "t = render (json_view v)" using assms(1) by (simp_all add: canonicalize_json_iff)
  ultimately show ?thesis
    by (intro exI [of _ w]) (simp add: canonicalize_json_iff canonical_sha256_i_json digest_of_def)
qed

text \<open>
  C12 [canonical_digest_injective]: two values with the same SHA-256 digest are the same JSON document, with numbers equal as
  rational numbers, strings equal in every code point and objects equal as sets of members, or their two canonical
  byte strings are a SHA-256 collision: canonicalization never maps different JSON documents to one digest input.
\<close>

theorem canonical_digest_injective:
  assumes "canonical_sha256 v = Inr d" and "canonical_sha256 w = Inr d"
    and "py_chars v" and "py_chars w" and "py_wf v" and "py_wf w"
  shows "json_value v = json_value w \<or>
    (\<exists>x y. canonicalize v = Inr x \<and> canonicalize w = Inr y \<and> x \<noteq> y \<and> sha256_hex x = sha256_hex y)"
proof -
  have "i_json v" "i_json w" using assms(1,2) by (simp_all add: canonical_sha256_iff)
  then have "json_view v = json_view w \<Longrightarrow> json_value v = json_value w"
    using json_value_view assms(5,6) by metis
  then show ?thesis using canonical_sha256_eq_cases [OF assms(1-4)] by (auto simp: sha_collision_def)
qed

definition example_value :: pyval where
  "example_value = obj [(''b'', PInt 1), (''a'', PList [PStr (lit ''x''), PNone])]"

definition example_text :: pystr where
  "example_text = [123, 34, 97, 34, 58, 91, 34, 120, 34, 44, 110, 117, 108, 108, 93, 44, 34, 98, 34, 58, 49, 125]"

lemma example_canonical: "canonicalize_json example_value = Inr example_text"
  by (simp add: canonicalize_json_def example_value_def example_text_def lit_def is_surrogate_def entry_text_def
      serialize_string_eq quote_string_def escape_char_def serialize_integer_def MAX_SAFE_INTEGER_def dec_int_def
      dec_nat.simps utf16_key_def utf16_char_def)

theorem canonical_load_roundtrip_witness:
  "\<exists>w. load_i_json example_text = Inr w \<and> canonicalize_json w = Inr example_text"
  using canonical_load_roundtrip [OF example_canonical] by (auto simp: example_value_def)

theorem canonical_digest_injective_witness:
  "json_value (PDict [(KStr [98], PInt 7), (KStr [97], PList [])]) = json_value (PDict [(KStr [97], PTuple []), (KStr [98], PInt 7)]) \<or>
    (\<exists>x y. canonicalize (PDict [(KStr [98], PInt 7), (KStr [97], PList [])]) = Inr x
       \<and> canonicalize (PDict [(KStr [97], PTuple []), (KStr [98], PInt 7)]) = Inr y \<and> x \<noteq> y \<and> sha256_hex x = sha256_hex y)"
proof -
  let ?v = "PDict [(KStr [98], PInt 7), (KStr [97], PList [])]" and ?w = "PDict [(KStr [97], PTuple []), (KStr [98], PInt 7)]"
  have "canonical_sha256 ?v = Inr (digest_of ?v)" "canonical_sha256 ?w = Inr (digest_of ?w)"
    by (simp_all add: canonical_sha256_i_json MAX_SAFE_INTEGER_def is_surrogate_def)
  moreover have "json_view ?v = json_view ?w" by (simp add: utf16_key_def utf16_char_def)
  then have "digest_of ?w = digest_of ?v" by (simp only: digest_of_def)
  ultimately show ?thesis by (intro canonical_digest_injective [of _ "digest_of ?v"]) simp_all
qed

end
