(* ===== verification/Json_Bytes.thy ===== *)
theory Json_Bytes
  imports Json_Codec
begin

text \<open>
  JSON documents given as bytes.  \<^verbatim>\<open>json.loads\<close> guesses the encoding from a byte order mark or from zero bytes and decodes with the
  handler \<^verbatim>\<open>surrogatepass\<close>; \<open>load_i_json_document\<close> is \<^verbatim>\<open>load_i_json\<close> on text or bytes where the interpreter's stack is deep enough
  for the document (\<open>Json_Depth\<close> has the limit).  Canonical bytes are decoded as UTF-8 to the text
  they were made from.
\<close>

section \<open>Decoding\<close>

definition continuation :: "nat \<Rightarrow> bool" where
  "continuation b \<longleftrightarrow> 0x80 \<le> b \<and> b < 0xC0"

text \<open>UTF-8: overlong forms, stray continuation bytes, truncated sequences and numbers above \<^verbatim>\<open>U+10FFFF\<close> are errors; surrogates pass.\<close>

fun utf8_decode :: "nat list \<Rightarrow> pystr option" where
  "utf8_decode [] = Some []"
| "utf8_decode (a # r) =
     (if a < 0x80 then map_option (Cons a) (utf8_decode r)
      else if a < 0xC2 then None
      else if a < 0xE0 then
        (case r of b # r' \<Rightarrow>
           if continuation b then map_option (Cons ((a - 0xC0) * 64 + (b - 0x80))) (utf8_decode r') else None
         | _ \<Rightarrow> None)
      else if a < 0xF0 then
        (case r of b # c # r' \<Rightarrow>
           let n = (a - 0xE0) * 4096 + (b - 0x80) * 64 + (c - 0x80) in
           if continuation b \<and> continuation c \<and> 0x800 \<le> n then map_option (Cons n) (utf8_decode r') else None
         | _ \<Rightarrow> None)
      else if a < 0xF5 then
        (case r of b # c # d # r' \<Rightarrow>
           let n = (a - 0xF0) * 262144 + (b - 0x80) * 4096 + (c - 0x80) * 64 + (d - 0x80) in
           if continuation b \<and> continuation c \<and> continuation d \<and> 0x10000 \<le> n \<and> n < 0x110000
           then map_option (Cons n) (utf8_decode r') else None
         | _ \<Rightarrow> None)
      else None)"

declare utf8_decode.simps(2) [simp del]

text \<open>UTF-16 and UTF-32 in the byte order \<open>big\<close>.\<close>

fun code_units :: "bool \<Rightarrow> nat list \<Rightarrow> nat list option" where
  "code_units big [] = Some []"
| "code_units big [a] = None"
| "code_units big (a # b # r) = map_option (Cons (if big then 256 * a + b else 256 * b + a)) (code_units big r)"

fun join_units :: "nat list \<Rightarrow> pystr" where
  "join_units (u # v # r) = (if is_high u \<and> is_low v then join_surrogates u v # join_units r else u # join_units (v # r))"
| "join_units us = us"

definition utf16_decode :: "bool \<Rightarrow> nat list \<Rightarrow> pystr option" where
  "utf16_decode big bs = map_option join_units (code_units big bs)"

fun utf32_decode :: "bool \<Rightarrow> nat list \<Rightarrow> pystr option" where
  "utf32_decode big [] = Some []"
| "utf32_decode big (a # b # c # d # r) =
     (let n = (if big then 16777216 * a + 65536 * b + 256 * c + d else 16777216 * d + 65536 * c + 256 * b + a) in
      if n < 0x110000 then map_option (Cons n) (utf32_decode big r) else None)"
| "utf32_decode big _ = None"

text \<open>\<^verbatim>\<open>json.detect_encoding\<close>, with the byte order mark taken off.\<close>

definition decode_document :: "nat list \<Rightarrow> pystr option" where
  "decode_document b =
     (if take 4 b = [0, 0, 0xFE, 0xFF] then utf32_decode True (drop 4 b)
      else if take 4 b = [0xFF, 0xFE, 0, 0] then utf32_decode False (drop 4 b)
      else if take 2 b = [0xFE, 0xFF] then utf16_decode True (drop 2 b)
      else if take 2 b = [0xFF, 0xFE] then utf16_decode False (drop 2 b)
      else if take 3 b = [0xEF, 0xBB, 0xBF] then utf8_decode (drop 3 b)
      else if 4 \<le> length b \<and> b ! 0 = 0 then (if b ! 1 \<noteq> 0 then utf16_decode True b else utf32_decode True b)
      else if 4 \<le> length b \<and> b ! 1 = 0 then (if b ! 2 \<noteq> 0 \<or> b ! 3 \<noteq> 0 then utf16_decode False b else utf32_decode False b)
      else if length b = 2 \<and> b ! 0 = 0 then utf16_decode True b
      else if length b = 2 \<and> b ! 1 = 0 then utf16_decode False b
      else utf8_decode b)"

datatype document = Text pystr | Bytes "byte list"

definition load_i_json_document :: "document \<Rightarrow> pyval res" where
  "load_i_json_document d =
     (case d of Text s \<Rightarrow> load_i_json s
      | Bytes b \<Rightarrow>
         (case decode_document (map unat b) of None \<Rightarrow> Inl (CanonicalizationError ''invalid I-JSON document'')
          | Some s \<Rightarrow> load_i_json s))"

section \<open>UTF-8 is read back\<close>

lemma utf8_decode_char:
  assumes "c < 0x110000"
  shows "utf8_decode (utf8_nats c @ r) = map_option (Cons c) (utf8_decode r)"
proof -
  consider "c < 0x80" | "0x80 \<le> c" "c < 0x800" | "0x800 \<le> c" "c < 0x10000" | "0x10000 \<le> c" by linarith
  then show ?thesis
  proof cases
    case 1
    then show ?thesis by (simp add: utf8_nats_def utf8_decode.simps)
  next
    case 2
    have "c div 64 * 64 + c mod 64 = c" by simp
    moreover have "2 \<le> c div 64" "c div 64 < 32" using 2 by (auto simp: less_eq_div_iff_mult_less_eq div_less_iff_less_mult)
    ultimately show ?thesis using 2 by (simp add: utf8_nats_def utf8_decode.simps continuation_def)
  next
    case 3
    have "c div 4096 * 64 + c div 64 mod 64 = c div 64"
      using div_mult_mod_eq [of "c div 64" 64] by (simp add: div_mult2_eq [symmetric])
    then have "c div 4096 * 4096 + c div 64 mod 64 * 64 + c mod 64 = c"
      using div_mult_mod_eq [of c 64] by linarith
    moreover have "c div 4096 < 16" using 3 by (simp add: div_less_iff_less_mult)
    ultimately show ?thesis using 3 by (simp add: utf8_nats_def utf8_decode.simps continuation_def Let_def)
  next
    case 4
    have "c div 262144 * 64 + c div 4096 mod 64 = c div 4096" "c div 4096 * 64 + c div 64 mod 64 = c div 64"
      using div_mult_mod_eq [of "c div 4096" 64] div_mult_mod_eq [of "c div 64" 64] by (simp_all add: div_mult2_eq [symmetric])
    then have "c div 262144 * 262144 + c div 4096 mod 64 * 4096 + c div 64 mod 64 * 64 + c mod 64 = c"
      using div_mult_mod_eq [of c 64] by linarith
    moreover have "c div 262144 < 5" using assms by (simp add: div_less_iff_less_mult)
    ultimately show ?thesis using 4 assms by (simp add: utf8_nats_def utf8_decode.simps continuation_def Let_def)
  qed
qed

lemma map_unat_utf8_text: "text_ok s \<Longrightarrow> map unat (utf8 s) = concat (map utf8_nats s)"
  by (induction s) (auto simp: utf8_def text_ok_def map_unat_utf8)

lemma utf8_decode_text: "text_ok s \<Longrightarrow> utf8_decode (map unat (utf8 s)) = Some s"
  unfolding map_unat_utf8_text by (induction s) (auto simp: text_ok_def utf8_decode_char)

text \<open>Text without NUL that starts with an ASCII character is taken for UTF-8.\<close>

lemma utf8_nats_nonzero: "c \<noteq> 0 \<Longrightarrow> b \<in> set (utf8_nats c) \<Longrightarrow> b \<noteq> 0"
  by (auto simp: utf8_nats_def split: if_splits)

lemma decode_document_utf8:
  assumes "text_ok s" "0 \<notin> set s" "s = c # r" "c < 0x80"
  shows "decode_document (map unat (utf8 s)) = Some s"
proof -
  let ?b = "map unat (utf8 s)"
  have nz: "b \<noteq> 0" if b: "b \<in> set ?b" for b
  proof -
    obtain x where "x \<in> set s" "b \<in> set (utf8_nats x)"
      using b unfolding map_unat_utf8_text [OF assms(1)] by auto
    then show ?thesis using assms(2) utf8_nats_nonzero [of x b] by metis
  qed
  then have nth: "?b ! i \<noteq> 0" if "i < length ?b" for i using that nth_mem by blast
  obtain t where t: "?b = c # t"
    using assms(4) unfolding map_unat_utf8_text [OF assms(1)] by (simp add: assms(3) utf8_nats_def)
  have "c \<noteq> 0" using assms(2,3) by auto
  have b1: "4 \<le> length ?b \<Longrightarrow> ?b ! 1 \<noteq> 0" "length ?b = 2 \<Longrightarrow> ?b ! 1 \<noteq> 0" "0 < length ?b \<Longrightarrow> ?b ! 0 \<noteq> 0" using nth by auto
  show ?thesis
    using b1 assms(4) \<open>c \<noteq> 0\<close> utf8_decode_text [OF assms(1)] unfolding decode_document_def t by (auto simp del: map_map)
qed

section \<open>Canonical bytes are read back\<close>

definition visible :: "pystr \<Rightarrow> bool" where
  "visible s \<longleftrightarrow> list_all (\<lambda>c. 32 \<le> c) s"

lemma visible_simps [simp]:
  "visible []" "visible (c # s) \<longleftrightarrow> 32 \<le> c \<and> visible s" "visible (s @ t) \<longleftrightarrow> visible s \<and> visible t"
  by (auto simp: visible_def)

lemma visible_quote: "visible (quote_string s)"
proof -
  have "visible (escape_char c)" for c by (auto simp: escape_char_def hex4_def hex_digit_def visible_def list_all_iff)
  then have "visible (concat (map escape_char s))" by (induction s) auto
  then show ?thesis by (simp add: quote_string_def)
qed

lemma visible_join: "list_all visible xs \<Longrightarrow> visible (join_with [44] xs)"
  by (induction xs rule: induct_list012) auto

lemma visible_render: "wf_jv j \<Longrightarrow> visible (render j)"
proof (induction j)
  case (JNum t)
  then show ?case by (auto simp: visible_def list_all_iff num_char_def)
next
  case (JArr xs)
  then have "list_all visible (map render xs)" by (auto simp: list_all_iff)
  then show ?case by (simp add: visible_join)
next
  case (JObj kvs)
  have "visible (quote_string k @ [58] @ render v)" if "(k, v) \<in> set kvs" for k v
    using JObj that by (auto simp: list_all_iff visible_quote)
  then have "list_all visible (map (\<lambda>(k, v). quote_string k @ [58] @ render v) kvs)" by (auto simp: list_all_iff)
  then show ?case by (simp add: visible_join)
qed (auto simp: lit_def visible_quote)

lemma decode_canonical:
  assumes "i_json v" "py_chars v"
  shows "decode_document (map unat (utf8 (render (json_view v)))) = Some (render (json_view v))"
proof -
  have wf: "wf_jv (json_view v)" by (rule wf_json_view [OF assms(1)])
  obtain c r where "render (json_view v) = c # r" "c < 0x80"
    using render_hd [OF wf] by (cases "json_view v") (auto simp: num_char_def split: if_splits)
  moreover have "0 \<notin> set (render (json_view v))" using visible_render [OF wf] by (auto simp: visible_def list_all_iff)
  ultimately show ?thesis using decode_document_utf8 [OF text_ok_render [OF assms]] by blast
qed

lemma load_canonical_bytes:
  assumes "canonicalize v = Inr b" "py_wf v" "py_chars v"
  obtains w where "load_i_json_document (Bytes b) = Inr w" "tree_value i_json_hooks (json_view v) = Inr w"
    "json_view w = json_view v" "i_json w" "py_wf w"
proof -
  have v: "i_json v" and b: "b = utf8 (render (json_view v))" using assms(1) by (simp_all add: canonicalize_iff)
  have "canonicalize_json v = Inr (render (json_view v))" using v by (simp add: canonicalize_json_iff)
  then obtain w where "load_i_json (render (json_view v)) = Inr w" "tree_value i_json_hooks (json_view v) = Inr w"
    "json_view w = json_view v" "i_json w" "py_wf w"
    by (rule load_canonical [OF _ assms(2)])
  moreover from this have "load_i_json_document (Bytes b) = Inr w"
    by (simp only: load_i_json_document_def b decode_canonical [OF v assms(3)] document.simps option.simps)
  ultimately show thesis using that by blast
qed

end
