(* ===== verification/Kernel_Context.thy ===== *)
theory Kernel_Context
  imports Kernel_Canonical Json_Bytes
begin

text \<open>
  The governed context of \<^verbatim>\<open>kernel/governed_context.py\<close>: the closed record of eleven fields, its mapping
  and digest, and the codec that admits a context at the OpenAPI, JSON and Proto boundaries only
  against a verified binding and a claimed digest.  JSON goes through \<open>load_i_json_document\<close>; a Proto
  message is the dictionary of its attributes.
\<close>

section \<open>Field checks\<close>

definition GCS_FIELDS :: "string list" where
  "GCS_FIELDS = [''tenant_id'', ''organization_id'', ''domain_id'', ''compartments'', ''classification_marking_ref'',
     ''purpose'', ''effective_principal_id'', ''actor_chain'', ''ontology_release_digest'', ''policy_bundle_digest'',
     ''correlation_id'']"

definition PROTO_DECLARED_FIELDS :: "string list" where
  "PROTO_DECLARED_FIELDS = [''tenant_id'', ''organization_id'', ''domain_id'', ''compartments'', ''classification_marking_ref'',
     ''purpose'', ''ontology_release_digest'', ''policy_bundle_digest'', ''correlation_id'']"

definition gcs_invalid :: exn where
  "gcs_invalid = GovernedContextError ''GOVERNED_CONTEXT_INVALID''"

definition required_string :: "pyval \<Rightarrow> pystr res" where
  "required_string v = (case v of PStr s \<Rightarrow> if s = [] then Inl gcs_invalid else Inr s | _ \<Rightarrow> Inl gcs_invalid)"

definition required_digest :: "pyval \<Rightarrow> pystr res" where
  "required_digest v =
     (case required_string v of Inl e \<Rightarrow> Inl e | Inr s \<Rightarrow> if is_digest s then Inr s else Inl gcs_invalid)"

definition the_text :: "pyval \<Rightarrow> pystr" where
  "the_text v = (case v of PStr s \<Rightarrow> s | _ \<Rightarrow> [])"

definition required_items :: "pyval list \<Rightarrow> bool \<Rightarrow> pystr list res" where
  "required_items vs semantic_set =
     (case sequence_res (map required_string vs) of Inl e \<Rightarrow> Inl e
      | Inr items \<Rightarrow>
         if items = [] then Inl gcs_invalid
         else if \<not> distinct items then Inl gcs_invalid
         else if \<not> semantic_set then Inr items
         else case canonical_set (map PStr items) of
                Inl e \<Rightarrow> Inl (if is_CanonicalizationError e then gcs_invalid else e)
              | Inr xs \<Rightarrow> Inr (map the_text xs))"

definition required_array :: "pyval \<Rightarrow> bool \<Rightarrow> pystr list res" where
  "required_array v semantic_set =
     (case v of PList vs \<Rightarrow> required_items vs semantic_set | PTuple vs \<Rightarrow> required_items vs semantic_set | _ \<Rightarrow> Inl gcs_invalid)"

definition required_mapping_array :: "pyval \<Rightarrow> bool \<Rightarrow> pystr list res" where
  "required_mapping_array v semantic_set =
     (case v of PList vs \<Rightarrow> required_array v semantic_set | _ \<Rightarrow> Inl gcs_invalid)"

section \<open>The record\<close>

record GovernedContext =
  tenant_id :: pystr
  organization_id :: pystr
  domain_id :: pystr
  compartments :: "pystr list"
  classification_marking_ref :: pystr
  purpose :: pystr
  effective_principal_id :: pystr
  actor_chain :: "pystr list"
  ontology_release_digest :: pystr
  policy_bundle_digest :: pystr
  gc_correlation_id :: pystr

text \<open>
  The constructor on the values of its fields by name, \<^verbatim>\<open>__post_init__\<close> included: the checks run in the
  order of the code and the arrays are replaced by their checked forms.
\<close>

definition governed_context :: "(string \<Rightarrow> pyval) \<Rightarrow> GovernedContext res" where
  "governed_context a =
     (case sequence_res (map (\<lambda>f. required_string (a f))
              [''tenant_id'', ''organization_id'', ''domain_id'', ''purpose'', ''effective_principal_id'']) of
        Inl e \<Rightarrow> Inl e
      | Inr texts \<Rightarrow>
         (case required_array (a ''compartments'') True of Inl e \<Rightarrow> Inl e
          | Inr comps \<Rightarrow>
             (case required_array (a ''actor_chain'') False of Inl e \<Rightarrow> Inl e
              | Inr actors \<Rightarrow>
                 (case sequence_res (map (\<lambda>f. required_digest (a f))
                          [''classification_marking_ref'', ''ontology_release_digest'', ''policy_bundle_digest'']) of
                    Inl e \<Rightarrow> Inl e
                  | Inr digests \<Rightarrow>
                     (case required_string (a ''correlation_id'') of Inl e \<Rightarrow> Inl e
                      | Inr corr \<Rightarrow>
                         Inr \<lparr>tenant_id = texts ! 0, organization_id = texts ! 1, domain_id = texts ! 2,
                              compartments = comps, classification_marking_ref = digests ! 0, purpose = texts ! 3,
                              effective_principal_id = texts ! 4, actor_chain = actors,
                              ontology_release_digest = digests ! 1, policy_bundle_digest = digests ! 2,
                              gc_correlation_id = corr\<rparr>)))))"

text \<open>
  A mapping must have exactly the eleven fields; stray keys that are not strings break the sorting or the
  joining of the refusal's own message.
\<close>

definition context_from_mapping :: "pyval \<Rightarrow> GovernedContext res" where
  "context_from_mapping v =
     (case v of
        PDict kvs \<Rightarrow>
          let present = map fst kvs; required = map (KStr \<circ> lit) GCS_FIELDS;
              get = (\<lambda>f. case map_of kvs (KStr (lit f)) of None \<Rightarrow> PNone | Some x \<Rightarrow> x) in
          let additional = filter (\<lambda>k. k \<notin> set required) present in
          if list_ex is_KStr additional \<and> \<not> list_all is_KStr additional then Inl (TypeError ''< not supported between instances'')
          else if \<not> set required \<subseteq> set present then Inl (GovernedContextError ''GOVERNED_CONTEXT_INCOMPLETE'')
          else if additional \<noteq> []
          then Inl (if list_all is_KStr additional then GovernedContextError ''GOVERNED_CONTEXT_ADDITIONAL_PROPERTY''
                    else TypeError ''sequence item: expected str instance'')
          else (case required_mapping_array (get ''compartments'') True of Inl e \<Rightarrow> Inl e
                | Inr comps \<Rightarrow>
                   (case required_mapping_array (get ''actor_chain'') False of Inl e \<Rightarrow> Inl e
                    | Inr actors \<Rightarrow>
                       governed_context (get(''compartments'' := PTuple (map PStr comps), ''actor_chain'' := PTuple (map PStr actors)))))
      | _ \<Rightarrow> Inl gcs_invalid)"

definition context_field :: "GovernedContext \<Rightarrow> string \<Rightarrow> pyval" where
  "context_field c f =
     (if f = ''tenant_id'' then PStr (tenant_id c) else if f = ''organization_id'' then PStr (organization_id c)
      else if f = ''domain_id'' then PStr (domain_id c) else if f = ''compartments'' then PTuple (map PStr (compartments c))
      else if f = ''classification_marking_ref'' then PStr (classification_marking_ref c)
      else if f = ''purpose'' then PStr (purpose c) else if f = ''effective_principal_id'' then PStr (effective_principal_id c)
      else if f = ''actor_chain'' then PTuple (map PStr (actor_chain c))
      else if f = ''ontology_release_digest'' then PStr (ontology_release_digest c)
      else if f = ''policy_bundle_digest'' then PStr (policy_bundle_digest c)
      else if f = ''correlation_id'' then PStr (gc_correlation_id c) else PNone)"

definition mapping_entries :: "GovernedContext \<Rightarrow> (string \<times> pyval) list" where
  "mapping_entries c =
     [(''tenant_id'', PStr (tenant_id c)), (''organization_id'', PStr (organization_id c)), (''domain_id'', PStr (domain_id c)),
      (''compartments'', PList (map PStr (compartments c))),
      (''classification_marking_ref'', PStr (classification_marking_ref c)), (''purpose'', PStr (purpose c)),
      (''effective_principal_id'', PStr (effective_principal_id c)), (''actor_chain'', PList (map PStr (actor_chain c))),
      (''ontology_release_digest'', PStr (ontology_release_digest c)),
      (''policy_bundle_digest'', PStr (policy_bundle_digest c)), (''correlation_id'', PStr (gc_correlation_id c))]"

definition context_to_mapping :: "GovernedContext \<Rightarrow> pyval" where
  "context_to_mapping c = obj (mapping_entries c)"

definition context_canonical_bytes :: "GovernedContext \<Rightarrow> byte list res" where
  "context_canonical_bytes c = canonical_bytes (context_to_mapping c)"

definition context_digest :: "GovernedContext \<Rightarrow> pystr res" where
  "context_digest c = canonical_digest (context_to_mapping c)"

definition isolation_key ::
  "GovernedContext \<Rightarrow> pystr \<times> pystr \<times> pystr \<times> pystr list \<times> pystr \<times> pystr \<times> pystr \<times> pystr" where
  "isolation_key c = (tenant_id c, organization_id c, domain_id c, compartments c, purpose c,
     classification_marking_ref c, ontology_release_digest c, policy_bundle_digest c)"

section \<open>The codec\<close>

record VerifiedGovernedContextBinding =
  vb_binding_ref :: pystr
  vb_expected :: GovernedContext

definition binding_post_init :: "VerifiedGovernedContextBinding \<Rightarrow> VerifiedGovernedContextBinding res" where
  "binding_post_init b = (case required_string (PStr (vb_binding_ref b)) of Inl e \<Rightarrow> Inl e | Inr _ \<Rightarrow> Inr b)"

text \<open>\<open>None\<close> stands for an argument that is not a verified binding.\<close>

definition require_binding :: "VerifiedGovernedContextBinding option \<Rightarrow> VerifiedGovernedContextBinding res" where
  "require_binding b =
     (case b of None \<Rightarrow> Inl (GovernedContextError ''GOVERNED_CONTEXT_MISMATCH'') | Some x \<Rightarrow> Inr x)"

definition context_admit ::
  "GovernedContext \<Rightarrow> VerifiedGovernedContextBinding option \<Rightarrow> pyval \<Rightarrow> GovernedContext res" where
  "context_admit candidate binding claimed =
     (case require_binding binding of Inl e \<Rightarrow> Inl e
      | Inr b \<Rightarrow>
         if candidate \<noteq> vb_expected b then Inl (GovernedContextError ''GOVERNED_CONTEXT_MISMATCH'')
         else case verify_canonical_digest (context_to_mapping candidate) claimed of
                Inl e \<Rightarrow> Inl (if is_CanonicalizationError e then GovernedContextError ''GOVERNED_CONTEXT_MISMATCH'' else e)
              | Inr _ \<Rightarrow> Inr candidate)"

definition to_json :: "GovernedContext \<Rightarrow> byte list res" where
  "to_json c = context_canonical_bytes c"

text \<open>\<^verbatim>\<open>parse_i_json\<close> of \<^verbatim>\<open>kernel/canonical.py\<close>\<close>

definition parse_i_json :: "document \<Rightarrow> pyval res" where
  "parse_i_json d = load_i_json_document d"

definition from_json ::
  "document \<Rightarrow> VerifiedGovernedContextBinding option \<Rightarrow> pyval \<Rightarrow> GovernedContext res" where
  "from_json payload binding claimed =
     (case parse_i_json payload of
        Inl e \<Rightarrow> Inl (if is_CanonicalizationError e \<or> is_ValueError e then gcs_invalid else e)
      | Inr parsed \<Rightarrow>
         (case parsed of
            PDict kvs \<Rightarrow>
              (case context_from_mapping parsed of Inl e \<Rightarrow> Inl e | Inr c \<Rightarrow> context_admit c binding claimed)
          | _ \<Rightarrow> Inl gcs_invalid))"

definition to_openapi :: "GovernedContext \<Rightarrow> pyval" where
  "to_openapi c = context_to_mapping c"

definition from_openapi :: "pyval \<Rightarrow> VerifiedGovernedContextBinding option \<Rightarrow> pyval \<Rightarrow> GovernedContext res" where
  "from_openapi v binding claimed =
     (case context_from_mapping v of Inl e \<Rightarrow> Inl e | Inr c \<Rightarrow> context_admit c binding claimed)"

type_synonym proto_message = "(string, pyval) dict"

text \<open>\<^verbatim>\<open>list(raw)\<close> of an attribute value.\<close>

definition py_list :: "pyval \<Rightarrow> pyval res" where
  "py_list v =
     (case v of PList xs \<Rightarrow> Inr (PList xs) | PTuple xs \<Rightarrow> Inr (PList xs) | PStr s \<Rightarrow> Inr (PList (map (\<lambda>c. PStr [c]) s))
      | PDict kvs \<Rightarrow> Inr (PList (map (\<lambda>(k, _). case k of KStr s \<Rightarrow> PStr s | KOther i \<Rightarrow> PInt i) kvs))
      | PBytes bs \<Rightarrow> Inr (PList (map (PInt \<circ> int) bs))
      | _ \<Rightarrow> Inl (TypeError ''object is not iterable''))"

definition to_proto :: "GovernedContext \<Rightarrow> proto_message \<Rightarrow> proto_message res" where
  "to_proto c message =
     (case context_digest c of Inl e \<Rightarrow> Inl e
      | Inr d \<Rightarrow>
         Inr (dict_set ''governed_context_digest'' (PStr d)
           (fold (\<lambda>f msg. dict_set f (if f = ''compartments'' then PList (map PStr (compartments c)) else context_field c f) msg)
              PROTO_DECLARED_FIELDS message)))"

text \<open>The loop over the declared fields; a missing attribute or a compartments value that is no sequence stops it.\<close>

fun proto_values :: "proto_message \<Rightarrow> string list \<Rightarrow> (string, pyval) dict \<Rightarrow> (string, pyval) dict res" where
  "proto_values message [] values = Inr values"
| "proto_values message (f # fs) values =
     (case dict_get message f of None \<Rightarrow> Inl (GovernedContextError ''GOVERNED_CONTEXT_INCOMPLETE'')
      | Some raw \<Rightarrow>
         (case (if f = ''compartments'' then py_list raw else Inr raw) of Inl e \<Rightarrow> Inl e
          | Inr x \<Rightarrow> proto_values message fs (dict_set f x values)))"

definition from_proto :: "proto_message \<Rightarrow> VerifiedGovernedContextBinding option \<Rightarrow> GovernedContext res" where
  "from_proto message binding =
     (case require_binding binding of Inl e \<Rightarrow> Inl e
      | Inr b \<Rightarrow>
         (case proto_values message PROTO_DECLARED_FIELDS (mapping_entries (vb_expected b)) of Inl e \<Rightarrow> Inl e
          | Inr values \<Rightarrow>
             (case dict_get message ''governed_context_digest'' of
                None \<Rightarrow> Inl (GovernedContextError ''GOVERNED_CONTEXT_INCOMPLETE'')
              | Some claimed \<Rightarrow>
                 (case context_from_mapping (obj values) of Inl e \<Rightarrow> Inl e
                  | Inr c \<Rightarrow> context_admit c binding claimed))))"

section \<open>Well-formed contexts\<close>

lemma is_digest_canonical: "canonical_digest v = Inr d \<Longrightarrow> is_digest d"
proof -
  have hex: "is_lower_hex (hex_digit (n mod 16))" for n
    using mod_less_divisor [of 16 n] by (auto simp: is_lower_hex_def hex_digit_def)
  have "list_all is_lower_hex (sha256_hex b)" for b
    by (auto simp: sha256_hex_def hex32_def list_all_iff hex)
  then show "canonical_digest v = Inr d \<Longrightarrow> is_digest d"
    by (auto simp: canonical_digest_def is_digest_def length_sha256_hex lit_def split: sum.splits)
qed

definition text_set :: "pystr list \<Rightarrow> bool" where
  "text_set xs \<longleftrightarrow> xs \<noteq> [] \<and> distinct xs \<and> [] \<notin> set xs"

definition wf_context :: "GovernedContext \<Rightarrow> bool" where
  "wf_context c \<longleftrightarrow>
     list_all (\<lambda>s. s \<noteq> []) [tenant_id c, organization_id c, domain_id c, purpose c, effective_principal_id c, gc_correlation_id c]
     \<and> list_all is_digest [classification_marking_ref c, ontology_release_digest c, policy_bundle_digest c]
     \<and> text_set (compartments c) \<and> text_set (actor_chain c)
     \<and> canonical_set (map PStr (compartments c)) = Inr (map PStr (compartments c))"

lemma required_string_iff: "required_string v = Inr s \<longleftrightarrow> v = PStr s \<and> s \<noteq> []"
  by (auto simp: required_string_def split: pyval.splits if_splits)

lemma required_digest_iff: "required_digest v = Inr s \<longleftrightarrow> v = PStr s \<and> is_digest s"
  by (cases v) (auto simp: required_digest_def required_string_def is_digest_def)

lemma required_strings: "sequence_res (map required_string vs) = Inr xs \<longleftrightarrow> vs = map PStr xs \<and> [] \<notin> set xs"
proof
  assume "sequence_res (map required_string vs) = Inr xs"
  then have eq: "map required_string vs = map Inr xs" by (simp add: sequence_res_Inr_iff)
  then have len: "length vs = length xs" by (rule map_eq_imp_length_eq)
  have "vs ! i = PStr (xs ! i) \<and> xs ! i \<noteq> []" if "i < length xs" for i
    using arg_cong [OF eq, of "\<lambda>l. l ! i"] that len by (simp add: required_string_iff)
  then show "vs = map PStr xs \<and> [] \<notin> set xs" using len by (metis in_set_conv_nth length_map nth_equalityI nth_map)
next
  assume "vs = map PStr xs \<and> [] \<notin> set xs"
  then show "sequence_res (map required_string vs) = Inr xs"
    by (auto simp: sequence_res_Inr_iff required_string_iff)
qed

lemma canonical_set_result:
  assumes "canonical_set (map PStr items) = Inr xs"
  shows "xs = map PStr (map the_text xs)" "mset (map the_text xs) = mset items" "canonical_set xs = Inr xs"
proof -
  have ij: "list_all i_json (map PStr items)"
  proof -
    let ?r = "map (\<lambda>v. case canonical_bytes v of Inl e \<Rightarrow> Inl e | Inr b \<Rightarrow> Inr (b, v)) (map PStr items)"
    have "is_ok (sequence_res ?r)" using assms by (auto simp: canonical_set_def is_ok_def split: sum.splits)
    then have "\<forall>v \<in> set (map PStr items). is_ok (canonical_bytes v)"
      unfolding sequence_res_ok_iff by (fastforce simp: list_all_iff is_ok_def split: sum.splits)
    then show ?thesis by (auto simp: list_all_iff canonical_bytes_def is_ok_iff canonicalize_iff)
  qed
  note form = canonical_set_i_json [OF ij]
  with assms have d: "distinct (map bytes_of (map PStr items))" and xs: "xs = sort_key bytes_of (map PStr items)"
    by (auto split: if_splits)
  have m: "mset xs = mset (map PStr items)" by (simp add: xs)
  then have "set xs = PStr ` set items" by (metis set_map mset_eq_setD)
  then have "map (PStr \<circ> the_text) xs = xs" by (intro map_idI) (auto simp: the_text_def)
  then show "xs = map PStr (map the_text xs)" by simp
  have "map the_text (map PStr items) = items" by (simp add: the_text_def comp_def)
  then show "mset (map the_text xs) = mset items" using m by (metis mset_map)
  have "list_all i_json xs" using ij m by (metis list_all_iff mset_eq_setD)
  moreover have "distinct (map bytes_of xs)" using d m by (metis mset_eq_imp_distinct_iff mset_map)
  moreover have "sort_key bytes_of xs = xs"
    using calculation(2) by (intro sort_key_inj_key_eq) (simp_all add: distinct_map, simp add: xs)
  ultimately show "canonical_set xs = Inr xs" by (simp add: canonical_set_i_json)
qed

lemma required_items_result:
  assumes "required_items vs b = Inr xs"
  shows "text_set xs" "b \<Longrightarrow> canonical_set (map PStr xs) = Inr (map PStr xs)"
proof -
  from assms obtain items where items: "sequence_res (map required_string vs) = Inr items"
    by (auto simp: required_items_def split: sum.splits)
  then have ne: "[] \<notin> set items" by (simp add: required_strings)
  have tests: "items \<noteq> []" "distinct items" using assms items by (auto simp: required_items_def split: if_splits)
  show "text_set xs" "b \<Longrightarrow> canonical_set (map PStr xs) = Inr (map PStr xs)"
  proof (atomize (full), cases b)
    case True
    with assms items tests obtain ys where ys: "canonical_set (map PStr items) = Inr ys" "xs = map the_text ys"
      by (auto simp: required_items_def split: if_splits sum.splits)
    note r = canonical_set_result [OF ys(1)]
    have "mset xs = mset items" using r(2) ys(2) by simp
    then have "set xs = set items" "distinct xs" "xs \<noteq> []"
      using tests by (auto dest: mset_eq_setD mset_eq_imp_distinct_iff)
    with ne r(1,3) ys(2) show "text_set xs \<and> (b \<longrightarrow> canonical_set (map PStr xs) = Inr (map PStr xs))"
      by (simp add: text_set_def)
  next
    case False
    with assms items tests ne show "text_set xs \<and> (b \<longrightarrow> canonical_set (map PStr xs) = Inr (map PStr xs))"
      by (simp add: required_items_def text_set_def)
  qed
qed

lemma required_items_PStr:
  "text_set xs \<Longrightarrow> (b \<longrightarrow> canonical_set (map PStr xs) = Inr (map PStr xs)) \<Longrightarrow> required_items (map PStr xs) b = Inr xs"
  using required_strings [of "map PStr xs" xs] by (simp add: required_items_def text_set_def the_text_def comp_def)

lemma required_array_result:
  assumes "required_array v b = Inr xs"
  shows "text_set xs" "b \<Longrightarrow> canonical_set (map PStr xs) = Inr (map PStr xs)"
  using assms required_items_result by (auto simp: required_array_def split: pyval.splits)

lemma governed_context_wf:
  assumes "governed_context a = Inr c"
  shows "wf_context c"
proof -
  from assms obtain texts comps actors digests corr where
    r: "sequence_res (map (\<lambda>f. required_string (a f))
          [''tenant_id'', ''organization_id'', ''domain_id'', ''purpose'', ''effective_principal_id'']) = Inr texts"
      "required_array (a ''compartments'') True = Inr comps" "required_array (a ''actor_chain'') False = Inr actors"
      "sequence_res (map (\<lambda>f. required_digest (a f))
          [''classification_marking_ref'', ''ontology_release_digest'', ''policy_bundle_digest'']) = Inr digests"
      "required_string (a ''correlation_id'') = Inr corr"
    and c: "c = \<lparr>tenant_id = texts ! 0, organization_id = texts ! 1, domain_id = texts ! 2,
                compartments = comps, classification_marking_ref = digests ! 0, purpose = texts ! 3,
                effective_principal_id = texts ! 4, actor_chain = actors,
                ontology_release_digest = digests ! 1, policy_bundle_digest = digests ! 2, gc_correlation_id = corr\<rparr>"
    unfolding governed_context_def by (auto split: sum.splits simp del: sequence_res.simps list.map)
  have "\<exists>t0 t1 t2 t3 t4. texts = [t0, t1, t2, t3, t4] \<and> [] \<notin> {t0, t1, t2, t3, t4}"
    using r(1) by (auto simp: required_string_iff split: sum.splits)
  moreover have "\<exists>d0 d1 d2. digests = [d0, d1, d2] \<and> is_digest d0 \<and> is_digest d1 \<and> is_digest d2"
    using r(4) by (auto simp: required_digest_iff split: sum.splits)
  moreover have "corr \<noteq> []" using r(5) by (simp add: required_string_iff)
  ultimately show ?thesis
    using required_array_result(1) [OF r(2)] required_array_result(2) [OF r(2) TrueI] required_array_result(1) [OF r(3)]
    by (auto simp: c wf_context_def)
qed

lemma governed_context_fields:
  assumes "wf_context c" and "\<And>f. f \<in> set GCS_FIELDS \<Longrightarrow> a f = context_field c f"
  shows "governed_context a = Inr c"
proof -
  have arrays: "required_array (PTuple (map PStr (compartments c))) True = Inr (compartments c)"
    "required_array (PTuple (map PStr (actor_chain c))) False = Inr (actor_chain c)"
    using assms(1) by (simp_all add: required_array_def wf_context_def required_items_PStr)
  have str: "required_string (PStr s) = Inr s" if "s \<noteq> []" for s using that by (simp add: required_string_iff)
  have dig: "required_digest (PStr s) = Inr s" if "is_digest s" for s using that by (simp add: required_digest_iff)
  show ?thesis
    using assms(1) arrays by (simp add: governed_context_def assms(2) GCS_FIELDS_def context_field_def wf_context_def str dig)
qed

text \<open>A context read back from a mapping with its own entries, in whatever order.\<close>

lemma context_from_entries:
  assumes wf: "wf_context c" and keys: "set (map fst kvs) = set GCS_FIELDS"
    and get: "\<And>f x. (f, x) \<in> set (mapping_entries c) \<Longrightarrow> map_of kvs f = Some x"
  shows "context_from_mapping (obj kvs) = Inr c"
proof -
  let ?kvs = "map (\<lambda>(k, v). (KStr (lit k), v)) kvs"
  have lookup: "map_of ?kvs (KStr (lit f)) = map_of kvs f" for f by (induction kvs) auto
  have "map fst ?kvs = map (KStr \<circ> lit) (map fst kvs)" by auto
  then have present: "set (map fst ?kvs) = set (map (KStr \<circ> lit) GCS_FIELDS)" using keys by (metis set_map)
  have arrays: "required_mapping_array (PList (map PStr (compartments c))) True = Inr (compartments c)"
    "required_mapping_array (PList (map PStr (actor_chain c))) False = Inr (actor_chain c)"
    using wf by (simp_all add: required_mapping_array_def required_array_def wf_context_def required_items_PStr)
  have vals: "map_of kvs f = Some x" if "(f, x) \<in> set (mapping_entries c)" for f x using get that .
  let ?get = "\<lambda>f. case map_of ?kvs (KStr (lit f)) of None \<Rightarrow> PNone | Some x \<Rightarrow> x"
  have g: "?get ''compartments'' = PList (map PStr (compartments c))" "?get ''actor_chain'' = PList (map PStr (actor_chain c))"
    using vals [of "''compartments''" "PList (map PStr (compartments c))"] vals [of "''actor_chain''" "PList (map PStr (actor_chain c))"]
    unfolding lookup by (simp_all add: mapping_entries_def)
  have "governed_context (?get(''compartments'' := PTuple (map PStr (compartments c)), ''actor_chain'' := PTuple (map PStr (actor_chain c)))) = Inr c"
  proof (rule governed_context_fields [OF wf])
    fix f assume "f \<in> set GCS_FIELDS"
    then show "(?get(''compartments'' := PTuple (map PStr (compartments c)), ''actor_chain'' := PTuple (map PStr (actor_chain c)))) f = context_field c f"
      unfolding lookup by (auto simp: GCS_FIELDS_def context_field_def mapping_entries_def vals)
  qed
  moreover have "filter (\<lambda>k. k \<notin> set (map (KStr \<circ> lit) GCS_FIELDS)) (map fst ?kvs) = []"
    unfolding present [symmetric] by (simp add: filter_empty_conv)
  ultimately show ?thesis using g arrays present unfolding context_from_mapping_def Let_def by simp
qed

lemma distinct_fields: "distinct GCS_FIELDS"
  by (simp add: GCS_FIELDS_def)

lemma mapping_entries_keys: "map fst (mapping_entries c) = GCS_FIELDS"
  by (simp add: mapping_entries_def GCS_FIELDS_def)

lemma context_mapping_back: "wf_context c \<Longrightarrow> context_from_mapping (context_to_mapping c) = Inr c"
  unfolding context_to_mapping_def
proof (rule context_from_entries)
  show "set (map fst (mapping_entries c)) = set GCS_FIELDS" by (simp only: mapping_entries_keys)
  have "distinct (map fst (mapping_entries c))" by (simp only: mapping_entries_keys distinct_fields)
  then show "map_of (mapping_entries c) f = Some x" if "(f, x) \<in> set (mapping_entries c)" for f x
    using that by (rule map_of_is_SomeI)
qed

text \<open>A context that was constructed has passed the checks; one that has a digest is I-JSON.\<close>

lemma context_from_mapping_wf: "context_from_mapping v = Inr c \<Longrightarrow> wf_context c"
  by (auto simp: context_from_mapping_def Let_def split: pyval.splits if_splits sum.splits dest: governed_context_wf)

lemma context_admit_iff:
  "context_admit c b claimed = Inr c' \<longleftrightarrow>
     (\<exists>x d. b = Some x \<and> c = vb_expected x \<and> c' = c \<and> claimed = PStr d \<and> context_digest c = Inr d)"
  by (auto simp: context_admit_def require_binding_def context_digest_def verify_canonical_digest_iff is_digest_canonical
      split: option.splits if_splits sum.splits)
    (metis Inl_Inr_False sum.exhaust verify_canonical_digest_iff is_digest_canonical)+

section \<open>The JSON projection\<close>

lemma entry_value_back: "(k, v) \<in> set (mapping_entries c) \<Longrightarrow> tree_value i_json_hooks (json_view v) = Inr v"
  by (auto simp: mapping_entries_def comp_def map_Inr_ok [where g = PStr])

text \<open>The parser returns the members in the canonical order of their names.\<close>

lemma context_json_back:
  assumes wf: "wf_context c" and b: "canonicalize (context_to_mapping c) = Inr bs" and chars: "py_chars (context_to_mapping c)"
  obtains kvs where "load_i_json_document (Bytes bs) = Inr (PDict kvs)" "context_from_mapping (PDict kvs) = Inr c"
proof -
  let ?g = "\<lambda>x. (lit (fst x), json_view (snd x))"
  define S where "S = sort_key (\<lambda>x. utf16_key (lit (fst x))) (mapping_entries c)"
  have S: "set S = set (mapping_entries c)" "distinct (map fst S)"
    using distinct_fields by (simp_all add: S_def distinct_map_sort_key mapping_entries_keys)
  have "py_wf (context_to_mapping c)"
    by (simp add: context_to_mapping_def mapping_entries_def list_all_iff)
  from load_canonical_bytes [OF b this chars] obtain w where
    w: "load_i_json_document (Bytes bs) = Inr w" "tree_value i_json_hooks (json_view (context_to_mapping c)) = Inr w" .
  have view: "json_view (context_to_mapping c) = JObj (map ?g S)"
    using sort_key_map [of "utf16_key \<circ> fst" ?g "mapping_entries c"]
    by (simp add: context_to_mapping_def S_def comp_def case_prod_beta)
  let ?ps = "map (\<lambda>x. (lit (fst x), snd x)) S"
  have "map (\<lambda>(k, v). pair_value k (tree_value i_json_hooks v)) (map ?g S) = map Inr ?ps"
    using entry_value_back S(1) by (auto simp: pair_value_def)
  then have "object_pairs_hook i_json_hooks ?ps = Inr w"
    using w(2) unfolding view tree_value.simps by (simp only: sequence_res_map_Inr sum.simps)
  moreover have "distinct (map fst ?ps)"
    using S(2) by (simp add: distinct_map inj_on_def)
  ultimately have "w = obj S"
    using reject_duplicate_keys_distinct [of ?ps] by (auto simp: i_json_hooks_def case_prod_beta comp_def)
  moreover have "context_from_mapping (obj S) = Inr c"
  proof (rule context_from_entries [OF wf])
    show "set (map fst S) = set GCS_FIELDS" using S(1) mapping_entries_keys [of c] by (metis set_map)
    show "map_of S f = Some x" if "(f, x) \<in> set (mapping_entries c)" for f x
      using that S by simp
  qed
  ultimately show thesis using that w(1) by simp
qed

section \<open>The Proto projection\<close>

lemma proto_values_ok:
  assumes "\<And>f. f \<in> set fs \<Longrightarrow> dict_get message f = Some (g f)" and "\<And>f. f \<in> set fs \<Longrightarrow> f = ''compartments'' \<Longrightarrow> \<exists>xs. g f = PList xs"
  shows "proto_values message fs vs = Inr (fold (\<lambda>f. dict_set f (g f)) fs vs)"
  using assms by (induction fs arbitrary: vs) (auto simp: py_list_def)

lemma dict_get_fold_fields:
  "distinct fs \<Longrightarrow> dict_get (fold (\<lambda>f. dict_set f (g f)) fs d) k = (if k \<in> set fs then Some (g k) else dict_get d k)"
  by (induction fs arbitrary: d) auto

text \<open>The value a message attribute has after \<^verbatim>\<open>to_proto\<close>: the entry of the mapping.\<close>

definition proto_attr :: "GovernedContext \<Rightarrow> string \<Rightarrow> pyval" where
  "proto_attr c f = (if f = ''compartments'' then PList (map PStr (compartments c)) else context_field c f)"

lemma proto_attr_entries: "f \<in> set PROTO_DECLARED_FIELDS \<Longrightarrow> dict_get (mapping_entries c) f = Some (proto_attr c f)"
  by (auto simp: PROTO_DECLARED_FIELDS_def mapping_entries_def proto_attr_def context_field_def)

lemma from_proto_back:
  assumes wf: "wf_context c" and b: "vb_expected b = c" and d: "context_digest c = Inr d"
    and msg: "\<And>f. f \<in> set PROTO_DECLARED_FIELDS \<Longrightarrow> dict_get m f = Some (proto_attr c f)"
    and dig: "dict_get m ''governed_context_digest'' = Some (PStr d)"
  shows "from_proto m (Some b) = Inr c"
proof -
  let ?vs = "fold (\<lambda>f. dict_set f (proto_attr c f)) PROTO_DECLARED_FIELDS (mapping_entries c)"
  have "proto_values m PROTO_DECLARED_FIELDS (mapping_entries c) = Inr ?vs"
    using msg by (intro proto_values_ok) (auto simp: proto_attr_def)
  moreover have get: "dict_get ?vs f = dict_get (mapping_entries c) f" for f
    by (subst dict_get_fold_fields) (use proto_attr_entries in \<open>auto simp: PROTO_DECLARED_FIELDS_def\<close>)
  then have "set (map fst ?vs) = set (map fst (mapping_entries c))" by (intro set_eqI) (simp only: dict_mem_keys)
  then have "context_from_mapping (obj ?vs) = Inr c"
  proof (intro context_from_entries [OF wf])
    show "dict_get ?vs f = Some x" if "(f, x) \<in> set (mapping_entries c)" for f x
      unfolding get using that mapping_entries_keys distinct_fields by (metis map_of_is_SomeI)
  qed (simp only: mapping_entries_keys)
  moreover have "context_admit c (Some b) (PStr d) = Inr c" using b d by (simp add: context_admit_iff)
  ultimately show ?thesis using b dig by (simp add: from_proto_def require_binding_def)
qed

lemma to_proto_message:
  assumes "context_digest c = Inr d" "to_proto c m0 = Inr m"
  shows "f \<in> set PROTO_DECLARED_FIELDS \<Longrightarrow> dict_get m f = Some (proto_attr c f)"
    "dict_get m ''governed_context_digest'' = Some (PStr d)"
proof -
  have m: "m = dict_set ''governed_context_digest'' (PStr d) (fold (\<lambda>f. dict_set f (proto_attr c f)) PROTO_DECLARED_FIELDS m0)"
    using assms by (simp add: to_proto_def proto_attr_def)
  have "distinct PROTO_DECLARED_FIELDS" by (simp add: PROTO_DECLARED_FIELDS_def)
  then show "f \<in> set PROTO_DECLARED_FIELDS \<Longrightarrow> dict_get m f = Some (proto_attr c f)"
    unfolding m by (subst dict_get_set) (auto simp: dict_get_fold_fields PROTO_DECLARED_FIELDS_def)
  show "dict_get m ''governed_context_digest'' = Some (PStr d)" unfolding m by simp
qed

section \<open>Properties\<close>

definition example_gcs_digest :: pystr where
  "example_gcs_digest = lit ''urn:sha256:'' @ replicate 64 48"

definition example_context :: GovernedContext where
  "example_context = \<lparr>tenant_id = lit ''t'', organization_id = lit ''o'', domain_id = lit ''d'',
     compartments = [lit ''c''], classification_marking_ref = example_gcs_digest, purpose = lit ''p'',
     effective_principal_id = lit ''e'', actor_chain = [lit ''a''], ontology_release_digest = example_gcs_digest,
     policy_bundle_digest = example_gcs_digest, gc_correlation_id = lit ''00000000-0000-4000-8000-000000000002''\<rparr>"

lemma example_context_wf: "wf_context example_context"
proof -
  have "is_digest example_gcs_digest" by (simp add: is_digest_def example_gcs_digest_def lit_def is_lower_hex_def list_all_iff)
  moreover have "canonical_set [PStr (lit ''c'')] = Inr [PStr (lit ''c'')]" by (subst canonical_set_i_json) simp_all
  ultimately show ?thesis by (simp add: wf_context_def example_context_def text_set_def)
qed

lemma example_context_built: "governed_context (context_field example_context) = Inr example_context"
  by (rule governed_context_fields [OF example_context_wf refl])

lemma example_context_json: "i_json (context_to_mapping example_context)" "py_chars (context_to_mapping example_context)"
  by (simp_all add: context_to_mapping_def mapping_entries_def example_context_def example_gcs_digest_def is_surrogate_def list_ex_iff list_all_iff lit_def)

text \<open>
  C37 [context_codec_roundtrip]: the three boundary forms carry a context faithfully.  A context that was
  constructed, sent with its own digest to a side that holds a binding for it, is read back unchanged
  through OpenAPI, through any Proto message object, and through the JSON bytes the codec writes, which are
  decoded and parsed on the other side (\<open>py_chars\<close>: every character is a code point).
\<close>

theorem context_codec_roundtrip:
  assumes "governed_context a = Inr c" and "vb_expected b = c" and "context_digest c = Inr d"
  shows "from_openapi (to_openapi c) (Some b) (PStr d) = Inr c
    \<and> (\<forall>m0. \<exists>m. to_proto c m0 = Inr m \<and> from_proto m (Some b) = Inr c)
    \<and> (py_chars (context_to_mapping c) \<longrightarrow> (\<exists>bs. to_json c = Inr bs \<and> from_json (Bytes bs) (Some b) (PStr d) = Inr c))"
proof -
  have wf: "wf_context c" by (rule governed_context_wf [OF assms(1)])
  have admit: "context_admit c (Some b) (PStr d) = Inr c" using assms by (simp add: context_admit_iff)
  have "from_openapi (to_openapi c) (Some b) (PStr d) = Inr c"
    using context_mapping_back [OF wf] admit by (simp add: from_openapi_def to_openapi_def)
  moreover have "\<exists>m. to_proto c m0 = Inr m \<and> from_proto m (Some b) = Inr c" for m0
  proof -
    obtain m where m: "to_proto c m0 = Inr m" using assms(3) by (simp add: to_proto_def)
    from from_proto_back [OF wf assms(2,3) to_proto_message [OF assms(3) m]] m show ?thesis by blast
  qed
  moreover have "\<exists>bs. to_json c = Inr bs \<and> from_json (Bytes bs) (Some b) (PStr d) = Inr c" if chars: "py_chars (context_to_mapping c)"
  proof -
    have "i_json (context_to_mapping c)" using assms(3) by (simp add: context_digest_def canonical_digest_iff canonical_sha256_iff)
    then obtain bs where bs: "canonicalize (context_to_mapping c) = Inr bs" using canonicalize_i_json by blast
    obtain kvs where "load_i_json_document (Bytes bs) = Inr (PDict kvs)" "context_from_mapping (PDict kvs) = Inr c"
      by (rule context_json_back [OF wf bs chars])
    with admit have "from_json (Bytes bs) (Some b) (PStr d) = Inr c" by (simp add: from_json_def parse_i_json_def)
    moreover have "to_json c = Inr bs" using bs by (simp add: to_json_def context_canonical_bytes_def canonical_bytes_def)
    ultimately show ?thesis by blast
  qed
  ultimately show ?thesis by blast
qed

theorem context_codec_roundtrip_witness:
  "\<exists>d bs. context_digest example_context = Inr d \<and> to_json example_context = Inr bs
     \<and> from_openapi (to_openapi example_context) (Some \<lparr>vb_binding_ref = lit ''b'', vb_expected = example_context\<rparr>) (PStr d) = Inr example_context
     \<and> from_json (Bytes bs) (Some \<lparr>vb_binding_ref = lit ''b'', vb_expected = example_context\<rparr>) (PStr d) = Inr example_context"
proof -
  obtain d where d: "context_digest example_context = Inr d"
    using canonical_digest_i_json [OF example_context_json(1)] by (simp add: context_digest_def)
  from context_codec_roundtrip [OF example_context_built _ d, of "\<lparr>vb_binding_ref = lit ''b'', vb_expected = example_context\<rparr>"]
    example_context_json(2) d
  show ?thesis by auto
qed

text \<open>
  C15 [context_admission_sound]: no boundary admits anything but the bound context.  Whatever a caller sends,
  the codec returns only the context of the verified binding it was given, and only when the digest the
  caller claims is the canonical digest of that context; without a binding it never returns.
\<close>

theorem context_admission_sound:
  assumes "from_openapi v binding claimed = Inr c
    \<or> (\<exists>payload. from_json payload binding claimed = Inr c)
    \<or> (\<exists>m. from_proto m binding = Inr c \<and> dict_get m ''governed_context_digest'' = Some claimed)"
  shows "\<exists>b d. binding = Some b \<and> c = vb_expected b \<and> claimed = PStr d \<and> context_digest c = Inr d \<and> wf_context c"
proof -
  have "\<exists>c0. context_admit c0 binding claimed = Inr c \<and> wf_context c0"
    using assms
  proof (elim disjE exE conjE)
    assume "from_openapi v binding claimed = Inr c"
    then show ?thesis by (auto simp: from_openapi_def split: sum.splits dest: context_from_mapping_wf)
  next
    fix payload
    assume "from_json payload binding claimed = Inr c"
    then show ?thesis by (auto simp: from_json_def split: sum.splits pyval.splits dest: context_from_mapping_wf)
  next
    fix m
    assume "from_proto m binding = Inr c" "dict_get m ''governed_context_digest'' = Some claimed"
    then show ?thesis by (auto simp: from_proto_def split: sum.splits dest: context_from_mapping_wf)
  qed
  then show ?thesis by (auto simp: context_admit_iff)
qed

theorem context_admission_sound_witness:
  "\<exists>d. from_openapi (to_openapi example_context) (Some \<lparr>vb_binding_ref = lit ''b'', vb_expected = example_context\<rparr>) (PStr d) = Inr example_context
     \<and> context_digest example_context = Inr d"
proof -
  let ?b = "\<lparr>vb_binding_ref = lit ''b'', vb_expected = example_context\<rparr>"
  obtain d where d: "context_digest example_context = Inr d"
    using canonical_digest_i_json [OF example_context_json(1)] by (simp add: context_digest_def)
  then have "from_openapi (to_openapi example_context) (Some ?b) (PStr d) = Inr example_context"
    by (simp add: from_openapi_def to_openapi_def context_mapping_back example_context_wf context_admit_iff)
  then show ?thesis using context_admission_sound [of "to_openapi example_context" "Some ?b" "PStr d" example_context] by blast
qed

text \<open>
  The digest of a context identifies it.  Two contexts with the same digest are
  equal in every field, actor chain and compartments included, or their canonical bytes are a SHA-256
  collision.
\<close>

theorem context_digest_binding:
  assumes "context_digest c = Inr d" and "context_digest c' = Inr d"
    and "py_chars (context_to_mapping c)" and "py_chars (context_to_mapping c')"
  shows "c = c' \<or> sha_collision (context_to_mapping c) (context_to_mapping c')"
proof -
  have "\<exists>h. canonical_sha256 (context_to_mapping c) = Inr h \<and> canonical_sha256 (context_to_mapping c') = Inr h"
    using assms(1,2) by (auto simp: context_digest_def canonical_digest_iff)
  then have "json_view (context_to_mapping c) = json_view (context_to_mapping c') \<or> sha_collision (context_to_mapping c) (context_to_mapping c')"
    using canonical_sha256_eq_cases assms(3,4) by blast
  moreover have "c = c'" if "json_view (context_to_mapping c) = json_view (context_to_mapping c')"
  proof -
    have "map (json_view \<circ> snd) (mapping_entries c) = map (json_view \<circ> snd) (mapping_entries c')"
      using that unfolding context_to_mapping_def
      by (rule json_view_obj_eq) (simp_all only: mapping_entries_keys distinct_fields)
    moreover have "map (json_view \<circ> PStr) xs = map (json_view \<circ> PStr) ys \<Longrightarrow> xs = ys" for xs ys
      by (rule map_injective) (auto simp: inj_def)
    ultimately show ?thesis by (simp add: mapping_entries_def)
  qed
  ultimately show ?thesis by blast
qed

theorem context_digest_binding_witness:
  "example_context = example_context \<or> sha_collision (context_to_mapping example_context) (context_to_mapping example_context)"
proof -
  obtain d where "context_digest example_context = Inr d"
    using canonical_digest_i_json [OF example_context_json(1)] by (simp add: context_digest_def)
  from context_digest_binding [OF this this example_context_json(2) example_context_json(2)] show ?thesis .
qed

end
