(* ===== verification/Kernel_Governance.thy ===== *)
theory Kernel_Governance
  imports Kernel_Context
begin

text \<open>
  The governance kernel of \<^verbatim>\<open>kernel/governance.py\<close>: typed faults, Authority evaluation, one-shot
  capability leases with their consumption ledger, evidence and provenance records.  A constructor takes the
  values of its text, array and counter fields by name (\<^verbatim>\<open>getattr(self, field)\<close>) and its datetimes and risk
  class apart.  The lease-state port is a parameter of the ledger; the in-memory adapter is one of its
  implementations.
\<close>

section \<open>Faults\<close>

datatype FailureClass = TRANSIENT | PERMANENT | POLICY_DENIED | POISON

fun failure_class_value :: "FailureClass \<Rightarrow> string" where
  "failure_class_value TRANSIENT = ''TRANSIENT''"
| "failure_class_value PERMANENT = ''PERMANENT''"
| "failure_class_value POLICY_DENIED = ''POLICY_DENIED''"
| "failure_class_value POISON = ''POISON''"

definition REASON_FAILURE_CLASSES :: "(string, FailureClass) dict" where
  "REASON_FAILURE_CLASSES =
     [(''AUTHORITY_BINDING_MISMATCH'', POLICY_DENIED), (''AUTHORITY_EXPIRED'', POLICY_DENIED),
      (''AUTHORITY_NOT_YET_VALID'', POLICY_DENIED), (''AUTHORITY_REVOKED'', POLICY_DENIED),
      (''AUTHORITY_SCOPE_MISMATCH'', POLICY_DENIED), (''AUTHORITY_UNSIGNED'', PERMANENT),
      (''CONTROL_PLANE_UNAVAILABLE'', PERMANENT), (''EVIDENCE_INVALID'', PERMANENT),
      (''FENCING_TOKEN_STALE'', POLICY_DENIED), (''GOVERNANCE_RECORD_INVALID'', PERMANENT),
      (''LEASE_ALREADY_CONSUMED'', POLICY_DENIED), (''LEASE_CONTEXT_MISMATCH'', POLICY_DENIED),
      (''LEASE_EXPIRED'', POLICY_DENIED), (''LEASE_INVALID'', PERMANENT), (''LEASE_REVOKED'', POLICY_DENIED),
      (''POISON_EVENT'', POISON), (''POLICY_DENIED'', POLICY_DENIED), (''PROJECTION_NOT_READY'', TRANSIENT),
      (''PROVENANCE_INCOMPLETE'', PERMANENT), (''STALE_CONTEXT'', TRANSIENT), (''STOP_EPOCH_MISMATCH'', POLICY_DENIED)]"

definition CORRELATION_ZERO :: pystr where
  "CORRELATION_ZERO = lit ''00000000-0000-4000-8000-000000000001''"

record GovernanceFaultRecord =
  gf_reason_code :: string
  gf_failure_class :: FailureClass
  gf_correlation_id :: pystr
  gf_causation_id :: "pystr option"
  gf_title :: pystr

text \<open>\<^verbatim>\<open>title.encode("utf-8")\<close> raises on a surrogate, which is a \<^verbatim>\<open>ValueError\<close> like the other refusals.\<close>

definition title_ok :: "pystr \<Rightarrow> bool" where
  "title_ok t \<longleftrightarrow> t \<noteq> [] \<and> \<not> list_ex is_surrogate t \<and> length (utf8 t) \<le> 256 \<and> list_all (\<lambda>c. 32 \<le> c) t"

definition governance_fault ::
  "string \<Rightarrow> FailureClass \<Rightarrow> pystr \<Rightarrow> pystr \<Rightarrow> pystr option \<Rightarrow> GovernanceFaultRecord res" where
  "governance_fault reason cls correlation title causation =
     (case dict_get REASON_FAILURE_CLASSES reason of
        None \<Rightarrow> Inl (ValueError ''undeclared governance reason'')
      | Some declared \<Rightarrow>
         if cls \<noteq> declared then Inl (ValueError ''reason requires another failure class'')
         else if \<not> title_ok title then Inl (ValueError ''a non-control, UTF-8 title of at most 256 bytes is required'')
         else case validate_correlation_id (PStr correlation) of Inl e \<Rightarrow> Inl e
         | Inr _ \<Rightarrow>
            (case causation of
               None \<Rightarrow> Inr \<lparr>gf_reason_code = reason, gf_failure_class = cls, gf_correlation_id = correlation,
                            gf_causation_id = None, gf_title = title\<rparr>
             | Some c \<Rightarrow>
                (case validate_causation_id (PStr c) of Inl e \<Rightarrow> Inl e
                 | Inr _ \<Rightarrow> Inr \<lparr>gf_reason_code = reason, gf_failure_class = cls, gf_correlation_id = correlation,
                                gf_causation_id = Some c, gf_title = title\<rparr>)))"

definition fault_retryable :: "GovernanceFaultRecord \<Rightarrow> bool" where
  "fault_retryable f \<longleftrightarrow> gf_failure_class f = TRANSIENT"

definition to_problem :: "GovernanceFaultRecord \<Rightarrow> pyval" where
  "to_problem f = obj [(''reason_code'', PStr (lit (gf_reason_code f))),
     (''failure_class'', PStr (lit (failure_class_value (gf_failure_class f)))),
     (''correlation_id'', PStr (gf_correlation_id f)),
     (''causation_id'', case gf_causation_id f of None \<Rightarrow> PNone | Some c \<Rightarrow> PStr c),
     (''retryable'', PBool (fault_retryable f)), (''title'', PStr (gf_title f))]"

text \<open>
  \<^verbatim>\<open>raise _fault(...)\<close>: the exception that leaves the statement, which is the error of building the fault
  when that fails.
\<close>

definition fault_with :: "string \<Rightarrow> pystr \<Rightarrow> pystr option \<Rightarrow> pystr \<Rightarrow> exn" where
  "fault_with reason correlation causation title =
     (case dict_get REASON_FAILURE_CLASSES reason of
        None \<Rightarrow> ValueError ''undeclared governance reason''
      | Some cls \<Rightarrow>
         (case governance_fault reason cls correlation title causation of
            Inl e \<Rightarrow> e
          | Inr f \<Rightarrow> GovernanceFault (gf_reason_code f) (gf_correlation_id f) (gf_causation_id f)))"

definition fault :: "string \<Rightarrow> pystr \<Rightarrow> string \<Rightarrow> exn" where
  "fault reason correlation title = fault_with reason correlation None (lit title)"

section \<open>Field checks\<close>

definition gov_string :: "string \<Rightarrow> pyval \<Rightarrow> pystr \<Rightarrow> pystr res" where
  "gov_string fld v correlation =
     (case v of PStr s \<Rightarrow> if s = [] then Inl (fault ''GOVERNANCE_RECORD_INVALID'' correlation (fld @ '' is required'')) else Inr s
      | _ \<Rightarrow> Inl (fault ''GOVERNANCE_RECORD_INVALID'' correlation (fld @ '' is required'')))"

definition gov_digest :: "string \<Rightarrow> pyval \<Rightarrow> pystr \<Rightarrow> pystr res" where
  "gov_digest fld v correlation =
     (case gov_string fld v correlation of Inl e \<Rightarrow> Inl e
      | Inr s \<Rightarrow>
         if length s \<noteq> 75 \<or> \<not> startswith s (lit ''urn:sha256:'') \<or> list_ex (\<lambda>c. \<not> is_lower_hex c) (drop 11 s)
         then Inl (fault ''GOVERNANCE_RECORD_INVALID'' correlation (fld @ '' is not a SHA-256 URN''))
         else Inr s)"

definition gov_aware :: "string \<Rightarrow> datetime \<Rightarrow> pystr \<Rightarrow> datetime res" where
  "gov_aware fld d correlation =
     (if dt_aware d then Inr d else Inl (fault ''GOVERNANCE_RECORD_INVALID'' correlation (fld @ '' must be aware UTC'')))"

definition gov_refs :: "string \<Rightarrow> pyval \<Rightarrow> pystr \<Rightarrow> pystr list res" where
  "gov_refs fld v correlation =
     (case v of
        PStr _ \<Rightarrow> Inl (fault ''PROVENANCE_INCOMPLETE'' correlation (fld @ '' must be an array''))
      | PBytes _ \<Rightarrow> Inl (fault ''PROVENANCE_INCOMPLETE'' correlation (fld @ '' must be an array''))
      | _ \<Rightarrow>
         (case py_list v of
            Inr (PList items) \<Rightarrow>
              if items = [] \<or> list_ex (\<lambda>i. case i of PStr s \<Rightarrow> s = [] | _ \<Rightarrow> True) items
              then Inl (fault ''PROVENANCE_INCOMPLETE'' correlation (fld @ '' is incomplete''))
              else if \<not> distinct (map the_text items)
              then Inl (fault ''PROVENANCE_INCOMPLETE'' correlation (fld @ '' has duplicates''))
              else Inr (map the_text items)
          | Inr _ \<Rightarrow> Inl (TypeError ''object is not iterable'')
          | Inl e \<Rightarrow> Inl e))"

text \<open>The loops \<^verbatim>\<open>for field in (...): _check(field, getattr(self, field), ...)\<close>.\<close>

definition gov_strings :: "string list \<Rightarrow> (string \<Rightarrow> pyval) \<Rightarrow> pystr \<Rightarrow> pystr list res" where
  "gov_strings fs a correlation = sequence_res (map (\<lambda>f. gov_string f (a f) correlation) fs)"

definition gov_digests :: "string list \<Rightarrow> (string \<Rightarrow> pyval) \<Rightarrow> pystr \<Rightarrow> pystr list res" where
  "gov_digests fs a correlation = sequence_res (map (\<lambda>f. gov_digest f (a f) correlation) fs)"

definition gov_ref_lists :: "string list \<Rightarrow> (string \<Rightarrow> pyval) \<Rightarrow> pystr \<Rightarrow> pystr list list res" where
  "gov_ref_lists fs a correlation = sequence_res (map (\<lambda>f. gov_refs f (a f) correlation) fs)"

section \<open>Authority\<close>

datatype RiskClass = R0_INFORMATIONAL | R1_LOW | R2_CONTROLLED | R3_HIGH_IMPACT

fun risk_value :: "RiskClass \<Rightarrow> int" where
  "risk_value R0_INFORMATIONAL = 0"
| "risk_value R1_LOW = 1"
| "risk_value R2_CONTROLLED = 2"
| "risk_value R3_HIGH_IMPACT = 3"

text \<open>\<^verbatim>\<open>RiskClass(value)\<close>\<close>

definition risk_class :: "int \<Rightarrow> RiskClass res" where
  "risk_class i =
     (if i = 0 then Inr R0_INFORMATIONAL else if i = 1 then Inr R1_LOW else if i = 2 then Inr R2_CONTROLLED
      else if i = 3 then Inr R3_HIGH_IMPACT else Inl (ValueError ''not a valid RiskClass''))"

record Authority =
  au_authority_id :: pystr
  au_effective_principal_id :: pystr
  au_capability_ids :: "pystr list"
  au_resource_scopes :: "pystr list"
  au_tenant_id :: pystr
  au_domains :: "pystr list"
  au_compartments :: "pystr list"
  au_permitted_purposes :: "pystr list"
  au_risk_ceiling :: RiskClass
  au_not_before :: datetime
  au_expires_at :: datetime
  au_delegation_ref :: pystr
  au_policy_bundle_digest :: pystr
  au_signature_ref :: pystr

definition authority_post_init :: "(string \<Rightarrow> pyval) \<Rightarrow> int \<Rightarrow> datetime \<Rightarrow> datetime \<Rightarrow> Authority res" where
  "authority_post_init a risk not_before expires_at =
     (case gov_strings [''authority_id'', ''effective_principal_id'', ''tenant_id'', ''signature_ref''] a CORRELATION_ZERO of
        Inl e \<Rightarrow> Inl e
      | Inr texts \<Rightarrow>
     (case gov_ref_lists [''capability_ids'', ''resource_scopes'', ''domains'', ''compartments'', ''permitted_purposes''] a CORRELATION_ZERO of
        Inl e \<Rightarrow> Inl e
      | Inr refs \<Rightarrow>
     (case gov_digests [''delegation_ref'', ''policy_bundle_digest''] a CORRELATION_ZERO of Inl e \<Rightarrow> Inl e
      | Inr digests \<Rightarrow>
     (case risk_class risk of Inl e \<Rightarrow> Inl e
      | Inr rk \<Rightarrow>
     (case gov_aware ''not_before'' not_before CORRELATION_ZERO of Inl e \<Rightarrow> Inl e
      | Inr nb \<Rightarrow>
     (case gov_aware ''expires_at'' expires_at CORRELATION_ZERO of Inl e \<Rightarrow> Inl e
      | Inr ex \<Rightarrow>
         if dt_le ex nb then Inl (fault ''GOVERNANCE_RECORD_INVALID'' CORRELATION_ZERO ''Authority validity window is empty'')
         else Inr \<lparr>au_authority_id = texts ! 0, au_effective_principal_id = texts ! 1, au_capability_ids = refs ! 0,
                   au_resource_scopes = refs ! 1, au_tenant_id = texts ! 2, au_domains = refs ! 2, au_compartments = refs ! 3,
                   au_permitted_purposes = refs ! 4, au_risk_ceiling = rk, au_not_before = nb, au_expires_at = ex,
                   au_delegation_ref = digests ! 0, au_policy_bundle_digest = digests ! 1, au_signature_ref = texts ! 3\<rparr>))))))"

record AuthorityRequest =
  rq_capability_id :: pystr
  rq_resource_scope :: pystr
  rq_risk_class :: RiskClass
  rq_governed_context :: GovernedContext
  rq_at :: datetime
  rq_causation_id :: "pystr option"

definition exn_message :: "exn \<Rightarrow> string" where
  "exn_message e = (case e of IdentifierError m \<Rightarrow> m | TimestampError m \<Rightarrow> m | _ \<Rightarrow> [])"

definition authority_request_init ::
  "(string \<Rightarrow> pyval) \<Rightarrow> int \<Rightarrow> GovernedContext \<Rightarrow> datetime \<Rightarrow> pyval \<Rightarrow> AuthorityRequest res" where
  "authority_request_init a risk ctx at_time causation =
     (let correlation = gc_correlation_id ctx in
      case gov_strings [''capability_id'', ''resource_scope''] a correlation of Inl e \<Rightarrow> Inl e
      | Inr texts \<Rightarrow>
     (case risk_class risk of Inl e \<Rightarrow> Inl e
      | Inr rk \<Rightarrow>
     (case gov_aware ''at'' at_time correlation of Inl e \<Rightarrow> Inl e
      | Inr t \<Rightarrow>
         if causation = PNone
         then Inr \<lparr>rq_capability_id = texts ! 0, rq_resource_scope = texts ! 1, rq_risk_class = rk,
                   rq_governed_context = ctx, rq_at = t, rq_causation_id = None\<rparr>
         else case validate_causation_id causation of
                Inl e \<Rightarrow> Inl (fault ''GOVERNANCE_RECORD_INVALID'' correlation (''invalid causation_id: '' @ exn_message e))
              | Inr c \<Rightarrow> Inr \<lparr>rq_capability_id = texts ! 0, rq_resource_scope = texts ! 1, rq_risk_class = rk,
                             rq_governed_context = ctx, rq_at = t, rq_causation_id = Some c\<rparr>)))"

record VerifiedAuthorityBinding =
  va_binding_ref :: pystr
  va_delegation_ref :: pystr
  va_expected_context :: GovernedContext

definition authority_binding_init :: "pyval \<Rightarrow> pyval \<Rightarrow> GovernedContext \<Rightarrow> VerifiedAuthorityBinding res" where
  "authority_binding_init ref delegation ctx =
     (case gov_string ''binding_ref'' ref CORRELATION_ZERO of Inl e \<Rightarrow> Inl e
      | Inr r \<Rightarrow>
         (case gov_digest ''delegation_ref'' delegation CORRELATION_ZERO of Inl e \<Rightarrow> Inl e
          | Inr d \<Rightarrow> Inr \<lparr>va_binding_ref = r, va_delegation_ref = d, va_expected_context = ctx\<rparr>))"

record AuthorityDecision =
  ad_authority_id :: pystr
  ad_governed_context_digest :: pystr
  ad_purpose :: pystr
  ad_valid_until :: datetime

definition authority_in_scope :: "Authority \<Rightarrow> AuthorityRequest \<Rightarrow> bool" where
  "authority_in_scope au rq \<longleftrightarrow>
     (let ctx = rq_governed_context rq in
      effective_principal_id ctx = au_effective_principal_id au
      \<and> rq_capability_id rq \<in> set (au_capability_ids au) \<and> rq_resource_scope rq \<in> set (au_resource_scopes au)
      \<and> tenant_id ctx = au_tenant_id au \<and> domain_id ctx \<in> set (au_domains au)
      \<and> set (compartments ctx) \<subseteq> set (au_compartments au) \<and> purpose ctx \<in> set (au_permitted_purposes au)
      \<and> risk_value (rq_risk_class rq) \<le> risk_value (au_risk_ceiling au)
      \<and> policy_bundle_digest ctx = au_policy_bundle_digest au)"

definition validate_authority ::
  "Authority \<Rightarrow> AuthorityRequest \<Rightarrow> bool \<Rightarrow> bool \<Rightarrow> VerifiedAuthorityBinding option \<Rightarrow> AuthorityDecision res" where
  "validate_authority au rq signature_verified revoked binding =
     (let ctx = rq_governed_context rq;
          deny = (\<lambda>reason title. Inl (fault_with reason (gc_correlation_id ctx) (rq_causation_id rq) (lit title))) in
      if \<not> signature_verified \<or> au_signature_ref au = [] then deny ''AUTHORITY_UNSIGNED'' ''Authority signature is not verified''
      else if revoked then deny ''AUTHORITY_REVOKED'' ''Authority is revoked''
      else if (case binding of None \<Rightarrow> True
               | Some b \<Rightarrow> au_delegation_ref au \<noteq> va_delegation_ref b \<or> ctx \<noteq> va_expected_context b
                   \<or> actor_chain ctx \<noteq> actor_chain (va_expected_context b))
      then deny ''AUTHORITY_BINDING_MISMATCH'' ''Authority delegation or verified GovernedContext binding differs''
      else if dt_lt (rq_at rq) (au_not_before au) then deny ''AUTHORITY_NOT_YET_VALID'' ''Authority is not yet valid''
      else if dt_le (au_expires_at au) (rq_at rq) then deny ''AUTHORITY_EXPIRED'' ''Authority is expired''
      else if \<not> authority_in_scope au rq
      then deny ''AUTHORITY_SCOPE_MISMATCH'' ''Authority does not contain the requested scope, purpose, risk, or binding''
      else case context_digest ctx of Inl e \<Rightarrow> Inl e
           | Inr d \<Rightarrow> Inr \<lparr>ad_authority_id = au_authority_id au, ad_governed_context_digest = d, ad_purpose = purpose ctx,
                          ad_valid_until = au_expires_at au\<rparr>)"

section \<open>Capability leases\<close>

record KernelLease =
  kl_lease_id :: pystr
  kl_capability_id :: pystr
  kl_effective_principal_id :: pystr
  kl_delegation_ref :: pystr
  kl_action_instance_id :: pystr
  kl_governed_context_digest :: pystr
  kl_gate_package_digest :: pystr
  kl_stop_epoch :: int
  kl_fencing_token :: int
  kl_issued_at :: datetime
  kl_expires_at :: datetime

definition LEASE_FIELDS :: "string list" where
  "LEASE_FIELDS = [''lease_id'', ''capability_id'', ''effective_principal_id'', ''delegation_ref'', ''action_instance_id'',
     ''governed_context_digest'', ''gate_package_digest'', ''stop_epoch'', ''fencing_token'', ''issued_at'', ''expires_at'']"

text \<open>An \<^verbatim>\<open>int\<close> that is not a \<^verbatim>\<open>bool\<close> and at least the bound.\<close>

definition counter_at_least :: "int \<Rightarrow> pyval \<Rightarrow> int option" where
  "counter_at_least bound v = (case v of PInt i \<Rightarrow> if bound \<le> i then Some i else None | _ \<Rightarrow> None)"

definition kernel_lease :: "(string \<Rightarrow> pyval) \<Rightarrow> datetime \<Rightarrow> datetime \<Rightarrow> KernelLease res" where
  "kernel_lease a issued_at expires_at =
     (case gov_strings [''lease_id'', ''capability_id'', ''effective_principal_id'', ''action_instance_id''] a CORRELATION_ZERO of
        Inl e \<Rightarrow> Inl e
      | Inr texts \<Rightarrow>
     (case gov_digests [''delegation_ref'', ''governed_context_digest'', ''gate_package_digest''] a CORRELATION_ZERO of
        Inl e \<Rightarrow> Inl e
      | Inr digests \<Rightarrow>
     (case counter_at_least 0 (a ''stop_epoch'') of
        None \<Rightarrow> Inl (fault ''LEASE_INVALID'' CORRELATION_ZERO ''stop_epoch is invalid'')
      | Some epoch \<Rightarrow>
     (case counter_at_least 1 (a ''fencing_token'') of
        None \<Rightarrow> Inl (fault ''LEASE_INVALID'' CORRELATION_ZERO ''fencing_token is invalid'')
      | Some token \<Rightarrow>
     (case gov_aware ''issued_at'' issued_at CORRELATION_ZERO of Inl e \<Rightarrow> Inl e
      | Inr i \<Rightarrow>
     (case gov_aware ''expires_at'' expires_at CORRELATION_ZERO of Inl e \<Rightarrow> Inl e
      | Inr x \<Rightarrow>
         if dt_diff x i \<le> 0 then Inl (fault ''LEASE_INVALID'' CORRELATION_ZERO ''lease validity window is empty'')
         else if 5000000 < dt_diff x i then Inl (fault ''LEASE_INVALID'' CORRELATION_ZERO ''lease TTL exceeds five seconds'')
         else Inr \<lparr>kl_lease_id = texts ! 0, kl_capability_id = texts ! 1, kl_effective_principal_id = texts ! 2,
                   kl_delegation_ref = digests ! 0, kl_action_instance_id = texts ! 3,
                   kl_governed_context_digest = digests ! 1, kl_gate_package_digest = digests ! 2,
                   kl_stop_epoch = epoch, kl_fencing_token = token, kl_issued_at = i, kl_expires_at = x\<rparr>))))))"

text \<open>
  The closed-field check both \<^verbatim>\<open>from_mapping\<close> methods share: \<^verbatim>\<open>sorted\<close> of mixed key types and \<^verbatim>\<open>join\<close> of keys that are
  not strings raise \<^verbatim>\<open>TypeError\<close>, and the names go into the title of the fault.
\<close>

definition closed_fields :: "string list \<Rightarrow> string \<Rightarrow> string \<Rightarrow> (dkey \<times> pyval) list \<Rightarrow> unit res" where
  "closed_fields required reason kind kvs =
     (let present = map fst kvs;
          missing = sort (filter (\<lambda>f. KStr f \<notin> set present) (map lit required));
          additional = filter (\<lambda>k. k \<notin> set (map (KStr \<circ> lit) required)) present;
          title = (\<lambda>prefix names. lit (prefix @ kind @ '' fields: '') @ join_with (lit '', '') names) in
      if list_ex is_KStr additional \<and> \<not> list_all is_KStr additional then Inl (TypeError ''< not supported between instances'')
      else if missing \<noteq> [] then Inl (fault_with reason CORRELATION_ZERO None (title ''missing '' missing))
      else if additional \<noteq> [] then
        Inl (if list_all is_KStr additional
             then fault_with reason CORRELATION_ZERO None (title ''additional '' (sort (map key_text additional)))
             else TypeError ''sequence item: expected str instance'')
      else Inr ())"

text \<open>\<^verbatim>\<open>except (KeyError, TypeError, ValueError)\<close>\<close>

fun mapping_failure :: "exn \<Rightarrow> bool" where
  "mapping_failure (KeyError _) = True"
| "mapping_failure (TypeError _) = True"
| "mapping_failure e = is_ValueError e"

definition field_of :: "(dkey \<times> pyval) list \<Rightarrow> string \<Rightarrow> pyval" where
  "field_of kvs f = (case map_of kvs (KStr (lit f)) of None \<Rightarrow> PNone | Some x \<Rightarrow> x)"

definition lease_from_mapping :: "(dkey \<times> pyval) list \<Rightarrow> KernelLease res" where
  "lease_from_mapping kvs =
     (case closed_fields LEASE_FIELDS ''LEASE_INVALID'' ''lease'' kvs of Inl e \<Rightarrow> Inl e
      | Inr _ \<Rightarrow>
         let result =
           (case parse_utc_timestamp (field_of kvs ''issued_at'') of Inl e \<Rightarrow> Inl e
            | Inr i \<Rightarrow>
               (case parse_utc_timestamp (field_of kvs ''expires_at'') of Inl e \<Rightarrow> Inl e
                | Inr x \<Rightarrow> kernel_lease (field_of kvs) i x)) in
         case result of
           Inl e \<Rightarrow> Inl (if mapping_failure e then fault ''LEASE_INVALID'' CORRELATION_ZERO (''invalid lease: '' @ exn_message e) else e)
         | Inr l \<Rightarrow> Inr l)"

definition lease_entries :: "KernelLease \<Rightarrow> pystr \<Rightarrow> pystr \<Rightarrow> (string \<times> pyval) list" where
  "lease_entries l issued expires =
     [(''lease_id'', PStr (kl_lease_id l)), (''capability_id'', PStr (kl_capability_id l)),
      (''effective_principal_id'', PStr (kl_effective_principal_id l)), (''delegation_ref'', PStr (kl_delegation_ref l)),
      (''action_instance_id'', PStr (kl_action_instance_id l)),
      (''governed_context_digest'', PStr (kl_governed_context_digest l)),
      (''gate_package_digest'', PStr (kl_gate_package_digest l)), (''stop_epoch'', PInt (kl_stop_epoch l)),
      (''fencing_token'', PInt (kl_fencing_token l)), (''issued_at'', PStr issued), (''expires_at'', PStr expires)]"

definition lease_to_mapping :: "KernelLease \<Rightarrow> (string \<times> pyval) list res" where
  "lease_to_mapping l =
     (case format_utc_timestamp (kl_issued_at l) of Inl e \<Rightarrow> Inl e
      | Inr i \<Rightarrow>
         (case format_utc_timestamp (kl_expires_at l) of Inl e \<Rightarrow> Inl e | Inr x \<Rightarrow> Inr (lease_entries l i x)))"

record LeaseExpectation =
  le_capability_id :: pystr
  le_effective_principal_id :: pystr
  le_delegation_ref :: pystr
  le_action_instance_id :: pystr
  le_governed_context_digest :: pystr
  le_gate_package_digest :: pystr
  le_stop_epoch :: int
  le_fencing_token :: int
  le_emission_attempt :: int
  le_at :: datetime
  le_correlation_id :: pystr
  le_causation_id :: "pystr option"

definition lease_expectation ::
  "(string \<Rightarrow> pyval) \<Rightarrow> datetime \<Rightarrow> pyval \<Rightarrow> pyval \<Rightarrow> LeaseExpectation res" where
  "lease_expectation a at_time correlation causation =
     (case gov_strings [''capability_id'', ''effective_principal_id'', ''action_instance_id''] a CORRELATION_ZERO of
        Inl e \<Rightarrow> Inl e
      | Inr texts \<Rightarrow>
     (case gov_digests [''delegation_ref'', ''governed_context_digest'', ''gate_package_digest''] a CORRELATION_ZERO of
        Inl e \<Rightarrow> Inl e
      | Inr digests \<Rightarrow>
     (case (counter_at_least 0 (a ''stop_epoch''), counter_at_least 1 (a ''fencing_token''), counter_at_least 1 (a ''emission_attempt'')) of
        (Some epoch, Some token, Some attempt) \<Rightarrow>
     (case gov_aware ''at'' at_time CORRELATION_ZERO of Inl e \<Rightarrow> Inl e
      | Inr t \<Rightarrow>
     (case validate_correlation_id correlation of
        Inl e \<Rightarrow> Inl (fault ''LEASE_INVALID'' CORRELATION_ZERO (''lease observability binding invalid: '' @ exn_message e))
      | Inr corr \<Rightarrow>
     (case (if causation = PNone then Inr None
            else case validate_causation_id causation of Inl e \<Rightarrow> Inl e | Inr c \<Rightarrow> Inr (Some c)) of
        Inl e \<Rightarrow> Inl (fault ''LEASE_INVALID'' CORRELATION_ZERO (''lease observability binding invalid: '' @ exn_message e))
      | Inr caus \<Rightarrow>
         Inr \<lparr>le_capability_id = texts ! 0, le_effective_principal_id = texts ! 1, le_delegation_ref = digests ! 0,
              le_action_instance_id = texts ! 2, le_governed_context_digest = digests ! 1, le_gate_package_digest = digests ! 2,
              le_stop_epoch = epoch, le_fencing_token = token, le_emission_attempt = attempt, le_at = t,
              le_correlation_id = corr, le_causation_id = caus\<rparr>)))
      | _ \<Rightarrow> Inl (fault ''LEASE_INVALID'' CORRELATION_ZERO ''lease expectation counters invalid''))))"

section \<open>The trusted clock and the lease state\<close>

definition clock_init :: "datetime \<Rightarrow> datetime res" where
  "clock_init current = gov_aware ''current'' current CORRELATION_ZERO"

text \<open>The clock's state is its current instant.\<close>

definition clock_advance :: "timedelta \<Rightarrow> datetime \<Rightarrow> datetime res \<times> datetime" where
  "clock_advance delta current =
     (if delta < 0 then (Inl (ValueError ''clock delta must be a non-negative timedelta''), current)
      else case dt_add current delta of Inl e \<Rightarrow> (Inl e, current) | Inr t \<Rightarrow> (Inr t, t))"

datatype LeaseStateOutcome = CONSUMED | EXPIRED | REVOKED | STOP_EPOCH_MISMATCH | FENCING_TOKEN_STALE
  | ALREADY_CONSUMED | CONTROL_PLANE_UNAVAILABLE

record LeaseStateDecision =
  ls_outcome :: LeaseStateOutcome
  ls_evaluated_at :: "datetime option"

record InMemoryLeaseState =
  im_stop_epoch :: int
  im_fencing_tokens :: "(pystr, int) dict"
  im_revoked :: "pystr set"
  im_consumed :: "(pystr, pystr \<times> int) dict"

definition lease_state_init :: "pyval \<Rightarrow> (pystr, pyval) dict \<Rightarrow> pystr list \<Rightarrow> InMemoryLeaseState res" where
  "lease_state_init epoch tokens revoked =
     (case counter_at_least 0 epoch of
        None \<Rightarrow> Inl (ValueError ''stop_epoch must be a non-negative integer'')
      | Some ep \<Rightarrow>
         if list_ex (\<lambda>(k, t). k = [] \<or> counter_at_least 1 t = None) tokens
         then Inl (ValueError ''fencing tokens require action ids and positive integers'')
         else if [] \<in> set revoked then Inl (ValueError ''revoked lease ids must be a sequence of non-empty strings'')
         else Inr \<lparr>im_stop_epoch = ep, im_fencing_tokens = map (\<lambda>(k, t). (k, the (counter_at_least 1 t))) tokens,
                   im_revoked = set revoked, im_consumed = []\<rparr>)"

definition set_stop_epoch :: "pyval \<Rightarrow> InMemoryLeaseState \<Rightarrow> unit res \<times> InMemoryLeaseState" where
  "set_stop_epoch v s =
     (case v of
        PInt ep \<Rightarrow>
          if ep < im_stop_epoch s then (Inl (ValueError ''stop_epoch cannot move backwards''), s)
          else (Inr (), s\<lparr>im_stop_epoch := ep\<rparr>)
      | _ \<Rightarrow> (Inl (TypeError ''stop_epoch must be an integer''), s))"

definition set_fencing_token :: "pystr \<Rightarrow> pyval \<Rightarrow> InMemoryLeaseState \<Rightarrow> unit res \<times> InMemoryLeaseState" where
  "set_fencing_token i v s =
     (case (i, counter_at_least 1 v) of
        (_ # _, Some token) \<Rightarrow>
          if (case dict_get (im_fencing_tokens s) i of None \<Rightarrow> False | Some current \<Rightarrow> token < current)
          then (Inl (ValueError ''fencing token cannot move backwards''), s)
          else (Inr (), s\<lparr>im_fencing_tokens := dict_set i token (im_fencing_tokens s)\<rparr>)
      | _ \<Rightarrow> (Inl (ValueError ''a valid action id and positive fencing token are required''), s))"

definition lease_state_revoke :: "pystr \<Rightarrow> InMemoryLeaseState \<Rightarrow> unit res \<times> InMemoryLeaseState" where
  "lease_state_revoke i s =
     (if i = [] then (Inl (ValueError ''lease_id must be non-empty''), s)
      else (Inr (), s\<lparr>im_revoked := insert i (im_revoked s)\<rparr>))"

text \<open>The exceptions \<^verbatim>\<open>consume_if_current\<close> turns into an unavailable control plane; \<^verbatim>\<open>OSError\<close> covers the permission errors.\<close>

fun clock_failure :: "exn \<Rightarrow> bool" where
  "clock_failure (TypeError _) = True"
| "clock_failure (RuntimeError _) = True"
| "clock_failure RecursionError = True"
| "clock_failure (BackboneError _) = True"
| "clock_failure (KafkaBackboneError _) = True"
| "clock_failure (OperationsError _) = True"
| "clock_failure (GovernanceFault _ _ _) = True"
| "clock_failure SingleWriterViolation = True"
| "clock_failure (AuthorizationError _) = True"
| "clock_failure (StopEpochDenied _) = True"
| "clock_failure IdentityRegistrationDenied = True"
| "clock_failure (SandboxViolation _) = True"
| "clock_failure e = is_ValueError e"

record ConsumeCall =
  cc_lease_id :: pystr
  cc_action_instance_id :: pystr
  cc_stop_epoch :: int
  cc_fencing_token :: int
  cc_emission_attempt :: int
  cc_issued_at :: datetime
  cc_expires_at :: datetime

text \<open>The clock's answer, an instant or an exception, is an argument.\<close>

definition consume_if_current ::
  "datetime res \<Rightarrow> ConsumeCall \<Rightarrow> InMemoryLeaseState \<Rightarrow> LeaseStateDecision res \<times> InMemoryLeaseState" where
  "consume_if_current reading c s =
     (case (case reading of Inl e \<Rightarrow> Inl e | Inr t \<Rightarrow> gov_aware ''authoritative now'' t CORRELATION_ZERO) of
        Inl e \<Rightarrow>
          if clock_failure e then (Inr \<lparr>ls_outcome = CONTROL_PLANE_UNAVAILABLE, ls_evaluated_at = None\<rparr>, s) else (Inl e, s)
      | Inr now \<Rightarrow>
         let answer = (\<lambda>o'. Inr \<lparr>ls_outcome = o', ls_evaluated_at = Some now\<rparr>) in
         if dt_lt now (cc_issued_at c) \<or> dt_le (cc_expires_at c) now then (answer EXPIRED, s)
         else if cc_lease_id c \<in> im_revoked s then (answer REVOKED, s)
         else if cc_stop_epoch c \<noteq> im_stop_epoch s then (answer STOP_EPOCH_MISMATCH, s)
         else if dict_get (im_fencing_tokens s) (cc_action_instance_id c) \<noteq> Some (cc_fencing_token c) then (answer FENCING_TOKEN_STALE, s)
         else if dict_get (im_consumed s) (cc_lease_id c) \<noteq> None then (answer ALREADY_CONSUMED, s)
         else (answer CONSUMED, s\<lparr>im_consumed := dict_set (cc_lease_id c) (cc_action_instance_id c, cc_emission_attempt c) (im_consumed s)\<rparr>))"

definition consumption :: "pystr \<Rightarrow> InMemoryLeaseState \<Rightarrow> (pystr \<times> int) option" where
  "consumption i s = dict_get (im_consumed s) i"

section \<open>The ledger\<close>

record LeaseConsumptionReceipt =
  lr_consumption_key :: "pystr \<times> pystr \<times> int"
  lr_governed_context_digest :: pystr
  lr_consumed_at :: datetime

definition lease_bindings :: "KernelLease \<Rightarrow> pystr list" where
  "lease_bindings l = [kl_capability_id l, kl_effective_principal_id l, kl_delegation_ref l, kl_action_instance_id l,
     kl_governed_context_digest l, kl_gate_package_digest l]"

definition expected_bindings :: "LeaseExpectation \<Rightarrow> pystr list" where
  "expected_bindings x = [le_capability_id x, le_effective_principal_id x, le_delegation_ref x, le_action_instance_id x,
     le_governed_context_digest x, le_gate_package_digest x]"

text \<open>What follows the port's answer; \<open>None\<close> is an answer that is not a \<^verbatim>\<open>LeaseStateDecision\<close>.\<close>

definition receipt_of ::
  "KernelLease \<Rightarrow> LeaseExpectation \<Rightarrow> LeaseStateDecision option res \<Rightarrow> LeaseConsumptionReceipt res" where
  "receipt_of l x answer =
     (let flt = (\<lambda>reason title. Inl (fault_with reason (le_correlation_id x) (le_causation_id x) (lit title))) in
      case answer of
        Inl _ \<Rightarrow> flt ''CONTROL_PLANE_UNAVAILABLE'' ''authoritative lease state is unavailable''
      | Inr None \<Rightarrow> flt ''CONTROL_PLANE_UNAVAILABLE'' ''authoritative lease state returned an invalid result''
      | Inr (Some d) \<Rightarrow>
         (case ls_outcome d of
            CONTROL_PLANE_UNAVAILABLE \<Rightarrow> flt ''CONTROL_PLANE_UNAVAILABLE'' ''trusted clock is unavailable''
          | EXPIRED \<Rightarrow> flt ''LEASE_EXPIRED'' ''lease is outside its time window''
          | REVOKED \<Rightarrow> flt ''LEASE_REVOKED'' ''lease is revoked''
          | STOP_EPOCH_MISMATCH \<Rightarrow> flt ''STOP_EPOCH_MISMATCH'' ''lease stop epoch is not current''
          | FENCING_TOKEN_STALE \<Rightarrow> flt ''FENCING_TOKEN_STALE'' ''lease fencing token is stale''
          | ALREADY_CONSUMED \<Rightarrow> flt ''LEASE_ALREADY_CONSUMED'' ''lease was already consumed''
          | CONSUMED \<Rightarrow>
             (case ls_evaluated_at d of
                None \<Rightarrow> flt ''CONTROL_PLANE_UNAVAILABLE'' ''authoritative lease state omitted its evaluation time''
              | Some t \<Rightarrow>
                  if \<not> dt_aware t then flt ''CONTROL_PLANE_UNAVAILABLE'' ''authoritative lease state returned an invalid evaluation time''
                  else if dt_lt t (kl_issued_at l) \<or> dt_le (kl_expires_at l) t
                  then flt ''CONTROL_PLANE_UNAVAILABLE'' ''authoritative lease state returned a contradictory evaluation time''
                  else Inr \<lparr>lr_consumption_key = (kl_lease_id l, kl_action_instance_id l, le_emission_attempt x),
                            lr_governed_context_digest = kl_governed_context_digest l, lr_consumed_at = t\<rparr>)))"

type_synonym 's lease_port = "datetime res \<Rightarrow> ConsumeCall \<Rightarrow> 's \<Rightarrow> LeaseStateDecision option res \<times> 's"

definition ledger_consume ::
  "'s lease_port \<Rightarrow> datetime res option \<Rightarrow> KernelLease \<Rightarrow> LeaseExpectation \<Rightarrow> bool \<Rightarrow> bool \<Rightarrow> 's option \<Rightarrow>
     LeaseConsumptionReceipt res \<times> 's option" where
  "ledger_consume port clock l x signature_verified revoked state =
     (let flt = (\<lambda>reason title. (Inl (fault_with reason (le_correlation_id x) (le_causation_id x) (lit title)), state)) in
      case (clock, state) of
        (Some reading, Some s) \<Rightarrow>
          if \<not> signature_verified then flt ''LEASE_INVALID'' ''lease signature is not verified''
          else if revoked then flt ''LEASE_REVOKED'' ''lease is revoked''
          else if lease_bindings l \<noteq> expected_bindings x
          then flt ''LEASE_CONTEXT_MISMATCH'' ''lease principal, scope, action, GCS, delegation, or gate binding differs''
          else if kl_stop_epoch l \<noteq> le_stop_epoch x then flt ''STOP_EPOCH_MISMATCH'' ''lease stop epoch differs''
          else if kl_fencing_token l \<noteq> le_fencing_token x then flt ''FENCING_TOKEN_STALE'' ''lease fencing token is stale''
          else (case port reading \<lparr>cc_lease_id = kl_lease_id l, cc_action_instance_id = kl_action_instance_id l,
                      cc_stop_epoch = kl_stop_epoch l, cc_fencing_token = kl_fencing_token l,
                      cc_emission_attempt = le_emission_attempt x, cc_issued_at = kl_issued_at l, cc_expires_at = kl_expires_at l\<rparr> s of
                  (answer, s') \<Rightarrow> (receipt_of l x answer, Some s'))
      | _ \<Rightarrow> flt ''CONTROL_PLANE_UNAVAILABLE'' ''trusted clock and authoritative lease state are required'')"

text \<open>The in-memory adapter as a port.\<close>

definition in_memory_port :: "InMemoryLeaseState lease_port" where
  "in_memory_port reading c s =
     (case consume_if_current reading c s of (Inl e, s') \<Rightarrow> (Inl e, s') | (Inr d, s') \<Rightarrow> (Inr (Some d), s'))"

section \<open>Evidence and provenance\<close>

record EvidenceRecord =
  ev_evidence_id :: pystr
  ev_content_digest :: pystr
  ev_source_ref :: pystr
  ev_acquired_at :: datetime
  ev_acquirer_principal_id :: pystr
  ev_method_ref :: pystr
  ev_chain_of_custody :: "pystr list"
  ev_marking_ref :: pystr
  ev_retention_until :: datetime

definition evidence_record :: "(string \<Rightarrow> pyval) \<Rightarrow> datetime \<Rightarrow> datetime \<Rightarrow> EvidenceRecord res" where
  "evidence_record a acquired_at retention_until =
     (case gov_strings [''evidence_id'', ''source_ref'', ''acquirer_principal_id'', ''method_ref''] a CORRELATION_ZERO of
        Inl e \<Rightarrow> Inl e
      | Inr texts \<Rightarrow>
     (case gov_digests [''content_digest'', ''marking_ref''] a CORRELATION_ZERO of Inl e \<Rightarrow> Inl e
      | Inr digests \<Rightarrow>
     (case gov_refs ''chain_of_custody'' (a ''chain_of_custody'') CORRELATION_ZERO of Inl e \<Rightarrow> Inl e
      | Inr chain \<Rightarrow>
     (case gov_aware ''acquired_at'' acquired_at CORRELATION_ZERO of Inl e \<Rightarrow> Inl e
      | Inr t \<Rightarrow>
     (case gov_aware ''retention_until'' retention_until CORRELATION_ZERO of Inl e \<Rightarrow> Inl e
      | Inr r \<Rightarrow>
         if dt_le r t then Inl (fault ''EVIDENCE_INVALID'' CORRELATION_ZERO ''evidence retention has expired'')
         else Inr \<lparr>ev_evidence_id = texts ! 0, ev_content_digest = digests ! 0, ev_source_ref = texts ! 1, ev_acquired_at = t,
                   ev_acquirer_principal_id = texts ! 2, ev_method_ref = texts ! 3, ev_chain_of_custody = chain,
                   ev_marking_ref = digests ! 1, ev_retention_until = r\<rparr>)))))"

definition evidence_to_mapping :: "EvidenceRecord \<Rightarrow> pyval res" where
  "evidence_to_mapping v =
     (case format_utc_timestamp (ev_acquired_at v) of Inl e \<Rightarrow> Inl e
      | Inr t \<Rightarrow>
         (case format_utc_timestamp (ev_retention_until v) of Inl e \<Rightarrow> Inl e
          | Inr r \<Rightarrow>
             Inr (obj [(''evidence_id'', PStr (ev_evidence_id v)), (''content_digest'', PStr (ev_content_digest v)),
               (''source_ref'', PStr (ev_source_ref v)), (''acquired_at'', PStr t),
               (''acquirer_principal_id'', PStr (ev_acquirer_principal_id v)), (''method_ref'', PStr (ev_method_ref v)),
               (''chain_of_custody'', PList (map PStr (ev_chain_of_custody v))), (''marking_ref'', PStr (ev_marking_ref v)),
               (''retention_until'', PStr r)])))"

definition evidence_digest :: "EvidenceRecord \<Rightarrow> pystr res" where
  "evidence_digest v = (case evidence_to_mapping v of Inl e \<Rightarrow> Inl e | Inr m \<Rightarrow> canonical_digest m)"

record ProvenanceRecord =
  pr_provenance_id :: pystr
  pr_evidence_refs :: "pystr list"
  pr_source_refs :: "pystr list"
  pr_activity_refs :: "pystr list"
  pr_actor_refs :: "pystr list"
  pr_governed_context_digest :: pystr
  pr_correlation_id :: pystr
  pr_causation_id :: pystr
  pr_created_at :: datetime

definition PROVENANCE_FIELDS :: "string list" where
  "PROVENANCE_FIELDS = [''provenance_id'', ''evidence_refs'', ''source_refs'', ''activity_refs'', ''actor_refs'',
     ''governed_context_digest'', ''correlation_id'', ''causation_id'', ''created_at'']"

text \<open>The titles of the two checks whose fault is raised again as an incomplete provenance.\<close>

definition provenance_checks :: "(string \<Rightarrow> pyval) \<Rightarrow> datetime \<Rightarrow> pystr \<Rightarrow> (pystr \<times> datetime) res" where
  "provenance_checks a created_at correlation =
     (case gov_digest ''governed_context_digest'' (a ''governed_context_digest'') correlation of
        Inl e \<Rightarrow> Inl (fault ''PROVENANCE_INCOMPLETE'' correlation
                    (if (case a ''governed_context_digest'' of PStr s \<Rightarrow> s = [] | _ \<Rightarrow> True)
                     then ''governed_context_digest is required'' else ''governed_context_digest is not a SHA-256 URN''))
      | Inr d \<Rightarrow>
         (case gov_aware ''created_at'' created_at correlation of
            Inl e \<Rightarrow> Inl (fault ''PROVENANCE_INCOMPLETE'' correlation ''created_at must be aware UTC'')
          | Inr t \<Rightarrow> Inr (d, t)))"

definition provenance_record :: "(string \<Rightarrow> pyval) \<Rightarrow> datetime \<Rightarrow> ProvenanceRecord res" where
  "provenance_record a created_at =
     (case (case validate_correlation_id (a ''correlation_id'') of Inl e \<Rightarrow> Inl e
            | Inr c \<Rightarrow> (case validate_causation_id (a ''causation_id'') of Inl e \<Rightarrow> Inl e | Inr d \<Rightarrow> Inr (c, d))) of
        Inl e \<Rightarrow> Inl (fault ''PROVENANCE_INCOMPLETE'' CORRELATION_ZERO (''causal binding invalid: '' @ exn_message e))
      | Inr (correlation, causation) \<Rightarrow>
     (case gov_string ''provenance_id'' (a ''provenance_id'') correlation of Inl e \<Rightarrow> Inl e
      | Inr pid \<Rightarrow>
     (case gov_ref_lists [''evidence_refs'', ''source_refs'', ''activity_refs'', ''actor_refs''] a correlation of Inl e \<Rightarrow> Inl e
      | Inr refs \<Rightarrow>
     (case provenance_checks a created_at correlation of Inl e \<Rightarrow> Inl e
      | Inr (d, t) \<Rightarrow>
         Inr \<lparr>pr_provenance_id = pid, pr_evidence_refs = refs ! 0, pr_source_refs = refs ! 1, pr_activity_refs = refs ! 2,
              pr_actor_refs = refs ! 3, pr_governed_context_digest = d, pr_correlation_id = correlation,
              pr_causation_id = causation, pr_created_at = t\<rparr>))))"

definition provenance_from_mapping :: "pyval \<Rightarrow> ProvenanceRecord res" where
  "provenance_from_mapping v =
     (case v of
        PDict kvs \<Rightarrow>
          (case closed_fields PROVENANCE_FIELDS ''PROVENANCE_INCOMPLETE'' ''provenance'' kvs of Inl e \<Rightarrow> Inl e
           | Inr _ \<Rightarrow>
              (case (case parse_utc_timestamp (field_of kvs ''created_at'') of Inl e \<Rightarrow> Inl e
                     | Inr t \<Rightarrow> provenance_record (field_of kvs) t) of
                 Inl e \<Rightarrow>
                   Inl (if mapping_failure e
                        then fault ''PROVENANCE_INCOMPLETE'' CORRELATION_ZERO (''invalid provenance: '' @ exn_message e) else e)
               | Inr p \<Rightarrow> Inr p))
      | _ \<Rightarrow> Inl (fault ''PROVENANCE_INCOMPLETE'' CORRELATION_ZERO ''ProvenanceRecord must be an object''))"

definition provenance_entries :: "ProvenanceRecord \<Rightarrow> pystr \<Rightarrow> (string \<times> pyval) list" where
  "provenance_entries p created =
     [(''provenance_id'', PStr (pr_provenance_id p)), (''evidence_refs'', PList (map PStr (pr_evidence_refs p))),
      (''source_refs'', PList (map PStr (pr_source_refs p))), (''activity_refs'', PList (map PStr (pr_activity_refs p))),
      (''actor_refs'', PList (map PStr (pr_actor_refs p))),
      (''governed_context_digest'', PStr (pr_governed_context_digest p)), (''correlation_id'', PStr (pr_correlation_id p)),
      (''causation_id'', PStr (pr_causation_id p)), (''created_at'', PStr created)]"

definition provenance_to_mapping :: "ProvenanceRecord \<Rightarrow> pyval res" where
  "provenance_to_mapping p =
     (case format_utc_timestamp (pr_created_at p) of Inl e \<Rightarrow> Inl e | Inr t \<Rightarrow> Inr (obj (provenance_entries p t)))"

definition provenance_digest :: "ProvenanceRecord \<Rightarrow> pystr res" where
  "provenance_digest p = (case provenance_to_mapping p of Inl e \<Rightarrow> Inl e | Inr m \<Rightarrow> canonical_digest m)"

section \<open>Faults are what they say\<close>

lemma utf8_ascii_length: "list_all (\<lambda>c. c < 128) t \<Longrightarrow> length (utf8 t) = length t"
  by (induction t) (auto simp: utf8_def utf8_char_def)

lemma title_ok_lit:
  assumes "s \<noteq> []" "list_all (\<lambda>c. 32 \<le> c \<and> c < 128) (lit s)" "length s \<le> 256"
  shows "title_ok (lit s)"
proof -
  have "list_all (\<lambda>c. c < 128) (lit s)" using assms(2) by (auto simp: list_all_iff)
  then show ?thesis using assms by (auto simp: title_ok_def utf8_ascii_length list_all_iff list_ex_iff is_surrogate_def)
qed

definition valid_trace :: "pystr \<Rightarrow> pystr option \<Rightarrow> bool" where
  "valid_trace corr caus \<longleftrightarrow> is_ok (validate_correlation_id (PStr corr))
     \<and> (\<forall>c. caus = Some c \<longrightarrow> is_ok (validate_causation_id (PStr c)))"

lemma fault_with_ok:
  assumes "dict_get REASON_FAILURE_CLASSES reason = Some cls" "title_ok t" "valid_trace corr caus"
  shows "fault_with reason corr caus t = GovernanceFault reason corr caus"
  using assms by (auto simp: fault_with_def governance_fault_def valid_trace_def is_ok_iff split: option.splits)

section \<open>Authority decisions\<close>

definition authority_grants :: "Authority \<Rightarrow> AuthorityRequest \<Rightarrow> bool \<Rightarrow> bool \<Rightarrow> VerifiedAuthorityBinding option \<Rightarrow> bool" where
  "authority_grants au rq sig revoked b \<longleftrightarrow>
     sig \<and> \<not> revoked \<and> au_signature_ref au \<noteq> []
     \<and> (\<exists>x. b = Some x \<and> va_delegation_ref x = au_delegation_ref au \<and> va_expected_context x = rq_governed_context rq)
     \<and> dt_le (au_not_before au) (rq_at rq) \<and> dt_lt (rq_at rq) (au_expires_at au)
     \<and> effective_principal_id (rq_governed_context rq) = au_effective_principal_id au
     \<and> rq_capability_id rq \<in> set (au_capability_ids au) \<and> rq_resource_scope rq \<in> set (au_resource_scopes au)
     \<and> tenant_id (rq_governed_context rq) = au_tenant_id au \<and> domain_id (rq_governed_context rq) \<in> set (au_domains au)
     \<and> set (compartments (rq_governed_context rq)) \<subseteq> set (au_compartments au)
     \<and> purpose (rq_governed_context rq) \<in> set (au_permitted_purposes au)
     \<and> risk_value (rq_risk_class rq) \<le> risk_value (au_risk_ceiling au)
     \<and> policy_bundle_digest (rq_governed_context rq) = au_policy_bundle_digest au"

lemma authority_grants_scope:
  "authority_grants au rq sig revoked b \<longleftrightarrow>
     sig \<and> \<not> revoked \<and> au_signature_ref au \<noteq> []
     \<and> (\<exists>x. b = Some x \<and> va_delegation_ref x = au_delegation_ref au \<and> va_expected_context x = rq_governed_context rq)
     \<and> dt_le (au_not_before au) (rq_at rq) \<and> dt_lt (rq_at rq) (au_expires_at au) \<and> authority_in_scope au rq"
  unfolding authority_grants_def authority_in_scope_def Let_def by (rule refl)

lemma validate_authority_grant:
  assumes "authority_grants au rq sig revoked b"
  shows "validate_authority au rq sig revoked b =
    (case context_digest (rq_governed_context rq) of Inl e \<Rightarrow> Inl e
     | Inr d \<Rightarrow> Inr \<lparr>ad_authority_id = au_authority_id au, ad_governed_context_digest = d,
         ad_purpose = purpose (rq_governed_context rq), ad_valid_until = au_expires_at au\<rparr>)"
  using assms by (auto simp: validate_authority_def authority_grants_scope Let_def)

lemma validate_authority_deny:
  assumes "\<not> authority_grants au rq sig revoked b"
  shows "\<exists>reason title. validate_authority au rq sig revoked b =
      Inl (fault_with reason (gc_correlation_id (rq_governed_context rq)) (rq_causation_id rq) (lit title))
    \<and> dict_get REASON_FAILURE_CLASSES reason \<in> {Some POLICY_DENIED, Some PERMANENT} \<and> title_ok (lit title)"
proof -
  have titles: "title_ok (lit ''Authority signature is not verified'')" "title_ok (lit ''Authority is revoked'')"
    "title_ok (lit ''Authority delegation or verified GovernedContext binding differs'')" "title_ok (lit ''Authority is not yet valid'')"
    "title_ok (lit ''Authority is expired'')"
    "title_ok (lit ''Authority does not contain the requested scope, purpose, risk, or binding'')"
    by (rule title_ok_lit; simp add: lit_def)+
  have classes: "dict_get REASON_FAILURE_CLASSES ''AUTHORITY_UNSIGNED'' = Some PERMANENT"
    "dict_get REASON_FAILURE_CLASSES ''AUTHORITY_REVOKED'' = Some POLICY_DENIED"
    "dict_get REASON_FAILURE_CLASSES ''AUTHORITY_BINDING_MISMATCH'' = Some POLICY_DENIED"
    "dict_get REASON_FAILURE_CLASSES ''AUTHORITY_NOT_YET_VALID'' = Some POLICY_DENIED"
    "dict_get REASON_FAILURE_CLASSES ''AUTHORITY_EXPIRED'' = Some POLICY_DENIED"
    "dict_get REASON_FAILURE_CLASSES ''AUTHORITY_SCOPE_MISMATCH'' = Some POLICY_DENIED"
    by (simp_all add: REASON_FAILURE_CLASSES_def)
  let ?deny = "\<lambda>reason title. Inl (fault_with reason (gc_correlation_id (rq_governed_context rq)) (rq_causation_id rq) (lit title)) :: AuthorityDecision res"
  let ?v = "validate_authority au rq sig revoked b"
  have deny: ?thesis if "?v = ?deny reason title" "dict_get REASON_FAILURE_CLASSES reason \<in> {Some POLICY_DENIED, Some PERMANENT}"
    "title_ok (lit title)" for reason title using that by blast
  let ?unbound = "case b of None \<Rightarrow> True | Some x \<Rightarrow> au_delegation_ref au \<noteq> va_delegation_ref x
    \<or> rq_governed_context rq \<noteq> va_expected_context x \<or> actor_chain (rq_governed_context rq) \<noteq> actor_chain (va_expected_context x)"
  have bound: "\<exists>x. b = Some x \<and> va_delegation_ref x = au_delegation_ref au \<and> va_expected_context x = rq_governed_context rq" if "\<not> ?unbound"
    using that by (cases b) auto
  show ?thesis
  proof (cases "\<not> sig \<or> au_signature_ref au = []")
    case True
    then have "?v = ?deny ''AUTHORITY_UNSIGNED'' ''Authority signature is not verified''" by (simp only: validate_authority_def Let_def if_True)
    then show ?thesis by (rule deny) (simp_all add: titles classes)
  next
    case signed: False
    show ?thesis
    proof (cases revoked)
      case True
      with signed have "?v = ?deny ''AUTHORITY_REVOKED'' ''Authority is revoked''" by (simp only: validate_authority_def Let_def if_True if_False simp_thms)
      then show ?thesis by (rule deny) (simp_all add: titles classes)
    next
      case live: False
      show ?thesis
      proof (cases ?unbound)
        case True
        with signed live have "?v = ?deny ''AUTHORITY_BINDING_MISMATCH'' ''Authority delegation or verified GovernedContext binding differs''"
          by (simp only: validate_authority_def Let_def if_True if_False simp_thms)
        then show ?thesis by (rule deny) (simp_all add: titles classes)
      next
        case False
        note b = bound [OF False]
        have "?v = (if dt_lt (rq_at rq) (au_not_before au) then ?deny ''AUTHORITY_NOT_YET_VALID'' ''Authority is not yet valid''
            else if dt_le (au_expires_at au) (rq_at rq) then ?deny ''AUTHORITY_EXPIRED'' ''Authority is expired''
            else ?deny ''AUTHORITY_SCOPE_MISMATCH'' ''Authority does not contain the requested scope, purpose, risk, or binding'')"
          using signed live False b assms unfolding validate_authority_def authority_grants_scope Let_def by auto
        then show ?thesis
          using deny [of "''AUTHORITY_NOT_YET_VALID''" "''Authority is not yet valid''"] deny [of "''AUTHORITY_EXPIRED''" "''Authority is expired''"]
            deny [of "''AUTHORITY_SCOPE_MISMATCH''" "''Authority does not contain the requested scope, purpose, risk, or binding''"]
          by (simp add: titles classes split: if_splits)
      qed
    qed
  qed
qed

section \<open>One-shot consumption\<close>

text \<open>
  Runs of a ledger over a port: calls of \<^verbatim>\<open>consume\<close>, whatever they return, and steps of whoever
  administers the state; the receipts handed out are kept in order.
\<close>

inductive ledger_step ::
  "'s lease_port \<Rightarrow> ('s \<Rightarrow> 's \<Rightarrow> bool) \<Rightarrow> 's \<times> LeaseConsumptionReceipt list \<Rightarrow> 's \<times> LeaseConsumptionReceipt list \<Rightarrow> bool"
  for port admin where
  consumed: "ledger_consume port (Some reading) l x sig revoked (Some s) = (Inr rc, Some s') \<Longrightarrow>
    ledger_step port admin (s, rcs) (s', rcs @ [rc])"
| refused: "ledger_consume port (Some reading) l x sig revoked (Some s) = (Inl e, Some s') \<Longrightarrow>
    ledger_step port admin (s, rcs) (s', rcs)"
| administered: "admin s s' \<Longrightarrow> ledger_step port admin (s, rcs) (s', rcs)"

inductive_cases ledger_stepE: "ledger_step port admin st st'"

abbreviation receipt_lease :: "LeaseConsumptionReceipt \<Rightarrow> pystr" where
  "receipt_lease rc \<equiv> fst (lr_consumption_key rc)"

lemma receipt_of_ok:
  assumes "receipt_of l x answer = Inr rc"
  obtains d t where "answer = Inr (Some d)" "ls_outcome d = CONSUMED" "ls_evaluated_at d = Some t" "dt_aware t"
    "dt_le (kl_issued_at l) t" "dt_lt t (kl_expires_at l)"
    "rc = \<lparr>lr_consumption_key = (kl_lease_id l, kl_action_instance_id l, le_emission_attempt x),
           lr_governed_context_digest = kl_governed_context_digest l, lr_consumed_at = t\<rparr>"
  using assms
  by (auto simp: receipt_of_def Let_def not_less not_le split: sum.splits option.splits LeaseStateOutcome.splits if_splits)

definition lease_call :: "KernelLease \<Rightarrow> LeaseExpectation \<Rightarrow> ConsumeCall" where
  "lease_call l x = \<lparr>cc_lease_id = kl_lease_id l, cc_action_instance_id = kl_action_instance_id l,
     cc_stop_epoch = kl_stop_epoch l, cc_fencing_token = kl_fencing_token l,
     cc_emission_attempt = le_emission_attempt x, cc_issued_at = kl_issued_at l, cc_expires_at = kl_expires_at l\<rparr>"

lemma ledger_consume_cases:
  assumes "ledger_consume port (Some reading) l x sig revoked (Some s) = (r, Some s')"
  obtains (blocked) e where "r = Inl e" "s' = s"
  | (asked) answer where "sig" "\<not> revoked" "lease_bindings l = expected_bindings x" "kl_stop_epoch l = le_stop_epoch x"
      "kl_fencing_token l = le_fencing_token x" "port reading (lease_call l x) s = (answer, s')" "r = receipt_of l x answer"
  using assms by (auto simp: ledger_consume_def lease_call_def Let_def split: if_splits prod.splits)

text \<open>
  The contract of a lease-state port: an answer \<^verbatim>\<open>CONSUMED\<close> is given only for a lease not spent before and
  spends it, and nothing makes a spent lease unspent.
\<close>

locale lease_state_port =
  fixes port :: "'s lease_port"
    and spent :: "'s \<Rightarrow> pystr set"
    and admin :: "'s \<Rightarrow> 's \<Rightarrow> bool"
  assumes port_consumes: "port reading c s = (Inr (Some d), s') \<Longrightarrow> ls_outcome d = CONSUMED \<Longrightarrow>
      cc_lease_id c \<notin> spent s \<and> cc_lease_id c \<in> spent s'"
    and port_mono: "port reading c s = (answer, s') \<Longrightarrow> spent s \<subseteq> spent s'"
    and admin_mono: "admin s s' \<Longrightarrow> spent s \<subseteq> spent s'"
begin

definition once :: "'s \<times> LeaseConsumptionReceipt list \<Rightarrow> bool" where
  "once st \<longleftrightarrow> distinct (map receipt_lease (snd st)) \<and> set (map receipt_lease (snd st)) \<subseteq> spent (fst st)"

lemma once_step: "ledger_step port admin st st' \<Longrightarrow> once st \<Longrightarrow> once st'"
proof (induction rule: ledger_step.induct)
  case (consumed reading l x sig revoked s rc s' rcs)
  from consumed(1) show ?case
  proof (cases rule: ledger_consume_cases)
    case (asked answer)
    from asked(7) [symmetric] obtain d where d: "answer = Inr (Some d)" "ls_outcome d = CONSUMED" "receipt_lease rc = kl_lease_id l"
      by (rule receipt_of_ok) auto
    have "kl_lease_id l \<notin> spent s" "kl_lease_id l \<in> spent s'" "spent s \<subseteq> spent s'"
      using port_consumes [OF asked(6) [unfolded d(1)] d(2)] port_mono [OF asked(6)] by (simp_all add: lease_call_def)
    with consumed(2) d(3) show ?thesis by (auto simp: once_def)
  qed simp
next
  case (refused reading l x sig revoked s e s' rcs)
  from refused(1) have "spent s \<subseteq> spent s'"
    by (cases rule: ledger_consume_cases) (auto dest: port_mono)
  with refused(2) show ?case by (auto simp: once_def)
next
  case (administered s s' rcs)
  with admin_mono show ?case by (force simp: once_def)
qed

lemma once_run: "(ledger_step port admin)\<^sup>*\<^sup>* (s, []) st \<Longrightarrow> once st"
proof (induction rule: rtranclp_induct)
  case base
  show ?case by (simp add: once_def)
next
  case (step y z)
  then show ?case using once_step by blast
qed

end

text \<open>The in-memory adapter and its administration.\<close>

inductive lease_admin :: "InMemoryLeaseState \<Rightarrow> InMemoryLeaseState \<Rightarrow> bool" where
  epoch: "set_stop_epoch v s = (r, s') \<Longrightarrow> lease_admin s s'"
| token: "set_fencing_token i v s = (r, s') \<Longrightarrow> lease_admin s s'"
| revocation: "lease_state_revoke i s = (r, s') \<Longrightarrow> lease_admin s s'"

inductive_cases lease_adminE: "lease_admin s s'"

lemma consume_if_current_cases:
  assumes "consume_if_current reading c s = (r, s')"
  obtains (kept) "s' = s" "\<And>d. r = Inr d \<Longrightarrow> ls_outcome d \<noteq> CONSUMED"
  | (consumed) now where "reading = Inr now" "dt_aware now" "dt_le (cc_issued_at c) now" "dt_lt now (cc_expires_at c)"
      "cc_lease_id c \<notin> im_revoked s" "cc_stop_epoch c = im_stop_epoch s"
      "dict_get (im_fencing_tokens s) (cc_action_instance_id c) = Some (cc_fencing_token c)"
      "dict_get (im_consumed s) (cc_lease_id c) = None" "r = Inr \<lparr>ls_outcome = CONSUMED, ls_evaluated_at = Some now\<rparr>"
      "s' = s\<lparr>im_consumed := dict_set (cc_lease_id c) (cc_action_instance_id c, cc_emission_attempt c) (im_consumed s)\<rparr>"
proof (cases "\<exists>now. reading = Inr now \<and> dt_aware now")
  case True
  then obtain now where now: "reading = Inr now" "dt_aware now" by blast
  show ?thesis
  proof (cases "dt_lt now (cc_issued_at c) \<or> dt_le (cc_expires_at c) now \<or> cc_lease_id c \<in> im_revoked s \<or> cc_stop_epoch c \<noteq> im_stop_epoch s
      \<or> dict_get (im_fencing_tokens s) (cc_action_instance_id c) \<noteq> Some (cc_fencing_token c) \<or> dict_get (im_consumed s) (cc_lease_id c) \<noteq> None")
    case True
    with now assms have "s' = s \<and> (\<forall>d. r = Inr d \<longrightarrow> ls_outcome d \<noteq> CONSUMED)"
      by (auto simp: consume_if_current_def gov_aware_def Let_def split: if_splits)
    with kept show ?thesis by blast
  next
    case False
    with now assms have "r = Inr \<lparr>ls_outcome = CONSUMED, ls_evaluated_at = Some now\<rparr>"
      "s' = s\<lparr>im_consumed := dict_set (cc_lease_id c) (cc_action_instance_id c, cc_emission_attempt c) (im_consumed s)\<rparr>"
      by (simp_all add: consume_if_current_def gov_aware_def Let_def)
    moreover have "dict_get (im_consumed s) (cc_lease_id c) = None" using False by blast
    ultimately show ?thesis using False now by (intro consumed [of now]) (simp_all add: not_less not_le)
  qed
next
  case False
  with assms have "s' = s \<and> (\<forall>d. r = Inr d \<longrightarrow> ls_outcome d \<noteq> CONSUMED)"
    by (auto simp: consume_if_current_def gov_aware_def Let_def split: sum.splits if_splits)
  with kept show ?thesis by blast
qed

lemma in_memory_port_cases:
  assumes "in_memory_port reading c s = (answer, s')"
  obtains (kept) "s' = s" "\<And>d. answer = Inr (Some d) \<Longrightarrow> ls_outcome d \<noteq> CONSUMED"
  | (consumed) now where "reading = Inr now" "dt_aware now" "dt_le (cc_issued_at c) now" "dt_lt now (cc_expires_at c)"
      "cc_lease_id c \<notin> im_revoked s" "cc_stop_epoch c = im_stop_epoch s"
      "dict_get (im_fencing_tokens s) (cc_action_instance_id c) = Some (cc_fencing_token c)"
      "dict_get (im_consumed s) (cc_lease_id c) = None"
      "s' = s\<lparr>im_consumed := dict_set (cc_lease_id c) (cc_action_instance_id c, cc_emission_attempt c) (im_consumed s)\<rparr>"
proof -
  obtain r where r: "consume_if_current reading c s = (r, s')" "answer = (case r of Inl e \<Rightarrow> Inl e | Inr d \<Rightarrow> Inr (Some d))"
    using assms by (auto simp: in_memory_port_def split: prod.splits sum.splits)
  from r(1) show ?thesis
  proof (cases rule: consume_if_current_cases)
    case kept
    then show ?thesis using that(1) r(2) by (auto split: sum.splits)
  next
    case (consumed now)
    then show ?thesis using that(2) by blast
  qed
qed

lemma lease_admin_consumed: "lease_admin s s' \<Longrightarrow> im_consumed s' = im_consumed s"
  by (auto elim!: lease_adminE simp: set_stop_epoch_def set_fencing_token_def lease_state_revoke_def
      split: pyval.splits if_splits list.splits option.splits)

interpretation mem: lease_state_port in_memory_port "\<lambda>s. dom (dict_get (im_consumed s))" lease_admin
proof
  show "cc_lease_id c \<notin> dom (dict_get (im_consumed s)) \<and> cc_lease_id c \<in> dom (dict_get (im_consumed s'))"
    if "in_memory_port reading c s = (Inr (Some d), s')" "ls_outcome d = CONSUMED" for reading c s d s'
    using that(1) by (cases rule: in_memory_port_cases) (use that(2) in \<open>auto simp: dom_def\<close>)
  show "dom (dict_get (im_consumed s)) \<subseteq> dom (dict_get (im_consumed s'))"
    if "in_memory_port reading c s = (answer, s')" for reading c s answer s'
    using that by (cases rule: in_memory_port_cases) auto
  show "dom (dict_get (im_consumed s)) \<subseteq> dom (dict_get (im_consumed s'))" if "lease_admin s s'" for s s'
    using lease_admin_consumed [OF that] by simp
qed

text \<open>Nothing in the state moves back: epochs and tokens grow, revocations and consumptions stay.\<close>

definition lease_state_le :: "InMemoryLeaseState \<Rightarrow> InMemoryLeaseState \<Rightarrow> bool" where
  "lease_state_le s t \<longleftrightarrow> im_stop_epoch s \<le> im_stop_epoch t \<and> im_revoked s \<subseteq> im_revoked t
     \<and> (\<forall>i k. dict_get (im_fencing_tokens s) i = Some k \<longrightarrow> (\<exists>k'. dict_get (im_fencing_tokens t) i = Some k' \<and> k \<le> k'))
     \<and> (\<forall>i v. dict_get (im_consumed s) i = Some v \<longrightarrow> dict_get (im_consumed t) i = Some v)"

definition mem_step :: "InMemoryLeaseState \<Rightarrow> InMemoryLeaseState \<Rightarrow> bool" where
  "mem_step s t \<longleftrightarrow> (\<exists>rcs rcs'. ledger_step in_memory_port lease_admin (s, rcs) (t, rcs'))"

lemma lease_admin_le: "lease_admin s s' \<Longrightarrow> lease_state_le s s'"
  by (auto elim!: lease_adminE simp: lease_state_le_def set_stop_epoch_def set_fencing_token_def lease_state_revoke_def
      split: pyval.splits if_splits list.splits option.splits)

lemma in_memory_port_le: "in_memory_port reading c s = (answer, s') \<Longrightarrow> lease_state_le s s'"
  by (erule in_memory_port_cases) (auto simp: lease_state_le_def)

lemma lease_state_le_refl: "lease_state_le s s"
  by (auto simp: lease_state_le_def)

lemma mem_step_le: "mem_step s t \<Longrightarrow> lease_state_le s t"
proof -
  assume "mem_step s t"
  then obtain rcs rcs' where "ledger_step in_memory_port lease_admin (s, rcs) (t, rcs')" by (auto simp: mem_step_def)
  then show ?thesis
  proof cases
    case (consumed reading l x sig revoked rc)
    from consumed(2) show ?thesis
      by (cases rule: ledger_consume_cases) (auto dest: in_memory_port_le)
  next
    case (refused reading l x sig revoked e)
    from refused(2) show ?thesis
      by (cases rule: ledger_consume_cases) (auto dest: in_memory_port_le intro: lease_state_le_refl)
  next
    case administered
    then show ?thesis by (simp add: lease_admin_le)
  qed
qed

lemma lease_state_le_trans: "lease_state_le s t \<Longrightarrow> lease_state_le t u \<Longrightarrow> lease_state_le s u"
proof -
  assume st: "lease_state_le s t" and tu: "lease_state_le t u"
  have "\<exists>k'. dict_get (im_fencing_tokens u) i = Some k' \<and> k \<le> k'" if "dict_get (im_fencing_tokens s) i = Some k" for i k
    using that st tu unfolding lease_state_le_def by (meson order_trans)
  moreover have "im_stop_epoch s \<le> im_stop_epoch u" "im_revoked s \<subseteq> im_revoked u"
    using st tu unfolding lease_state_le_def by (auto intro: order_trans)
  moreover have "dict_get (im_consumed u) i = Some v" if "dict_get (im_consumed s) i = Some v" for i v
    using that st tu unfolding lease_state_le_def by blast
  ultimately show ?thesis unfolding lease_state_le_def by blast
qed

interpretation mem_run: monotone_system mem_step lease_state_le
  by unfold_locales (rule lease_state_le_refl, erule (1) lease_state_le_trans, erule mem_step_le)

lemma ledger_run_mem: "(ledger_step in_memory_port lease_admin)\<^sup>*\<^sup>* (s, rcs) (t, rcs') \<Longrightarrow> mem_step\<^sup>*\<^sup>* s t"
proof (induction "(t, rcs')" arbitrary: t rcs' rule: rtranclp_induct)
  case (step y)
  then have "mem_step\<^sup>*\<^sup>* s (fst y)" "mem_step (fst y) t" by (auto simp: mem_step_def) (metis prod.collapse)+
  then show ?case by (rule rtranclp.rtrancl_into_rtrancl)
qed simp

text \<open>What a receipt from the in-memory state means.\<close>

lemma ledger_receipt:
  assumes "ledger_consume in_memory_port (Some reading) l x sig revoked (Some s) = (Inr rc, Some s')"
  shows "sig \<and> \<not> revoked \<and> lease_bindings l = expected_bindings x \<and> kl_lease_id l \<notin> im_revoked s
    \<and> kl_stop_epoch l = im_stop_epoch s
    \<and> dict_get (im_fencing_tokens s) (kl_action_instance_id l) = Some (kl_fencing_token l)
    \<and> consumption (kl_lease_id l) s = None
    \<and> consumption (kl_lease_id l) s' = Some (kl_action_instance_id l, le_emission_attempt x)
    \<and> reading = Inr (lr_consumed_at rc) \<and> dt_le (kl_issued_at l) (lr_consumed_at rc) \<and> dt_lt (lr_consumed_at rc) (kl_expires_at l)
    \<and> lr_consumption_key rc = (kl_lease_id l, kl_action_instance_id l, le_emission_attempt x)"
  using assms
proof (cases rule: ledger_consume_cases)
  case (asked answer)
  from asked(7) [symmetric] obtain d t where d: "answer = Inr (Some d)" "ls_outcome d = CONSUMED" "ls_evaluated_at d = Some t"
    "dt_le (kl_issued_at l) t" "dt_lt t (kl_expires_at l)"
    "rc = \<lparr>lr_consumption_key = (kl_lease_id l, kl_action_instance_id l, le_emission_attempt x),
           lr_governed_context_digest = kl_governed_context_digest l, lr_consumed_at = t\<rparr>"
    by (rule receipt_of_ok) blast
  have answer: "consume_if_current reading (lease_call l x) s = (Inr d, s')"
    using asked(6) d(1) by (auto simp: in_memory_port_def split: prod.splits sum.splits)
  then show ?thesis
  proof (cases rule: consume_if_current_cases)
    case kept
    with d(2) show ?thesis by blast
  next
    case (consumed now)
    with d asked(1-3) show ?thesis by (auto simp: lease_call_def consumption_def)
  qed
qed simp

section \<open>Mappings of records\<close>

lemma closed_fields_ok: "set (map fst kvs) = set (map (KStr \<circ> lit) fs) \<Longrightarrow> closed_fields fs reason kind kvs = Inr ()"
proof -
  assume keys: "set (map fst kvs) = set (map (KStr \<circ> lit) fs)"
  then have "filter (\<lambda>k. k \<notin> set (map (KStr \<circ> lit) fs)) (map fst kvs) = []" by (metis (no_types, lifting) filter_False)
  moreover have "filter (\<lambda>f. KStr f \<notin> set (map fst kvs)) (map lit fs) = []" unfolding keys by (auto simp: filter_empty_conv)
  ultimately show ?thesis by (simp add: closed_fields_def Let_def)
qed

abbreviation str_items :: "(string \<times> pyval) list \<Rightarrow> (dkey \<times> pyval) list" where
  "str_items kvs \<equiv> map (\<lambda>(k, v). (KStr (lit k), v)) kvs"

lemma str_items_keys: "map fst (str_items kvs) = map (KStr \<circ> lit) (map fst kvs)"
  by auto

lemma field_of_items: "field_of (str_items kvs) f = (case map_of kvs f of None \<Rightarrow> PNone | Some x \<Rightarrow> x)"
proof -
  have "map_of (str_items kvs) (KStr (lit f)) = map_of kvs f" by (induction kvs) auto
  then show ?thesis by (simp add: field_of_def)
qed

definition utc_of :: "datetime \<Rightarrow> datetime" where
  "utc_of d = \<lparr>dt_wall = dt_instant d, dt_tz = Offset 0\<rparr>"

definition printable :: "datetime \<Rightarrow> bool" where
  "printable d \<longleftrightarrow> dt_aware d \<and> 0 \<le> dt_instant d \<and> dt_instant d < max_wall"

lemma utc_of_aware [simp]: "dt_aware (utc_of d)" "dt_instant (utc_of d) = dt_instant d"
  by (simp_all add: utc_of_def dt_aware_def dt_instant_def)

lemma gov_string_iff: "gov_string f v c = Inr s \<longleftrightarrow> v = PStr s \<and> s \<noteq> []"
  by (auto simp: gov_string_def split: pyval.splits if_splits)

lemma gov_digest_iff: "gov_digest f v c = Inr s \<longleftrightarrow> v = PStr s \<and> is_digest s"
proof -
  have "prefix (lit ''urn:sha256:'') s \<longleftrightarrow> take 11 s = lit ''urn:sha256:''" for s
    using append_eq_conv_conj [of "lit ''urn:sha256:''"] by (auto simp: prefix_def) (metis append_take_drop_id)
  moreover have "list_ex (\<lambda>c. \<not> is_lower_hex c) t \<longleftrightarrow> \<not> list_all is_lower_hex t" for t
    by (auto simp: list_ex_iff list_all_iff)
  ultimately show ?thesis
    by (cases v) (auto simp: gov_digest_def gov_string_def is_digest_def)
qed

lemma gov_refs_text_set:
  assumes "gov_refs f v c = Inr xs"
  shows "text_set xs"
proof -
  obtain items where i: "items \<noteq> []" "\<not> list_ex (\<lambda>i. case i of PStr s \<Rightarrow> s = [] | _ \<Rightarrow> True) items" "distinct (map the_text items)"
    "xs = map the_text items"
    using assms by (auto simp: gov_refs_def split: pyval.splits sum.splits if_splits)
  have "\<exists>s. x = PStr s \<and> s \<noteq> []" if "x \<in> set items" for x
    using i(2) that by (cases x) (auto simp: list_ex_iff)
  then have "[] \<notin> set xs" using i(4) by (fastforce simp: the_text_def)
  with i show ?thesis by (auto simp: text_set_def)
qed

lemma gov_refs_PList: "text_set xs \<Longrightarrow> gov_refs f (PList (map PStr xs)) c = Inr xs"
  by (auto simp: gov_refs_def py_list_def text_set_def list_ex_iff the_text_def comp_def)

text \<open>Leases that were constructed.\<close>

definition wf_lease :: "KernelLease \<Rightarrow> bool" where
  "wf_lease l \<longleftrightarrow>
     list_all (\<lambda>s. s \<noteq> []) [kl_lease_id l, kl_capability_id l, kl_effective_principal_id l, kl_action_instance_id l]
     \<and> list_all is_digest [kl_delegation_ref l, kl_governed_context_digest l, kl_gate_package_digest l]
     \<and> 0 \<le> kl_stop_epoch l \<and> 1 \<le> kl_fencing_token l \<and> dt_aware (kl_issued_at l) \<and> dt_aware (kl_expires_at l)
     \<and> dt_lt (kl_issued_at l) (kl_expires_at l) \<and> dt_instant (kl_expires_at l) \<le> dt_instant (kl_issued_at l) + 5000000"

lemma kernel_lease_wf:
  assumes "kernel_lease a i x = Inr l"
  shows "wf_lease l" "kl_issued_at l = i" "kl_expires_at l = x"
proof -
  from assms obtain texts digests epoch token where
    r: "gov_strings [''lease_id'', ''capability_id'', ''effective_principal_id'', ''action_instance_id''] a CORRELATION_ZERO = Inr texts"
      "gov_digests [''delegation_ref'', ''governed_context_digest'', ''gate_package_digest''] a CORRELATION_ZERO = Inr digests"
      "counter_at_least 0 (a ''stop_epoch'') = Some epoch" "counter_at_least 1 (a ''fencing_token'') = Some token"
      "dt_aware i" "dt_aware x" "0 < dt_diff x i" "dt_diff x i \<le> 5000000"
    and l: "l = \<lparr>kl_lease_id = texts ! 0, kl_capability_id = texts ! 1, kl_effective_principal_id = texts ! 2,
                   kl_delegation_ref = digests ! 0, kl_action_instance_id = texts ! 3,
                   kl_governed_context_digest = digests ! 1, kl_gate_package_digest = digests ! 2,
                   kl_stop_epoch = epoch, kl_fencing_token = token, kl_issued_at = i, kl_expires_at = x\<rparr>"
    by (auto simp: kernel_lease_def gov_aware_def not_le not_less split: sum.splits option.splits if_splits)
  have "\<exists>t0 t1 t2 t3. texts = [t0, t1, t2, t3] \<and> [] \<notin> {t0, t1, t2, t3}"
    using r(1) by (auto simp: gov_strings_def gov_string_iff split: sum.splits)
  moreover have "\<exists>d0 d1 d2. digests = [d0, d1, d2] \<and> is_digest d0 \<and> is_digest d1 \<and> is_digest d2"
    using r(2) by (auto simp: gov_digests_def gov_digest_iff split: sum.splits)
  moreover have "0 \<le> epoch" "1 \<le> token" using r(3,4) by (auto simp: counter_at_least_def split: pyval.splits if_splits)
  ultimately show "wf_lease l" using r(5-8) by (auto simp: l wf_lease_def dt_diff_def)
  show "kl_issued_at l = i" "kl_expires_at l = x" by (simp_all add: l)
qed

lemma kernel_lease_fields:
  assumes "wf_lease l" and "\<And>f. f \<in> set LEASE_FIELDS \<Longrightarrow> f \<notin> {''issued_at'', ''expires_at''} \<Longrightarrow> map_of (lease_entries l t t') f = Some (a f)"
  shows "kernel_lease a (kl_issued_at l) (kl_expires_at l) = Inr l"
proof -
  have str: "gov_string f (PStr s) c = Inr s" if "s \<noteq> []" for f s c using that by (simp add: gov_string_iff)
  have dig: "gov_digest f (PStr s) c = Inr s" if "is_digest s" for f s c using that by (simp add: gov_digest_iff)
  have a: "a ''lease_id'' = PStr (kl_lease_id l)" "a ''capability_id'' = PStr (kl_capability_id l)"
    "a ''effective_principal_id'' = PStr (kl_effective_principal_id l)" "a ''action_instance_id'' = PStr (kl_action_instance_id l)"
    "a ''delegation_ref'' = PStr (kl_delegation_ref l)" "a ''governed_context_digest'' = PStr (kl_governed_context_digest l)"
    "a ''gate_package_digest'' = PStr (kl_gate_package_digest l)" "a ''stop_epoch'' = PInt (kl_stop_epoch l)"
    "a ''fencing_token'' = PInt (kl_fencing_token l)"
    using assms(2) [of "''lease_id''"] assms(2) [of "''capability_id''"] assms(2) [of "''effective_principal_id''"] assms(2) [of "''action_instance_id''"] assms(2) [of "''delegation_ref''"]
      assms(2) [of "''governed_context_digest''"] assms(2) [of "''gate_package_digest''"] assms(2) [of "''stop_epoch''"] assms(2) [of "''fencing_token''"]
    by (simp_all add: LEASE_FIELDS_def lease_entries_def)
  show ?thesis
    using assms(1) by (simp add: kernel_lease_def gov_strings_def gov_digests_def a str dig counter_at_least_def gov_aware_def
        wf_lease_def dt_diff_def)
qed

definition lease_utc :: "KernelLease \<Rightarrow> KernelLease" where
  "lease_utc l = l\<lparr>kl_issued_at := utc_of (kl_issued_at l), kl_expires_at := utc_of (kl_expires_at l)\<rparr>"

lemma format_parse: "printable d \<Longrightarrow> \<exists>t. format_utc_timestamp d = Inr t \<and> parse_utc_timestamp (PStr t) = Inr (utc_of d)"
  using format_parse_utc [of d] by (simp add: printable_def utc_of_def)

lemma lease_roundtrip:
  assumes wf: "wf_lease l" and p: "printable (kl_issued_at l)" "printable (kl_expires_at l)"
  shows "\<exists>m. lease_to_mapping l = Inr m \<and> lease_from_mapping (str_items m) = Inr (lease_utc l)"
proof -
  obtain t where t: "format_utc_timestamp (kl_issued_at l) = Inr t" "parse_utc_timestamp (PStr t) = Inr (utc_of (kl_issued_at l))"
    using format_parse [OF p(1)] by blast
  obtain u where u: "format_utc_timestamp (kl_expires_at l) = Inr u" "parse_utc_timestamp (PStr u) = Inr (utc_of (kl_expires_at l))"
    using format_parse [OF p(2)] by blast
  let ?m = "lease_entries l t u"
  have keys: "map fst ?m = LEASE_FIELDS" by (simp add: lease_entries_def LEASE_FIELDS_def)
  have closed: "closed_fields LEASE_FIELDS ''LEASE_INVALID'' ''lease'' (str_items ?m) = Inr ()"
    by (rule closed_fields_ok) (simp only: str_items_keys keys)
  have times: "field_of (str_items ?m) ''issued_at'' = PStr t" "field_of (str_items ?m) ''expires_at'' = PStr u"
    unfolding field_of_items by (simp_all add: lease_entries_def)
  have "kernel_lease (field_of (str_items ?m)) (kl_issued_at (lease_utc l)) (kl_expires_at (lease_utc l)) = Inr (lease_utc l)"
  proof (rule kernel_lease_fields)
    show "wf_lease (lease_utc l)" using wf by (simp add: wf_lease_def lease_utc_def)
    show "map_of (lease_entries (lease_utc l) t u) f = Some (field_of (str_items ?m) f)" if "f \<in> set LEASE_FIELDS" for f
      unfolding field_of_items using that by (auto simp: LEASE_FIELDS_def lease_entries_def lease_utc_def)
  qed
  with t u closed times show ?thesis by (simp add: lease_to_mapping_def lease_from_mapping_def lease_utc_def Let_def)
qed

section \<open>Properties\<close>

lemma lease_state_le_token:
  assumes "lease_state_le s t" "dict_get (im_fencing_tokens s) i = Some k"
  obtains k' where "dict_get (im_fencing_tokens t) i = Some k'" "k \<le> k'"
  using assms unfolding lease_state_le_def by blast

lemma lease_state_le_consumed:
  "lease_state_le s t \<Longrightarrow> dict_get (im_consumed s) i = Some v \<Longrightarrow> dict_get (im_consumed t) i = Some v"
  unfolding lease_state_le_def by blast

lemma receipts_recorded:
  assumes "(ledger_step in_memory_port lease_admin)\<^sup>*\<^sup>* (s, []) (t, rcs)" "rc \<in> set rcs"
  shows "consumption (receipt_lease rc) t = Some (snd (lr_consumption_key rc))"
  using assms
proof (induction "(t, rcs)" arbitrary: t rcs rule: rtranclp_induct)
  case (step y)
  obtain u us where y: "y = (u, us)" by fastforce
  have le: "lease_state_le u t" using step.hyps(2) by (intro mem_step_le) (auto simp: y mem_step_def)
  then have kept: "consumption (receipt_lease rc) t = Some v" if "consumption (receipt_lease rc) u = Some v" for v
    using that lease_state_le_consumed [OF le] by (simp add: consumption_def)
  from step.hyps(2) [unfolded y] show ?case
  proof cases
    case (consumed reading l x sig revoked rc')
    show ?thesis
    proof (cases "rc = rc'")
      case True
      with ledger_receipt [OF consumed(2)] show ?thesis by simp
    next
      case False
      with consumed(1) step.prems have "rc \<in> set us" by simp
      with step.hyps(3) [OF y] kept show ?thesis by blast
    qed
  qed (use step.hyps(3) [OF y] step.prems kept in blast)+
qed simp

definition kernel_example_time :: "int \<Rightarrow> datetime" where
  "kernel_example_time us = \<lparr>dt_wall = us, dt_tz = Offset 0\<rparr>"

definition kernel_example_lease :: KernelLease where
  "kernel_example_lease = \<lparr>kl_lease_id = lit ''l'', kl_capability_id = lit ''c'', kl_effective_principal_id = lit ''e'',
     kl_delegation_ref = example_gcs_digest, kl_action_instance_id = lit ''i'', kl_governed_context_digest = example_gcs_digest,
     kl_gate_package_digest = example_gcs_digest, kl_stop_epoch = 2, kl_fencing_token = 1,
     kl_issued_at = kernel_example_time 0, kl_expires_at = kernel_example_time 5000000\<rparr>"

definition kernel_example_expectation :: LeaseExpectation where
  "kernel_example_expectation = \<lparr>le_capability_id = lit ''c'', le_effective_principal_id = lit ''e'',
     le_delegation_ref = example_gcs_digest, le_action_instance_id = lit ''i'', le_governed_context_digest = example_gcs_digest,
     le_gate_package_digest = example_gcs_digest, le_stop_epoch = 2, le_fencing_token = 1, le_emission_attempt = 1,
     le_at = kernel_example_time 0, le_correlation_id = CORRELATION_ZERO, le_causation_id = None\<rparr>"

definition kernel_example_lease_state :: InMemoryLeaseState where
  "kernel_example_lease_state = \<lparr>im_stop_epoch = 2, im_fencing_tokens = [(lit ''i'', 1)], im_revoked = {}, im_consumed = []\<rparr>"

definition kernel_example_receipt :: LeaseConsumptionReceipt where
  "kernel_example_receipt = \<lparr>lr_consumption_key = (lit ''l'', lit ''i'', 1), lr_governed_context_digest = example_gcs_digest,
     lr_consumed_at = kernel_example_time 1000000\<rparr>"

lemma kernel_example_consumed:
  "ledger_consume in_memory_port (Some (Inr (kernel_example_time 1000000))) kernel_example_lease kernel_example_expectation True False (Some kernel_example_lease_state)
     = (Inr kernel_example_receipt, Some (kernel_example_lease_state\<lparr>im_consumed := [(lit ''l'', lit ''i'', 1)]\<rparr>))"
  by (simp add: ledger_consume_def in_memory_port_def consume_if_current_def receipt_of_def kernel_example_lease_def kernel_example_expectation_def
      kernel_example_lease_state_def kernel_example_receipt_def kernel_example_time_def lease_bindings_def expected_bindings_def gov_aware_def dt_aware_def
      dt_instant_def)

lemma kernel_example_digest_valid: "is_digest example_gcs_digest"
  by (simp add: is_digest_def example_gcs_digest_def lit_def is_lower_hex_def list_all_iff)

lemma kernel_example_lease_wf: "wf_lease kernel_example_lease"
  by (simp add: wf_lease_def kernel_example_lease_def kernel_example_time_def dt_aware_def dt_instant_def kernel_example_digest_valid)

lemma kernel_example_lease_built:
  "kernel_lease (\<lambda>f. the (map_of (lease_entries kernel_example_lease [] []) f)) (kernel_example_time 0) (kernel_example_time 5000000) = Inr kernel_example_lease"
proof -
  let ?a = "\<lambda>f. the (map_of (lease_entries kernel_example_lease [] []) f)"
  have "map_of (lease_entries kernel_example_lease [] []) f = Some (?a f)" if "f \<in> set LEASE_FIELDS" for f
    using that by (auto simp: LEASE_FIELDS_def lease_entries_def)
  then have "kernel_lease ?a (kl_issued_at kernel_example_lease) (kl_expires_at kernel_example_lease) = Inr kernel_example_lease"
    by (intro kernel_lease_fields [OF kernel_example_lease_wf])
  moreover have "kl_issued_at kernel_example_lease = kernel_example_time 0" "kl_expires_at kernel_example_lease = kernel_example_time 5000000"
    by (simp_all add: kernel_example_lease_def)
  ultimately show ?thesis by (simp only:)
qed

text \<open>
  C38 [authority_exact]: \<^verbatim>\<open>validate_authority\<close> returns a decision exactly when the Authority is signed, not revoked, bound to
  the very delegation and GovernedContext that were verified, inside its half-open validity window, names the
  principal, capability, resource, tenant, domain, compartments and purpose, has a risk ceiling not below the requested
  risk and the context's policy bundle, and the context has a digest; the decision then carries that digest and the
  Authority's expiry.  A refusal is a non-retryable GovernanceFault with the request's correlation and causation
  identifiers when these are canonical identifiers; otherwise building the fault raises, and there is no decision either.
\<close>

theorem authority_exact:
  "(validate_authority au rq sig revoked b = Inr ad \<longleftrightarrow> authority_grants au rq sig revoked b
      \<and> (\<exists>d. context_digest (rq_governed_context rq) = Inr d
          \<and> ad = \<lparr>ad_authority_id = au_authority_id au, ad_governed_context_digest = d,
               ad_purpose = purpose (rq_governed_context rq), ad_valid_until = au_expires_at au\<rparr>))
   \<and> (\<not> authority_grants au rq sig revoked b \<and> valid_trace (gc_correlation_id (rq_governed_context rq)) (rq_causation_id rq) \<longrightarrow>
        (\<exists>reason. validate_authority au rq sig revoked b =
            Inl (GovernanceFault reason (gc_correlation_id (rq_governed_context rq)) (rq_causation_id rq))
          \<and> dict_get REASON_FAILURE_CLASSES reason \<in> {Some POLICY_DENIED, Some PERMANENT}))"
proof (cases "authority_grants au rq sig revoked b")
  case True
  with validate_authority_grant [OF True] show ?thesis by (auto split: sum.splits)
next
  case False
  from validate_authority_deny [OF False] obtain reason title where r: "validate_authority au rq sig revoked b =
      Inl (fault_with reason (gc_correlation_id (rq_governed_context rq)) (rq_causation_id rq) (lit title))"
    "dict_get REASON_FAILURE_CLASSES reason \<in> {Some POLICY_DENIED, Some PERMANENT}" "title_ok (lit title)"
    by blast
  from r(2) obtain cls where "dict_get REASON_FAILURE_CLASSES reason = Some cls" by auto
  then have "validate_authority au rq sig revoked b =
      Inl (GovernanceFault reason (gc_correlation_id (rq_governed_context rq)) (rq_causation_id rq))"
    if "valid_trace (gc_correlation_id (rq_governed_context rq)) (rq_causation_id rq)"
    using r(1) fault_with_ok [OF _ r(3) that] by simp
  with r False show ?thesis by auto
qed

definition kernel_example_request :: AuthorityRequest where
  "kernel_example_request = \<lparr>rq_capability_id = lit ''c'', rq_resource_scope = lit ''s'', rq_risk_class = R1_LOW,
     rq_governed_context = example_context, rq_at = kernel_example_time 10, rq_causation_id = None\<rparr>"

definition kernel_example_authority :: Authority where
  "kernel_example_authority = \<lparr>au_authority_id = lit ''a'', au_effective_principal_id = lit ''e'', au_capability_ids = [lit ''c''],
     au_resource_scopes = [lit ''s''], au_tenant_id = lit ''t'', au_domains = [lit ''d''], au_compartments = [lit ''c''],
     au_permitted_purposes = [lit ''p''], au_risk_ceiling = R2_CONTROLLED, au_not_before = kernel_example_time 0,
     au_expires_at = kernel_example_time 20, au_delegation_ref = example_gcs_digest, au_policy_bundle_digest = example_gcs_digest,
     au_signature_ref = lit ''sig''\<rparr>"

definition kernel_example_binding :: VerifiedAuthorityBinding where
  "kernel_example_binding = \<lparr>va_binding_ref = lit ''b'', va_delegation_ref = example_gcs_digest, va_expected_context = example_context\<rparr>"

theorem authority_exact_witness:
  "\<exists>d. validate_authority kernel_example_authority kernel_example_request True False (Some kernel_example_binding) =
      Inr \<lparr>ad_authority_id = lit ''a'', ad_governed_context_digest = d, ad_purpose = lit ''p'', ad_valid_until = kernel_example_time 20\<rparr>
    \<and> (\<exists>reason. validate_authority kernel_example_authority kernel_example_request True True (Some kernel_example_binding) =
        Inl (GovernanceFault reason (gc_correlation_id example_context) None))"
proof -
  have trace: "valid_trace (gc_correlation_id (rq_governed_context kernel_example_request)) (rq_causation_id kernel_example_request)"
    by (simp add: valid_trace_def kernel_example_request_def example_context_def validate_correlation_id_def validate_identifier_def
        canonical_uuid_text_def uuid_int_def uuid_variant_rfc4122_def uuid_hex_def hex_value_def lit_def is_lower_hex_def is_ok_iff)
  obtain d where d: "context_digest (rq_governed_context kernel_example_request) = Inr d"
    using canonical_digest_i_json [OF example_context_json(1)] by (auto simp: kernel_example_request_def context_digest_def)
  have grants: "authority_grants kernel_example_authority kernel_example_request True False (Some kernel_example_binding)"
    by (simp add: authority_grants_def authority_in_scope_def kernel_example_authority_def kernel_example_request_def kernel_example_binding_def
        example_context_def kernel_example_time_def dt_instant_def)
  have refuses: "\<not> authority_grants kernel_example_authority kernel_example_request True True (Some kernel_example_binding)" by (simp add: authority_grants_def)
  have "validate_authority kernel_example_authority kernel_example_request True False (Some kernel_example_binding) =
      Inr \<lparr>ad_authority_id = lit ''a'', ad_governed_context_digest = d, ad_purpose = lit ''p'', ad_valid_until = kernel_example_time 20\<rparr>"
    using authority_exact [of kernel_example_authority kernel_example_request True False "Some kernel_example_binding"] grants d by (auto simp: kernel_example_authority_def kernel_example_request_def example_context_def)
  moreover have "\<exists>reason. validate_authority kernel_example_authority kernel_example_request True True (Some kernel_example_binding) =
        Inl (GovernanceFault reason (gc_correlation_id example_context) None)"
    using authority_exact [of kernel_example_authority kernel_example_request True True "Some kernel_example_binding"] refuses trace
    by (auto simp: kernel_example_request_def)
  ultimately show ?thesis by blast
qed

text \<open>
  C8 [lease_consumed_once]: over any history of ledger calls and administrative changes against the in-memory lease state, no
  lease is ever consumed twice, and each receipt handed out is still on record with its action instance and
  emission attempt.
\<close>

theorem lease_consumed_once:
  assumes "(ledger_step in_memory_port lease_admin)\<^sup>*\<^sup>* (s, []) (t, rcs)"
  shows "distinct (map receipt_lease rcs)
    \<and> (\<forall>rc \<in> set rcs. consumption (receipt_lease rc) t = Some (snd (lr_consumption_key rc)))"
  using mem.once_run [OF assms] receipts_recorded [OF assms] by (simp add: mem.once_def)

theorem lease_consumed_once_witness:
  "consumption (lit ''l'') (kernel_example_lease_state\<lparr>im_consumed := [(lit ''l'', lit ''i'', 1)]\<rparr>) = Some (lit ''i'', 1)"
proof -
  have "(ledger_step in_memory_port lease_admin)\<^sup>*\<^sup>* (kernel_example_lease_state, [])
      (kernel_example_lease_state\<lparr>im_consumed := [(lit ''l'', lit ''i'', 1)]\<rparr>, [kernel_example_receipt])"
    using ledger_step.consumed [OF kernel_example_consumed, of lease_admin "[]"] by auto
  from lease_consumed_once [OF this] show ?thesis by (simp add: kernel_example_receipt_def)
qed

text \<open>
  C14 [fenced_lease_dead]: once the stop epoch has passed a constructed lease, its action has a newer fencing token, it was revoked or
  it was consumed, no later state of the ledger ever gives a receipt for it; and a receipt is only ever given at an
  instant the clock read inside the lease's window, less than five seconds after the lease was issued.
\<close>

theorem fenced_lease_dead:
  assumes "kernel_lease a i x = Inr l"
    and "(ledger_step in_memory_port lease_admin)\<^sup>*\<^sup>* (s, rcs) (t, rcs')"
    and "ledger_consume in_memory_port (Some reading) l e sig revoked (Some t) = (Inr rc, Some t')"
  shows "im_stop_epoch s \<le> kl_stop_epoch l \<and> kl_lease_id l \<notin> im_revoked s \<and> consumption (kl_lease_id l) s = None
    \<and> (\<forall>k. dict_get (im_fencing_tokens s) (kl_action_instance_id l) = Some k \<longrightarrow> k \<le> kl_fencing_token l)
    \<and> reading = Inr (lr_consumed_at rc) \<and> dt_instant i \<le> dt_instant (lr_consumed_at rc)
    \<and> dt_instant (lr_consumed_at rc) < dt_instant i + 5000000"
proof -
  note wf = kernel_lease_wf [OF assms(1)] and rcpt = ledger_receipt [OF assms(3)]
  have le: "lease_state_le s t" using mem_run.run_le [OF ledger_run_mem [OF assms(2)]] .
  have "k \<le> kl_fencing_token l" if that': "dict_get (im_fencing_tokens s) (kl_action_instance_id l) = Some k" for k
  proof -
    obtain k' where "dict_get (im_fencing_tokens t) (kl_action_instance_id l) = Some k'" "k \<le> k'"
      by (rule lease_state_le_token [OF le that'])
    with rcpt show ?thesis by simp
  qed
  moreover have "consumption (kl_lease_id l) s = None"
  proof (cases "dict_get (im_consumed s) (kl_lease_id l)")
    case (Some v)
    then have "dict_get (im_consumed t) (kl_lease_id l) = Some v" by (rule lease_state_le_consumed [OF le])
    with rcpt show ?thesis by (simp add: consumption_def)
  qed (simp add: consumption_def)
  ultimately show ?thesis using le wf rcpt by (auto simp: lease_state_le_def wf_lease_def)
qed

theorem fenced_lease_dead_witness:
  "kl_lease_id kernel_example_lease \<notin> im_revoked kernel_example_lease_state
    \<and> dt_instant (lr_consumed_at kernel_example_receipt) < dt_instant (kernel_example_time 0) + 5000000"
  using fenced_lease_dead [OF kernel_example_lease_built rtranclp.rtrancl_refl [of _ "(kernel_example_lease_state, [])"] kernel_example_consumed] by simp

text \<open>
  Every lease the constructor accepts whose instants are representable is printed by to_mapping, and
  from_mapping reads that mapping back to the same lease with both instants in UTC.
\<close>

theorem kernel_lease_roundtrip:
  assumes "kernel_lease a i x = Inr l" "printable i" "printable x"
  shows "\<exists>m. lease_to_mapping l = Inr m \<and> lease_from_mapping (str_items m) = Inr (lease_utc l)"
  using lease_roundtrip [of l] kernel_lease_wf [OF assms(1)] assms(2,3) by simp

theorem kernel_lease_roundtrip_witness:
  "\<exists>m. lease_to_mapping kernel_example_lease = Inr m \<and> lease_from_mapping (str_items m) = Inr kernel_example_lease"
proof -
  have "printable (kernel_example_time 0)" "printable (kernel_example_time 5000000)"
    by (simp_all add: printable_def kernel_example_time_def dt_aware_def dt_instant_def max_wall_def)
  from kernel_lease_roundtrip [OF kernel_example_lease_built this] show ?thesis
    by (simp add: lease_utc_def kernel_example_lease_def utc_of_def kernel_example_time_def dt_instant_def)
qed

end
