(* ===== verification/C6_Safety.thy ===== *)
theory C6_Safety
  imports C6_HumanGate C6_Capabilities
begin

text \<open>
  The safety mechanisms of \<^verbatim>\<open>c6/safety.py\<close>: the emergency-stop controller, break-glass grants and the
  reconciliation of ambiguous outcomes.  The controller is also a provider of the stop protocol that the
  capability authority of \<^verbatim>\<open>c6_capabilities.py\<close> relies on, and the two are put together here.
\<close>

section \<open>The emergency stop\<close>

datatype StopStatus = NORMAL | STOPPING | STOPPED | RESET_PENDING

record StopEvent =
  sv_epoch :: int
  sv_status :: StopStatus
  sv_reason :: pystr
  sv_at :: datetime

record EmergencyStopController =
  es_status :: StopStatus
  es_epoch :: int
  es_history :: "StopEvent list"

definition new_stop_controller :: EmergencyStopController where
  "new_stop_controller = \<lparr>es_status = NORMAL, es_epoch = 0, es_history = []\<rparr>"

text \<open>Every accepted operation sets epoch and status and appends the event that says so.\<close>

definition stop_enter ::
  "int \<Rightarrow> StopStatus \<Rightarrow> pystr \<Rightarrow> datetime \<Rightarrow> EmergencyStopController \<Rightarrow> StopEvent res \<times> EmergencyStopController" where
  "stop_enter epoch status reason instant c =
     (let event = \<lparr>sv_epoch = epoch, sv_status = status, sv_reason = reason, sv_at = instant\<rparr> in
      (Inr event, c\<lparr>es_epoch := epoch, es_status := status, es_history := es_history c @ [event]\<rparr>))"

definition stop_activate ::
  "pystr \<Rightarrow> datetime \<Rightarrow> EmergencyStopController \<Rightarrow> StopEvent res \<times> EmergencyStopController" where
  "stop_activate reason at_time c =
     (case require_aware ''at'' at_time of Inl e \<Rightarrow> (Inl e, c)
      | Inr instant \<Rightarrow>
         if reason = [] then (Inl (ValueError ''an emergency stop requires a reason''), c)
         else if es_status c \<noteq> NORMAL then (Inl (SafetyError ''INVALID_STOP_TRANSITION''), c)
         else stop_enter (es_epoch c + 1) STOPPING reason instant c)"

definition finish_draining :: "datetime \<Rightarrow> EmergencyStopController \<Rightarrow> StopEvent res \<times> EmergencyStopController" where
  "finish_draining at_time c =
     (case require_aware ''at'' at_time of Inl e \<Rightarrow> (Inl e, c)
      | Inr instant \<Rightarrow>
         if es_status c \<noteq> STOPPING then (Inl (SafetyError ''INVALID_STOP_TRANSITION''), c)
         else stop_enter (es_epoch c) STOPPED (lit ''drain complete'') instant c)"

text \<open>
  \<open>instant\<close> is \<^verbatim>\<open>datetime.now(UTC)\<close>; the compatibility argument \<^verbatim>\<open>at\<close> is never read.  Both approvers are
  looked up in the registry at the time of the call.
\<close>

definition request_reset ::
  "datetime \<Rightarrow> pystr list \<Rightarrow> IdentityRegistry \<Rightarrow> pystr \<Rightarrow> EmergencyStopController \<Rightarrow>
     StopEvent res \<times> EmergencyStopController" where
  "request_reset instant approvers identities requester c =
     (if length approvers \<noteq> 2 \<or> card (set approvers) \<noteq> 2 \<or> requester = [] \<or> requester \<in> set approvers
      then (Inl (SafetyError ''RESET_REQUIRES_DUAL_CONTROL''), c)
      else if es_status c \<noteq> STOPPED then (Inl (SafetyError ''INVALID_STOP_TRANSITION''), c)
      else if list_ex (\<lambda>p. active_human_roles (registry_get p identities) = None) approvers
      then (Inl (SafetyError ''RESET_REQUIRES_DUAL_CONTROL''), c)
      else stop_enter (es_epoch c) RESET_PENDING (lit ''reset requested'') instant c)"

definition confirm_reset :: "datetime \<Rightarrow> EmergencyStopController \<Rightarrow> StopEvent res \<times> EmergencyStopController" where
  "confirm_reset at_time c =
     (case require_aware ''at'' at_time of Inl e \<Rightarrow> (Inl e, c)
      | Inr instant \<Rightarrow>
         if es_status c \<noteq> RESET_PENDING then (Inl (SafetyError ''INVALID_STOP_TRANSITION''), c)
         else stop_enter (es_epoch c + 1) NORMAL (lit ''reset confirmed, new epoch issued'') instant c)"

definition guard_dispatch :: "int \<Rightarrow> EmergencyStopController \<Rightarrow> unit res" where
  "guard_dispatch fenced_epoch c =
     (if es_status c \<noteq> NORMAL then Inl (SafetyError ''SYSTEM_NOT_NORMAL'')
      else if fenced_epoch \<noteq> es_epoch c then Inl (SafetyError ''STOP_EPOCH_STALE'')
      else Inr ())"

text \<open>The controller as the \<^verbatim>\<open>StopEpochAuthority\<close> a capability authority is bound to.\<close>

definition stop_view :: "EmergencyStopController \<Rightarrow> StopEpochAuthority" where
  "stop_view c = \<lparr>sea_epoch = es_epoch c, sea_history = map (\<lambda>e. \<lparr>see_epoch = sv_epoch e, see_at = sv_at e\<rparr>) (es_history c),
     sea_guard_dispatch = (\<lambda>e. guard_dispatch e c)\<rparr>"

section \<open>Break-glass grants\<close>

definition MAX_BREAK_GLASS_TTL :: timedelta where
  "MAX_BREAK_GLASS_TTL = 15 * 60 * 1000000"

definition FORBIDDEN_BREAK_GLASS_CAPABILITIES :: "pystr set" where
  "FORBIDDEN_BREAK_GLASS_CAPABILITIES = set (map lit [''create_decision'', ''reduce_marking'', ''disable_provenance'',
     ''disable_audit'', ''ignore_emergency_stop'', ''change_release_pin'', ''authorize_r3_without_quorum'',
     ''access_outside_compartment''])"

record BreakGlassGrant =
  bg_grant_id :: pystr
  bg_requester :: pystr
  bg_reason :: pystr
  bg_incident_ref :: pystr
  bg_scope :: pystr
  bg_domain :: pystr
  bg_capabilities :: "pystr set"
  bg_approvers :: "pystr list"
  bg_granted_at :: datetime
  bg_ttl :: timedelta

definition grant_post_init :: "BreakGlassGrant \<Rightarrow> BreakGlassGrant res" where
  "grant_post_init g =
     (case require_aware ''granted_at'' (bg_granted_at g) of Inl e \<Rightarrow> Inl e
      | Inr _ \<Rightarrow>
         if bg_grant_id g = [] then Inl (ValueError ''a BreakGlassGrant requires a grant_id'')
         else if bg_requester g = [] then Inl (ValueError ''a BreakGlassGrant requires a requester'')
         else if bg_reason g = [] then Inl (ValueError ''a BreakGlassGrant requires a typed reason'')
         else if bg_incident_ref g = [] then Inl (ValueError ''a BreakGlassGrant requires an incident_ref'')
         else if bg_scope g = [] then Inl (ValueError ''a BreakGlassGrant requires a minimal scope'')
         else if bg_domain g = [] \<or> list_ex is_space (bg_domain g)
         then Inl (ValueError ''a BreakGlassGrant requires the affected domain'')
         else if bg_capabilities g = {} \<or> [] \<in> bg_capabilities g
         then Inl (ValueError ''a BreakGlassGrant requires at least one named capability'')
         else if length (bg_approvers g) \<noteq> 2 \<or> card (set (bg_approvers g)) \<noteq> 2
         then Inl (ValueError ''a BreakGlassGrant requires exactly two distinct human approvers'')
         else if bg_requester g \<in> set (bg_approvers g)
         then Inl (ValueError ''the requester of a BreakGlassGrant can never approve it'')
         else if bg_ttl g \<le> 0 \<or> MAX_BREAK_GLASS_TTL < bg_ttl g
         then Inl (ValueError ''break-glass ttl must be positive and at most 0:15:00'')
         else Inr g)"

definition grant_expires_at :: "BreakGlassGrant \<Rightarrow> datetime res" where
  "grant_expires_at g = dt_add (bg_granted_at g) (bg_ttl g)"

text \<open>The generated \<^verbatim>\<open>==\<close>: the instants are compared, not their time zones.\<close>

definition grant_eq :: "BreakGlassGrant \<Rightarrow> BreakGlassGrant \<Rightarrow> bool" where
  "grant_eq g k \<longleftrightarrow> dt_eq (bg_granted_at g) (bg_granted_at k) \<and> g\<lparr>bg_granted_at := bg_granted_at k\<rparr> = k"

record BreakGlassUse =
  bu_grant_id :: pystr
  bu_capability :: pystr
  bu_review_ref :: pystr
  bu_used_at :: datetime

record Principal =
  pl_canonical_id :: pystr
  pl_kind :: pystr
  pl_active :: bool
  pl_roles :: "pystr set"

text \<open>\<^verbatim>\<open>kind not in PRINCIPAL_KINDS\<close> hashes the attribute and raises \<^verbatim>\<open>TypeError\<close> on a mutable value.\<close>

fun hashable :: "pyval \<Rightarrow> bool" where
  "hashable (PList _) = False"
| "hashable (PDict _) = False"
| "hashable (PTuple xs) = list_all hashable xs"
| "hashable _ = True"

type_synonym directory = "pystr \<Rightarrow> IdentityRecord option"

definition read_principal :: "directory \<Rightarrow> pystr \<Rightarrow> Principal option res" where
  "read_principal dir cid =
     (case dir cid of None \<Rightarrow> Inr None
      | Some rec \<Rightarrow>
         let invalid = Inl (SafetyError ''BREAK_GLASS_PRINCIPAL_ATTRIBUTES_INVALID'');
             kind = (case dict_get (id_attributes rec) (lit ''principal_kind'') of None \<Rightarrow> PNone | Some v \<Rightarrow> v) in
         if \<not> hashable kind then Inl (TypeError ''unhashable type'')
         else if kind \<noteq> PStr (lit ''HUMAN'') \<and> kind \<noteq> PStr (lit ''WORKLOAD'') then invalid
         else (case (case dict_get (id_attributes rec) (lit ''roles'') of None \<Rightarrow> PStr [] | Some v \<Rightarrow> v) of
                 PStr raw \<Rightarrow>
                   let tokens = (if raw = [] then [] else split_at 32 raw) in
                   if list_ex (\<lambda>t. \<not> role_token t) tokens \<or> tokens \<noteq> sort tokens \<or> card (set tokens) \<noteq> length tokens then invalid
                   else Inr (Some \<lparr>pl_canonical_id = cid, pl_kind = (case kind of PStr k \<Rightarrow> k | _ \<Rightarrow> []),
                                  pl_active = (dict_get (id_attributes rec) (lit ''status'') = Some (PStr (lit ''ACTIVE''))),
                                  pl_roles = set tokens\<rparr>)
               | _ \<Rightarrow> invalid))"

type_synonym bg_event = "(string, pyval) dict"

text \<open>\<^verbatim>\<open>_event\<close>: computing \<^verbatim>\<open>expires_at\<close> can overflow.\<close>

definition safety_event :: "string \<Rightarrow> BreakGlassGrant option \<Rightarrow> datetime \<Rightarrow> (string \<times> pyval) list \<Rightarrow> bg_event res" where
  "safety_event kind grant at_time extra =
     (let base = [(''event'', PStr (lit kind)), (''at'', PStr (isoformat at_time))];
          upd = (\<lambda>kvs d. fold (\<lambda>(k, v). dict_set k v) kvs d) in
      case grant of None \<Rightarrow> Inr (upd extra base)
      | Some g \<Rightarrow>
         (case grant_expires_at g of Inl e \<Rightarrow> Inl e
          | Inr expires \<Rightarrow>
             Inr (upd extra (upd
               [(''grant_id'', PStr (bg_grant_id g)), (''requester'', PStr (bg_requester g)),
                (''approvers'', PList (map PStr (bg_approvers g))), (''domain'', PStr (bg_domain g)), (''scope'', PStr (bg_scope g)),
                (''incident_ref'', PStr (bg_incident_ref g)),
                (''capabilities'', PList (map PStr (sorted_list_of_set (bg_capabilities g)))),
                (''expires_at'', PStr (isoformat expires))] base))))"

text \<open>
  The sinks: given the calls made so far, each with whether it returned, a sink decides whether the next call
  returns or raises.  The controller's state has its grants and the calls it made.
\<close>

type_synonym sink_calls = "(bg_event \<times> bool) list"

type_synonym safety_sink = "sink_calls \<Rightarrow> bg_event \<Rightarrow> bool"

record BreakGlassController =
  bc_issued :: "(pystr, BreakGlassGrant) dict"
  bc_revoked :: "pystr set"
  bc_audit :: sink_calls
  bc_alerts :: sink_calls

definition new_break_glass :: BreakGlassController where
  "new_break_glass = \<lparr>bc_issued = [], bc_revoked = {}, bc_audit = [], bc_alerts = []\<rparr>"

text \<open>What one call reads: the registry, the stop controller, the clock and the two sinks.\<close>

record SafetyWorld =
  sw_directory :: directory
  sw_stop :: EmergencyStopController
  sw_clock :: "datetime res"
  sw_audit :: safety_sink
  sw_alerts :: safety_sink

definition trusted_now :: "SafetyWorld \<Rightarrow> datetime res" where
  "trusted_now w = (case sw_clock w of Inl e \<Rightarrow> Inl e | Inr t \<Rightarrow> require_aware ''trusted clock'' t)"

definition audit_append :: "SafetyWorld \<Rightarrow> bg_event \<Rightarrow> BreakGlassController \<Rightarrow> unit res \<times> BreakGlassController" where
  "audit_append w event c =
     (let ok = sw_audit w (bc_audit c) event in
      (if ok then Inr () else Inl (SafetyError ''BREAK_GLASS_AUDIT_UNAVAILABLE''), c\<lparr>bc_audit := bc_audit c @ [(event, ok)]\<rparr>))"

definition alert_send :: "SafetyWorld \<Rightarrow> bg_event \<Rightarrow> BreakGlassController \<Rightarrow> bool \<times> BreakGlassController" where
  "alert_send w event c =
     (let ok = sw_alerts w (bc_alerts c) event in (ok, c\<lparr>bc_alerts := bc_alerts c @ [(event, ok)]\<rparr>))"

text \<open>An event that is built and appended: an error of building it leaves the state alone.\<close>

definition append_event ::
  "SafetyWorld \<Rightarrow> bg_event res \<Rightarrow> BreakGlassController \<Rightarrow> unit res \<times> BreakGlassController" where
  "append_event w event c = (case event of Inl e \<Rightarrow> (Inl e, c) | Inr ev \<Rightarrow> audit_append w ev c)"

definition reason_code :: "exn \<Rightarrow> string" where
  "reason_code e = (case e of SafetyError r \<Rightarrow> r | _ \<Rightarrow> [])"

definition is_SafetyError :: "exn \<Rightarrow> bool" where
  "is_SafetyError e = (case e of SafetyError r \<Rightarrow> True | _ \<Rightarrow> False)"

text \<open>\<^verbatim>\<open>raise self._refuse(...)\<close>: the exception that leaves the statement.\<close>

definition refuse ::
  "SafetyWorld \<Rightarrow> string \<Rightarrow> datetime \<Rightarrow> exn \<Rightarrow> (string \<times> pyval) list \<Rightarrow> BreakGlassController \<Rightarrow> exn \<times> BreakGlassController" where
  "refuse w kind at_time error extra c =
     (case append_event w (safety_event kind None at_time ((''reason_code'', PStr (lit (reason_code error))) # extra)) c of
        (Inl e, c') \<Rightarrow> (e, c')
      | (Inr _, c') \<Rightarrow> (error, c'))"

text \<open>One approver, then the quorum of roles over both.\<close>

definition read_approver :: "directory \<Rightarrow> pystr \<Rightarrow> Principal res" where
  "read_approver dir approver =
     (case read_principal dir approver of Inl e \<Rightarrow> Inl e
      | Inr None \<Rightarrow> Inl (SafetyError ''BREAK_GLASS_REQUIRES_TWO_DISTINCT_HUMANS'')
      | Inr (Some p) \<Rightarrow>
         if pl_kind p \<noteq> lit ''HUMAN'' then Inl (SafetyError ''BREAK_GLASS_APPROVER_NOT_HUMAN'')
         else if \<not> pl_active p then Inl (SafetyError ''BREAK_GLASS_APPROVER_INACTIVE'')
         else Inr p)"

definition role_quorum :: "pystr \<Rightarrow> Principal list \<Rightarrow> bool" where
  "role_quorum domain ps =
     (let owner_role = lit ''DOMAIN_OWNER:'' @ domain; officer = lit ''SECURITY_DUTY_OFFICER'' in
      case ps of
        [first, second] \<Rightarrow>
          (officer \<in> pl_roles first \<and> owner_role \<in> pl_roles second) \<or> (officer \<in> pl_roles second \<and> owner_role \<in> pl_roles first)
      | _ \<Rightarrow> False)"

definition validate_principals :: "directory \<Rightarrow> pystr \<Rightarrow> pystr list \<Rightarrow> pystr \<Rightarrow> unit res" where
  "validate_principals dir requester approvers domain =
     (if length approvers \<noteq> 2 \<or> card (set approvers) \<noteq> 2 then Inl (SafetyError ''BREAK_GLASS_REQUIRES_TWO_DISTINCT_HUMANS'')
      else if requester \<in> set approvers then Inl (SafetyError ''BREAK_GLASS_REQUESTER_CANNOT_APPROVE'')
      else case (if requester = [] then Inr None else read_principal dir requester) of Inl e \<Rightarrow> Inl e
      | Inr requesting \<Rightarrow>
         if (case requesting of None \<Rightarrow> True | Some p \<Rightarrow> \<not> pl_active p) then Inl (SafetyError ''BREAK_GLASS_REQUESTER_INVALID'')
         else case sequence_res (map (read_approver dir) approvers) of Inl e \<Rightarrow> Inl e
         | Inr ps \<Rightarrow> if role_quorum domain ps then Inr () else Inl (SafetyError ''BREAK_GLASS_ROLE_QUORUM_UNMET''))"

text \<open>The arguments of \<^verbatim>\<open>grant\<close>.\<close>

record GrantRequest =
  gq_grant_id :: pystr
  gq_requester :: pystr
  gq_reason :: pystr
  gq_incident_ref :: pystr
  gq_scope :: pystr
  gq_domain :: pystr
  gq_capabilities :: "pystr set"
  gq_approvers :: "pystr list"
  gq_ttl :: timedelta

definition request_fields :: "GrantRequest \<Rightarrow> (string \<times> pyval) list" where
  "request_fields q = [(''grant_id'', PStr (gq_grant_id q)), (''requester'', PStr (gq_requester q)),
     (''approvers'', PList (map PStr (gq_approvers q))), (''domain'', PStr (gq_domain q))]"

definition grant_admissible :: "SafetyWorld \<Rightarrow> GrantRequest \<Rightarrow> BreakGlassController \<Rightarrow> unit res" where
  "grant_admissible w q c =
     (if gq_grant_id q = [] \<or> gq_reason q = [] \<or> gq_incident_ref q = [] \<or> gq_scope q = [] \<or> gq_domain q = [] \<or> gq_capabilities q = {}
      then Inl (SafetyError ''BREAK_GLASS_GRANT_INVALID'')
      else if dict_get (bc_issued c) (gq_grant_id q) \<noteq> None then Inl (SafetyError ''BREAK_GLASS_GRANT_ID_REUSED'')
      else if gq_capabilities q \<inter> FORBIDDEN_BREAK_GLASS_CAPABILITIES \<noteq> {} then Inl (SafetyError ''BREAK_GLASS_FORBIDDEN_CAPABILITY'')
      else validate_principals (sw_directory w) (gq_requester q) (gq_approvers q) (gq_domain q))"

definition requested_grant :: "GrantRequest \<Rightarrow> datetime \<Rightarrow> BreakGlassGrant res" where
  "requested_grant q instant = grant_post_init
     \<lparr>bg_grant_id = gq_grant_id q, bg_requester = gq_requester q, bg_reason = gq_reason q,
      bg_incident_ref = gq_incident_ref q, bg_scope = gq_scope q, bg_domain = gq_domain q,
      bg_capabilities = gq_capabilities q, bg_approvers = sort (gq_approvers q), bg_granted_at = instant, bg_ttl = gq_ttl q\<rparr>"

text \<open>
  The end that grants and uses share: append the event, raise the alert, and when the alert fails append the
  withdrawal and give up.
\<close>

definition announce ::
  "SafetyWorld \<Rightarrow> bg_event res \<Rightarrow> bg_event res \<Rightarrow> BreakGlassController \<Rightarrow> unit res \<times> BreakGlassController" where
  "announce w event withdrawal c =
     (case event of Inl e \<Rightarrow> (Inl e, c)
      | Inr ev \<Rightarrow>
         (case audit_append w ev c of (Inl e, c1) \<Rightarrow> (Inl e, c1)
          | (Inr _, c1) \<Rightarrow>
             (case alert_send w ev c1 of (True, c2) \<Rightarrow> (Inr (), c2)
              | (False, c2) \<Rightarrow>
                 (case append_event w withdrawal c2 of (Inl e, c3) \<Rightarrow> (Inl e, c3)
                  | (Inr _, c3) \<Rightarrow> (Inl (SafetyError ''BREAK_GLASS_ALERT_UNAVAILABLE''), c3)))))"

definition break_glass_grant ::
  "SafetyWorld \<Rightarrow> GrantRequest \<Rightarrow> BreakGlassController \<Rightarrow> BreakGlassGrant res \<times> BreakGlassController" where
  "break_glass_grant w q c =
     (case trusted_now w of Inl e \<Rightarrow> (Inl e, c)
      | Inr instant \<Rightarrow>
         (case grant_admissible w q c of
            Inl e \<Rightarrow>
              if is_SafetyError e
              then (case refuse w ''BREAK_GLASS_GRANT_DENIED'' instant e (request_fields q) c of (e', c') \<Rightarrow> (Inl e', c'))
              else (Inl e, c)
          | Inr _ \<Rightarrow>
             (case requested_grant q instant of
                Inl e \<Rightarrow>
                  (case e of
                     ValueError m \<Rightarrow>
                       (case append_event w (safety_event ''BREAK_GLASS_GRANT_DENIED'' None instant
                               ([(''reason_code'', PStr (lit ''BREAK_GLASS_GRANT_INVALID'')), (''detail'', PStr (lit m))] @ request_fields q)) c of
                          (Inl e', c') \<Rightarrow> (Inl e', c')
                        | (Inr _, c') \<Rightarrow> (Inl e, c'))
                   | _ \<Rightarrow> (Inl e, c))
              | Inr issued \<Rightarrow>
                 (case announce w (safety_event ''BREAK_GLASS_GRANTED'' (Some issued) instant [(''reason'', PStr (gq_reason q))])
                         (safety_event ''BREAK_GLASS_GRANT_WITHDRAWN'' (Some issued) instant
                            [(''reason_code'', PStr (lit ''BREAK_GLASS_ALERT_UNAVAILABLE''))]) c of
                    (Inl e, c') \<Rightarrow> (Inl e, c')
                  | (Inr _, c') \<Rightarrow> (Inr issued, c'\<lparr>bc_issued := dict_set (gq_grant_id q) issued (bc_issued c')\<rparr>)))))"

definition require_issued :: "BreakGlassGrant \<Rightarrow> BreakGlassController \<Rightarrow> unit res" where
  "require_issued g c =
     (if (case dict_get (bc_issued c) (bg_grant_id g) of None \<Rightarrow> True | Some k \<Rightarrow> \<not> grant_eq k g)
      then Inl (SafetyError ''BREAK_GLASS_GRANT_NOT_ISSUED'') else Inr ())"

definition break_glass_revoke :: "SafetyWorld \<Rightarrow> BreakGlassGrant \<Rightarrow> BreakGlassController \<Rightarrow> unit res \<times> BreakGlassController" where
  "break_glass_revoke w g c =
     (case trusted_now w of Inl e \<Rightarrow> (Inl e, c)
      | Inr instant \<Rightarrow>
         (case require_issued g c of Inl e \<Rightarrow> (Inl e, c)
          | Inr _ \<Rightarrow> append_event w (safety_event ''BREAK_GLASS_REVOKED'' (Some g) instant [])
                      (c\<lparr>bc_revoked := insert (bg_grant_id g) (bc_revoked c)\<rparr>)))"

definition use_admissible ::
  "SafetyWorld \<Rightarrow> datetime \<Rightarrow> BreakGlassGrant \<Rightarrow> pystr \<Rightarrow> pystr \<Rightarrow> BreakGlassController \<Rightarrow> unit res \<times> BreakGlassController" where
  "use_admissible w instant g capability review_ref c =
     (case require_issued g c of Inl e \<Rightarrow> (Inl e, c)
      | Inr _ \<Rightarrow>
         if bg_grant_id g \<in> bc_revoked c then (Inl (SafetyError ''BREAK_GLASS_EXPIRED''), c)
         else case grant_expires_at g of Inl e \<Rightarrow> (Inl e, c)
         | Inr expires \<Rightarrow>
            if dt_le expires instant then
              (case append_event w (safety_event ''BREAK_GLASS_EXPIRED_REVOKED'' (Some g) instant [])
                      (c\<lparr>bc_revoked := insert (bg_grant_id g) (bc_revoked c)\<rparr>) of
                 (Inl e, c') \<Rightarrow> (Inl e, c')
               | (Inr _, c') \<Rightarrow> (Inl (SafetyError ''BREAK_GLASS_EXPIRED''), c'))
            else if dt_lt instant (bg_granted_at g) then (Inl (SafetyError ''BREAK_GLASS_NOT_YET_VALID''), c)
            else if capability \<in> FORBIDDEN_BREAK_GLASS_CAPABILITIES then (Inl (SafetyError ''BREAK_GLASS_FORBIDDEN_CAPABILITY''), c)
            else if capability \<notin> bg_capabilities g then (Inl (SafetyError ''BREAK_GLASS_CAPABILITY_NOT_GRANTED''), c)
            else if es_status (sw_stop w) \<noteq> NORMAL then (Inl (SafetyError ''BREAK_GLASS_STOP_ACTIVE''), c)
            else if review_ref = [] then (Inl (SafetyError ''BREAK_GLASS_REVIEW_REQUIRED''), c)
            else (validate_principals (sw_directory w) (bg_requester g) (bg_approvers g) (bg_domain g), c))"

definition break_glass_authorize ::
  "SafetyWorld \<Rightarrow> BreakGlassGrant \<Rightarrow> pystr \<Rightarrow> pystr \<Rightarrow> BreakGlassController \<Rightarrow> BreakGlassUse res \<times> BreakGlassController" where
  "break_glass_authorize w g capability review_ref c =
     (case trusted_now w of Inl e \<Rightarrow> (Inl e, c)
      | Inr instant \<Rightarrow>
         let use = [(''capability'', PStr capability), (''review_ref'', PStr review_ref)] in
         (case use_admissible w instant g capability review_ref c of
            (Inl e, c') \<Rightarrow>
              if is_SafetyError e
              then (case refuse w ''BREAK_GLASS_USE_DENIED'' instant e ((''grant_id'', PStr (bg_grant_id g)) # use) c' of
                      (e', c'') \<Rightarrow> (Inl e', c''))
              else (Inl e, c')
          | (Inr _, c') \<Rightarrow>
             (case announce w (safety_event ''BREAK_GLASS_USE_AUTHORIZED'' (Some g) instant use)
                     (safety_event ''BREAK_GLASS_USE_WITHDRAWN'' (Some g) instant
                        (use @ [(''reason_code'', PStr (lit ''BREAK_GLASS_ALERT_UNAVAILABLE''))])) c' of
                (Inl e, c'') \<Rightarrow> (Inl e, c'')
              | (Inr _, c'') \<Rightarrow>
                 (Inr \<lparr>bu_grant_id = bg_grant_id g, bu_capability = capability, bu_review_ref = review_ref, bu_used_at = instant\<rparr>, c''))))"

section \<open>Reconciliation of ambiguous outcomes\<close>

datatype OutcomeStatus = CONFIRMED | FAILED | UNKNOWN | INDETERMINATE
  | COMPENSATED | COMPENSATION_FAILED | COMPENSATION_UNKNOWN | COMPENSATION_INDETERMINATE

definition AMBIGUOUS_STATUSES :: "OutcomeStatus set" where
  "AMBIGUOUS_STATUSES = {UNKNOWN, COMPENSATION_UNKNOWN, INDETERMINATE, COMPENSATION_INDETERMINATE}"

definition RESOLVABLE_STATUSES :: "OutcomeStatus set" where
  "RESOLVABLE_STATUSES = {UNKNOWN, COMPENSATION_UNKNOWN}"

record ReconciliationRecord =
  rr_command_id :: pystr
  rr_status :: OutcomeStatus
  rr_idempotent_effect_proven :: bool
  rr_recorded_at :: datetime
  rr_note :: pystr

type_synonym OutcomeReconciler = "(pystr, ReconciliationRecord) dict"

definition require_record :: "pystr \<Rightarrow> OutcomeReconciler \<Rightarrow> ReconciliationRecord res" where
  "require_record i s = (case dict_get s i of None \<Rightarrow> Inl (SafetyError ''UNKNOWN_COMMAND'') | Some r \<Rightarrow> Inr r)"

definition outcome_status :: "pystr \<Rightarrow> OutcomeReconciler \<Rightarrow> OutcomeStatus res" where
  "outcome_status i s = (case require_record i s of Inl e \<Rightarrow> Inl e | Inr r \<Rightarrow> Inr (rr_status r))"

definition put_record ::
  "pystr \<Rightarrow> OutcomeStatus \<Rightarrow> bool \<Rightarrow> datetime \<Rightarrow> pystr \<Rightarrow> OutcomeReconciler \<Rightarrow> ReconciliationRecord res \<times> OutcomeReconciler" where
  "put_record i status proven instant note s =
     (let r = \<lparr>rr_command_id = i, rr_status = status, rr_idempotent_effect_proven = proven, rr_recorded_at = instant, rr_note = note\<rparr>
      in (Inr r, dict_set i r s))"

definition mark_ambiguous ::
  "pystr \<Rightarrow> bool \<Rightarrow> datetime \<Rightarrow> pystr \<Rightarrow> OutcomeReconciler \<Rightarrow> ReconciliationRecord res \<times> OutcomeReconciler" where
  "mark_ambiguous i proven at_time note s =
     (case require_aware ''at'' at_time of Inl e \<Rightarrow> (Inl e, s) | Inr instant \<Rightarrow> put_record i UNKNOWN proven instant note s)"

definition mark_compensation_ambiguous ::
  "pystr \<Rightarrow> bool \<Rightarrow> datetime \<Rightarrow> pystr \<Rightarrow> OutcomeReconciler \<Rightarrow> ReconciliationRecord res \<times> OutcomeReconciler" where
  "mark_compensation_ambiguous i proven at_time note s =
     (case require_aware ''at'' at_time of Inl e \<Rightarrow> (Inl e, s)
      | Inr instant \<Rightarrow> put_record i COMPENSATION_UNKNOWN proven instant note s)"

definition resolve_with_evidence ::
  "pystr \<Rightarrow> bool \<Rightarrow> datetime \<Rightarrow> OutcomeReconciler \<Rightarrow> ReconciliationRecord res \<times> OutcomeReconciler" where
  "resolve_with_evidence i effect_confirmed at_time s =
     (case require_aware ''at'' at_time of Inl e \<Rightarrow> (Inl e, s)
      | Inr instant \<Rightarrow>
         (case require_record i s of Inl e \<Rightarrow> (Inl e, s)
          | Inr previous \<Rightarrow>
             if rr_status previous \<notin> RESOLVABLE_STATUSES then (Inl (SafetyError ''INVALID_RECONCILIATION_TRANSITION''), s)
             else put_record i
               (if rr_status previous = UNKNOWN then (if effect_confirmed then CONFIRMED else FAILED)
                else (if effect_confirmed then COMPENSATED else COMPENSATION_FAILED))
               (rr_idempotent_effect_proven previous) instant (lit ''resolved by Evidence'') s))"

definition escalate_if_deadline_passed ::
  "pystr \<Rightarrow> datetime \<Rightarrow> datetime \<Rightarrow> OutcomeReconciler \<Rightarrow> ReconciliationRecord res \<times> OutcomeReconciler" where
  "escalate_if_deadline_passed i at_time deadline s =
     (case require_aware ''at'' at_time of Inl e \<Rightarrow> (Inl e, s)
      | Inr instant \<Rightarrow>
         (case require_aware ''deadline'' deadline of Inl e \<Rightarrow> (Inl e, s)
          | Inr _ \<Rightarrow>
             (case require_record i s of Inl e \<Rightarrow> (Inl e, s)
              | Inr previous \<Rightarrow>
                 if rr_status previous \<notin> RESOLVABLE_STATUSES then (Inl (SafetyError ''INVALID_RECONCILIATION_TRANSITION''), s)
                 else if dt_lt instant deadline then (Inr previous, s)
                 else put_record i (if rr_status previous = UNKNOWN then INDETERMINATE else COMPENSATION_INDETERMINATE)
                   (rr_idempotent_effect_proven previous) instant (lit ''reconciliation deadline passed; adjudication opened'') s)))"

definition require_may_auto_retry :: "pystr \<Rightarrow> OutcomeReconciler \<Rightarrow> unit res" where
  "require_may_auto_retry i s =
     (case dict_get s i of None \<Rightarrow> Inr ()
      | Some r \<Rightarrow>
         if rr_status r \<in> AMBIGUOUS_STATUSES \<and> \<not> rr_idempotent_effect_proven r
         then Inl (SafetyError ''AUTO_RETRY_BLOCKED_AMBIGUOUS_NON_IDEMPOTENT'') else Inr ())"

section \<open>The stop cycle\<close>

text \<open>
  The contract in one number: after \<open>n\<close> accepted operations the controller is at position \<open>n mod 4\<close> of the cycle,
  and an epoch begins with every stop and with every reset.
\<close>

definition status_after :: "nat \<Rightarrow> StopStatus" where
  "status_after n = [NORMAL, STOPPING, STOPPED, RESET_PENDING] ! (n mod 4)"

definition epoch_after :: "nat \<Rightarrow> int" where
  "epoch_after n = 2 * int (n div 4) + (if n mod 4 = 0 then 0 else 1)"

inductive stop_step :: "EmergencyStopController \<Rightarrow> EmergencyStopController \<Rightarrow> bool" where
  activated: "stop_activate reason t c = (r, c') \<Longrightarrow> stop_step c c'"
| drained: "finish_draining t c = (r, c') \<Longrightarrow> stop_step c c'"
| reset_requested: "request_reset t approvers ids requester c = (r, c') \<Longrightarrow> stop_step c c'"
| reset_confirmed: "confirm_reset t c = (r, c') \<Longrightarrow> stop_step c c'"

inductive_cases stop_stepE: "stop_step c c'"

lemma mod4_cases: "n mod 4 = 0 \<or> n mod 4 = 1 \<or> n mod 4 = 2 \<or> n mod 4 = (3 :: nat)"
  using mod_less_divisor [of 4 n] by linarith

lemma status_after_iff:
  "status_after n = NORMAL \<longleftrightarrow> n mod 4 = 0" "status_after n = STOPPING \<longleftrightarrow> n mod 4 = 1"
  "status_after n = STOPPED \<longleftrightarrow> n mod 4 = 2" "status_after n = RESET_PENDING \<longleftrightarrow> n mod 4 = 3"
  using mod4_cases [of n] by (auto simp: status_after_def)

lemma after_Suc:
  "n mod 4 = 0 \<Longrightarrow> status_after (Suc n) = STOPPING \<and> epoch_after (Suc n) = epoch_after n + 1"
  "n mod 4 = 1 \<Longrightarrow> status_after (Suc n) = STOPPED \<and> epoch_after (Suc n) = epoch_after n"
  "n mod 4 = 2 \<Longrightarrow> status_after (Suc n) = RESET_PENDING \<and> epoch_after (Suc n) = epoch_after n"
  "n mod 4 = 3 \<Longrightarrow> status_after (Suc n) = NORMAL \<and> epoch_after (Suc n) = epoch_after n + 1"
  by (simp_all add: status_after_def epoch_after_def mod_Suc div_Suc)

text \<open>An operation is refused and changes nothing, or it is the next move of the cycle.\<close>

definition next_epoch :: "EmergencyStopController \<Rightarrow> int" where
  "next_epoch c = es_epoch c + (if es_status c = NORMAL \<or> es_status c = RESET_PENDING then 1 else 0)"

fun next_status :: "StopStatus \<Rightarrow> StopStatus" where
  "next_status NORMAL = STOPPING"
| "next_status STOPPING = STOPPED"
| "next_status STOPPED = RESET_PENDING"
| "next_status RESET_PENDING = NORMAL"

lemma stop_step_cases:
  assumes "stop_step c c'"
  obtains (refused) "c' = c"
  | (moved) ev where "sv_epoch ev = next_epoch c" "sv_status ev = next_status (es_status c)"
      "es_epoch c' = sv_epoch ev" "es_status c' = sv_status ev" "es_history c' = es_history c @ [ev]"
proof -
  have "c' = c \<or> (\<exists>ev. sv_epoch ev = next_epoch c \<and> sv_status ev = next_status (es_status c)
      \<and> es_epoch c' = sv_epoch ev \<and> es_status c' = sv_status ev \<and> es_history c' = es_history c @ [ev])"
    using assms
    by (cases rule: stop_step.cases)
      (auto simp: stop_activate_def finish_draining_def request_reset_def confirm_reset_def stop_enter_def next_epoch_def Let_def
        split: sum.splits if_splits)
  with that show ?thesis by blast
qed

definition stop_inv :: "EmergencyStopController \<Rightarrow> bool" where
  "stop_inv c \<longleftrightarrow> (let n = length (es_history c) in
     es_status c = status_after n \<and> es_epoch c = epoch_after n
     \<and> (\<forall>i<n. sv_status (es_history c ! i) = status_after (Suc i) \<and> sv_epoch (es_history c ! i) = epoch_after (Suc i)))"

lemma next_after:
  assumes "es_status c = status_after n" "es_epoch c = epoch_after n"
  shows "next_status (es_status c) = status_after (Suc n)" "next_epoch c = epoch_after (Suc n)"
  using mod4_cases [of n] after_Suc [of n] assms
  by (auto simp: next_epoch_def status_after_iff) (simp_all add: status_after_def)

lemma stop_inv_step: "stop_inv c \<Longrightarrow> stop_step c c' \<Longrightarrow> stop_inv c'"
proof -
  assume inv: "stop_inv c" and step: "stop_step c c'"
  from step show "stop_inv c'"
  proof (cases rule: stop_step_cases)
    case refused
    with inv show ?thesis by simp
  next
    case (moved ev)
    have "es_status c = status_after (length (es_history c))" "es_epoch c = epoch_after (length (es_history c))"
      using inv by (simp_all add: stop_inv_def Let_def)
    note next_after [OF this]
    with inv moved show ?thesis by (auto simp: stop_inv_def Let_def nth_append less_Suc_eq)
  qed
qed

interpretation stop_sys: invariant_system "\<lambda>c. c = new_stop_controller" stop_step stop_inv
proof
  show "stop_inv c" if "c = new_stop_controller" for c
    using that by (simp add: stop_inv_def new_stop_controller_def status_after_def epoch_after_def)
qed (rule stop_inv_step)

section \<open>The stop protocol a capability authority relies on\<close>

text \<open>
  What a capability authority needs of a \<^verbatim>\<open>StopEpochAuthority\<close>: dispatch is only allowed to the current
  epoch, and epochs never go back.
\<close>

locale stop_epoch_port =
  fixes view :: "'s \<Rightarrow> StopEpochAuthority"
    and step :: "'s \<Rightarrow> 's \<Rightarrow> bool"
  assumes guard_current: "sea_guard_dispatch (view c) e = Inr () \<Longrightarrow> e = sea_epoch (view c)"
    and epoch_step: "step c c' \<Longrightarrow> sea_epoch (view c) \<le> sea_epoch (view c')"
begin

lemma epoch_run: "step\<^sup>*\<^sup>* c c' \<Longrightarrow> sea_epoch (view c) \<le> sea_epoch (view c')"
  by (induction rule: rtranclp_induct) (auto dest: epoch_step)

lemma authorize_current:
  assumes "ca_stop a = Some s" "h s = view c" "authorize h i cap rs t subj consume a = (Inr l, b)"
  shows "cl_stop_epoch l = Some (sea_epoch (view c)) \<and> sea_guard_dispatch (view c) (sea_epoch (view c)) = Inr ()"
proof -
  obtain r a' where sweep: "sweep_superseded_leases h a = (r, a')" by force
  then have stop: "ca_stop a' = Some s"
    using assms(1) by (auto simp: sweep_superseded_leases_def split: if_splits prod.splits sum.splits)
  from assms(3) sweep have "require_current_stop_epoch h a' l = Inr ()"
    by (auto simp: authorize_def split: sum.splits option.splits bool.splits if_splits)
  with stop assms(2) obtain e where "cl_stop_epoch l = Some e" "sea_guard_dispatch (view c) e = Inr ()"
    by (auto simp: require_current_stop_epoch_def split: option.splits sum.splits if_splits)
  with guard_current show ?thesis by blast
qed

text \<open>A lease bound to an epoch that has passed is never authorized again.\<close>

lemma passed_epoch_refused:
  assumes "e < sea_epoch (view c)" "step\<^sup>*\<^sup>* c c'" "ca_stop a = Some s" "h s = view c'"
    "authorize h i cap rs t subj consume a = (Inr l, b)"
  shows "cl_stop_epoch l \<noteq> Some e"
  using authorize_current [OF assms(3-5)] epoch_run [OF assms(2)] assms(1) by auto

end

lemma stop_view_sel [simp]:
  "sea_epoch (stop_view c) = es_epoch c" "sea_guard_dispatch (stop_view c) e = guard_dispatch e c"
  by (simp_all add: stop_view_def)

lemma guard_dispatch_iff: "guard_dispatch e c = Inr () \<longleftrightarrow> es_status c = NORMAL \<and> e = es_epoch c"
  by (simp add: guard_dispatch_def)

interpretation stop_port: stop_epoch_port stop_view stop_step
proof
  show "e = sea_epoch (stop_view c)" if "sea_guard_dispatch (stop_view c) e = Inr ()" for c e
    using that by (simp add: guard_dispatch_iff)
  show "sea_epoch (stop_view c) \<le> sea_epoch (stop_view c')" if "stop_step c c'" for c c'
    using that by (cases rule: stop_step_cases) (simp_all add: next_epoch_def)
qed

lemma stop_activate_epoch: "stop_activate reason t c = (Inr ev, c') \<Longrightarrow> es_epoch c < es_epoch c'"
  by (auto simp: stop_activate_def stop_enter_def Let_def split: sum.splits if_splits)

section \<open>Reconciliation runs\<close>

datatype reconcile_op =
    Mark pystr bool datetime pystr
  | MarkCompensation pystr bool datetime pystr
  | Resolve pystr bool datetime
  | Escalate pystr datetime datetime

fun reconcile :: "reconcile_op \<Rightarrow> OutcomeReconciler \<Rightarrow> OutcomeReconciler" where
  "reconcile (Mark i proven t note) s = snd (mark_ambiguous i proven t note s)"
| "reconcile (MarkCompensation i proven t note) s = snd (mark_compensation_ambiguous i proven t note s)"
| "reconcile (Resolve i confirmed t) s = snd (resolve_with_evidence i confirmed t s)"
| "reconcile (Escalate i t deadline) s = snd (escalate_if_deadline_passed i t deadline s)"

text \<open>An operation that brings new knowledge about a command: evidence, or a mark that claims idempotence.\<close>

fun informs :: "pystr \<Rightarrow> reconcile_op \<Rightarrow> bool" where
  "informs i (Mark j proven t note) = (i = j \<and> proven)"
| "informs i (MarkCompensation j proven t note) = (i = j \<and> proven)"
| "informs i (Resolve j confirmed t) = (i = j)"
| "informs i (Escalate j t deadline) = False"

definition blocked :: "pystr \<Rightarrow> OutcomeReconciler \<Rightarrow> bool" where
  "blocked i s \<longleftrightarrow> (\<exists>r. dict_get s i = Some r \<and> rr_status r \<in> AMBIGUOUS_STATUSES \<and> \<not> rr_idempotent_effect_proven r)"

lemma blocked_iff: "blocked i s \<longleftrightarrow> require_may_auto_retry i s = Inl (SafetyError ''AUTO_RETRY_BLOCKED_AMBIGUOUS_NON_IDEMPOTENT'')"
  by (auto simp: blocked_def require_may_auto_retry_def split: option.splits if_splits)

lemma reconcile_blocked: "blocked i s \<Longrightarrow> \<not> informs i x \<Longrightarrow> blocked i (reconcile x s)"
  by (cases x)
    (auto simp: blocked_def mark_ambiguous_def mark_compensation_ambiguous_def resolve_with_evidence_def escalate_if_deadline_passed_def
      put_record_def require_record_def AMBIGUOUS_STATUSES_def Let_def split: sum.splits option.splits if_splits)

lemma reconcile_run_blocked: "blocked i s \<Longrightarrow> \<not> list_ex (informs i) xs \<Longrightarrow> blocked i (fold reconcile xs s)"
  by (induction xs arbitrary: s) (auto intro: reconcile_blocked)

section \<open>Break-glass histories\<close>

text \<open>Calls of the sinks extend the logs and touch nothing else.\<close>

definition logged :: "BreakGlassController \<Rightarrow> BreakGlassController \<Rightarrow> bool" where
  "logged c c' \<longleftrightarrow> bc_issued c' = bc_issued c \<and> bc_revoked c' = bc_revoked c
     \<and> prefix (bc_audit c) (bc_audit c') \<and> prefix (bc_alerts c) (bc_alerts c')"

lemma logged_refl [simp]: "logged c c"
  by (simp add: logged_def)

lemma logged_trans: "logged a b \<Longrightarrow> logged b c \<Longrightarrow> logged a c"
  by (auto simp: logged_def intro: prefix_order.order_trans)

lemma audit_append_logged: "audit_append w ev c = (r, c') \<Longrightarrow> logged c c'"
  by (auto simp: audit_append_def logged_def Let_def)

lemma alert_send_logged: "alert_send w ev c = (r, c') \<Longrightarrow> logged c c'"
  by (auto simp: alert_send_def logged_def Let_def)

lemma append_event_logged: "append_event w ev c = (r, c') \<Longrightarrow> logged c c'"
  by (auto simp: append_event_def dest: audit_append_logged split: sum.splits)

lemma refuse_logged: "refuse w kind t e extra c = (r, c') \<Longrightarrow> logged c c'"
  by (auto simp: refuse_def dest: append_event_logged split: prod.splits sum.splits)

lemma announce_logged: "announce w ev wd c = (r, c') \<Longrightarrow> logged c c'"
  by (auto simp: announce_def split: sum.splits prod.splits bool.splits
      dest!: audit_append_logged alert_send_logged append_event_logged intro: logged_trans)

lemma announce_ok:
  assumes "announce w ev wd c = (Inr (), c')"
  obtains e where "ev = Inr e" "bc_audit c' = bc_audit c @ [(e, True)]" "bc_alerts c' = bc_alerts c @ [(e, True)]"
  using assms
  by (auto simp: announce_def audit_append_def alert_send_def Let_def split: sum.splits prod.splits bool.splits if_splits)

lemma break_glass_grant_cases:
  assumes "break_glass_grant w q c = (r, c')"
  obtains (refused) e where "r = Inl e" "logged c c'"
  | (granted) now g c1 where "r = Inr g" "trusted_now w = Inr now" "grant_admissible w q c = Inr ()" "requested_grant q now = Inr g"
      "logged c c1" "c' = c1\<lparr>bc_issued := dict_set (gq_grant_id q) g (bc_issued c1)\<rparr>"
proof (cases "\<exists>now. trusted_now w = Inr now \<and> grant_admissible w q c = Inr () \<and> (\<exists>g. requested_grant q now = Inr g)")
  case True
  then obtain now g where q: "trusted_now w = Inr now" "grant_admissible w q c = Inr ()" "requested_grant q now = Inr g" by blast
  obtain ra c1 where a: "announce w (safety_event ''BREAK_GLASS_GRANTED'' (Some g) now [(''reason'', PStr (gq_reason q))])
      (safety_event ''BREAK_GLASS_GRANT_WITHDRAWN'' (Some g) now [(''reason_code'', PStr (lit ''BREAK_GLASS_ALERT_UNAVAILABLE''))]) c = (ra, c1)"
    by force
  show ?thesis
  proof (cases ra)
    case (Inl e)
    with assms a q have "r = Inl e" "c' = c1" by (simp_all add: break_glass_grant_def)
    with refused announce_logged [OF a] show ?thesis by blast
  next
    case (Inr u)
    with assms a q have "r = Inr g" "c' = c1\<lparr>bc_issued := dict_set (gq_grant_id q) g (bc_issued c1)\<rparr>"
      by (simp_all add: break_glass_grant_def)
    with granted q announce_logged [OF a] show ?thesis by blast
  qed
next
  case False
  have "\<exists>e. r = Inl e \<and> logged c c'"
  proof (cases "trusted_now w")
    case (Inr now)
    then show ?thesis
    proof (cases "grant_admissible w q c")
      case (Inl e)
      with assms Inr show ?thesis
        by (auto simp: break_glass_grant_def dest: refuse_logged split: if_splits prod.splits)
    next
      case adm: (Inr u)
      with False Inr obtain e where rg: "requested_grant q now = Inl e" by (cases "requested_grant q now") auto
      show ?thesis
      proof (cases "\<exists>m. e = ValueError m")
        case True
        with assms Inr adm show ?thesis
          by (auto simp: break_glass_grant_def rg dest: append_event_logged split: prod.splits sum.splits)
      next
        case False
        with assms Inr adm have "(r, c') = (Inl e, c)" by (simp add: break_glass_grant_def rg split: exn.splits)
        then show ?thesis by simp
      qed
    qed
  qed (use assms in \<open>auto simp: break_glass_grant_def\<close>)
  with refused show ?thesis by blast
qed

text \<open>A use is admitted without any change, or the state only gains a revocation and log entries.\<close>

definition use_allowed :: "SafetyWorld \<Rightarrow> datetime \<Rightarrow> BreakGlassGrant \<Rightarrow> pystr \<Rightarrow> pystr \<Rightarrow> BreakGlassController \<Rightarrow> bool" where
  "use_allowed w now g capability review_ref c \<longleftrightarrow>
     (\<exists>k. dict_get (bc_issued c) (bg_grant_id g) = Some k \<and> grant_eq k g) \<and> bg_grant_id g \<notin> bc_revoked c
     \<and> (\<exists>x. grant_expires_at g = Inr x \<and> dt_lt now x) \<and> dt_le (bg_granted_at g) now
     \<and> capability \<in> bg_capabilities g - FORBIDDEN_BREAK_GLASS_CAPABILITIES \<and> es_status (sw_stop w) = NORMAL \<and> review_ref \<noteq> []
     \<and> validate_principals (sw_directory w) (bg_requester g) (bg_approvers g) (bg_domain g) = Inr ()"

definition narrows :: "BreakGlassController \<Rightarrow> BreakGlassController \<Rightarrow> bool" where
  "narrows c c' \<longleftrightarrow> bc_issued c' = bc_issued c \<and> bc_revoked c \<subseteq> bc_revoked c'
     \<and> prefix (bc_audit c) (bc_audit c') \<and> prefix (bc_alerts c) (bc_alerts c')"

lemma logged_narrows: "logged c c' \<Longrightarrow> narrows c c'"
  by (simp add: logged_def narrows_def)

lemma narrows_trans: "narrows a b \<Longrightarrow> narrows b c \<Longrightarrow> narrows a c"
  by (auto simp: narrows_def intro: prefix_order.order_trans)

lemma narrows_revoked: "logged (c\<lparr>bc_revoked := insert i (bc_revoked c)\<rparr>) c' \<Longrightarrow> narrows c c'"
  by (auto simp: logged_def narrows_def)

lemma require_issued_iff: "require_issued g c = Inr () \<longleftrightarrow> (\<exists>k. dict_get (bc_issued c) (bg_grant_id g) = Some k \<and> grant_eq k g)"
  by (auto simp: require_issued_def split: option.splits if_splits)

lemma use_admissible_cases:
  assumes "use_admissible w now g capability review_ref c = (r, c')"
  obtains (allowed) "r = Inr ()" "use_allowed w now g capability review_ref c" "c' = c"
  | (denied) e where "r = Inl e" "narrows c c'"
proof (cases "require_issued g c")
  case (Inl e)
  with assms denied [of e] show ?thesis by (simp add: use_admissible_def narrows_def)
next
  case issued: (Inr u)
  show ?thesis
  proof (cases "bg_grant_id g \<in> bc_revoked c")
    case True
    with assms issued have "r = Inl (SafetyError ''BREAK_GLASS_EXPIRED'')" "c' = c" by (simp_all add: use_admissible_def)
    then show ?thesis by (intro denied) (auto simp: narrows_def)
  next
    case live: False
    show ?thesis
    proof (cases "grant_expires_at g")
      case (Inl e)
      with assms issued live denied [of e] show ?thesis by (simp add: use_admissible_def narrows_def)
    next
      case (Inr x)
      show ?thesis
      proof (cases "dt_le x now")
        case True
        with assms issued live Inr obtain e where "r = Inl e" "narrows c c'"
          by (auto simp: use_admissible_def dest!: append_event_logged narrows_revoked split: prod.splits sum.splits)
        with denied show ?thesis by blast
      next
        case False
        have "c' = c" using assms issued live Inr False by (auto simp: use_admissible_def split: if_splits)
        moreover have "r = Inr () \<Longrightarrow> use_allowed w now g capability review_ref c"
          using assms issued live Inr False require_issued_iff [of g c]
          by (auto simp: use_admissible_def use_allowed_def split: if_splits)
        ultimately show ?thesis using allowed denied by (cases r) (auto simp: narrows_def)
      qed
    qed
  qed
qed

lemma break_glass_authorize_cases:
  assumes "break_glass_authorize w g capability review_ref c = (r, c')"
  obtains (denied) e where "r = Inl e" "narrows c c'"
  | (used) now ev where "r = Inr \<lparr>bu_grant_id = bg_grant_id g, bu_capability = capability, bu_review_ref = review_ref, bu_used_at = now\<rparr>"
      "trusted_now w = Inr now" "use_allowed w now g capability review_ref c" "logged c c'"
      "safety_event ''BREAK_GLASS_USE_AUTHORIZED'' (Some g) now [(''capability'', PStr capability), (''review_ref'', PStr review_ref)] = Inr ev"
      "bc_audit c' = bc_audit c @ [(ev, True)]" "bc_alerts c' = bc_alerts c @ [(ev, True)]"
proof (cases "trusted_now w")
  case (Inl e)
  with assms denied [of e] show ?thesis by (simp add: break_glass_authorize_def narrows_def)
next
  case now: (Inr now)
  obtain ra ca where a: "use_admissible w now g capability review_ref c = (ra, ca)" by force
  from a show ?thesis
  proof (cases rule: use_admissible_cases)
    case (denied e)
    from assms now a denied(1) have "\<exists>e'. r = Inl e' \<and> logged ca c'"
      by (auto simp: break_glass_authorize_def Let_def dest: refuse_logged split: if_splits prod.splits)
    with denied(2) that(1) show ?thesis by (blast intro: narrows_trans logged_narrows)
  next
    case allowed
    let ?use = "[(''capability'', PStr capability), (''review_ref'', PStr review_ref)]"
    let ?ev = "safety_event ''BREAK_GLASS_USE_AUTHORIZED'' (Some g) now ?use"
    let ?wd = "safety_event ''BREAK_GLASS_USE_WITHDRAWN'' (Some g) now
      (?use @ [(''reason_code'', PStr (lit ''BREAK_GLASS_ALERT_UNAVAILABLE''))])"
    obtain rb cb where b: "announce w ?ev ?wd c = (rb, cb)" by force
    show ?thesis
    proof (cases rb)
      case (Inl e)
      with assms now a allowed b have "r = Inl e" "c' = cb" by (simp_all add: break_glass_authorize_def Let_def)
      with that(1) announce_logged [OF b] logged_narrows show ?thesis by blast
    next
      case (Inr u)
      then have ok: "announce w ?ev ?wd c = (Inr (), cb)" using b by simp
      from ok obtain ev where ev: "?ev = Inr ev" "bc_audit cb = bc_audit c @ [(ev, True)]" "bc_alerts cb = bc_alerts c @ [(ev, True)]"
        by (rule announce_ok)
      from assms now a allowed ok have "c' = cb"
        "r = Inr \<lparr>bu_grant_id = bg_grant_id g, bu_capability = capability, bu_review_ref = review_ref, bu_used_at = now\<rparr>"
        by (simp_all add: break_glass_authorize_def Let_def)
      with that(2) now allowed(2) announce_logged [OF b] ev show ?thesis by blast
    qed
  qed
qed

lemma grant_post_init_eq: "grant_post_init g = Inr g' \<Longrightarrow> g' = g"
  unfolding grant_post_init_def by (simp split: sum.split_asm if_split_asm)

lemma grant_post_init_window: "grant_post_init g = Inr g' \<Longrightarrow> dt_aware (bg_granted_at g) \<and> 0 < bg_ttl g \<and> bg_ttl g \<le> MAX_BREAK_GLASS_TTL"
  unfolding grant_post_init_def by (simp split: sum.split_asm if_split_asm)

lemma grant_expires_bound: "grant_expires_at g = Inr x \<Longrightarrow> dt_instant x = dt_instant (bg_granted_at g) + bg_ttl g"
  by (auto simp: grant_expires_at_def dt_add_def dt_instant_def Let_def split: if_splits tz.splits)

inductive break_glass_step :: "BreakGlassController \<Rightarrow> BreakGlassController \<Rightarrow> bool" where
  granting: "break_glass_grant w q c = (r, c') \<Longrightarrow> break_glass_step c c'"
| revoking: "break_glass_revoke w g c = (r, c') \<Longrightarrow> break_glass_step c c'"
| using_grant: "break_glass_authorize w g capability review_ref c = (r, c') \<Longrightarrow> break_glass_step c c'"

inductive_cases break_glass_stepE: "break_glass_step c c'"

text \<open>A step narrows, or issues one new, well-formed grant under an unused id.\<close>

lemma break_glass_step_cases:
  assumes "break_glass_step c c'"
  obtains (narrowed) "narrows c c'"
  | (issued) g where "dict_get (bc_issued c) (bg_grant_id g) = None" "grant_post_init g = Inr g"
      "bg_capabilities g \<inter> FORBIDDEN_BREAK_GLASS_CAPABILITIES = {}" "bc_revoked c' = bc_revoked c"
      "bc_issued c' = dict_set (bg_grant_id g) g (bc_issued c)"
      "prefix (bc_audit c) (bc_audit c')" "prefix (bc_alerts c) (bc_alerts c')"
  using assms
proof cases
  case (granting w q r)
  then show ?thesis
  proof (cases rule: break_glass_grant_cases)
    case (refused e)
    then show ?thesis using narrowed logged_narrows by blast
  next
    case (granted now g c1)
    have g: "grant_post_init g = Inr g" "bg_grant_id g = gq_grant_id q" "bg_capabilities g = gq_capabilities q"
      using grant_post_init_eq [OF granted(4) [unfolded requested_grant_def]] granted(4) by (simp_all add: requested_grant_def)
    have "dict_get (bc_issued c) (gq_grant_id q) = None" "gq_capabilities q \<inter> FORBIDDEN_BREAK_GLASS_CAPABILITIES = {}"
      using granted(3) by (auto simp: grant_admissible_def split: if_splits)
    with g granted(5,6) show ?thesis by (intro issued [of g]) (auto simp: logged_def)
  qed
next
  case (revoking w g r)
  have "c' = c \<or> narrows c c'"
  proof (cases "\<exists>now. trusted_now w = Inr now \<and> require_issued g c = Inr ()")
    case True
    then obtain now where "trusted_now w = Inr now" "require_issued g c = Inr ()" by blast
    with revoking have "append_event w (safety_event ''BREAK_GLASS_REVOKED'' (Some g) now [])
        (c\<lparr>bc_revoked := insert (bg_grant_id g) (bc_revoked c)\<rparr>) = (r, c')" by (simp add: break_glass_revoke_def)
    then show ?thesis using append_event_logged narrows_revoked by blast
  next
    case False
    with revoking show ?thesis by (auto simp: break_glass_revoke_def split: sum.splits)
  qed
  then have "narrows c c'" by (auto simp: narrows_def)
  then show ?thesis by (rule narrowed)
next
  case (using_grant w g capability review_ref r)
  then show ?thesis
  proof (cases rule: break_glass_authorize_cases)
    case (denied e)
    from denied(2) show ?thesis by (rule narrowed)
  next
    case (used now ev)
    from logged_narrows [OF used(4)] show ?thesis by (rule narrowed)
  qed
qed

definition break_glass_inv :: "BreakGlassController \<Rightarrow> bool" where
  "break_glass_inv c \<longleftrightarrow> (\<forall>i g. dict_get (bc_issued c) i = Some g \<longrightarrow>
     bg_grant_id g = i \<and> grant_post_init g = Inr g \<and> bg_capabilities g \<inter> FORBIDDEN_BREAK_GLASS_CAPABILITIES = {})"

interpretation glass_sys: invariant_system "\<lambda>c. c = new_break_glass" break_glass_step break_glass_inv
proof
  show "break_glass_inv c" if "c = new_break_glass" for c using that by (simp add: break_glass_inv_def new_break_glass_def)
  show "break_glass_inv c'" if "break_glass_inv c" "break_glass_step c c'" for c c'
    using that(2) by (cases rule: break_glass_step_cases) (use that(1) in \<open>auto simp: break_glass_inv_def narrows_def\<close>)
qed

definition break_glass_le :: "BreakGlassController \<Rightarrow> BreakGlassController \<Rightarrow> bool" where
  "break_glass_le c c' \<longleftrightarrow> bc_revoked c \<subseteq> bc_revoked c' \<and> dict_get (bc_issued c) \<subseteq>\<^sub>m dict_get (bc_issued c')
     \<and> prefix (bc_audit c) (bc_audit c') \<and> prefix (bc_alerts c) (bc_alerts c')"

interpretation glass_run: monotone_system break_glass_step break_glass_le
proof
  show "break_glass_le c c" for c by (simp add: break_glass_le_def)
  show "break_glass_le a c" if "break_glass_le a b" "break_glass_le b c" for a b c
    using that by (auto simp: break_glass_le_def intro: map_le_trans prefix_order.order_trans)
  show "break_glass_le c c'" if "break_glass_step c c'" for c c'
    using that by (cases rule: break_glass_step_cases) (auto simp: break_glass_le_def narrows_def map_le_def)
qed

section \<open>What the registry must say of an approver\<close>

definition holds_role :: "directory \<Rightarrow> pystr \<Rightarrow> pystr \<Rightarrow> bool" where
  "holds_role dir p role \<longleftrightarrow> (\<exists>rec raw. dir p = Some rec
     \<and> dict_get (id_attributes rec) (lit ''principal_kind'') = Some (PStr (lit ''HUMAN''))
     \<and> dict_get (id_attributes rec) (lit ''status'') = Some (PStr (lit ''ACTIVE''))
     \<and> dict_get (id_attributes rec) (lit ''roles'') = Some (PStr raw) \<and> role \<in> set (split_at 32 raw))"

lemma read_principal_role:
  assumes "read_principal dir p = Inr (Some pr)" "pl_kind pr = lit ''HUMAN''" "pl_active pr" "role \<in> pl_roles pr"
  shows "holds_role dir p role"
proof -
  from assms(1) obtain rec where rec: "dir p = Some rec" by (cases "dir p") (auto simp: read_principal_def)
  let ?kind = "case dict_get (id_attributes rec) (lit ''principal_kind'') of None \<Rightarrow> PNone | Some v \<Rightarrow> v"
  let ?raw = "case dict_get (id_attributes rec) (lit ''roles'') of None \<Rightarrow> PStr [] | Some v \<Rightarrow> v"
  have kind: "?kind = PStr (lit ''HUMAN'') \<or> ?kind = PStr (lit ''WORKLOAD'')"
    using assms(1) rec by (auto simp: read_principal_def Let_def split: if_split_asm)
  from kind assms(1) rec obtain raw where raw: "?raw = PStr raw"
    and pr: "pr = \<lparr>pl_canonical_id = p, pl_kind = (case ?kind of PStr k \<Rightarrow> k | _ \<Rightarrow> []),
      pl_active = (dict_get (id_attributes rec) (lit ''status'') = Some (PStr (lit ''ACTIVE''))),
      pl_roles = set (if raw = [] then [] else split_at 32 raw)\<rparr>"
    by (cases ?raw) (auto simp: read_principal_def Let_def split: if_split_asm)
  have "?kind = PStr (lit ''HUMAN'')" using kind assms(2) pr by auto
  then have "dict_get (id_attributes rec) (lit ''principal_kind'') = Some (PStr (lit ''HUMAN''))" by (simp split: option.split_asm)
  moreover have "dict_get (id_attributes rec) (lit ''status'') = Some (PStr (lit ''ACTIVE''))" using assms(3) pr by simp
  moreover have "raw \<noteq> []" "role \<in> set (split_at 32 raw)" using assms(4) pr by (auto split: if_split_asm)
  moreover have "dict_get (id_attributes rec) (lit ''roles'') = Some (PStr raw)"
    using raw \<open>raw \<noteq> []\<close> by (simp split: option.split_asm)
  ultimately show ?thesis using rec unfolding holds_role_def by blast
qed

lemma read_approver_role:
  assumes "read_approver dir p = Inr pr" "role \<in> pl_roles pr"
  shows "holds_role dir p role"
  using assms by (auto simp: read_approver_def intro: read_principal_role split: sum.splits option.splits if_split_asm)

lemma validate_principals_ok:
  assumes "validate_principals dir requester approvers domain = Inr ()"
  obtains p q where "set approvers = {p, q}" "p \<noteq> q" "requester \<notin> {p, q}" "holds_role dir p (lit ''SECURITY_DUTY_OFFICER'')"
    "holds_role dir q (lit ''DOMAIN_OWNER:'' @ domain)"
proof -
  have two: "length approvers = 2" "card (set approvers) = 2" "requester \<notin> set approvers"
    using assms by (auto simp: validate_principals_def split: if_split_asm)
  then obtain p q where pq: "approvers = [p, q]" by (auto simp: length_Suc_conv numeral_2_eq_2)
  have "p \<noteq> q" using two(2) pq by auto
  from assms two pq obtain a b where ab: "read_approver dir p = Inr a" "read_approver dir q = Inr b" "role_quorum domain [a, b]"
    by (auto simp: validate_principals_def split: if_split_asm sum.split_asm)
  have roles: "holds_role dir p r" if "r \<in> pl_roles a" for r using that ab(1) by (rule read_approver_role [rotated])
  have roles': "holds_role dir q r" if "r \<in> pl_roles b" for r using that ab(2) by (rule read_approver_role [rotated])
  from ab(3) consider "lit ''SECURITY_DUTY_OFFICER'' \<in> pl_roles a" "lit ''DOMAIN_OWNER:'' @ domain \<in> pl_roles b"
    | "lit ''SECURITY_DUTY_OFFICER'' \<in> pl_roles b" "lit ''DOMAIN_OWNER:'' @ domain \<in> pl_roles a"
    by (auto simp: role_quorum_def Let_def)
  then show ?thesis
  proof cases
    case 1
    then show ?thesis using that [of p q] pq \<open>p \<noteq> q\<close> two(3) roles roles' by auto
  next
    case 2
    then show ?thesis using that [of q p] pq \<open>p \<noteq> q\<close> two(3) roles roles' by auto
  qed
qed

section \<open>Properties\<close>

text \<open>
  C11 [stop_machine_exact]: every reachable emergency-stop controller is a function of the number of accepted
  operations: status and epoch, and those of every recorded event, are the ones of the cycle
  NORMAL, STOPPING, STOPPED, RESET_PENDING; dispatch is allowed exactly in the normal positions and to the epoch
  of that position; and a reset is accepted only from two distinct active humans other than its requester.
\<close>

theorem stop_machine_exact:
  assumes "stop_step\<^sup>*\<^sup>* new_stop_controller c" and "n = length (es_history c)"
  shows "es_status c = status_after n \<and> es_epoch c = epoch_after n
    \<and> (\<forall>i<n. sv_status (es_history c ! i) = status_after (Suc i) \<and> sv_epoch (es_history c ! i) = epoch_after (Suc i))
    \<and> (\<forall>e. guard_dispatch e c = Inr () \<longleftrightarrow> n mod 4 = 0 \<and> e = epoch_after n)
    \<and> (\<forall>now approvers ids requester ev c'. request_reset now approvers ids requester c = (Inr ev, c') \<longrightarrow>
        n mod 4 = 2 \<and> (\<exists>p q. approvers = [p, q] \<and> p \<noteq> q \<and> requester \<notin> {p, q}
          \<and> active_human_roles (registry_get p ids) \<noteq> None \<and> active_human_roles (registry_get q ids) \<noteq> None))"
proof (intro conjI allI impI)
  have inv: "stop_inv c" using stop_sys.reachable_invar [OF refl assms(1)] .
  then show state: "es_status c = status_after n" "es_epoch c = epoch_after n" using assms(2) by (simp_all add: stop_inv_def Let_def)
  fix i assume "i < n"
  with inv assms(2) show "sv_status (es_history c ! i) = status_after (Suc i)" "sv_epoch (es_history c ! i) = epoch_after (Suc i)"
    by (simp_all add: stop_inv_def Let_def)
next
  fix e
  have "stop_inv c" using stop_sys.reachable_invar [OF refl assms(1)] .
  then show "guard_dispatch e c = Inr () \<longleftrightarrow> n mod 4 = 0 \<and> e = epoch_after n"
    using assms(2) by (auto simp: stop_inv_def Let_def guard_dispatch_iff status_after_iff)
next
  fix now approvers ids requester ev c'
  assume r: "request_reset now approvers ids requester c = (Inr ev, c')"
  have "stop_inv c" using stop_sys.reachable_invar [OF refl assms(1)] .
  with r show "n mod 4 = 2"
    using assms(2) by (auto simp: request_reset_def stop_inv_def Let_def status_after_iff split: if_split_asm)
  from r have two: "length approvers = 2" "card (set approvers) = 2" "requester \<notin> set approvers"
    "\<not> list_ex (\<lambda>p. active_human_roles (registry_get p ids) = None) approvers"
    by (auto simp: request_reset_def split: if_split_asm)
  then obtain p q where "approvers = [p, q]" by (auto simp: length_Suc_conv numeral_2_eq_2)
  with two show "\<exists>p q. approvers = [p, q] \<and> p \<noteq> q \<and> requester \<notin> {p, q}
      \<and> active_human_roles (registry_get p ids) \<noteq> None \<and> active_human_roles (registry_get q ids) \<noteq> None"
    by auto
qed

definition stopped_example :: EmergencyStopController where
  "stopped_example = snd (stop_activate (lit ''r'') (utc_at 0) new_stop_controller)"

lemma stopped_example_activated:
  "stop_activate (lit ''r'') (utc_at 0) new_stop_controller =
     (Inr \<lparr>sv_epoch = 1, sv_status = STOPPING, sv_reason = lit ''r'', sv_at = utc_at 0\<rparr>, stopped_example)"
  by (simp add: stopped_example_def stop_activate_def stop_enter_def new_stop_controller_def Let_def)

theorem stop_machine_exact_witness: "es_status stopped_example = STOPPING \<and> es_epoch stopped_example = 1"
proof -
  have "stop_step\<^sup>*\<^sup>* new_stop_controller stopped_example"
    using stop_step.activated [OF stopped_example_activated] by blast
  moreover have "1 = length (es_history stopped_example)"
    by (simp add: stopped_example_def stop_activate_def stop_enter_def new_stop_controller_def Let_def)
  ultimately have "es_status stopped_example = status_after 1 \<and> es_epoch stopped_example = epoch_after 1"
    using stop_machine_exact by blast
  then show ?thesis by (simp add: status_after_def epoch_after_def)
qed

text \<open>
  C7 [stop_fences_leases]: after an emergency stop is accepted, a capability authority bound to the controller never
  again authorizes a lease fenced to the epoch before that stop or to an older one, not even after draining and a
  completed reset: whatever it authorizes is fenced to the current epoch, which is newer, while the system is normal.
\<close>

theorem stop_fences_leases:
  assumes "stop_activate reason t c = (Inr ev, c1)" and "stop_step\<^sup>*\<^sup>* c1 c2"
    and "ca_stop a = Some s" "h s = stop_view c2"
    and "authorize h i cap rs at_time subj consume a = (Inr l, b)"
  shows "\<exists>e. cl_stop_epoch l = Some e \<and> es_epoch c < e \<and> e = es_epoch c2 \<and> es_status c2 = NORMAL"
proof -
  have "cl_stop_epoch l = Some (es_epoch c2)" "es_status c2 = NORMAL"
    using stop_port.authorize_current [OF assms(3-5)] by (simp_all add: guard_dispatch_iff)
  moreover have "es_epoch c < es_epoch c2"
    using stop_activate_epoch [OF assms(1)] stop_port.epoch_run [OF assms(2)] by simp
  ultimately show ?thesis by simp
qed

definition reset_example :: EmergencyStopController where
  "reset_example = snd (confirm_reset (utc_at 3) (snd (request_reset (utc_at 2) [lit ''ann'', lit ''bob''] (gw_identities example_world) (lit ''eve'')
     (snd (finish_draining (utc_at 1) stopped_example)))))"

lemma reset_example_run: "stop_step\<^sup>*\<^sup>* stopped_example reset_example"
proof -
  have drain: "stop_step c (snd (finish_draining t c))" for c t by (rule stop_step.drained [OF prod.collapse [symmetric]])
  have request: "stop_step c (snd (request_reset t as ids q c))" for c t as ids q
    by (rule stop_step.reset_requested [OF prod.collapse [symmetric]])
  have confirm: "stop_step c (snd (confirm_reset t c))" for c t by (rule stop_step.reset_confirmed [OF prod.collapse [symmetric]])
  show ?thesis unfolding reset_example_def
    by (rule rtranclp.rtrancl_into_rtrancl [OF rtranclp.rtrancl_into_rtrancl [OF r_into_rtranclp [of stop_step, OF drain] request] confirm])
qed

lemma reset_example_state: "es_status reset_example = NORMAL" "es_epoch reset_example = 2"
proof -
  have "active_human_roles (registry_get (lit ''ann'') (gw_identities example_world)) \<noteq> None"
    "active_human_roles (registry_get (lit ''bob'') (gw_identities example_world)) \<noteq> None"
    by (simp_all add: example_world_def example_human_def registry_get_def active_human_roles_def role_token_def is_upper_def
        lit_def insort_key_def Let_def)
  then show "es_status reset_example = NORMAL" "es_epoch reset_example = 2"
    by (simp_all add: reset_example_def confirm_reset_def request_reset_def finish_draining_def stopped_example_def stop_activate_def
        stop_enter_def new_stop_controller_def Let_def)
qed

text \<open>The ledger of a capability authority with one lease fenced to epoch 2.\<close>

definition fenced_ledger :: CapabilityAuthority where
  "fenced_ledger = example_ledger\<lparr>ca_leases := [(lit ''i'', example_lease\<lparr>cl_stop_epoch := Some 2\<rparr>)], ca_stop := Some 0,
     ca_bound_epoch := 2, ca_swept_epoch := 2\<rparr>"

lemma fenced_authorized:
  "authorize (\<lambda>_. stop_view reset_example) (lit ''i'') (lit ''x:y'') (lit ''r'') (utc_at 5) None True fenced_ledger =
     (Inr (example_lease\<lparr>cl_stop_epoch := Some 2\<rparr>), fenced_ledger\<lparr>ca_uses := [(lit ''i'', 1)]\<rparr>)"
proof -
  have "allows (example_lease\<lparr>cl_stop_epoch := Some 2\<rparr>) (lit ''x:y'') (lit ''r'') (utc_at 5) None = Inr True"
    by (simp add: allows_True_iff is_active_iff in_scope_def example_lease_def capability_matches_def
        resource_matches_def lit_def suffix_def)
  moreover have "require_active_ancestry L (example_lease\<lparr>cl_stop_epoch := Some 2\<rparr>) (utc_at 5) {} = Inr ()" for L
    by (subst require_active_ancestry.simps) (simp add: example_lease_def)
  moreover have "cl_max_uses example_lease = Some 2" by (simp add: example_lease_def)
  ultimately show ?thesis
    by (simp add: authorize_def sweep_superseded_leases_def fenced_ledger_def example_ledger_def example_authority_def
        require_current_stop_epoch_def guard_dispatch_def reset_example_state)
qed

theorem stop_fences_leases_witness: "\<exists>e. cl_stop_epoch (example_lease\<lparr>cl_stop_epoch := Some 2\<rparr>) = Some e \<and> 0 < e"
proof -
  have "ca_stop fenced_ledger = Some 0" by (simp add: fenced_ledger_def)
  from stop_fences_leases [OF stopped_example_activated reset_example_run this refl fenced_authorized]
  show ?thesis by (auto simp: new_stop_controller_def)
qed

text \<open>
  C10 [break_glass_sound]: in every history of a break-glass controller, a use is authorized only on a grant this
  controller issued and never revoked or found expired before, inside its own window, from the moment of the
  grant to before that moment plus the grant's time to live, which is positive and at most fifteen minutes, for a named capability that is not on the denylist, while no emergency stop is active, with a review reference, two
  distinct active humans other than the requester holding the duty-officer role and the domain's owner role at
  that moment; and the use is in the audit log and alerted.
\<close>

theorem break_glass_sound:
  assumes "break_glass_step\<^sup>*\<^sup>* new_break_glass c0" "break_glass_step\<^sup>*\<^sup>* c0 c"
    and "break_glass_authorize w g capability review_ref c = (Inr u, c')"
  shows "(\<exists>k. dict_get (bc_issued c) (bg_grant_id g) = Some k \<and> grant_eq k g)
    \<and> bg_grant_id g \<notin> bc_revoked c0 \<and> bg_grant_id g \<notin> bc_revoked c
    \<and> dt_le (bg_granted_at g) (bu_used_at u) \<and> dt_instant (bu_used_at u) < dt_instant (bg_granted_at g) + bg_ttl g
    \<and> 0 < bg_ttl g \<and> bg_ttl g \<le> 15 * 60 * 1000000
    \<and> capability \<in> bg_capabilities g \<and> capability \<notin> FORBIDDEN_BREAK_GLASS_CAPABILITIES
    \<and> es_status (sw_stop w) = NORMAL \<and> review_ref \<noteq> []
    \<and> (\<exists>p q. set (bg_approvers g) = {p, q} \<and> p \<noteq> q \<and> bg_requester g \<notin> {p, q}
        \<and> holds_role (sw_directory w) p (lit ''SECURITY_DUTY_OFFICER'')
        \<and> holds_role (sw_directory w) q (lit ''DOMAIN_OWNER:'' @ bg_domain g))
    \<and> (\<exists>ev. dict_get ev ''event'' = Some (PStr (lit ''BREAK_GLASS_USE_AUTHORIZED''))
        \<and> last (bc_audit c') = (ev, True) \<and> last (bc_alerts c') = (ev, True))"
  using assms(3)
proof (cases rule: break_glass_authorize_cases)
  case (used now ev)
  have "break_glass_step\<^sup>*\<^sup>* new_break_glass c" using assms(1,2) by (rule rtranclp_trans)
  then have inv: "break_glass_inv c" using glass_sys.reachable_invar by blast
  have run: "bc_revoked c0 \<subseteq> bc_revoked c" using glass_run.run_le [OF assms(2)] by (simp add: break_glass_le_def)
  note allowed = used(3) [unfolded use_allowed_def]
  obtain k where k: "dict_get (bc_issued c) (bg_grant_id g) = Some k" "grant_eq k g" using allowed by blast
  have "0 < bg_ttl k" "bg_ttl k \<le> MAX_BREAK_GLASS_TTL"
    using inv k(1) grant_post_init_window by (auto simp: break_glass_inv_def)
  moreover have "bg_ttl (k\<lparr>bg_granted_at := bg_granted_at g\<rparr>) = bg_ttl g" using k(2) by (simp only: grant_eq_def)
  moreover obtain x where x: "grant_expires_at g = Inr x" "dt_lt now x" using allowed by blast
  ultimately have window: "dt_instant now < dt_instant (bg_granted_at g) + bg_ttl g" "0 < bg_ttl g" "bg_ttl g \<le> 15 * 60 * 1000000"
    using grant_expires_bound [OF x(1)] by (simp_all add: MAX_BREAK_GLASS_TTL_def)
  obtain p q where "set (bg_approvers g) = {p, q}" "p \<noteq> q" "bg_requester g \<notin> {p, q}"
    "holds_role (sw_directory w) p (lit ''SECURITY_DUTY_OFFICER'')" "holds_role (sw_directory w) q (lit ''DOMAIN_OWNER:'' @ bg_domain g)"
    using allowed validate_principals_ok by blast
  moreover have "dict_get ev ''event'' = Some (PStr (lit ''BREAK_GLASS_USE_AUTHORIZED''))"
    using used(5) by (auto simp: safety_event_def Let_def split: sum.split_asm)
  ultimately show ?thesis using allowed k run used(1,6,7) window by auto
qed simp

definition glass_world :: SafetyWorld where
  "glass_world = \<lparr>sw_directory = map_of [(lit ''ann'', example_human ''ann'' ''SECURITY_DUTY_OFFICER''),
       (lit ''bob'', example_human ''bob'' ''DOMAIN_OWNER:d''), (lit ''eve'', example_human ''eve'' ''OPERATOR'')],
     sw_stop = new_stop_controller, sw_clock = Inr (utc_at 5), sw_audit = (\<lambda>_ _. True), sw_alerts = (\<lambda>_ _. True)\<rparr>"

definition glass_request :: GrantRequest where
  "glass_request = \<lparr>gq_grant_id = lit ''g'', gq_requester = lit ''eve'', gq_reason = lit ''r'', gq_incident_ref = lit ''i'', gq_scope = lit ''s'',
     gq_domain = lit ''d'', gq_capabilities = {lit ''restart''}, gq_approvers = [lit ''ann'', lit ''bob''], gq_ttl = 60000000\<rparr>"

definition glass_grant :: BreakGlassGrant where
  "glass_grant = \<lparr>bg_grant_id = lit ''g'', bg_requester = lit ''eve'', bg_reason = lit ''r'', bg_incident_ref = lit ''i'', bg_scope = lit ''s'',
     bg_domain = lit ''d'', bg_capabilities = {lit ''restart''}, bg_approvers = [lit ''ann'', lit ''bob''], bg_granted_at = utc_at 5,
     bg_ttl = 60000000\<rparr>"

lemma glass_principals: "validate_principals (sw_directory glass_world) (lit ''eve'') [lit ''ann'', lit ''bob''] (lit ''d'') = Inr ()"
  by (simp add: validate_principals_def read_approver_def read_principal_def role_quorum_def glass_world_def example_human_def
      role_token_def is_upper_def is_role_char_def is_space_def lit_def Let_def)

lemma announce_accepted:
  assumes "\<And>calls e. sw_audit w calls e" "\<And>calls e. sw_alerts w calls e"
  shows "announce w (Inr ev) wd c = (Inr (), c\<lparr>bc_audit := bc_audit c @ [(ev, True)], bc_alerts := bc_alerts c @ [(ev, True)]\<rparr>)"
  using assms by (simp add: announce_def audit_append_def alert_send_def Let_def)

lemma glass_sinks: "sw_audit glass_world calls e" "sw_alerts glass_world calls e"
  by (simp_all add: glass_world_def)

lemma glass_event: "\<exists>ev. safety_event kind (Some glass_grant) t extra = Inr ev"
  by (simp add: safety_event_def grant_expires_at_def glass_grant_def dt_add_def utc_at_def max_wall_def Let_def)

lemma glass_granted:
  "\<exists>c. break_glass_grant glass_world glass_request new_break_glass = (Inr glass_grant, c) \<and> bc_issued c = [(lit ''g'', glass_grant)] \<and> bc_revoked c = {}"
proof -
  have now: "trusted_now glass_world = Inr (utc_at 5)" by (simp add: trusted_now_def glass_world_def)
  have adm: "grant_admissible glass_world glass_request new_break_glass = Inr ()"
    using glass_principals by (simp add: grant_admissible_def glass_request_def new_break_glass_def FORBIDDEN_BREAK_GLASS_CAPABILITIES_def)
  have req: "requested_grant glass_request (utc_at 5) = Inr glass_grant"
    by (simp add: requested_grant_def grant_post_init_def glass_request_def glass_grant_def MAX_BREAK_GLASS_TTL_def lit_def is_space_def)
  obtain ev where "safety_event ''BREAK_GLASS_GRANTED'' (Some glass_grant) (utc_at 5) [(''reason'', PStr (gq_reason glass_request))] = Inr ev"
    using glass_event by blast
  moreover have "gq_grant_id glass_request = lit ''g''" "bc_issued new_break_glass = []" "bc_revoked new_break_glass = {}"
    by (simp_all add: glass_request_def new_break_glass_def)
  ultimately show ?thesis
    by (simp add: break_glass_grant_def now adm req announce_accepted [OF glass_sinks])
qed

lemma glass_grant_sel:
  "bg_grant_id glass_grant = lit ''g''" "bg_requester glass_grant = lit ''eve''" "bg_domain glass_grant = lit ''d''"
  "bg_capabilities glass_grant = {lit ''restart''}" "bg_approvers glass_grant = [lit ''ann'', lit ''bob'']"
  "bg_granted_at glass_grant = utc_at 5" "es_status (sw_stop glass_world) = NORMAL"
  by (simp_all add: glass_grant_def glass_world_def new_stop_controller_def)

theorem break_glass_sound_witness:
  "\<exists>c u c'. break_glass_authorize glass_world glass_grant (lit ''restart'') (lit ''rev'') c = (Inr u, c')
    \<and> dt_instant (bu_used_at u) < dt_instant (bg_granted_at glass_grant) + bg_ttl glass_grant \<and> bg_ttl glass_grant = 60000000"
proof -
  obtain c where c: "break_glass_grant glass_world glass_request new_break_glass = (Inr glass_grant, c)"
    "bc_issued c = [(lit ''g'', glass_grant)]" "bc_revoked c = {}" using glass_granted by blast
  have run: "break_glass_step\<^sup>*\<^sup>* new_break_glass c" using break_glass_step.granting [OF c(1)] by blast
  have now: "trusted_now glass_world = Inr (utc_at 5)" by (simp add: trusted_now_def glass_world_def)
  obtain x where x: "grant_expires_at glass_grant = Inr x" "dt_lt (utc_at 5) x"
    by (auto simp: grant_expires_at_def glass_grant_def dt_add_def utc_at_def max_wall_def dt_instant_def)
  have "use_admissible glass_world (utc_at 5) glass_grant (lit ''restart'') (lit ''rev'') c = (Inr (), c)"
    using x glass_principals glass_grant_sel c(2,3)
    by (simp add: use_admissible_def require_issued_def grant_eq_def FORBIDDEN_BREAK_GLASS_CAPABILITIES_def)
  moreover obtain ev where "safety_event ''BREAK_GLASS_USE_AUTHORIZED'' (Some glass_grant) (utc_at 5)
      [(''capability'', PStr (lit ''restart'')), (''review_ref'', PStr (lit ''rev''))] = Inr ev" using glass_event by blast
  ultimately obtain u c' where u: "break_glass_authorize glass_world glass_grant (lit ''restart'') (lit ''rev'') c = (Inr u, c')"
    using now by (simp add: break_glass_authorize_def announce_accepted [OF glass_sinks])
  have "dt_instant (bu_used_at u) < dt_instant (bg_granted_at glass_grant) + bg_ttl glass_grant"
    using break_glass_sound [OF run rtranclp.rtrancl_refl u] by (elim conjE)
  moreover have "bg_ttl glass_grant = 60000000" by (simp add: glass_grant_def)
  ultimately show ?thesis using u by blast
qed

text \<open>
  C39 [ambiguous_never_retried]: a command whose outcome is ambiguous and whose effect is not proven idempotent stays
  blocked for automatic retry through any sequence of reconciliation operations, deadlines passed included, until
  one of them brings evidence or a proof of idempotence for that very command.
\<close>

theorem ambiguous_never_retried:
  assumes "mark_ambiguous i False t note s = (Inr r, s1) \<or> mark_compensation_ambiguous i False t note s = (Inr r, s1)"
    and "\<not> list_ex (informs i) xs"
  shows "require_may_auto_retry i (fold reconcile xs s1) = Inl (SafetyError ''AUTO_RETRY_BLOCKED_AMBIGUOUS_NON_IDEMPOTENT'')
    \<and> (\<exists>st. outcome_status i (fold reconcile xs s1) = Inr st \<and> st \<in> AMBIGUOUS_STATUSES)"
proof -
  have "blocked i s1"
    using assms(1) by (auto simp: blocked_def mark_ambiguous_def mark_compensation_ambiguous_def put_record_def AMBIGUOUS_STATUSES_def
        Let_def split: sum.splits)
  then have "blocked i (fold reconcile xs s1)" using assms(2) by (rule reconcile_run_blocked)
  moreover from this have "\<exists>st. outcome_status i (fold reconcile xs s1) = Inr st \<and> st \<in> AMBIGUOUS_STATUSES"
    by (auto simp: blocked_def outcome_status_def require_record_def)
  ultimately show ?thesis using blocked_iff by simp
qed

theorem ambiguous_never_retried_witness:
  "require_may_auto_retry (lit ''c'') (fold reconcile [Escalate (lit ''c'') (utc_at 9) (utc_at 5), Resolve (lit ''d'') True (utc_at 9)]
      (snd (mark_ambiguous (lit ''c'') False (utc_at 0) (lit ''n'') []))) = Inl (SafetyError ''AUTO_RETRY_BLOCKED_AMBIGUOUS_NON_IDEMPOTENT'')"
proof -
  have "mark_ambiguous (lit ''c'') False (utc_at 0) (lit ''n'') [] = (Inr (\<lparr>rr_command_id = lit ''c'', rr_status = UNKNOWN,
      rr_idempotent_effect_proven = False, rr_recorded_at = utc_at 0, rr_note = lit ''n''\<rparr>), snd (mark_ambiguous (lit ''c'') False (utc_at 0) (lit ''n'') []))"
    by (simp add: mark_ambiguous_def put_record_def Let_def)
  then show ?thesis
    using ambiguous_never_retried [of "lit ''c''" "utc_at 0" "lit ''n''" "[]" _ _ "[Escalate (lit ''c'') (utc_at 9) (utc_at 5), Resolve (lit ''d'') True (utc_at 9)]"]
    by auto
qed

end
