(* ===== verification/C6_Engine.thy ===== *)
theory C6_Engine
  imports C6_HumanGate C7_Emission
begin

text \<open>
  The governed-action engine, \<^verbatim>\<open>c6/engine.py\<close>: authority, human gate, decision, durable commit and emission
  fence in this order.  The engine, the store, the capability authority and the fence of the earlier theories are put
  together here; whether the fence was built over the engine's own store and authority objects is part of
  the state, and a shared object is kept once.
\<close>

section \<open>Records\<close>

record ActionProposal =
  pp_action_id :: pystr
  pp_subject :: pystr
  pp_capability :: pystr
  pp_resource :: pystr
  pp_aggregate_id :: pystr
  pp_risk_bearing :: bool

record Decision =
  dc_action_id :: pystr
  dc_decided_by :: pystr
  dc_accepted :: bool
  dc_rationale :: pystr
  dc_decided_at :: datetime

definition decision_post_init :: "Decision \<Rightarrow> Decision res" where
  "decision_post_init d =
     (case require_aware ''decided_at'' (dc_decided_at d) of Inl e \<Rightarrow> Inl e
      | Inr _ \<Rightarrow>
         if dc_decided_by d = [] then Inl (ValueError ''a Decision requires a decider'')
         else if dc_rationale d = [] then Inl (ValueError ''a Decision requires a rationale'')
         else Inr d)"

record ActionOutcome =
  ao_action_id :: pystr
  ao_emission_receipt :: EmissionReceipt
  ao_simulated_effect :: pyval

record GovernedActionEngine =
  en_authority :: CapabilityAuthority
  en_store :: AtomicOutboxStore
  en_fence :: EmissionFence
  en_shares_store :: bool
  en_shares_authority :: bool

text \<open>The fence as it sees the shared objects, and the engine after a call of the fence.\<close>

definition engine_fence :: "GovernedActionEngine \<Rightarrow> EmissionFence" where
  "engine_fence en =
     (let f = (if en_shares_store en then (en_fence en)\<lparr>ef_store := Some (en_store en)\<rparr> else en_fence en) in
      if en_shares_authority en then f\<lparr>ef_capability_authority := Some (en_authority en)\<rparr> else f)"

definition put_fence :: "EmissionFence \<Rightarrow> GovernedActionEngine \<Rightarrow> GovernedActionEngine" where
  "put_fence f en =
     en\<lparr>en_fence := f,
        en_store := (if en_shares_store en then case ef_store f of None \<Rightarrow> en_store en | Some s \<Rightarrow> s else en_store en),
        en_authority := (if en_shares_authority en then case ef_capability_authority f of None \<Rightarrow> en_authority en | Some a \<Rightarrow> a
                         else en_authority en)\<rparr>"

section \<open>Execution\<close>

text \<open>The human gate and the decision gate.\<close>

definition disposition_gates :: "ActionProposal \<Rightarrow> Approval option \<Rightarrow> Decision option \<Rightarrow> unit res" where
  "disposition_gates p approval decision =
     (if pp_risk_bearing p \<and> (case approval of None \<Rightarrow> True | Some a \<Rightarrow> ap_action_id a \<noteq> pp_action_id p \<or> \<not> ap_approved a)
      then Inl (GovernedActionError ''APPROVAL_MISSING'')
      else case decision of
        None \<Rightarrow> Inl (GovernedActionError ''DECISION_MISSING'')
      | Some d \<Rightarrow>
         if dc_action_id d \<noteq> pp_action_id p then Inl (GovernedActionError ''DECISION_MISSING'')
         else if \<not> dc_accepted d then Inl (GovernedActionError ''DECISION_REJECTED'')
         else Inr ())"

definition action_write :: "ActionProposal \<Rightarrow> datetime \<Rightarrow> AtomicOutboxStore \<Rightarrow> WriteRequest" where
  "action_write p instant s =
     \<lparr>wq_aggregate_id = pp_aggregate_id p,
      wq_document = obj [(''action_id'', PStr (pp_action_id p)), (''status'', PStr (lit ''EXECUTED''))],
      wq_expected_version = None, wq_writer_id = st_authoritative_writer s, wq_event_type = lit ''governed-action-executed'',
      wq_event_payload = None, wq_idempotency_key = pp_action_id p, wq_occurred_at = Some instant, wq_crash_window = None\<rparr>"

definition action_emit :: "datetime \<Rightarrow> EmitRequest" where
  "action_emit instant = \<lparr>eq_at = instant, eq_lease = None, eq_subject = None, eq_markings = None, eq_clearance = None\<rparr>"

record ExecuteCall =
  xc_proposal :: ActionProposal
  xc_lease :: pystr
  xc_approval :: "Approval option"
  xc_decision :: "Decision option"
  xc_at :: datetime

text \<open>The identifier and the clock reading that \<^verbatim>\<open>write\<close> draws are arguments, as in the store.\<close>

definition engine_execute ::
  "stop_heap \<Rightarrow> pystr \<Rightarrow> datetime \<Rightarrow> EventSink \<Rightarrow> ExecuteCall \<Rightarrow> GovernedActionEngine \<Rightarrow> ActionOutcome res \<times> GovernedActionEngine" where
  "engine_execute h tx now sink x en =
     (let p = xc_proposal x in
      case require_aware ''at'' (xc_at x) of Inl e \<Rightarrow> (Inl e, en)
      | Inr instant \<Rightarrow>
       (case authorize h (xc_lease x) (pp_capability p) (pp_resource p) instant (Some (pp_subject p)) True (en_authority en) of
          (Inl e, a) \<Rightarrow> (Inl (if is_AuthorizationError e then GovernedActionError ''AUTHORITY_DENIED'' else e), en\<lparr>en_authority := a\<rparr>)
        | (Inr _, a) \<Rightarrow>
           let en1 = en\<lparr>en_authority := a\<rparr> in
           (case disposition_gates p (xc_approval x) (xc_decision x) of Inl e \<Rightarrow> (Inl e, en1)
            | Inr _ \<Rightarrow>
             (case store_write tx now (action_write p instant (en_store en1)) (en_store en1) of
                (Inl e, s) \<Rightarrow> (Inl e, en1\<lparr>en_store := s\<rparr>)
              | (Inr w, s) \<Rightarrow>
                 let en2 = en1\<lparr>en_store := s\<rparr> in
                 (case fence_emit h sink (action_emit instant) (wr_event w) (engine_fence en2) of
                    (Inl e, f) \<Rightarrow> (Inl e, put_fence f en2)
                  | (Inr rc, f) \<Rightarrow>
                     (Inr \<lparr>ao_action_id = pp_action_id p, ao_emission_receipt = rc, ao_simulated_effect = er_sink_result rc\<rparr>,
                      put_fence f en2))))))"

section \<open>What one execution does\<close>

definition gates_passed :: "stop_heap \<Rightarrow> ExecuteCall \<Rightarrow> GovernedActionEngine \<Rightarrow> bool" where
  "gates_passed h x en \<longleftrightarrow>
     (\<exists>l a. authorize h (xc_lease x) (pp_capability (xc_proposal x)) (pp_resource (xc_proposal x)) (xc_at x)
        (Some (pp_subject (xc_proposal x))) True (en_authority en) = (Inr l, a))
     \<and> (pp_risk_bearing (xc_proposal x) \<longrightarrow>
          (\<exists>ap. xc_approval x = Some ap \<and> ap_action_id ap = pp_action_id (xc_proposal x) \<and> ap_approved ap))
     \<and> (\<exists>d. xc_decision x = Some d \<and> dc_action_id d = pp_action_id (xc_proposal x) \<and> dc_accepted d)"

lemma disposition_gates_ok:
  "disposition_gates p ap dc = Inr () \<longleftrightarrow>
     (pp_risk_bearing p \<longrightarrow> (\<exists>a. ap = Some a \<and> ap_action_id a = pp_action_id p \<and> ap_approved a))
     \<and> (\<exists>d. dc = Some d \<and> dc_action_id d = pp_action_id p \<and> dc_accepted d)"
  by (auto simp: disposition_gates_def split: option.splits if_splits)

lemma execute_cases:
  assumes "engine_execute h tx now sink x en = (r, en')"
  obtains (denied) e a where "r = Inl e" "en' = en\<lparr>en_authority := a\<rparr>"
  | (uncommitted) e a s where "r = Inl e" "gates_passed h x en" "en' = en\<lparr>en_authority := a, en_store := s\<rparr>"
      "store_write tx now (action_write (xc_proposal x) (xc_at x) (en_store en)) (en_store en) = (Inl e, s)"
  | (emitted) a s w re f where "gates_passed h x en" "dt_aware (xc_at x)"
      "store_write tx now (action_write (xc_proposal x) (xc_at x) (en_store en)) (en_store en) = (Inr w, s)"
      "fence_emit h sink (action_emit (xc_at x)) (wr_event w) (engine_fence (en\<lparr>en_authority := a, en_store := s\<rparr>)) = (re, f)"
      "en' = put_fence f (en\<lparr>en_authority := a, en_store := s\<rparr>)" "is_ok r = is_ok re"
proof (cases "dt_aware (xc_at x)")
  case False
  then obtain e where "require_aware ''at'' (xc_at x) = Inl e" by (cases "require_aware ''at'' (xc_at x)") auto
  with assms have "r = Inl e" "en' = en\<lparr>en_authority := en_authority en\<rparr>" by (simp_all add: engine_execute_def Let_def)
  then show ?thesis by (rule denied)
next
  case aware: True
  let ?p = "xc_proposal x"
  obtain ra a where au: "authorize h (xc_lease x) (pp_capability ?p) (pp_resource ?p) (xc_at x) (Some (pp_subject ?p)) True (en_authority en) = (ra, a)"
    by fastforce
  show ?thesis
  proof (cases "is_ok ra \<and> disposition_gates ?p (xc_approval x) (xc_decision x) = Inr ()")
    case False
    with assms aware au have "\<exists>e. r = Inl e \<and> en' = en\<lparr>en_authority := a\<rparr>"
      by (cases ra; cases "disposition_gates ?p (xc_approval x) (xc_decision x)") (auto simp: engine_execute_def Let_def)
    with denied show ?thesis by blast
  next
    case True
    then obtain l where l: "ra = Inr l" "disposition_gates ?p (xc_approval x) (xc_decision x) = Inr ()" by (auto simp: is_ok_iff)
    then have gates: "gates_passed h x en" using au unfolding gates_passed_def disposition_gates_ok by blast
    obtain rw s where w: "store_write tx now (action_write ?p (xc_at x) (en_store en)) (en_store en) = (rw, s)" by fastforce
    show ?thesis
    proof (cases rw)
      case (Inl e)
      with assms aware au l w have "r = Inl e" "en' = en\<lparr>en_authority := a, en_store := s\<rparr>" by (simp_all add: engine_execute_def Let_def)
      then show ?thesis using uncommitted gates w Inl by blast
    next
      case (Inr wr)
      obtain re f where f: "fence_emit h sink (action_emit (xc_at x)) (wr_event wr) (engine_fence (en\<lparr>en_authority := a, en_store := s\<rparr>)) = (re, f)"
        by fastforce
      with assms aware au l w Inr have "en' = put_fence f (en\<lparr>en_authority := a, en_store := s\<rparr>) \<and> is_ok r = is_ok re"
        by (cases re) (auto simp: engine_execute_def Let_def)
      then show ?thesis using emitted gates aware w Inr f by blast
    qed
  qed
qed

section \<open>Histories of an engine\<close>

text \<open>
  The engine as it is deployed: its fence delivers from its store.  A step is an execution, another writer's or
  fence's use of the same store, or any change of the authority.  As for the store, two different seeds
  with the same SHA-256 digest are excluded.
\<close>

inductive engine_step :: "GovernedActionEngine \<Rightarrow> GovernedActionEngine \<Rightarrow> bool" where
  executed: "engine_execute h tx now sink x en = (r, en') \<Longrightarrow> unicode (pp_aggregate_id (xc_proposal x)) \<Longrightarrow>
    unicode (pp_action_id (xc_proposal x)) \<Longrightarrow>
    collision_free tx now (action_write (xc_proposal x) (xc_at x) (en_store en)) (en_store en) \<Longrightarrow> engine_step en en'"
| stored: "store_step (en_store en) s \<Longrightarrow> engine_step en (en\<lparr>en_store := s\<rparr>)"
| authority: "engine_step en (en\<lparr>en_authority := a\<rparr>)"

inductive_cases engine_stepE: "engine_step en en'"

definition engine_init :: "GovernedActionEngine \<Rightarrow> bool" where
  "engine_init en \<longleftrightarrow> en_shares_store en \<and> (\<exists>w. new_store w = Inr (en_store en))
     \<and> (\<exists>au req m. new_fence (Some (en_store en)) au req m = Inr (en_fence en))"

text \<open>Every acknowledged effect is an event of the store, under the same key.\<close>

definition effects_recorded :: "GovernedActionEngine \<Rightarrow> bool" where
  "effects_recorded en \<longleftrightarrow> (\<forall>e \<in> set (acknowledged (en_fence en)).
     \<exists>x. dict_get (st_events (en_store en)) (ev_event_id e) = Some x \<and> ev_idempotency_key x = ev_idempotency_key e)"

definition engine_inv :: "GovernedActionEngine \<Rightarrow> bool" where
  "engine_inv en \<longleftrightarrow> en_shares_store en \<and> fence_inv (engine_fence en) \<and> effects_recorded en"

lemma engine_fence_sel:
  "ef_calls (engine_fence en) = ef_calls (en_fence en)" "ef_receipts (engine_fence en) = ef_receipts (en_fence en)"
  "acknowledged (engine_fence en) = acknowledged (en_fence en)"
  "en_shares_store en \<Longrightarrow> ef_store (engine_fence en) = Some (en_store en)"
  by (simp_all add: engine_fence_def acknowledged_def Let_def)

lemma put_fence_sel:
  "en_fence (put_fence f en) = f" "en_shares_store (put_fence f en) = en_shares_store en"
  "en_shares_store en \<Longrightarrow> ef_store f = Some s \<Longrightarrow> en_store (put_fence f en) = s"
  by (simp_all add: put_fence_def)

text \<open>The fence's invariant does not look at the authority.\<close>

lemma fence_inv_authority: "fence_inv (f\<lparr>ef_capability_authority := a\<rparr>) = fence_inv f"
  by (simp add: fence_inv_def acknowledged_def last_version_def)

lemma engine_fence_inv: "en_shares_store en \<Longrightarrow> fence_inv (engine_fence en) = fence_inv ((en_fence en)\<lparr>ef_store := Some (en_store en)\<rparr>)"
  by (simp add: engine_fence_def Let_def fence_inv_authority)

lemma engine_inv_iff:
  "engine_inv en \<longleftrightarrow> en_shares_store en \<and> fence_inv ((en_fence en)\<lparr>ef_store := Some (en_store en)\<rparr>) \<and> effects_recorded en"
  using engine_fence_inv [of en] by (auto simp: engine_inv_def)

lemma event_le_key: "event_le e e' \<Longrightarrow> ev_idempotency_key e' = ev_idempotency_key e"
  by (auto simp: event_le_def)

lemma store_le_event:
  assumes "store_le s t" "dict_get (st_events s) k = Some e"
  obtains e' where "dict_get (st_events t) k = Some e'" "ev_idempotency_key e' = ev_idempotency_key e"
  using assms event_le_key unfolding store_le_def by blast

lemma engine_inv_store: "engine_inv en \<Longrightarrow> store_inv (en_store en)"
  by (auto simp: engine_inv_def fence_inv_def engine_fence_sel)

lemma engine_inv_authority: "engine_inv en \<Longrightarrow> engine_inv (en\<lparr>en_authority := a\<rparr>)"
  by (simp add: engine_inv_iff effects_recorded_def)

lemma effects_recorded_le:
  assumes "effects_recorded en" "store_le (en_store en) s"
  shows "effects_recorded (en\<lparr>en_store := s\<rparr>)"
  unfolding effects_recorded_def
proof
  fix e assume "e \<in> set (acknowledged (en_fence (en\<lparr>en_store := s\<rparr>)))"
  then obtain x where x: "dict_get (st_events (en_store en)) (ev_event_id e) = Some x" "ev_idempotency_key x = ev_idempotency_key e"
    using assms(1) by (auto simp: effects_recorded_def)
  obtain y where "dict_get (st_events s) (ev_event_id e) = Some y" "ev_idempotency_key y = ev_idempotency_key x"
    by (rule store_le_event [OF assms(2) x(1)])
  with x(2) show "\<exists>x. dict_get (st_events (en_store (en\<lparr>en_store := s\<rparr>))) (ev_event_id e) = Some x \<and> ev_idempotency_key x = ev_idempotency_key e"
    by simp
qed

lemma engine_inv_stored:
  assumes "engine_inv en" "store_step (en_store en) s"
  shows "engine_inv (en\<lparr>en_store := s\<rparr>)"
proof -
  have shares: "en_shares_store en" using assms(1) by (simp add: engine_inv_def)
  have inv: "fence_inv ((en_fence en)\<lparr>ef_store := Some (en_store en)\<rparr>)" using assms(1) by (simp add: engine_inv_iff)
  have "fence_inv ((en_fence en)\<lparr>ef_store := Some s\<rparr>)" using fence_stored_inv [OF _ assms(2) inv] by simp
  moreover have "store_le (en_store en) s"
    using store_run.le_step [of "en_store en" s] engine_inv_store [OF assms(1)] assms(2) by simp
  ultimately show ?thesis
    using assms(1) shares effects_recorded_le by (simp add: engine_inv_iff)
qed

text \<open>The fence's part of an execution, on an engine whose store has the event.\<close>

lemma engine_inv_emitted:
  assumes inv: "engine_inv en" and emit: "fence_emit h sink q e0 (engine_fence en) = (r, f)"
  shows "engine_inv (put_fence f en)"
proof -
  have shares: "en_shares_store en" and finv: "fence_inv (engine_fence en)" and rec: "effects_recorded en"
    using inv by (simp_all add: engine_inv_def)
  note store = engine_fence_sel(4) [OF shares]
  have f_inv: "fence_inv f" by (rule emit_inv [OF emit finv])
  obtain s where s: "ef_store f = Some s" "store_le (en_store en) s"
    and new: "\<And>e. e \<in> set (acknowledged f) \<Longrightarrow> e \<notin> set (acknowledged (en_fence en)) \<Longrightarrow> dict_get (st_events (en_store en)) (ev_event_id e) = Some e"
    using emit finv
  proof (cases rule: emit_cases)
    case (known rc)
    then show ?thesis using that store engine_fence_sel(3) by simp
  next
    case (refused x)
    have "acknowledged f = acknowledged (en_fence en)" using refused(3) engine_fence_sel(1) by (simp add: acknowledged_def)
    then show ?thesis using that refused(4) store by simp
  next
    case (delivered e f1 g)
    have g: "ef_store g = Some (en_store en)" "ef_calls g = ef_calls (en_fence en)" using delivered(8,9) store engine_fence_sel(1) by simp_all
    then have e: "dict_get (st_events (en_store en)) (ev_event_id e) = Some e" using delivered(6) by (simp add: deliverable_def)
    from delivered(5,6) show ?thesis
    proof (cases rule: deliver_cases)
      case (failed x)
      then show ?thesis using that g by (simp add: acknowledged_def)
    next
      case (acknowledged v st')
      obtain e' st1 where st1: "st' = Some st1" "mark_emitted (ev_event_id e) (eq_at q) (en_store en) = (Inr e', st1)"
        using acknowledged(12) [OF g(1)] by blast
      have "set (C7_Emission.acknowledged f) \<subseteq> insert e (set (C7_Emission.acknowledged (en_fence en)))"
        using acknowledged(3) g(2) by (simp add: acknowledged_def)
      then show ?thesis using that [of st1] acknowledged(10) st1 mark_emitted_le e by blast
    qed
  qed
  have "effects_recorded (en\<lparr>en_store := s\<rparr>)" by (rule effects_recorded_le [OF rec s(2)])
  moreover have "\<exists>x. dict_get (st_events s) (ev_event_id e) = Some x \<and> ev_idempotency_key x = ev_idempotency_key e"
    if "dict_get (st_events (en_store en)) (ev_event_id e) = Some e" for e
    by (rule store_le_event [OF s(2) that]) blast
  ultimately have "effects_recorded (put_fence f en)"
    using new put_fence_sel(3) [OF shares s(1)] put_fence_sel(1) by (auto simp: effects_recorded_def)
  have same: "f\<lparr>ef_store := Some s\<rparr> = f" using s(1) by (cases f) simp
  have "fence_inv (engine_fence (put_fence f en))"
    using f_inv shares put_fence_sel(1,2) put_fence_sel(3) [OF shares s(1)] by (simp add: engine_fence_inv same)
  with \<open>effects_recorded (put_fence f en)\<close> show ?thesis using shares put_fence_sel(2) by (simp add: engine_inv_def)
qed

lemma engine_inv_executed:
  assumes inv: "engine_inv en" and x: "engine_execute h tx now sink x en = (r, en')"
    and uni: "unicode (pp_aggregate_id (xc_proposal x))" "unicode (pp_action_id (xc_proposal x))"
    and free: "collision_free tx now (action_write (xc_proposal x) (xc_at x) (en_store en)) (en_store en)"
  shows "engine_inv en'"
proof -
  have written: "engine_inv (en\<lparr>en_authority := a, en_store := s\<rparr>)"
    if "store_write tx now (action_write (xc_proposal x) (xc_at x) (en_store en)) (en_store en) = (rw, s)" for rw s a
  proof -
    have "store_step (en_store en) s" using store_step.written [OF that] uni free by (simp add: action_write_def)
    then show ?thesis using engine_inv_stored [OF engine_inv_authority [OF inv, of a]] by simp
  qed
  from x show ?thesis
  proof (cases rule: execute_cases)
    case (denied e a)
    then show ?thesis using engine_inv_authority [OF inv] by simp
  next
    case (uncommitted e a s)
    then show ?thesis using written by blast
  next
    case (emitted a s w re f)
    then show ?thesis using engine_inv_emitted [OF written [OF emitted(3)] emitted(4)] by simp
  qed
qed

interpretation engine_sys: invariant_system engine_init engine_step engine_inv
proof
  show "engine_inv en" if "engine_init en" for en
  proof -
    obtain w au req m where i: "en_shares_store en" "new_store w = Inr (en_store en)" "new_fence (Some (en_store en)) au req m = Inr (en_fence en)"
      using \<open>engine_init en\<close> by (auto simp: engine_init_def)
    have "fence_inv (en_fence en)" using new_fence_inv [OF i(3)] new_store_inv [OF i(2)] by simp
    moreover have fen: "en_fence en = \<lparr>ef_store = Some (en_store en), ef_capability_authority = au, ef_require_capability = req,
        ef_marking_engine = m, ef_registered = [], ef_receipts = [], ef_last_version = [], ef_calls = []\<rparr>"
      using i(3) by (auto simp: new_fence_def split: if_splits)
    then have "(en_fence en)\<lparr>ef_store := Some (en_store en)\<rparr> = en_fence en" "acknowledged (en_fence en) = []"
      by (simp_all add: acknowledged_def)
    ultimately show ?thesis using i(1) by (simp add: engine_inv_iff effects_recorded_def)
  qed
  show "engine_inv en'" if "engine_inv en" "engine_step en en'" for en en'
    using that(2) by cases (use that(1) engine_inv_executed engine_inv_stored engine_inv_authority in blast)+
qed

text \<open>One effect for one action: two acknowledged events of one key would be two events of the store with that key.\<close>

lemma one_effect:
  assumes "engine_inv en"
  shows "length (filter (\<lambda>e. ev_idempotency_key e = k) (acknowledged (en_fence en))) \<le> 1"
proof (rule ccontr)
  let ?es = "filter (\<lambda>e. ev_idempotency_key e = k) (acknowledged (en_fence en))"
  assume "\<not> length ?es \<le> 1"
  then obtain e e' es where es: "?es = e # e' # es" by (cases ?es rule: remdups_adj.cases) auto
  have "fence_inv (engine_fence en)" using assms by (simp add: engine_inv_def)
  then have "sorted_wrt (\<lambda>e e'. ev_event_id e \<noteq> ev_event_id e') ?es"
    by (auto simp: fence_inv_def engine_fence_sel intro!: sorted_wrt_filter elim: sorted_wrt_mono_rel [rotated])
  with es have ne: "ev_event_id e \<noteq> ev_event_id e'" by simp
  have mem: "e \<in> set (acknowledged (en_fence en))" "e' \<in> set (acknowledged (en_fence en))" "ev_idempotency_key e = k" "ev_idempotency_key e' = k"
  proof -
    have "e \<in> set ?es" "e' \<in> set ?es" unfolding es by simp_all
    then show "e \<in> set (acknowledged (en_fence en))" "e' \<in> set (acknowledged (en_fence en))"
      "ev_idempotency_key e = k" "ev_idempotency_key e' = k" by simp_all
  qed
  have stored: "dict_get (st_idempotency (en_store en)) k = Some (ev_event_id y)"
    if y: "y \<in> set (acknowledged (en_fence en))" "ev_idempotency_key y = k" for y
  proof -
    obtain x where x: "dict_get (st_events (en_store en)) (ev_event_id y) = Some x" "ev_idempotency_key x = k"
      using assms y unfolding engine_inv_def effects_recorded_def by blast
    have "event_ok (en_store en) (ev_event_id y) x" by (rule store_invD(4) [OF engine_inv_store [OF assms] x(1)])
    with x(2) show ?thesis by (simp add: event_ok_def)
  qed
  show False using stored [OF mem(1,3)] stored [OF mem(2,4)] ne by simp
qed

lemma emit_effect:
  assumes "fence_emit h sink q e0 f = (r, f')" "fence_inv f" "ef_store f = Some st"
  shows "acknowledged f' = acknowledged f \<or> (is_ok r \<and> (\<exists>e. acknowledged f' = acknowledged f @ [e] \<and> ev_event_id e = ev_event_id e0
    \<and> dict_get (st_events st) (ev_event_id e) = Some e))"
  using assms(1,2)
proof (cases rule: emit_cases)
  case (delivered e f1 g)
  from delivered(5,6) show ?thesis
  proof (cases rule: deliver_cases)
    case (failed x)
    with delivered(8) show ?thesis by (simp add: acknowledged_def)
  next
    case (acknowledged v st')
    have "dict_get (st_events st) (ev_event_id e) = Some e" using delivered(6,9) assms(3) by (simp add: deliverable_def)
    moreover have "C7_Emission.acknowledged f' = C7_Emission.acknowledged f @ [e]"
      using acknowledged(3) delivered(8) by (simp add: acknowledged_def)
    ultimately show ?thesis using acknowledged(2) delivered(11) by auto
  qed
qed (simp_all add: acknowledged_def)

text \<open>The event a write returns is the store's event under the request's key.\<close>

lemma write_event_stored:
  assumes inv: "store_inv s" and w: "store_write tx now q s = (Inr w, t)"
  shows "dict_get (st_events t) (ev_event_id (wr_event w)) = Some (wr_event w)"
    "ev_idempotency_key (wr_event w) = wq_idempotency_key q"
proof -
  have "dict_get (st_events t) (ev_event_id (wr_event w)) = Some (wr_event w) \<and> ev_idempotency_key (wr_event w) = wq_idempotency_key q"
  proof (cases "dict_get (st_idempotency s) (wq_idempotency_key q)")
    case None
    with w obtain p d e where "stage_write tx q p s = Inr (d, e)" "t = commit_write d e s" "wr_event w = e"
      by (auto simp: store_write_def split: sum.splits prod.splits)
    then show ?thesis using stage_writeD(5) by auto
  next
    case (Some k)
    with w obtain p where t: "t = s" "replay_write k p s = Inr w" by (auto simp: store_write_def split: sum.splits)
    then have e: "dict_get (st_events s) k = Some (wr_event w)" by (auto simp: replay_write_def split: option.splits if_splits)
    have "ev_event_id (wr_event w) = k" using store_invD(4) [OF inv e] by (simp add: event_ok_def)
    moreover have "ev_idempotency_key (wr_event w) = wq_idempotency_key q" using store_invD(6) [OF inv Some] e by auto
    ultimately show ?thesis using t e by simp
  qed
  then show "dict_get (st_events t) (ev_event_id (wr_event w)) = Some (wr_event w)"
    "ev_idempotency_key (wr_event w) = wq_idempotency_key q" by blast+
qed

lemma execute_effect:
  assumes inv: "engine_inv en" and x: "engine_execute h tx now sink x en = (r, en')"
    and uni: "unicode (pp_aggregate_id (xc_proposal x))" "unicode (pp_action_id (xc_proposal x))"
    and free: "collision_free tx now (action_write (xc_proposal x) (xc_at x) (en_store en)) (en_store en)"
  shows "acknowledged (en_fence en') = acknowledged (en_fence en)
    \<or> (is_ok r \<and> (\<exists>e. acknowledged (en_fence en') = acknowledged (en_fence en) @ [e] \<and> ev_idempotency_key e = pp_action_id (xc_proposal x)))"
  using x
proof (cases rule: execute_cases)
  case (emitted a s w re f)
  let ?en = "en\<lparr>en_authority := a, en_store := s\<rparr>"
  have "store_step (en_store en) s" using store_step.written [OF emitted(3)] uni free by (simp add: action_write_def)
  then have "engine_inv ?en" using engine_inv_stored [OF engine_inv_authority [OF inv, of a]] by simp
  then have e: "fence_inv (engine_fence ?en)" "ef_store (engine_fence ?en) = Some s"
    using engine_fence_sel(4) [of ?en] by (simp_all add: engine_inv_def)
  have w: "dict_get (st_events s) (ev_event_id (wr_event w)) = Some (wr_event w)" "ev_idempotency_key (wr_event w) = pp_action_id (xc_proposal x)"
    using write_event_stored [OF engine_inv_store [OF inv] emitted(3)] by (simp_all add: action_write_def)
  have ack: "acknowledged (engine_fence ?en) = acknowledged (en_fence en)" "en_fence en' = f"
    using emitted(5) put_fence_sel(1) by (simp_all add: engine_fence_sel)
  from emit_effect [OF emitted(4) e] consider "acknowledged f = acknowledged (engine_fence ?en)"
    | y where "is_ok re" "acknowledged f = acknowledged (engine_fence ?en) @ [y]" "ev_event_id y = ev_event_id (wr_event w)"
        "dict_get (st_events s) (ev_event_id y) = Some y"
    by blast
  then show ?thesis
  proof cases
    case (2 y)
    from 2(4) have "dict_get (st_events s) (ev_event_id (wr_event w)) = Some y" unfolding 2(3) .
    with w(1) have "y = wr_event w" by (metis option.inject)
    with 2(1,2) w(2) emitted(6) show ?thesis unfolding ack by blast
  qed (simp add: ack)
qed simp_all

text \<open>
  The emission fence as the fourth gate, on the engine after the commit: the event is this action's committed and intact record, not
  after the time of the execution, has no receipt yet, and every earlier version of its aggregate has been released; and
  since the engine passes the fence neither a lease nor markings, the fence asks for none.
\<close>

definition fence_passed :: "ExecuteCall \<Rightarrow> OutboxEvent \<Rightarrow> AtomicOutboxStore \<Rightarrow> EmissionFence \<Rightarrow> bool" where
  "fence_passed x e st f \<longleftrightarrow>
     get_event st (ev_event_id e) = Some e \<and> ev_idempotency_key e = pp_action_id (xc_proposal x)
     \<and> ev_committed e \<and> verify_integrity e = Inr True \<and> dt_le (ev_occurred_at e) (xc_at x) \<and> fence_receipt (ev_event_id e) f = None
     \<and> (\<forall>c. get_event st (ev_event_id c) = Some c \<longrightarrow> ev_aggregate_id c = ev_aggregate_id e \<longrightarrow>
          ev_aggregate_version c < ev_aggregate_version e \<longrightarrow> ev_emitted_at c \<noteq> None \<or> fence_receipt (ev_event_id c) f \<noteq> None)
     \<and> ef_marking_engine f = None \<and> \<not> ef_require_capability f"

lemma execute_sink:
  assumes inv: "engine_inv en" and x: "engine_execute h tx now sink x en = (r, en')"
    and uni: "unicode (pp_aggregate_id (xc_proposal x))" "unicode (pp_action_id (xc_proposal x))"
    and free: "collision_free tx now (action_write (xc_proposal x) (xc_at x) (en_store en)) (en_store en)"
  shows "ef_calls (en_fence en') = ef_calls (en_fence en)
    \<or> (\<exists>e st w. ef_calls (en_fence en') = ef_calls (en_fence en) @ [\<lparr>sc_event = e, sc_acknowledged = is_ok r\<rparr>]
         \<and> store_write tx now (action_write (xc_proposal x) (xc_at x) (en_store en)) (en_store en) = (Inr w, st)
         \<and> fence_passed x e st (en_fence en))"
  using x
proof (cases rule: execute_cases)
  case (emitted a s w re f)
  let ?en = "en\<lparr>en_authority := a, en_store := s\<rparr>"
  have "store_step (en_store en) s" using store_step.written [OF emitted(3)] uni free by (simp add: action_write_def)
  then have "engine_inv ?en" using engine_inv_stored [OF engine_inv_authority [OF inv, of a]] by simp
  then have e: "fence_inv (engine_fence ?en)" "ef_store (engine_fence ?en) = Some s"
    using engine_fence_sel(4) [of ?en] by (simp_all add: engine_inv_def)
  have w: "dict_get (st_events s) (ev_event_id (wr_event w)) = Some (wr_event w)" "ev_idempotency_key (wr_event w) = pp_action_id (xc_proposal x)"
    using write_event_stored [OF engine_inv_store [OF inv] emitted(3)] by (simp_all add: action_write_def)
  have same: "ef_calls (engine_fence ?en) = ef_calls (en_fence en)" "en_fence en' = f"
    "\<And>i. fence_receipt i (engine_fence ?en) = fence_receipt i (en_fence en)"
    "ef_marking_engine (engine_fence ?en) = ef_marking_engine (en_fence en)"
    "ef_require_capability (engine_fence ?en) = ef_require_capability (en_fence en)"
    using emitted(5) put_fence_sel(1) by (simp_all add: engine_fence_def fence_receipt_def Let_def)
  show ?thesis
  proof (cases "ef_calls f = ef_calls (en_fence en)")
    case False
    with emit_gated [OF e(1) emitted(4)] same obtain y where
      y: "ef_calls f = ef_calls (en_fence en) @ [\<lparr>sc_event = y, sc_acknowledged = is_ok re\<rparr>]"
      "durable_event (engine_fence ?en) (wr_event w) = Inr y" "ev_committed y" "verify_integrity y = Inr True"
      "dt_le (ev_occurred_at y) (xc_at x)" "fence_receipt (ev_event_id (wr_event w)) (en_fence en) = None"
      "\<forall>c. get_event s (ev_event_id c) = Some c \<longrightarrow> ev_aggregate_id c = ev_aggregate_id y \<longrightarrow>
          ev_aggregate_version c < ev_aggregate_version y \<longrightarrow> ev_emitted_at c \<noteq> None \<or> fence_receipt (ev_event_id c) (en_fence en) \<noteq> None"
      "\<forall>eng. ef_marking_engine (en_fence en) = Some eng \<longrightarrow> (\<exists>m c. eq_markings (action_emit (xc_at x)) = Some m \<and> eq_clearance (action_emit (xc_at x)) = Some c \<and> is_authorized eng m c = Inr True)"
      "ef_require_capability (en_fence en) \<longrightarrow> (\<exists>lease. eq_lease (action_emit (xc_at x)) = Some lease)"
      using e(2) by (auto simp: action_emit_def)
    have "y = wr_event w" using y(2) e(2) w(1) by (simp add: durable_event_def get_event_def split: if_splits)
    then have "fence_passed x y s (en_fence en)"
      using y w by (auto simp: fence_passed_def get_event_def action_emit_def)
    then show ?thesis using y(1) same(2) emitted(3,6) by auto
  qed (simp add: same)
qed simp_all

section \<open>Properties\<close>

text \<open>
  C1 [action_governed_once]: in every history of an engine whose fence delivers from its store, an execution
  commits, reaches a sink or succeeds only when the authority has granted and counted the use, a risk-bearing action
  has a granted approval of its own and an accepted decision names it: these three gates come before the commit.  The
  emission fence is the fourth and comes after the commit: a sink is called at most once, with the committed event of
  this very action, and only when the fence passed it, so an action that the fence blocks has no effect but stays
  committed.  An execution has at most one acknowledged effect, and only when it returns an outcome; and over the
  whole history no action has more than one acknowledged effect.
\<close>

theorem action_governed_once:
  assumes "engine_init en0" and "engine_step\<^sup>*\<^sup>* en0 en" and "engine_execute h tx now sink x en = (r, en')"
    and "unicode (pp_aggregate_id (xc_proposal x))" "unicode (pp_action_id (xc_proposal x))"
    and "collision_free tx now (action_write (xc_proposal x) (xc_at x) (en_store en)) (en_store en)"
  shows "(is_ok r \<or> en_store en' \<noteq> en_store en \<or> ef_calls (en_fence en') \<noteq> ef_calls (en_fence en) \<longrightarrow> gates_passed h x en)
    \<and> (ef_calls (en_fence en') = ef_calls (en_fence en)
       \<or> (\<exists>e st w. ef_calls (en_fence en') = ef_calls (en_fence en) @ [\<lparr>sc_event = e, sc_acknowledged = is_ok r\<rparr>]
            \<and> store_write tx now (action_write (xc_proposal x) (xc_at x) (en_store en)) (en_store en) = (Inr w, st)
            \<and> fence_passed x e st (en_fence en)))
    \<and> (acknowledged (en_fence en') = acknowledged (en_fence en)
       \<or> is_ok r \<and> (\<exists>e. acknowledged (en_fence en') = acknowledged (en_fence en) @ [e] \<and> ev_idempotency_key e = pp_action_id (xc_proposal x)))
    \<and> (\<forall>k. length (filter (\<lambda>e. ev_idempotency_key e = k) (acknowledged (en_fence en'))) \<le> 1)"
proof (intro conjI)
  have inv: "engine_inv en" by (rule engine_sys.reachable_invar [OF assms(1,2)])
  show "acknowledged (en_fence en') = acknowledged (en_fence en)
       \<or> is_ok r \<and> (\<exists>e. acknowledged (en_fence en') = acknowledged (en_fence en) @ [e] \<and> ev_idempotency_key e = pp_action_id (xc_proposal x))"
    by (rule execute_effect [OF inv assms(3-6)])
  show "ef_calls (en_fence en') = ef_calls (en_fence en)
       \<or> (\<exists>e st w. ef_calls (en_fence en') = ef_calls (en_fence en) @ [\<lparr>sc_event = e, sc_acknowledged = is_ok r\<rparr>]
            \<and> store_write tx now (action_write (xc_proposal x) (xc_at x) (en_store en)) (en_store en) = (Inr w, st)
            \<and> fence_passed x e st (en_fence en))"
    by (rule execute_sink [OF inv assms(3-6)])
  show "\<forall>k. length (filter (\<lambda>e. ev_idempotency_key e = k) (acknowledged (en_fence en'))) \<le> 1"
    using one_effect [OF engine_inv_executed [OF inv assms(3-6)]] by blast
  from assms(3) show "is_ok r \<or> en_store en' \<noteq> en_store en \<or> ef_calls (en_fence en') \<noteq> ef_calls (en_fence en) \<longrightarrow> gates_passed h x en"
    by (cases rule: execute_cases) simp_all
qed

definition example_engine :: GovernedActionEngine where
  "example_engine = \<lparr>en_authority = example_ledger, en_store = example_store, en_fence = example_fence\<lparr>ef_store := Some example_store\<rparr>,
     en_shares_store = True, en_shares_authority = False\<rparr>"

definition example_call :: ExecuteCall where
  "example_call = \<lparr>xc_proposal = \<lparr>pp_action_id = lit ''k'', pp_subject = lit ''s'', pp_capability = lit ''x:y'', pp_resource = lit ''r'',
       pp_aggregate_id = lit ''a'', pp_risk_bearing = False\<rparr>, xc_lease = lit ''i'', xc_approval = None,
     xc_decision = Some \<lparr>dc_action_id = lit ''k'', dc_decided_by = lit ''d'', dc_accepted = True, dc_rationale = lit ''r'', dc_decided_at = utc_at 0\<rparr>,
     xc_at = utc_at 5\<rparr>"

lemma example_engine_init: "engine_init example_engine"
  unfolding engine_init_def example_engine_def
  by (auto simp: new_store_def example_store_def new_fence_def example_fence_def intro!: exI [of _ "lit ''w''"])

lemma example_call_free:
  "collision_free tx now (action_write (xc_proposal example_call) (xc_at example_call) (en_store example_engine)) (en_store example_engine)"
  by (simp add: collision_free_def example_engine_def example_store_def)

lemma example_granted:
  "authorize h (lit ''i'') (lit ''x:y'') (lit ''r'') (utc_at 5) (Some (lit ''s'')) True example_ledger =
     (Inr example_lease, example_ledger\<lparr>ca_uses := [(lit ''i'', 1)]\<rparr>)"
proof -
  have "allows example_lease (lit ''x:y'') (lit ''r'') (utc_at 5) (Some (lit ''s'')) = Inr True"
    by (simp add: allows_True_iff is_active_iff in_scope_def example_lease_def capability_matches_def
        resource_matches_def lit_def suffix_def)
  moreover have "require_active_ancestry L example_lease (utc_at 5) {} = Inr ()" for L
    by (subst require_active_ancestry.simps) (simp add: example_lease_def)
  moreover have "cl_max_uses example_lease = Some 2" by (simp add: example_lease_def)
  ultimately show ?thesis
    by (simp add: authorize_def sweep_superseded_leases_def example_ledger_def example_authority_def require_current_stop_epoch_def)
qed

lemma example_action_written:
  "\<exists>d e. store_write (lit ''t'') now (action_write (xc_proposal example_call) (utc_at 5) example_store) example_store =
      (Inr \<lparr>wr_document = d, wr_event = e, wr_replayed = False\<rparr>, commit_write d e example_store)
    \<and> ev_emitted_at e = None \<and> ev_occurred_at e = utc_at 5 \<and> py_eq (ev_payload e) (ev_payload e)"
proof -
  let ?doc = "obj [(''action_id'', PStr (lit ''k'')), (''status'', PStr (lit ''EXECUTED''))]"
  let ?q = "action_write (xc_proposal example_call) (utc_at 5) example_store"
  have doc: "i_json ?doc" by (simp add: lit_def is_surrogate_def)
  define rd where "rd = digest_of (obj [(''aggregateId'', PStr (lit ''a'')), (''document'', ?doc),
      (''eventType'', PStr (lit ''governed-action-executed'')), (''payload'', ?doc)])"
  have rd: "request_digest ?q ?doc ?doc = Inr rd"
    unfolding request_digest_def rd_def
    by (subst canonical_sha256_i_json) (simp_all add: action_write_def example_call_def lit_def is_surrogate_def)
  have prep: "prepare_write now ?q example_store = Inr \<lparr>pw_instant = utc_at 5, pw_document = ?doc, pw_payload = ?doc, pw_request_digest = rd\<rparr>"
    using rd by (simp add: prepare_write_def action_write_def example_call_def example_store_def authorize_writer_def raise_if_def)
  have "i_json (event_seed (lit ''a'') (lit ''k'') rd)"
    using i_json_digest_of unfolding event_seed_def rd_def by (simp add: lit_def is_surrogate_def del: i_json.simps(5))
  then obtain eid where eid: "event_id_of (lit ''a'') (lit ''k'') rd = Inr eid" by (simp add: event_id_of_def canonicalize_i_json)
  have "\<exists>d e. stage_write (lit ''t'') ?q \<lparr>pw_instant = utc_at 5, pw_document = ?doc, pw_payload = ?doc, pw_request_digest = rd\<rparr> example_store = Inr (d, e)
      \<and> ev_emitted_at e = None \<and> ev_occurred_at e = utc_at 5 \<and> ev_payload e = ?doc"
    using eid doc canonical_sha256_i_json [OF doc]
    by (simp add: stage_write_def action_write_def example_call_def example_store_def current_version_def raise_if_def Let_def)
  moreover have "py_eq ?doc ?doc" by simp
  ultimately show ?thesis
    using prep by (auto simp: store_write_def raise_if_def) (auto simp: action_write_def example_store_def raise_if_def)
qed

theorem action_governed_once_witness:
  "\<exists>oc en'. engine_execute example_heap (lit ''t'') (utc_at 9) example_sink example_call example_engine = (Inr oc, en')
    \<and> gates_passed example_heap example_call example_engine \<and> ao_action_id oc = lit ''k''"
proof -
  obtain d e where w: "store_write (lit ''t'') (utc_at 9) (action_write (xc_proposal example_call) (utc_at 5) example_store) example_store =
      (Inr \<lparr>wr_document = d, wr_event = e, wr_replayed = False\<rparr>, commit_write d e example_store)"
    "ev_emitted_at e = None" "ev_occurred_at e = utc_at 5" "py_eq (ev_payload e) (ev_payload e)" using example_action_written by blast
  let ?s = "commit_write d e example_store"
  have step: "store_step example_store ?s"
    using store_step.written [OF w(1)] example_call_free by (simp add: action_write_def example_call_def example_engine_def unicode_def lit_def)
  have inv: "store_inv ?s" by (rule reachable_store_inv [OF example_reachable(1)]) (use step in blast)
  have "outbox False ?s = [] @ e # []" using w(2) by (simp add: outbox_def commit_write_def example_store_def)
  moreover have "draining (eq_at (action_emit (utc_at 5))) ?s [] (example_fence\<lparr>ef_store := Some ?s\<rparr>)"
    using inv by (auto simp: example_fence_def draining_def acknowledged_def last_version_def split: option.splits)
  ultimately have "\<exists>rc f. fence_emit example_heap example_sink (action_emit (utc_at 5)) e (example_fence\<lparr>ef_store := Some ?s\<rparr>) = (Inr rc, f)
      \<and> er_event_id rc = ev_event_id e \<and> draining (eq_at (action_emit (utc_at 5))) ?s ([] @ [e]) f"
    by (intro draining_emit [OF _ inv]) (use w(3,4) in \<open>simp_all add: action_emit_def example_sink_def\<close>)
  then obtain rc f where f: "fence_emit example_heap example_sink (action_emit (utc_at 5)) e (example_fence\<lparr>ef_store := Some ?s\<rparr>) = (Inr rc, f)"
    by blast
  have gates: "disposition_gates (xc_proposal example_call) (xc_approval example_call) (xc_decision example_call) = Inr ()"
    by (simp add: disposition_gates_ok example_call_def)
  obtain oc en' where x: "engine_execute example_heap (lit ''t'') (utc_at 9) example_sink example_call example_engine = (Inr oc, en')"
    "ao_action_id oc = lit ''k''"
    using w(1) f gates example_granted [of example_heap]
    by (simp add: engine_execute_def example_call_def example_engine_def engine_fence_def Let_def)
  with action_governed_once [OF example_engine_init rtranclp.rtrancl_refl x(1) _ _ example_call_free] show ?thesis
    by (auto simp: example_call_def unicode_def lit_def)
qed

end
