(* ===== verification/Json_Depth.thy ===== *)
theory Json_Depth
  imports Json_Bytes
begin

text \<open>
  \<^verbatim>\<open>load_i_json\<close> with the limit the interpreter sets to nested calls.  The scanner of the \<^verbatim>\<open>json\<close> module enters a call for every
  object and array it opens, and \<^verbatim>\<open>_serialize\<close> calls itself for every object and sequence; when the stack is used up
  either raises \<^verbatim>\<open>RecursionError\<close>, which no clause of \<^verbatim>\<open>load_i_json\<close> catches.  How many levels fit depends on the stack
  at the time of the call, so both numbers are parameters.  The functions are those of \<open>Json_Text\<close> and \<open>Canonical\<close> with the
  number of levels that are left; what they return is the result without a limit or \<^verbatim>\<open>RecursionError\<close>.
\<close>

section \<open>Scanning and serializing within a number of levels\<close>

fun scan_value_within :: "json_hooks \<Rightarrow> nat \<Rightarrow> nat \<Rightarrow> pystr \<Rightarrow> (pyval \<times> pystr) res"
  and scan_items_within :: "json_hooks \<Rightarrow> nat \<Rightarrow> nat \<Rightarrow> pystr \<Rightarrow> (pyval list \<times> pystr) res"
  and scan_pairs_within :: "json_hooks \<Rightarrow> nat \<Rightarrow> nat \<Rightarrow> pystr \<Rightarrow> ((pystr \<times> pyval) list \<times> pystr) res" where
  "scan_value_within h k 0 s = Inl NoReturn"
| "scan_value_within h k (Suc n) s =
     (case s of [] \<Rightarrow> Inl (ValueError ''Expecting value'')
      | c # r \<Rightarrow>
         if c = 34 then (case scan_chars r of Inl e \<Rightarrow> Inl e | Inr (t, r') \<Rightarrow> Inr (PStr t, r'))
         else if c = 123 then
           (if k = 0 then Inl RecursionError
            else if take 1 (skip_ws r) = [125] then with_rest (object_pairs_hook h []) (drop 1 (skip_ws r))
            else case scan_pairs_within h (k - 1) n (skip_ws r) of Inl e \<Rightarrow> Inl e
                 | Inr (kvs, r') \<Rightarrow> with_rest (object_pairs_hook h kvs) r')
         else if c = 91 then
           (if k = 0 then Inl RecursionError
            else if take 1 (skip_ws r) = [93] then Inr (PList [], drop 1 (skip_ws r))
            else case scan_items_within h (k - 1) n (skip_ws r) of Inl e \<Rightarrow> Inl e | Inr (xs, r') \<Rightarrow> Inr (PList xs, r'))
         else scan_atom h s)"
| "scan_items_within h k 0 s = Inl NoReturn"
| "scan_items_within h k (Suc n) s =
     (case scan_value_within h k n s of Inl e \<Rightarrow> Inl e
      | Inr (v, r) \<Rightarrow>
         (case skip_ws r of [] \<Rightarrow> Inl (ValueError ''Expecting delimiter'')
          | c # r' \<Rightarrow>
             if c = 93 then Inr ([v], r')
             else if c = 44 then (case scan_items_within h k n (skip_ws r') of Inl e \<Rightarrow> Inl e
                                  | Inr (vs, r'') \<Rightarrow> Inr (v # vs, r''))
             else Inl (ValueError ''Expecting delimiter'')))"
| "scan_pairs_within h k 0 s = Inl NoReturn"
| "scan_pairs_within h k (Suc n) s =
     (if take 1 s \<noteq> [34] then Inl (ValueError ''Expecting property name enclosed in double quotes'')
      else case scan_chars (drop 1 s) of Inl e \<Rightarrow> Inl e
      | Inr (x, r) \<Rightarrow>
         if take 1 (skip_ws r) \<noteq> [58] then Inl (ValueError ''Expecting colon delimiter'')
         else (case scan_value_within h k n (skip_ws (drop 1 (skip_ws r))) of Inl e \<Rightarrow> Inl e
          | Inr (v, r1) \<Rightarrow>
             (case skip_ws r1 of [] \<Rightarrow> Inl (ValueError ''Expecting delimiter'')
              | c # r2 \<Rightarrow>
                 if c = 125 then Inr ([(x, v)], r2)
                 else if c = 44 then (case scan_pairs_within h k n (skip_ws r2) of Inl e \<Rightarrow> Inl e
                                      | Inr (kvs, r3) \<Rightarrow> Inr ((x, v) # kvs, r3))
                 else Inl (ValueError ''Expecting delimiter''))))"

definition loads_within :: "json_hooks \<Rightarrow> nat \<Rightarrow> pystr \<Rightarrow> pyval res" where
  "loads_within h k s =
     (if take 1 s = [0xFEFF] then Inl (ValueError ''Unexpected UTF-8 BOM'')
      else case scan_value_within h k (2 * length s + 2) (skip_ws s) of Inl e \<Rightarrow> Inl e
      | Inr (v, r) \<Rightarrow> if skip_ws r = [] then Inr v else Inl (ValueError ''Extra data''))"

fun serialize_within :: "nat \<Rightarrow> pyval \<Rightarrow> pystr res" where
  "serialize_within n (PDict kvs) =
     (if n = 0 then Inl RecursionError
      else if list_ex (\<lambda>(k, v). \<not> is_KStr k) kvs
      then Inl (CanonicalizationError ''JSON object keys must be strings'')
      else if list_ex (\<lambda>(k, v). list_ex is_surrogate (key_text k)) kvs
      then Inl (CanonicalizationError ''lone UTF-16 surrogate is not valid I-JSON'')
      else case sequence_res (map snd (sort_key fst
               (map (\<lambda>(k, v). (utf16_key (key_text k), entry_text (key_text k) (serialize_within (n - 1) v))) kvs)))
           of Inl e \<Rightarrow> Inl e | Inr es \<Rightarrow> Inr ([123] @ join_with [44] es @ [125]))"
| "serialize_within n (PList xs) =
     (if n = 0 then Inl RecursionError
      else case sequence_res (map (serialize_within (n - 1)) xs) of Inl e \<Rightarrow> Inl e
      | Inr es \<Rightarrow> Inr ([91] @ join_with [44] es @ [93]))"
| "serialize_within n (PTuple xs) =
     (if n = 0 then Inl RecursionError
      else case sequence_res (map (serialize_within (n - 1)) xs) of Inl e \<Rightarrow> Inl e
      | Inr es \<Rightarrow> Inr ([91] @ join_with [44] es @ [93]))"
| "serialize_within n v = serialize v"

text \<open>The levels left to the scanner and to the serializer.\<close>

record call_levels =
  scan_levels :: nat
  serialize_levels :: nat

definition load_text_within :: "call_levels \<Rightarrow> pystr \<Rightarrow> pyval res" where
  "load_text_within l document =
     (case loads_within i_json_hooks (scan_levels l) document of
        Inl e \<Rightarrow> (case e of ValueError m \<Rightarrow> Inl (CanonicalizationError ''invalid I-JSON document'') | _ \<Rightarrow> Inl e)
      | Inr parsed \<Rightarrow> (case serialize_within (serialize_levels l) parsed of Inl e \<Rightarrow> Inl e | Inr _ \<Rightarrow> Inr parsed))"

definition document_text :: "document \<Rightarrow> pystr option" where
  "document_text d = (case d of Text s \<Rightarrow> Some s | Bytes b \<Rightarrow> decode_document (map unat b))"

definition load_i_json_within :: "call_levels \<Rightarrow> document \<Rightarrow> pyval res" where
  "load_i_json_within l d =
     (case document_text d of None \<Rightarrow> Inl (CanonicalizationError ''invalid I-JSON document'')
      | Some s \<Rightarrow> load_text_within l s)"

section \<open>The opening brackets of a text\<close>

definition openings :: "pystr \<Rightarrow> nat" where
  "openings s = length (filter (\<lambda>c. c = 91 \<or> c = 123) s)"

lemma openings_simps [simp]:
  "openings [] = 0" "openings (c # s) = (if c = 91 \<or> c = 123 then Suc (openings s) else openings s)"
  by (simp_all add: openings_def)

lemma openings_suffix: "suffix r s \<Longrightarrow> openings r \<le> openings s"
  by (auto simp: suffix_def openings_def)

lemma openings_skip_ws [simp]: "openings (skip_ws s) = openings s"
  by (induction s) (auto simp: skip_ws_def is_ws_def)

lemma openings_drop: "openings (drop n s) \<le> openings s"
  by (intro openings_suffix suffix_drop)

lemma scan_hex4_suffix: "scan_hex4 s = Some (u, r) \<Longrightarrow> suffix r s"
  by (auto simp: scan_hex4_def suffix_def split: list.splits option.splits)

lemma scan_unicode_suffix: "scan_unicode s = Some (u, r) \<Longrightarrow> suffix r s"
  by (auto simp: scan_unicode_def split: option.splits if_splits dest!: scan_hex4_suffix)
    (meson suffix_drop suffix_order.trans)+

lemma scan_chars_suffix: "scan_chars s = Inr (t, r) \<Longrightarrow> suffix r s"
proof (induction s arbitrary: t rule: scan_chars.induct)
  case (2 c s)
  show ?case
  proof (cases "c = 34 \<or> c \<noteq> 92")
    case True
    then show ?thesis using "2.prems" "2.IH"(3)
      by (fastforce simp: cons_char_def suffix_Cons split: if_splits sum.splits)
  next
    case False
    then have c: "c = 92" by simp
    with "2.prems" obtain e s' where s: "s = e # s'" by (cases s) auto
    show ?thesis
    proof (cases "e = 117")
      case True
      with "2.prems" c s obtain u r' where u: "scan_unicode s' = Some (u, r')" "cons_char u (scan_chars r') = Inr (t, r)"
        by (auto split: option.splits)
      then obtain t' where "scan_chars r' = Inr (t', r)" by (auto simp: cons_char_def split: sum.splits)
      with "2.IH"(1) [of e s' _ u r' t'] c s True u(1) have "suffix r r'" by simp
      then have "suffix r s'" using scan_unicode_suffix [OF u(1)] by (rule suffix_order.trans)
      with s show ?thesis by (simp add: suffix_ConsI)
    next
      case False
      with "2.prems" c s obtain d where u: "unescape e = Some d" "cons_char d (scan_chars s') = Inr (t, r)"
        by (auto split: option.splits)
      then obtain t' where "scan_chars s' = Inr (t', r)" by (auto simp: cons_char_def split: sum.splits)
      with "2.IH"(2) [of e s' d t'] c s False u(1) show ?thesis by (simp add: suffix_ConsI)
    qed
  qed
qed simp

lemmas scan_chars_openings = scan_chars_suffix [THEN openings_suffix]

lemma scan_atom_openings: "scan_atom h s = Inr (v, r) \<Longrightarrow> openings r \<le> openings s"
  by (auto simp: scan_atom_def with_rest_def openings_drop split: if_splits sum.splits option.splits)

section \<open>How deep a value nests\<close>

fun nest :: "pyval \<Rightarrow> nat" where
  "nest (PDict kvs) = Suc (foldr max (map (\<lambda>(k, v). nest v) kvs) 0)"
| "nest (PList xs) = Suc (foldr max (map nest xs) 0)"
| "nest (PTuple xs) = Suc (foldr max (map nest xs) 0)"
| "nest v = 0"

lemma foldr_max_le: "foldr max xs (0::nat) \<le> n \<longleftrightarrow> (\<forall>x \<in> set xs. x \<le> n)"
  by (induction xs) auto

lemma nest_member:
  "(k, v) \<in> set kvs \<Longrightarrow> nest v < nest (PDict kvs)" "v \<in> set xs \<Longrightarrow> nest v < nest (PList xs)" "v \<in> set xs \<Longrightarrow> nest v < nest (PTuple xs)"
proof -
  have "x \<le> foldr max xs 0" if "x \<in> set xs" for x :: nat and xs using foldr_max_le [of xs "foldr max xs 0"] that by blast
  then show "(k, v) \<in> set kvs \<Longrightarrow> nest v < nest (PDict kvs)" "v \<in> set xs \<Longrightarrow> nest v < nest (PList xs)" "v \<in> set xs \<Longrightarrow> nest v < nest (PTuple xs)"
    by (force simp: less_Suc_eq_le)+
qed

section \<open>The limit adds one error\<close>

definition cut_or :: "'a res \<Rightarrow> 'a res \<Rightarrow> bool" where
  "cut_or x y \<longleftrightarrow> x = Inl RecursionError \<or> x = y"

lemma cut_or_refl [simp]: "cut_or x x"
  by (simp add: cut_or_def)

lemma cut_or_RecursionError [simp]: "cut_or (Inl RecursionError) y"
  by (simp add: cut_or_def)

lemma cut_or_case:
  "cut_or x y \<Longrightarrow> (\<And>v. y = Inr v \<Longrightarrow> cut_or (f v) (g v)) \<Longrightarrow>
     cut_or (case x of Inl e \<Rightarrow> Inl e | Inr v \<Rightarrow> f v) (case y of Inl e \<Rightarrow> Inl e | Inr v \<Rightarrow> g v)"
  by (auto simp: cut_or_def split: sum.splits)

lemma scan_within_cut:
  "cut_or (scan_value_within h k n s) (scan_value h n s)"
  "cut_or (scan_items_within h k n s) (scan_items h n s)"
  "cut_or (scan_pairs_within h k n s) (scan_pairs h n s)"
proof (induction h k n s and h k n s and h k n s rule: scan_value_within_scan_items_within_scan_pairs_within.induct)
  case (2 h k n s)
  show ?case
  proof (cases s)
    case (Cons c r)
    consider "c = 123" "k \<noteq> 0" "take 1 (skip_ws r) \<noteq> [125]" | "c = 91" "k \<noteq> 0" "take 1 (skip_ws r) \<noteq> [93]"
      | "scan_value_within h k (Suc n) s = Inl RecursionError \<or> scan_value_within h k (Suc n) s = scan_value h (Suc n) s"
      using Cons by (cases "c = 123"; cases "c = 91"; cases "k = 0"; simp; fastforce)
    then show ?thesis
    proof cases
      case 1
      then have "cut_or (scan_pairs_within h (k - 1) n (skip_ws r)) (scan_pairs h n (skip_ws r))" using "2.IH"(1) [OF Cons] by simp
      with 1 show ?thesis by (simp add: Cons cut_or_case)
    next
      case 2
      then have "cut_or (scan_items_within h (k - 1) n (skip_ws r)) (scan_items h n (skip_ws r))" using "2.IH"(2) [OF Cons] by simp
      with 2 show ?thesis by (simp add: Cons cut_or_case)
    qed (simp only: cut_or_def)
  qed simp
next
  case (4 h k n s)
  show ?case
  proof (cases "\<exists>v r c r'. scan_value_within h k n s = Inr (v, r) \<and> skip_ws r = c # r' \<and> c \<noteq> 93 \<and> c = 44")
    case True
    then obtain v r r' where v: "scan_value_within h k n s = Inr (v, r)" "skip_ws r = 44 # r'" by auto
    with "4.IH"(1) have u: "scan_value h n s = Inr (v, r)" by (simp add: cut_or_def)
    have "cut_or (scan_items_within h k n (skip_ws r')) (scan_items h n (skip_ws r'))" using "4.IH"(2) [OF v(1) refl v(2)] by simp
    then show ?thesis by (simp add: v u cut_or_case)
  next
    case False
    with "4.IH"(1) show ?thesis by (auto simp: cut_or_def split: sum.splits prod.splits list.splits)
  qed
next
  case (6 h k n s)
  show ?case
  proof (cases "\<exists>x r. take 1 s = [34] \<and> scan_chars (drop 1 s) = Inr (x, r) \<and> take 1 (skip_ws r) = [58]")
    case True
    then obtain x r where x: "take 1 s = [34]" "scan_chars (drop 1 s) = Inr (x, r)" "take 1 (skip_ws r) = [58]" by blast
    let ?t = "skip_ws (drop 1 (skip_ws r))"
    have IH: "cut_or (scan_value_within h k n ?t) (scan_value h n ?t)" using "6.IH"(1) [OF _ x(2) refl] x by simp
    show ?thesis
    proof (cases "\<exists>v r1 r2. scan_value_within h k n ?t = Inr (v, r1) \<and> skip_ws r1 = 44 # r2")
      case True
      then obtain v r1 r2 where v: "scan_value_within h k n ?t = Inr (v, r1)" "skip_ws r1 = 44 # r2" by blast
      with IH have u: "scan_value h n ?t = Inr (v, r1)" by (simp add: cut_or_def)
      have "cut_or (scan_pairs_within h k n (skip_ws r2)) (scan_pairs h n (skip_ws r2))"
        using "6.IH"(2) [OF _ x(2) refl _ v(1) refl v(2)] x by simp
      then show ?thesis using x v u by (simp add: cut_or_case)
    next
      case False
      with IH x show ?thesis by (auto simp: cut_or_def split: sum.splits prod.splits list.splits)
    qed
  next
    case False
    then show ?thesis by (auto simp: cut_or_def split: sum.splits prod.splits list.splits)
  qed
qed simp_all

lemma sequence_res_cut:
  "(\<And>x. x \<in> set xs \<Longrightarrow> cut_or (f x) (g x)) \<Longrightarrow> cut_or (sequence_res (map f xs)) (sequence_res (map g xs))"
proof (induction xs)
  case (Cons x xs)
  then have "cut_or (f x) (g x)" "cut_or (sequence_res (map f xs)) (sequence_res (map g xs))" by simp_all
  then show ?case by (cases "f x"; cases "g x"; cases "sequence_res (map f xs)"; cases "sequence_res (map g xs)") (auto simp: cut_or_def)
qed simp

lemma entry_text_cut: "cut_or x y \<Longrightarrow> cut_or (entry_text k x) (entry_text k y)"
  by (auto simp: cut_or_def entry_text_def split: sum.splits)

lemma entries_sorted:
  "map snd (sort_key fst (map (\<lambda>(k, v). (a k, b k v)) kvs)) = map (\<lambda>(k, v). b k v) (sort_key (\<lambda>kv. a (fst kv)) kvs)"
  using sort_key_map [of fst "\<lambda>(k, v). (a k, b k v)" kvs] by (simp add: case_prod_unfold comp_def)

lemma serialize_within_cut: "cut_or (serialize_within n v) (serialize v)"
proof (induction v arbitrary: n)
  case (PDict kvs)
  have "cut_or (sequence_res (map (\<lambda>(k, v). entry_text (key_text k) (serialize_within (n - 1) v)) (sort_key (\<lambda>kv. utf16_key (key_text (fst kv))) kvs)))
      (sequence_res (map (\<lambda>(k, v). entry_text (key_text k) (serialize v)) (sort_key (\<lambda>kv. utf16_key (key_text (fst kv))) kvs)))"
    using PDict by (intro sequence_res_cut) (auto intro!: entry_text_cut)
  then show ?case by (simp add: entries_sorted cut_or_case)
next
  case (PList xs)
  then show ?case by (simp add: cut_or_case sequence_res_cut)
next
  case (PTuple xs)
  then show ?case by (simp add: cut_or_case sequence_res_cut)
qed simp_all

text \<open>Within enough levels there is no difference.\<close>

lemma serialize_within_enough: "nest v \<le> n \<Longrightarrow> serialize_within n v = serialize v"
proof (induction v arbitrary: n)
  case (PDict kvs)
  have "serialize_within (n - 1) v = serialize v" if "(k, v) \<in> set kvs" for k v
    using PDict.prems nest_member(1) [OF that] by (intro PDict.IH [OF that]) auto
  then have "map (\<lambda>(k, v). (utf16_key (key_text k), entry_text (key_text k) (serialize_within (n - 1) v))) kvs
      = map (\<lambda>(k, v). (utf16_key (key_text k), entry_text (key_text k) (serialize v))) kvs" by auto
  with PDict.prems show ?case by (simp only: serialize_within.simps serialize.simps) simp
next
  case (PList xs)
  have "map (serialize_within (n - 1)) xs = map serialize xs"
    using PList nest_member(2) by (fastforce simp del: nest.simps)
  with PList.prems show ?case by (simp del: map_eq_conv)
next
  case (PTuple xs)
  have "map (serialize_within (n - 1)) xs = map serialize xs"
    using PTuple nest_member(3) by (fastforce simp del: nest.simps)
  with PTuple.prems show ?case by (simp del: map_eq_conv)
qed simp_all

section \<open>Levels and brackets\<close>

text \<open>An object nests one level deeper than its members, and a number or constant does not nest.\<close>

definition nest_hooks :: "json_hooks \<Rightarrow> bool" where
  "nest_hooks h \<longleftrightarrow> (\<forall>kvs v. object_pairs_hook h kvs = Inr v \<longrightarrow> nest v = Suc (foldr max (map (nest \<circ> snd) kvs) 0))
     \<and> (\<forall>t v. parse_float h t = Inr v \<longrightarrow> nest v = 0) \<and> (\<forall>t v. parse_int h t = Inr v \<longrightarrow> nest v = 0)
     \<and> (\<forall>t v. parse_constant h t = Inr v \<longrightarrow> nest v = 0)"

lemma reject_duplicate_keys_from_ok:
  "reject_duplicate_keys_from d kvs = Inr e \<Longrightarrow> e = d @ map (\<lambda>(k, v). (KStr k, v)) kvs"
proof (induction d kvs rule: reject_duplicate_keys_from.induct)
  case (2 d k v kvs)
  then have "dict_get d (KStr k) = None" by (auto split: if_splits)
  then have "dict_set (KStr k) v d = d @ [(KStr k, v)]" by (rule dict_set_fresh)
  with 2 show ?case by (auto split: if_splits)
qed simp

lemma nest_hooks_i_json: "nest_hooks i_json_hooks"
proof -
  have "nest v = Suc (foldr max (map (nest \<circ> snd) kvs) 0)" if "object_pairs_hook i_json_hooks kvs = Inr v" for kvs v
    using that reject_duplicate_keys_from_ok [of "[]" kvs]
    by (auto simp: i_json_hooks_def reject_duplicate_keys_def case_prod_unfold comp_def split: sum.splits)
  moreover have "nest v = 0" if "parse_float i_json_hooks t = Inr v \<or> parse_int i_json_hooks t = Inr v \<or> parse_constant i_json_hooks t = Inr v" for t v
    using that by (auto simp: i_json_hooks_def float_token_def parse_integer_def reject_constant_def Let_def
        split: if_splits sum.splits option.splits pyfloat.splits)
  ultimately show ?thesis unfolding nest_hooks_def by blast
qed

lemma scan_atom_nest: "nest_hooks h \<Longrightarrow> scan_atom h s = Inr (v, r) \<Longrightarrow> nest v = 0"
  by (auto simp: scan_atom_def with_rest_def nest_hooks_def split: if_splits sum.splits option.splits)

lemma skip_ws_openings: "skip_ws r = c # r' \<Longrightarrow> openings r' \<le> openings r"
  using openings_skip_ws [of r] by (auto split: if_splits)

lemma scan_openings:
  "nest_hooks h \<Longrightarrow> scan_value h n s = Inr (v, r) \<Longrightarrow> nest v + openings r \<le> openings s"
  "nest_hooks h \<Longrightarrow> scan_items h n s = Inr (vs, r) \<Longrightarrow> foldr max (map nest vs) 0 + openings r \<le> openings s"
  "nest_hooks h \<Longrightarrow> scan_pairs h n s = Inr (kvs, r) \<Longrightarrow> foldr max (map (nest \<circ> snd) kvs) 0 + openings r \<le> openings s"
proof (induction h n s and h n s and h n s arbitrary: v r and vs r and kvs r
    rule: scan_value_scan_items_scan_pairs.induct)
  case (2 h n s)
  show ?case
  proof (cases s)
    case (Cons c t)
    have t: "openings (drop 1 (skip_ws t)) \<le> openings t" using openings_drop [of 1 "skip_ws t"] by simp
    consider "c = 34" | "c = 123" "take 1 (skip_ws t) = [125]" | "c = 123" "take 1 (skip_ws t) \<noteq> [125]"
      | "c = 91" "take 1 (skip_ws t) = [93]" | "c = 91" "take 1 (skip_ws t) \<noteq> [93]" | "c \<notin> {34, 123, 91}" by blast
    then show ?thesis
    proof cases
      case 1
      then show ?thesis using "2.prems"(2) by (auto simp: Cons split: sum.splits dest: scan_chars_openings)
    next
      case 2
      then show ?thesis using "2.prems" t by (auto simp: Cons with_rest_def nest_hooks_def split: sum.splits)
    next
      case 3
      then obtain kvs where p: "scan_pairs h n (skip_ws t) = Inr (kvs, r)" "object_pairs_hook h kvs = Inr v"
        using "2.prems"(2) by (auto simp: Cons with_rest_def split: sum.splits)
      with "2.IH"(1) [OF Cons _ _ _ "2.prems"(1), of kvs r] 3 "2.prems"(1) show ?thesis by (simp add: Cons nest_hooks_def comp_def)
    next
      case 4
      then show ?thesis using "2.prems" t by (auto simp: Cons)
    next
      case 5
      then obtain xs where p: "scan_items h n (skip_ws t) = Inr (xs, r)" "v = PList xs"
        using "2.prems"(2) by (auto simp: Cons split: sum.splits)
      with "2.IH"(2) [OF Cons _ _ _ _ "2.prems"(1), of xs r] 5 show ?thesis by (simp add: Cons)
    next
      case 6
      then have a: "scan_atom h s = Inr (v, r)" using "2.prems"(2) by (simp add: Cons)
      show ?thesis using scan_atom_nest [OF "2.prems"(1) a] scan_atom_openings [OF a] by simp
    qed
  qed (use 2 in simp)
next
  case (4 h n s)
  from "4.prems"(2) obtain v r1 c r2 where v: "scan_value h n s = Inr (v, r1)" and c: "skip_ws r1 = c # r2"
    and rest: "c = 93 \<and> vs = [v] \<and> r = r2 \<or> c = 44 \<and> (\<exists>us. vs = v # us \<and> scan_items h n (skip_ws r2) = Inr (us, r))"
    by (auto split: sum.splits list.splits if_splits)
  note 1 = "4.IH"(1) [OF "4.prems"(1) v] and r2 = skip_ws_openings [OF c]
  show ?case using rest
  proof (elim disjE conjE exE)
    fix us assume "c = 44" and us: "vs = v # us" "scan_items h n (skip_ws r2) = Inr (us, r)"
    with "4.IH"(2) [OF v refl c _ _ "4.prems"(1) us(2)] 1 r2 show ?thesis by simp
  qed (use 1 r2 in simp)
next
  case (6 h n s)
  from "6.prems"(2) obtain k r0 v r1 c r2 where k: "take 1 s = [34]" "scan_chars (drop 1 s) = Inr (k, r0)"
    and d: "take 1 (skip_ws r0) = [58]"
    and v: "scan_value h n (skip_ws (drop 1 (skip_ws r0))) = Inr (v, r1)" and c: "skip_ws r1 = c # r2"
    and rest: "c = 125 \<and> kvs = [(k, v)] \<and> r = r2 \<or> c = 44 \<and> (\<exists>us. kvs = (k, v) # us \<and> scan_pairs h n (skip_ws r2) = Inr (us, r))"
    by (auto split: sum.splits list.splits if_splits)
  have "nest v + openings r1 \<le> openings (skip_ws (drop 1 (skip_ws r0)))"
    using "6.IH"(1) [OF _ k(2) refl _ "6.prems"(1) v] k(1) d by simp
  also have "\<dots> \<le> openings r0" using openings_drop [of 1 "skip_ws r0"] by simp
  also have "\<dots> \<le> openings s" using scan_chars_openings [OF k(2)] openings_drop [of 1 s] by linarith
  finally have 1: "nest v + openings r1 \<le> openings s" .
  note r2 = skip_ws_openings [OF c]
  show ?case using rest
  proof (elim disjE conjE exE)
    fix us assume "c = 44" and us: "kvs = (k, v) # us" "scan_pairs h n (skip_ws r2) = Inr (us, r)"
    with "6.IH"(2) [OF _ k(2) refl _ v refl c _ _ "6.prems"(1) us(2)] k(1) d 1 r2 show ?thesis by simp
  qed (use 1 r2 in simp)
qed auto

lemma scan_within_enough:
  "nest_hooks h \<Longrightarrow> openings s \<le> k \<Longrightarrow> scan_value_within h k n s = scan_value h n s"
  "nest_hooks h \<Longrightarrow> openings s \<le> k \<Longrightarrow> scan_items_within h k n s = scan_items h n s"
  "nest_hooks h \<Longrightarrow> openings s \<le> k \<Longrightarrow> scan_pairs_within h k n s = scan_pairs h n s"
proof (induction h k n s and h k n s and h k n s rule: scan_value_within_scan_items_within_scan_pairs_within.induct)
  case (2 h k n s)
  show ?case
  proof (cases s)
    case (Cons c t)
    have 1: "scan_pairs_within h (k - 1) n (skip_ws t) = scan_pairs h n (skip_ws t)" if "c = 123" "take 1 (skip_ws t) \<noteq> [125]"
      using "2.IH"(1) [OF Cons] "2.prems" that by (simp add: Cons)
    have 2: "scan_items_within h (k - 1) n (skip_ws t) = scan_items h n (skip_ws t)" if "c = 91" "take 1 (skip_ws t) \<noteq> [93]"
      using "2.IH"(2) [OF Cons] "2.prems" that by (simp add: Cons)
    have "k \<noteq> 0" if "c = 123 \<or> c = 91" using "2.prems"(2) that by (auto simp: Cons)
    with 1 2 show ?thesis by (cases "k = 0") (auto simp: Cons)
  qed simp
next
  case (4 h k n s)
  have v: "scan_value_within h k n s = scan_value h n s" by (rule "4.IH"(1) [OF "4.prems"])
  have i: "scan_items_within h k n (skip_ws r') = scan_items h n (skip_ws r')"
    if "scan_value h n s = Inr (x, r)" "skip_ws r = 44 # r'" for x r r'
  proof -
    have "openings (skip_ws r') \<le> k"
      using scan_openings(1) [OF "4.prems"(1) that(1)] skip_ws_openings [OF that(2)] "4.prems"(2) by simp
    with "4.IH"(2) [OF _ refl that(2) _ _ "4.prems"(1)] that(1) v show ?thesis by simp
  qed
  show ?case using i by (auto simp: v split: sum.splits prod.splits list.splits)
next
  case (6 h k n s)
  show ?case
  proof (cases "\<exists>x r. take 1 s = [34] \<and> scan_chars (drop 1 s) = Inr (x, r) \<and> take 1 (skip_ws r) = [58]")
    case True
    then obtain x r where x: "take 1 s = [34]" "scan_chars (drop 1 s) = Inr (x, r)" "take 1 (skip_ws r) = [58]" by blast
    let ?t = "skip_ws (drop 1 (skip_ws r))"
    have t: "openings ?t \<le> k"
      using openings_drop [of 1 "skip_ws r"] scan_chars_openings [OF x(2)] openings_drop [of 1 s] "6.prems"(2) by simp
    have v: "scan_value_within h k n ?t = scan_value h n ?t" using "6.IH"(1) [OF _ x(2) refl _ "6.prems"(1) t] x by simp
    have i: "scan_pairs_within h k n (skip_ws r2) = scan_pairs h n (skip_ws r2)"
      if "scan_value h n ?t = Inr (y, r1)" "skip_ws r1 = 44 # r2" for y r1 r2
    proof -
      have "openings (skip_ws r2) \<le> k"
        using scan_openings(1) [OF "6.prems"(1) that(1)] skip_ws_openings [OF that(2)] t by simp
      with "6.IH"(2) [OF _ x(2) refl _ _ refl that(2) _ _ "6.prems"(1)] that(1) v x show ?thesis by simp
    qed
    show ?thesis using i x v by (auto split: sum.splits prod.splits list.splits)
  next
    case False
    then show ?thesis by (auto split: sum.splits prod.splits list.splits)
  qed
qed simp_all

section \<open>Loading within a number of levels\<close>

lemma loads_within_cut: "cut_or (loads_within h k s) (loads_with h s)"
  unfolding loads_within_def loads_with_def
  by (simp del: scan_value_within.simps scan_value.simps add: cut_or_case scan_within_cut)

lemma load_text_within_cut: "cut_or (load_text_within l s) (load_i_json s)"
proof -
  have c: "(case canonicalize v of Inl e \<Rightarrow> Inl e | Inr _ \<Rightarrow> Inr v) = (case serialize v of Inl e \<Rightarrow> Inl e | Inr _ \<Rightarrow> Inr v)" for v
    by (simp add: canonicalize_def canonicalize_json_def split: sum.split)
  from loads_within_cut [of i_json_hooks "scan_levels l" s] serialize_within_cut [of "serialize_levels l"] show ?thesis
    unfolding load_text_within_def load_i_json_def c
    by (auto simp: cut_or_def split: sum.splits) (metis Inl_Inr_False sum.inject)+
qed

lemma load_text_within_enough:
  assumes "openings s \<le> scan_levels l" "openings s \<le> serialize_levels l"
  shows "load_text_within l s = load_i_json s"
proof -
  have scan: "scan_value_within i_json_hooks (scan_levels l) n (skip_ws s) = scan_value i_json_hooks n (skip_ws s)" for n
    using assms(1) by (intro scan_within_enough(1) [OF nest_hooks_i_json]) simp
  have loads: "loads_within i_json_hooks (scan_levels l) s = loads_with i_json_hooks s"
    by (simp add: loads_within_def loads_with_def scan del: scan_value_within.simps scan_value.simps)
  have "serialize_within (serialize_levels l) v = serialize v" if v: "loads_with i_json_hooks s = Inr v" for v
  proof (rule serialize_within_enough)
    obtain r where "scan_value i_json_hooks (2 * length s + 2) (skip_ws s) = Inr (v, r)"
      using v by (auto simp: loads_with_def simp del: scan_value.simps split: if_splits sum.splits)
    from scan_openings(1) [OF nest_hooks_i_json this] assms(2) show "nest v \<le> serialize_levels l" by simp
  qed
  then show ?thesis
    unfolding load_text_within_def load_i_json_def loads canonicalize_def canonicalize_json_def by (simp split: sum.split)
qed

lemma load_within_document: "cut_or (load_i_json_within l d) (load_i_json_document d)"
  using load_text_within_cut
  by (auto simp: load_i_json_within_def document_text_def load_i_json_document_def split: document.split option.split)

text \<open>A document of more opening brackets than the scanner has levels escapes \<^verbatim>\<open>load_i_json\<close> as \<^verbatim>\<open>RecursionError\<close>.\<close>

lemma brackets_overflow: "2 * k < n \<Longrightarrow> scan_value_within h k n (replicate (Suc k) 91) = Inl RecursionError"
proof (induction k arbitrary: n)
  case 0
  then obtain m where "n = Suc m" by (cases n) auto
  then show ?case by simp
next
  case (Suc k)
  then obtain m where m: "n = Suc (Suc m)" "2 * k < m" by (cases n; cases "n - 1") auto
  have ws: "skip_ws (replicate (Suc k) 91) = replicate (Suc k) 91" by (simp add: skip_ws_def is_ws_def)
  from Suc.IH [OF m(2)] have "scan_items_within h k (Suc m) (replicate (Suc k) 91) = Inl RecursionError" by simp
  then show ?case using ws by (simp add: m(1) del: scan_items_within.simps)
qed

lemma deep_document_escapes: "load_i_json_within l (Text (replicate (Suc (scan_levels l)) 91)) = Inl RecursionError"
proof -
  let ?s = "replicate (Suc (scan_levels l)) 91 :: pystr"
  have ws: "skip_ws ?s = ?s" by (simp add: skip_ws_def is_ws_def)
  have "loads_within i_json_hooks (scan_levels l) ?s = Inl RecursionError"
    unfolding loads_within_def ws by (subst brackets_overflow) simp_all
  then show ?thesis by (simp add: load_i_json_within_def document_text_def load_text_within_def)
qed

section \<open>Properties\<close>

text \<open>
  C28 [load_i_json_total]: \<^verbatim>\<open>load_i_json\<close> returns on every document, text or bytes in any encoding, however many nested calls
  the interpreter has left.  The exceptions it raises are \<^verbatim>\<open>CanonicalizationError\<close> and, only for a document with
  more opening brackets than levels left to the scanner or to the serializer, \<^verbatim>\<open>RecursionError\<close>.  A value it returns has a
  canonical text and a digest.
\<close>

theorem load_i_json_total:
  "case load_i_json_within levels document of
     Inl e \<Rightarrow> (\<exists>m. e = CanonicalizationError m)
       \<or> e = RecursionError \<and> (\<exists>s. document_text document = Some s \<and> min (scan_levels levels) (serialize_levels levels) < openings s)
   | Inr w \<Rightarrow> is_ok (canonicalize_json w) \<and> is_ok (canonical_sha256 w)"
proof (cases "document_text document")
  case (Some s)
  show ?thesis
  proof (cases "load_text_within levels s = load_i_json s")
    case True
    then show ?thesis using load_text_total [of s] by (auto simp: load_i_json_within_def Some split: sum.splits)
  next
    case False
    then have r: "load_text_within levels s = Inl RecursionError" using load_text_within_cut [of levels s] by (simp add: cut_or_def)
    have "\<not> (openings s \<le> scan_levels levels \<and> openings s \<le> serialize_levels levels)"
      using False load_text_within_enough [of s levels] by blast
    then have "min (scan_levels levels) (serialize_levels levels) < openings s" by (auto simp: min_def)
    with r show ?thesis by (simp add: load_i_json_within_def Some)
  qed
qed (simp add: load_i_json_within_def)

end
