(* ===== verification/C5_Backbone.thy ===== *)
theory C5_Backbone
  imports Json_Codec
begin

text \<open>
  The event backbone of \<^verbatim>\<open>c5/backbone.py\<close>: the closed envelope, publication with its quarantine, the dedup keys
  and watermarks that are a cache of the topic, and their recovery from it.  The Kafka command line tools are a
  parameter: a function from a command, its standard input and a state of the broker to what the process
  returned and the broker after it.  What is assumed of them is the predicate \<open>kafka_ok\<close>: records may expire at any
  time, and the exit code of a write says nothing about its outcome.
\<close>

section \<open>Text\<close>

text \<open>
  \<^verbatim>\<open>str.splitlines\<close>, \<^verbatim>\<open>str.split(sep, n)\<close>, \<^verbatim>\<open>str.removeprefix\<close> and \<^verbatim>\<open>int(text)\<close>, the last one for ASCII digits with
  single underscores between them.
\<close>

definition line_break :: "nat \<Rightarrow> bool" where
  "line_break c \<longleftrightarrow> 10 \<le> c \<and> c \<le> 13 \<or> 28 \<le> c \<and> c \<le> 30 \<or> c = 0x85 \<or> c = 0x2028 \<or> c = 0x2029"

lemma dropWhile_Cons_length: "dropWhile P s = c # r \<Longrightarrow> length r < length s"
  using length_dropWhile_le [of P s] by simp

function splitlines :: "pystr \<Rightarrow> pystr list" where
  "splitlines s =
     (if s = [] then []
      else takeWhile (\<lambda>c. \<not> line_break c) s #
        (case dropWhile (\<lambda>c. \<not> line_break c) s of [] \<Rightarrow> []
         | c # r \<Rightarrow> splitlines (if c = 13 \<and> take 1 r = [10] then drop 1 r else r)))"
  by pat_completeness auto

termination
  by (relation "measure length") (auto dest!: dropWhile_Cons_length)

declare splitlines.simps [simp del]

fun split_max :: "nat \<Rightarrow> nat \<Rightarrow> pystr \<Rightarrow> pystr list" where
  "split_max c 0 s = [s]"
| "split_max c (Suc n) s =
     (if c \<in> set s then fst (split_once c s) # split_max c n (snd (split_once c s)) else [s])"

definition removeprefix :: "pystr \<Rightarrow> pystr \<Rightarrow> pystr" where
  "removeprefix p s = (if startswith s p then drop (length p) s else s)"

definition py_int :: "pystr \<Rightarrow> int res" where
  "py_int s =
     (let t = strip s; signed = (take 1 t = [43] \<or> take 1 t = [45]);
          ds = split_at 95 (if signed then drop 1 t else t) in
      if list_ex (\<lambda>d. d = [] \<or> \<not> list_all digit d) ds then Inl (ValueError ''invalid literal for int'')
      else if int_digits_limit < length (concat ds)
      then Inl (ValueError ''Exceeds the limit for integer string conversion'')
      else Inr (if take 1 t = [45] then - int (nat_of_digits (concat ds)) else int (nat_of_digits (concat ds))))"

section \<open>The envelope\<close>

definition REGISTERED_SCHEMAS :: "pystr set" where
  "REGISTERED_SCHEMAS = {lit ''urn:ocor:schema:canonical-ingestion-envelope:1''}"

definition REQUIRED_FIELDS :: "string list" where
  "REQUIRED_FIELDS = [''event_id'', ''event_type'', ''event_version'', ''schema_ref'', ''producer_principal'',
     ''source_ref'', ''aggregate_ref'', ''correlation_id'', ''causation_id'', ''classification_marking_ref'',
     ''governed_context_digest'', ''idempotency_key'', ''sequence'', ''payload'']"

record CanonicalIngestionEnvelope =
  ev_event_id :: pystr
  ev_event_type :: pystr
  ev_event_version :: pystr
  ev_schema_ref :: pystr
  ev_producer_principal :: pystr
  ev_source_ref :: pystr
  ev_aggregate_ref :: pystr
  ev_correlation_id :: pystr
  ev_causation_id :: pystr
  ev_classification_marking_ref :: pystr
  ev_governed_context_digest :: pystr
  ev_idempotency_key :: pystr
  ev_sequence :: int
  ev_payload :: "(dkey \<times> pyval) list"

definition envelope_strings :: "CanonicalIngestionEnvelope \<Rightarrow> (string \<times> pystr) list" where
  "envelope_strings e =
     [(''event_id'', ev_event_id e), (''event_type'', ev_event_type e), (''event_version'', ev_event_version e),
      (''schema_ref'', ev_schema_ref e), (''producer_principal'', ev_producer_principal e),
      (''source_ref'', ev_source_ref e), (''aggregate_ref'', ev_aggregate_ref e),
      (''correlation_id'', ev_correlation_id e), (''causation_id'', ev_causation_id e),
      (''classification_marking_ref'', ev_classification_marking_ref e),
      (''governed_context_digest'', ev_governed_context_digest e), (''idempotency_key'', ev_idempotency_key e)]"

definition envelope_to_mapping :: "CanonicalIngestionEnvelope \<Rightarrow> pyval" where
  "envelope_to_mapping e =
     obj (map (\<lambda>(k, s). (k, PStr s)) (envelope_strings e)
          @ [(''sequence'', PInt (ev_sequence e)), (''payload'', PDict (ev_payload e))])"

text \<open>
  \<^verbatim>\<open>field in value\<close> and \<^verbatim>\<open>value[field]\<close> on whatever the caller or the JSON parser gave: a mapping, or a list, or a
  text, in which the field is an element or a substring and which no text can index.
\<close>

definition contains_field :: "pystr \<Rightarrow> pyval \<Rightarrow> bool res" where
  "contains_field f v =
     (case v of PDict kvs \<Rightarrow> Inr (dict_get kvs (KStr f) \<noteq> None)
      | PList xs \<Rightarrow> Inr (list_ex (py_eq (PStr f)) xs)
      | PTuple xs \<Rightarrow> Inr (list_ex (py_eq (PStr f)) xs)
      | PStr s \<Rightarrow> Inr (sublist f s)
      | _ \<Rightarrow> Inl (TypeError ''argument is not iterable''))"

definition get_field :: "string \<Rightarrow> pyval \<Rightarrow> pyval res" where
  "get_field f v =
     (case v of PDict kvs \<Rightarrow> (case dict_get kvs (KStr (lit f)) of None \<Rightarrow> Inl (KeyError (lit f)) | Some x \<Rightarrow> Inr x)
      | _ \<Rightarrow> Inl (TypeError ''indices must be integers''))"

definition string_field :: "string \<Rightarrow> pyval \<Rightarrow> pystr res" where
  "string_field f v =
     (case get_field f v of Inl e \<Rightarrow> Inl e
      | Inr x \<Rightarrow> (case x of PStr s \<Rightarrow> if s = [] then Inl (BackboneError ''MISSING_CONTEXT'') else Inr s
                   | _ \<Rightarrow> Inl (BackboneError ''MISSING_CONTEXT'')))"

definition sequence_field :: "pyval \<Rightarrow> int res" where
  "sequence_field v =
     (case get_field ''sequence'' v of Inl e \<Rightarrow> Inl e
      | Inr x \<Rightarrow> (case x of PInt i \<Rightarrow> if i < 0 then Inl (BackboneError ''MISSING_CONTEXT'') else Inr i
                   | _ \<Rightarrow> Inl (BackboneError ''MISSING_CONTEXT'')))"

definition payload_field :: "pyval \<Rightarrow> (dkey \<times> pyval) list res" where
  "payload_field v =
     (case get_field ''payload'' v of Inl e \<Rightarrow> Inl e
      | Inr x \<Rightarrow> (case x of PDict kvs \<Rightarrow> Inr kvs | _ \<Rightarrow> Inl (BackboneError ''MISSING_CONTEXT'')))"

definition envelope_of :: "pystr list \<Rightarrow> int \<Rightarrow> (dkey \<times> pyval) list \<Rightarrow> CanonicalIngestionEnvelope" where
  "envelope_of ss n p = \<lparr>ev_event_id = ss ! 0, ev_event_type = ss ! 1, ev_event_version = ss ! 2, ev_schema_ref = ss ! 3,
     ev_producer_principal = ss ! 4, ev_source_ref = ss ! 5, ev_aggregate_ref = ss ! 6, ev_correlation_id = ss ! 7,
     ev_causation_id = ss ! 8, ev_classification_marking_ref = ss ! 9, ev_governed_context_digest = ss ! 10,
     ev_idempotency_key = ss ! 11, ev_sequence = n, ev_payload = p\<rparr>"

definition envelope_from_mapping :: "pyval \<Rightarrow> CanonicalIngestionEnvelope res" where
  "envelope_from_mapping v =
     (case sequence_res (map (\<lambda>f. contains_field (lit f) v) REQUIRED_FIELDS) of Inl e \<Rightarrow> Inl e
      | Inr present \<Rightarrow>
         if \<not> list_all id present then Inl (BackboneError ''MISSING_CONTEXT'')
         else (case sequence_res (map (\<lambda>f. string_field f v) (take 12 REQUIRED_FIELDS)) of Inl e \<Rightarrow> Inl e
          | Inr ss \<Rightarrow>
             (case sequence_field v of Inl e \<Rightarrow> Inl e
              | Inr n \<Rightarrow> (case payload_field v of Inl e \<Rightarrow> Inl e | Inr p \<Rightarrow> Inr (envelope_of ss n p)))))"

section \<open>The broker's command line tools\<close>

datatype command =
    KafkaTopicsCreate pystr
  | KafkaGetOffsets pystr pystr
  | KafkaConsoleProducer pystr
  | KafkaConsoleConsumer pystr int

text \<open>A process exits with a code and its standard output, or is killed at its time limit.\<close>

datatype process = Exited int pystr | Killed

type_synonym 'w cli = "command \<Rightarrow> pystr option \<Rightarrow> 'w \<Rightarrow> process \<times> 'w"

text \<open>\<^verbatim>\<open>_exec\<close> and \<^verbatim>\<open>_run\<close>: input is encoded as UTF-8 before any of it is written.\<close>

definition kafka_exec :: "'w cli \<Rightarrow> command \<Rightarrow> pystr option \<Rightarrow> 'w \<Rightarrow> pystr res \<times> 'w" where
  "kafka_exec run c input w =
     (if (case input of None \<Rightarrow> False | Some t \<Rightarrow> list_ex is_surrogate t)
      then (Inl (ValueError ''surrogates not allowed''), w)
      else case run c input w of
             (Killed, w') \<Rightarrow> (Inl TimeoutExpired, w')
           | (Exited code out, w') \<Rightarrow> (if code \<noteq> 0 then Inl (KafkaBackboneError ''command failed'') else Inr out, w'))"

section \<open>The backbone\<close>

record QuarantinedEnvelope =
  qe_reason_code :: string
  qe_raw :: pyval

record DeliveredRecord =
  dr_partition :: int
  dr_offset :: int
  dr_envelope :: CanonicalIngestionEnvelope

record CanonicalEventBackbone =
  bb_topic :: pystr
  bb_last_sequence :: "(pystr \<times> pystr, int) dict"
  bb_seen_idempotency_keys :: "(pystr \<times> pystr) set"
  bb_quarantine :: "QuarantinedEnvelope list"
  bb_recovered :: bool

definition new_backbone :: "pystr \<Rightarrow> CanonicalEventBackbone" where
  "new_backbone topic = \<lparr>bb_topic = topic, bb_last_sequence = [], bb_seen_idempotency_keys = {}, bb_quarantine = [],
     bb_recovered = False\<rparr>"

definition backbone_initialize ::
  "'w cli \<Rightarrow> CanonicalEventBackbone \<Rightarrow> 'w \<Rightarrow> unit res \<times> CanonicalEventBackbone \<times> 'w" where
  "backbone_initialize run b w =
     (case kafka_exec run (KafkaTopicsCreate (bb_topic b)) None w of
        (Inl e, w') \<Rightarrow> (Inl e, b, w')
      | (Inr _, w') \<Rightarrow>
          (Inr (), b\<lparr>bb_last_sequence := [], bb_seen_idempotency_keys := {}, bb_recovered := True\<rparr>, w'))"

text \<open>A line of \<^verbatim>\<open>kafka-get-offsets\<close> is \<^verbatim>\<open>topic:partition:offset\<close>; other lines are passed over.\<close>

fun read_offsets :: "pystr \<Rightarrow> pystr list \<Rightarrow> (int, int) dict \<Rightarrow> (int, int) dict res" where
  "read_offsets topic [] offsets = Inr offsets"
| "read_offsets topic (line # lines) offsets =
     (let parts = split_at 58 line in
      if length parts = 3 \<and> parts ! 0 = topic then
        (case py_int (parts ! 1) of Inl e \<Rightarrow> Inl e
         | Inr p \<Rightarrow> (case py_int (parts ! 2) of Inl e \<Rightarrow> Inl e
                     | Inr n \<Rightarrow> read_offsets topic lines (dict_set p n offsets)))
      else read_offsets topic lines offsets)"

definition journal_offsets ::
  "'w cli \<Rightarrow> pystr \<Rightarrow> CanonicalEventBackbone \<Rightarrow> 'w \<Rightarrow> (int, int) dict res \<times> 'w" where
  "journal_offsets run time_spec b w =
     (case kafka_exec run (KafkaGetOffsets (bb_topic b) time_spec) None w of
        (Inl e, w') \<Rightarrow> (Inl e, w')
      | (Inr out, w') \<Rightarrow>
          (case read_offsets (bb_topic b) (splitlines out) [] of Inl e \<Rightarrow> (Inl e, w')
           | Inr offsets \<Rightarrow>
              (if offsets = [] then Inl (KafkaBackboneError ''journal topic reports no partitions'') else Inr offsets, w')))"

definition read_record :: "pystr \<Rightarrow> DeliveredRecord res" where
  "read_record raw_line =
     (case split_max 124 3 raw_line of
        [partition_part, offset_part, k, payload] \<Rightarrow>
          (case loads payload of Inl e \<Rightarrow> Inl e
           | Inr v \<Rightarrow>
              (case py_int (removeprefix (lit ''Partition:'') partition_part) of Inl e \<Rightarrow> Inl e
               | Inr p \<Rightarrow>
                  (case py_int (removeprefix (lit ''Offset:'') offset_part) of Inl e \<Rightarrow> Inl e
                   | Inr n \<Rightarrow>
                      (case envelope_from_mapping v of Inl e \<Rightarrow> Inl e
                       | Inr env \<Rightarrow> Inr \<lparr>dr_partition = p, dr_offset = n, dr_envelope = env\<rparr>))))
      | _ \<Rightarrow> Inl (ValueError ''not enough values to unpack''))"

definition backbone_consume ::
  "'w cli \<Rightarrow> int \<Rightarrow> CanonicalEventBackbone \<Rightarrow> 'w \<Rightarrow> DeliveredRecord list res \<times> 'w" where
  "backbone_consume run number b w =
     (case run (KafkaConsoleConsumer (bb_topic b) number) None w of
        (Killed, w') \<Rightarrow> (Inl TimeoutExpired, w')
      | (Exited code out, w') \<Rightarrow>
          (case sequence_res (map read_record (filter (\<lambda>l. startswith l (lit ''Partition:'')) (splitlines out))) of
             Inl e \<Rightarrow> (Inl e, w')
           | Inr records \<Rightarrow>
              (if int (length records) \<noteq> number then Inl (KafkaBackboneError ''unexpected number of records'')
               else Inr records, w')))"

definition dedup_key :: "CanonicalIngestionEnvelope \<Rightarrow> pystr \<times> pystr" where
  "dedup_key e = (ev_governed_context_digest e, ev_idempotency_key e)"

definition order_key :: "CanonicalIngestionEnvelope \<Rightarrow> pystr \<times> pystr" where
  "order_key e = (ev_governed_context_digest e, ev_aggregate_ref e)"

definition advance ::
  "CanonicalIngestionEnvelope \<Rightarrow> (pystr \<times> pystr, int) dict \<Rightarrow> (pystr \<times> pystr, int) dict" where
  "advance e marks =
     dict_set (order_key e)
       (max (ev_sequence e) (case dict_get marks (order_key e) of None \<Rightarrow> ev_sequence e | Some n \<Rightarrow> n)) marks"

definition as_unreadable :: "exn \<Rightarrow> exn" where
  "as_unreadable e =
     (case e of BackboneError _ \<Rightarrow> KafkaBackboneError ''journal topic holds an unreadable record''
      | ValueError _ \<Rightarrow> KafkaBackboneError ''journal topic holds an unreadable record'' | _ \<Rightarrow> e)"

definition journal_count :: "(int, int) dict \<Rightarrow> (int, int) dict \<Rightarrow> int" where
  "journal_count earliest latest =
     sum_list (map (\<lambda>p. the (dict_get latest p) - the (dict_get earliest p)) (dict_keys latest))"

definition recover_from_journal ::
  "'w cli \<Rightarrow> CanonicalEventBackbone \<Rightarrow> 'w \<Rightarrow> unit res \<times> CanonicalEventBackbone \<times> 'w" where
  "recover_from_journal run b w =
     (case journal_offsets run (lit ''-2'') b w of (Inl e, w1) \<Rightarrow> (Inl e, b, w1)
      | (Inr earliest, w1) \<Rightarrow>
      (case journal_offsets run (lit ''-1'') b w1 of (Inl e, w2) \<Rightarrow> (Inl e, b, w2)
      | (Inr latest, w2) \<Rightarrow>
         if set (dict_keys earliest) \<noteq> set (dict_keys latest)
         then (Inl (KafkaBackboneError ''journal topic changed partitions during recovery''), b, w2)
         else (case (if journal_count earliest latest = 0 then (Inr [], w2)
                     else backbone_consume run (journal_count earliest latest) b w2) of
            (Inl e, w3) \<Rightarrow> (Inl (as_unreadable e), b, w3)
          | (Inr records, w3) \<Rightarrow>
             let es = map dr_envelope records in
             (Inr (), b\<lparr>bb_seen_idempotency_keys := set (map dedup_key es), bb_last_sequence := fold advance es [],
                 bb_recovered := True\<rparr>, w3))))"

definition quarantined ::
  "string \<Rightarrow> pyval \<Rightarrow> CanonicalEventBackbone \<Rightarrow> CanonicalEventBackbone" where
  "quarantined code raw b = b\<lparr>bb_quarantine := bb_quarantine b @ [\<lparr>qe_reason_code = code, qe_raw = raw\<rparr>]\<rparr>"

text \<open>The part of \<^verbatim>\<open>publish\<close> after the cache is known to be the journal's.\<close>

definition publish_recovered ::
  "'w cli \<Rightarrow> CanonicalIngestionEnvelope \<Rightarrow> CanonicalEventBackbone \<Rightarrow> 'w \<Rightarrow> unit res \<times> CanonicalEventBackbone \<times> 'w" where
  "publish_recovered run e b w =
     (if dedup_key e \<in> bb_seen_idempotency_keys b then (Inr (), b, w)
      else if (case dict_get (bb_last_sequence b) (order_key e) of None \<Rightarrow> False | Some n \<Rightarrow> ev_sequence e \<le> n)
      then (Inl (BackboneError ''OUT_OF_ORDER''), quarantined ''OUT_OF_ORDER'' (envelope_to_mapping e) b, w)
      else case dumps (envelope_to_mapping e) of Inl x \<Rightarrow> (Inl x, b, w)
      | Inr text \<Rightarrow>
         (case kafka_exec run (KafkaConsoleProducer (bb_topic b)) (Some (ev_aggregate_ref e @ [124] @ text @ [10])) w of
            (Inl (KafkaBackboneError m), w') \<Rightarrow> (Inl (KafkaBackboneError m), b\<lparr>bb_recovered := False\<rparr>, w')
          | (Inl x, w') \<Rightarrow> (Inl x, b, w')
          | (Inr _, w') \<Rightarrow>
              (Inr (), b\<lparr>bb_last_sequence := dict_set (order_key e) (ev_sequence e) (bb_last_sequence b),
                  bb_seen_idempotency_keys := insert (dedup_key e) (bb_seen_idempotency_keys b)\<rparr>, w')))"

definition backbone_publish ::
  "'w cli \<Rightarrow> CanonicalIngestionEnvelope \<Rightarrow> CanonicalEventBackbone \<Rightarrow> 'w \<Rightarrow> unit res \<times> CanonicalEventBackbone \<times> 'w" where
  "backbone_publish run e b w =
     (if ev_schema_ref e \<notin> REGISTERED_SCHEMAS
      then (Inl (BackboneError ''UNKNOWN_SCHEMA''), quarantined ''UNKNOWN_SCHEMA'' (envelope_to_mapping e) b, w)
      else if ev_governed_context_digest e = []
      then (Inl (BackboneError ''MISSING_CONTEXT''), quarantined ''MISSING_CONTEXT'' (envelope_to_mapping e) b, w)
      else if bb_recovered b then publish_recovered run e b w
      else case recover_from_journal run b w of
             (Inl x, b', w') \<Rightarrow> (Inl x, b', w')
           | (Inr _, b', w') \<Rightarrow> publish_recovered run e b' w')"

definition publish_from_mapping ::
  "'w cli \<Rightarrow> (dkey \<times> pyval) list \<Rightarrow> CanonicalEventBackbone \<Rightarrow> 'w \<Rightarrow> unit res \<times> CanonicalEventBackbone \<times> 'w" where
  "publish_from_mapping run raw b w =
     (case envelope_from_mapping (PDict raw) of
        Inl (BackboneError code) \<Rightarrow> (Inl (BackboneError code), quarantined code (PDict raw) b, w)
      | Inl x \<Rightarrow> (Inl x, b, w)
      | Inr e \<Rightarrow> backbone_publish run e b w)"

section \<open>Lines and numbers\<close>

definition one_line :: "pystr \<Rightarrow> bool" where
  "one_line s \<longleftrightarrow> list_all (\<lambda>c. \<not> line_break c) s"

lemma splitlines_Cons: "one_line l \<Longrightarrow> splitlines (l @ 10 # r) = l # splitlines r"
proof -
  assume "one_line l"
  then have all: "\<And>c. c \<in> set l \<Longrightarrow> \<not> line_break c" by (simp add: one_line_def list_all_iff)
  have "takeWhile (\<lambda>c. \<not> line_break c) (l @ 10 # r) = l" "dropWhile (\<lambda>c. \<not> line_break c) (l @ 10 # r) = 10 # r"
    by (simp_all add: takeWhile_append2 dropWhile_append2 all line_break_def [of 10])
  then show ?thesis by (subst splitlines.simps) simp
qed

lemma splitlines_lines: "list_all one_line ls \<Longrightarrow> splitlines (concat (map (\<lambda>l. l @ [10]) ls)) = ls"
  by (induction ls) (simp_all add: splitlines_Cons, simp add: splitlines.simps)

lemma one_line_simps [simp]:
  "one_line []" "one_line (c # s) \<longleftrightarrow> \<not> line_break c \<and> one_line s" "one_line (s @ t) \<longleftrightarrow> one_line s \<and> one_line t"
  by (auto simp: one_line_def)

lemma one_line_printable: "ascii_printable s \<Longrightarrow> one_line s"
  by (auto simp: ascii_printable_def one_line_def list_all_iff line_break_def)

lemma one_line_dec_nat: "one_line (dec_nat n)"
  using dec_nat_int_ok [of n] by (auto simp: int_ok_def one_line_def list_all_iff digit_def line_break_def)

lemma split_max_record:
  "124 \<notin> set a \<Longrightarrow> 124 \<notin> set b \<Longrightarrow> 124 \<notin> set k \<Longrightarrow>
     split_max 124 3 (a @ 124 # b @ 124 # k @ 124 # v) = [a, b, k, v]"
  by (simp add: numeral_3_eq_3 split_once_text)

lemma split_at_nosep: "c \<notin> set a \<Longrightarrow> split_at c a = [a]"
  by (induction a) auto

lemma split_at_Cons: "c \<notin> set a \<Longrightarrow> split_at c (a @ c # r) = a # split_at c r"
  by (induction a) auto

lemma dec_nat_digit: "c \<in> set (dec_nat n) \<Longrightarrow> digit c"
  using dec_nat_int_ok [of n] by (auto simp: int_ok_def list_all_iff)

lemma dropWhile_none: "(\<And>c. c \<in> set s \<Longrightarrow> \<not> P c) \<Longrightarrow> dropWhile P s = s"
  by (cases s) auto

lemma strip_dec_nat: "strip (dec_nat n) = dec_nat n"
proof -
  have "\<not> is_space c" if "digit c" for c using that by (auto simp: digit_def is_space_def)
  then have n: "\<not> is_space c" if "c \<in> set (dec_nat n)" for c using that dec_nat_digit by blast
  have "dropWhile is_space (dec_nat n) = dec_nat n" "dropWhile is_space (rev (dec_nat n)) = rev (dec_nat n)"
    by (rule dropWhile_none, simp add: n)+
  then show ?thesis by (simp add: strip_def)
qed

lemma dec_nat_short: "n < 2 ^ 63 \<Longrightarrow> length (dec_nat n) \<le> 20"
proof (rule ccontr)
  assume n: "n < 2 ^ 63" and "\<not> length (dec_nat n) \<le> 20"
  then have l: "21 \<le> length (dec_nat n)" by simp
  have "0 < n" using l by (cases "n = 0") (auto simp: dec_nat.simps [of 0])
  then have "10 ^ length (dec_nat n) \<le> 10 * n" using dec_nat_bounds by blast
  moreover have "(10::nat) ^ 21 \<le> 10 ^ length (dec_nat n)" using l by (rule power_increasing) simp
  ultimately have "(10::nat) ^ 21 \<le> 10 * n" by linarith
  with n show False by simp
qed

lemma py_int_dec_nat: "n < 2 ^ 63 \<Longrightarrow> py_int (dec_nat n) = Inr (int n)"
proof -
  assume n: "n < 2 ^ 63"
  obtain c cs where c: "dec_nat n = c # cs" "digit c"
    using dec_nat_int_ok [of n] by (cases "dec_nat n") (auto simp: int_ok_def)
  have "95 \<notin> set (dec_nat n)" using dec_nat_digit [of 95 n] by (auto simp: digit_def)
  then have "split_at 95 (dec_nat n) = [dec_nat n]" by (rule split_at_nosep)
  moreover have "take 1 (dec_nat n) \<noteq> [43]" "take 1 (dec_nat n) \<noteq> [45]" using c by (auto simp: digit_def)
  moreover have "list_all digit (dec_nat n)" "dec_nat n \<noteq> []" using dec_nat_int_ok [of n] by (auto simp: int_ok_def)
  ultimately show ?thesis
    using dec_nat_short [OF n] by (simp add: py_int_def strip_dec_nat Let_def nat_of_digits_dec_nat int_digits_limit_def)
qed

section \<open>The envelope's codec\<close>

text \<open>
  Envelopes that survive the journal: text of Unicode scalars, no field empty, an aggregate that is a legal key of the
  console producer, a sequence and a payload that JSON can carry.
\<close>

definition wire_safe :: "CanonicalIngestionEnvelope \<Rightarrow> bool" where
  "wire_safe e \<longleftrightarrow> list_all (\<lambda>(k, s). s \<noteq> [] \<and> text_ok s) (envelope_strings e)
     \<and> one_line (ev_aggregate_ref e) \<and> 124 \<notin> set (ev_aggregate_ref e)
     \<and> 0 \<le> ev_sequence e \<and> length (dec_nat (nat (ev_sequence e))) \<le> int_digits_limit
     \<and> dump_ok (PDict (ev_payload e))"

definition stored_envelope :: "CanonicalIngestionEnvelope \<Rightarrow> CanonicalIngestionEnvelope" where
  "stored_envelope e =
     e\<lparr>ev_payload := sort_key (key_text \<circ> fst) (map (\<lambda>(k, v). (k, json_image v)) (ev_payload e))\<rparr>"

lemma stored_envelope_sel [simp]:
  "ev_aggregate_ref (stored_envelope e) = ev_aggregate_ref e" "ev_sequence (stored_envelope e) = ev_sequence e"
  "dedup_key (stored_envelope e) = dedup_key e" "order_key (stored_envelope e) = order_key e"
  by (simp_all add: stored_envelope_def dedup_key_def order_key_def)

lemma envelope_keys:
  "map fst (envelope_strings e) @ [''sequence'', ''payload''] = REQUIRED_FIELDS" "distinct REQUIRED_FIELDS"
  by (simp_all add: envelope_strings_def REQUIRED_FIELDS_def)

lemma envelope_from_get:
  assumes "\<And>f s. (f, s) \<in> set (envelope_strings e) \<Longrightarrow> s \<noteq> [] \<and> dict_get kvs (KStr (lit f)) = Some (PStr s)"
    and "dict_get kvs (KStr (lit ''sequence'')) = Some (PInt (ev_sequence e))" "0 \<le> ev_sequence e"
    and "dict_get kvs (KStr (lit ''payload'')) = Some (PDict p)"
  shows "envelope_from_mapping (PDict kvs) = Inr (e\<lparr>ev_payload := p\<rparr>)"
proof -
  have str: "string_field f (PDict kvs) = Inr s" "contains_field (lit f) (PDict kvs) = Inr True"
    if "(f, s) \<in> set (envelope_strings e)" for f s
    using assms(1) [OF that] by (simp_all add: string_field_def get_field_def contains_field_def)
  have "sequence_res (map (\<lambda>f. string_field f (PDict kvs)) (take 12 REQUIRED_FIELDS)) = Inr (map snd (envelope_strings e))"
    using str by (simp add: REQUIRED_FIELDS_def envelope_strings_def)
  moreover have "sequence_res (map (\<lambda>f. contains_field (lit f) (PDict kvs)) REQUIRED_FIELDS) = Inr (replicate 14 True)"
    using str assms(2,4) by (simp add: REQUIRED_FIELDS_def envelope_strings_def contains_field_def numeral_eq_Suc)
  moreover have "sequence_field (PDict kvs) = Inr (ev_sequence e)" "payload_field (PDict kvs) = Inr p"
    using assms(2-4) by (simp_all add: sequence_field_def payload_field_def get_field_def)
  ultimately show ?thesis
    by (simp add: envelope_from_mapping_def envelope_of_def envelope_strings_def list_all_iff)
qed

lemma map_of_sort_key: "dict_ok d \<Longrightarrow> dict_get (sort_key f d) k = dict_get d k"
proof -
  assume d: "dict_ok d"
  have "dict_ok (sort_key f d)" using d by (rule distinct_map_sort_key)
  with d have "dict_get (sort_key f d) k = Some v \<longleftrightarrow> dict_get d k = Some v" for v by simp
  then show ?thesis by (metis option.exhaust)
qed

lemma get_obj:
  "distinct (map fst kvs) \<Longrightarrow> (k, v) \<in> set kvs \<Longrightarrow>
     dict_get (map (\<lambda>(k, v). (k, json_image v)) (map (\<lambda>(k, v). (KStr (lit k), v)) kvs)) (KStr (lit k)) = Some (json_image v)"
  by (induction kvs) (auto simp: image_iff)

lemma obj_dict_ok: "distinct (map fst kvs) \<Longrightarrow> dict_ok (map (\<lambda>(k, v). (KStr (lit k), v)) kvs)"
proof -
  assume d: "distinct (map fst kvs)"
  have "map fst (map (\<lambda>(k, v). (KStr (lit k), v)) kvs) = map (KStr \<circ> lit) (map fst kvs)" by auto
  also have "distinct \<dots>" using d by (simp only: distinct_map) (simp add: inj_on_def)
  finally show ?thesis .
qed

lemma envelope_dump_ok: "wire_safe e \<Longrightarrow> dump_ok (envelope_to_mapping e)"
proof -
  assume e: "wire_safe e"
  let ?kvs = "map (\<lambda>(k, s). (k, PStr s)) (envelope_strings e) @ [(''sequence'', PInt (ev_sequence e)), (''payload'', PDict (ev_payload e))]"
  have keys: "map fst ?kvs = REQUIRED_FIELDS" using envelope_keys(1) [of e] by (simp add: comp_def case_prod_unfold)
  then have "dict_ok (map (\<lambda>(k, v). (KStr (lit k), v)) ?kvs)" using envelope_keys(2) by (intro obj_dict_ok) (simp only:)
  moreover have "text_ok (lit k)" for k by (simp add: text_ok_scalar)
  moreover have "\<forall>(k, v) \<in> set ?kvs. dump_ok v"
    using e by (auto simp: wire_safe_def list_all_iff)
  ultimately show ?thesis unfolding envelope_to_mapping_def by (auto simp: list_all_iff simp del: map_append)
qed

lemma envelope_roundtrip:
  assumes "wire_safe e"
  obtains t where "dumps (envelope_to_mapping e) = Inr t" "ascii_printable t"
    "\<exists>v. loads t = Inr v \<and> envelope_from_mapping v = Inr (stored_envelope e)"
proof -
  let ?kvs = "map (\<lambda>(k, s). (k, PStr s)) (envelope_strings e) @ [(''sequence'', PInt (ev_sequence e)), (''payload'', PDict (ev_payload e))]"
  let ?d = "map (\<lambda>(k, v). (k, json_image v)) (map (\<lambda>(k, v). (KStr (lit k), v)) ?kvs)"
  have ok: "dump_ok (envelope_to_mapping e)" by (rule envelope_dump_ok [OF assms])
  obtain t where t: "dumps (envelope_to_mapping e) = Inr t" "loads t = Inr (json_image (envelope_to_mapping e))" "ascii_printable t"
    using loads_dumps [OF ok] by blast
  have keys: "map fst ?kvs = REQUIRED_FIELDS" using envelope_keys(1) [of e] by (simp add: comp_def case_prod_unfold)
  then have dk: "distinct (map fst ?kvs)" using envelope_keys(2) by (simp only:)
  have img: "json_image (envelope_to_mapping e) = PDict (sort_key (key_text \<circ> fst) ?d)"
    by (simp add: envelope_to_mapping_def)
  have "map fst ?d = map (KStr \<circ> lit) (map fst ?kvs)" by auto
  also have "distinct \<dots>" unfolding keys by (simp add: distinct_map inj_on_def envelope_keys(2))
  finally have d: "dict_ok ?d" .
  have get: "dict_get (sort_key (key_text \<circ> fst) ?d) (KStr (lit k)) = Some (json_image v)" if "(k, v) \<in> set ?kvs" for k v
    unfolding map_of_sort_key [OF d] using get_obj [OF dk that] .
  have "envelope_from_mapping (json_image (envelope_to_mapping e)) = Inr (stored_envelope e)"
    unfolding img stored_envelope_def
  proof (rule envelope_from_get)
    show "s \<noteq> [] \<and> dict_get (sort_key (key_text \<circ> fst) ?d) (KStr (lit f)) = Some (PStr s)"
      if fs: "(f, s) \<in> set (envelope_strings e)" for f s
    proof
      show "s \<noteq> []" using fs assms by (auto simp: wire_safe_def list_all_iff)
      have "(f, PStr s) \<in> set ?kvs" using fs by force
      from get [OF this] show "dict_get (sort_key (key_text \<circ> fst) ?d) (KStr (lit f)) = Some (PStr s)" by simp
    qed
    show "dict_get (sort_key (key_text \<circ> fst) ?d) (KStr (lit ''sequence'')) = Some (PInt (ev_sequence e))"
      using get [of "''sequence''" "PInt (ev_sequence e)"] by simp
    show "dict_get (sort_key (key_text \<circ> fst) ?d) (KStr (lit ''payload''))
        = Some (PDict (sort_key (key_text \<circ> fst) (map (\<lambda>(k, v). (k, json_image v)) (ev_payload e))))"
      using get [of "''payload''" "PDict (ev_payload e)"] by simp
  qed (use assms in \<open>simp add: wire_safe_def\<close>)
  with t show thesis using that by blast
qed

section \<open>The journal\<close>

type_synonym journal = "nat \<Rightarrow> (pystr \<times> pystr) list"

definition record_envelope :: "pystr \<times> pystr \<Rightarrow> CanonicalIngestionEnvelope res" where
  "record_envelope r = (case loads (snd r) of Inl e \<Rightarrow> Inl e | Inr v \<Rightarrow> envelope_from_mapping v)"

definition partition_envelopes :: "journal \<Rightarrow> nat \<Rightarrow> CanonicalIngestionEnvelope list" where
  "partition_envelopes j p = map (\<lambda>r. projr (record_envelope r)) (j p)"

definition journal_envelopes :: "journal \<Rightarrow> CanonicalIngestionEnvelope list" where
  "journal_envelopes j = partition_envelopes j 0 @ partition_envelopes j 1 @ partition_envelopes j 2"

definition readable_record :: "pystr \<times> pystr \<Rightarrow> bool" where
  "readable_record r \<longleftrightarrow> one_line (fst r) \<and> 124 \<notin> set (fst r) \<and> one_line (snd r)
     \<and> (\<exists>e. record_envelope r = Inr e \<and> ev_aggregate_ref e = fst r)"

definition readable_journal :: "journal \<Rightarrow> bool" where
  "readable_journal j \<longleftrightarrow> (\<forall>p < 3. list_all readable_record (j p))"

text \<open>
  What the journal of a correct producer looks like: every record is an envelope under its own aggregate, no
  idempotency key occurs twice in a context, and in a partition the sequences of an aggregate strictly increase.
\<close>

definition journal_sound :: "journal \<Rightarrow> bool" where
  "journal_sound j \<longleftrightarrow> readable_journal j \<and> distinct (map dedup_key (journal_envelopes j))
     \<and> (\<forall>p < 3. sorted_wrt (\<lambda>a b. order_key a = order_key b \<longrightarrow> ev_sequence a < ev_sequence b) (partition_envelopes j p))"

definition appended :: "journal \<Rightarrow> nat \<Rightarrow> pystr \<times> pystr \<Rightarrow> journal" where
  "appended j p r = j(p := j p @ [r])"

text \<open>
  The topic as the broker holds it: for each partition the offset of its first record and the records from there on.
  Records expire from the front of a partition, at any time.
\<close>

type_synonym topic_log = "nat \<Rightarrow> nat \<times> (pystr \<times> pystr) list"

definition retained :: "topic_log \<Rightarrow> journal" where
  "retained l = (\<lambda>p. snd (l p))"

definition end_offset :: "topic_log \<Rightarrow> nat \<Rightarrow> nat" where
  "end_offset l p = fst (l p) + length (snd (l p))"

definition ages :: "topic_log \<Rightarrow> topic_log \<Rightarrow> bool" where
  "ages l l' \<longleftrightarrow> (\<forall>p. \<exists>n \<le> length (snd (l p)). l' p = (fst (l p) + n, drop n (snd (l p))))"

definition log_append :: "topic_log \<Rightarrow> nat \<Rightarrow> pystr \<times> pystr \<Rightarrow> topic_log" where
  "log_append l p r = l(p := (fst (l p), snd (l p) @ [r]))"

text \<open>A line of \<^verbatim>\<open>kafka-console-consumer\<close> with the properties the code asks for, and one of \<^verbatim>\<open>kafka-get-offsets\<close>.\<close>

definition consumer_line :: "topic_log \<Rightarrow> nat \<times> nat \<Rightarrow> pystr" where
  "consumer_line l = (\<lambda>(p, n). let r = snd (l p) ! (n - fst (l p)) in
     lit ''Partition:'' @ dec_nat p @ [124] @ lit ''Offset:'' @ dec_nat n @ [124] @ fst r @ [124] @ snd r)"

definition offset_line :: "pystr \<Rightarrow> nat \<times> nat \<Rightarrow> pystr" where
  "offset_line topic = (\<lambda>(p, n). topic @ [58] @ dec_nat p @ [58] @ dec_nat n)"

definition lines :: "pystr list \<Rightarrow> pystr" where
  "lines ls = concat (map (\<lambda>l. l @ [10]) ls)"

definition topic_name :: "pystr \<Rightarrow> bool" where
  "topic_name s \<longleftrightarrow> s \<noteq> [] \<and> list_all (\<lambda>c. 48 \<le> c \<and> c \<le> 57 \<or> 65 \<le> c \<and> c \<le> 90 \<or> 97 \<le> c \<and> c \<le> 122 \<or> c \<in> {45, 46, 95}) s"

text \<open>
  What is assumed of the broker and its tools.  \<open>view\<close> is the topic in a state of the broker, \<open>partition_of\<close> the
  key-based partitioner.  While a command runs records may expire.  The console producer appends the record
  of its one input line, or does not: its exit code says nothing about it.  The console consumer prints some of the
  records that are there when it starts, each at most once.  \<^verbatim>\<open>kafka-get-offsets\<close> prints for each of the
  three partitions an offset that was its first one while the command ran, or the offset of the next record.
  The topic can be created only when it has no records.  No one else writes to the topic.
\<close>

definition producer_ok :: "'w cli \<Rightarrow> pystr \<Rightarrow> ('w \<Rightarrow> topic_log) \<Rightarrow> (pystr \<Rightarrow> nat) \<Rightarrow> bool" where
  "producer_ok run topic view partition_of \<longleftrightarrow> (\<forall>k v w r w'. one_line k \<and> 124 \<notin> set k \<and> one_line v
     \<and> run (KafkaConsoleProducer topic) (Some (k @ [124] @ v @ [10])) w = (r, w') \<longrightarrow>
     ages (view w) (view w') \<or> ages (log_append (view w) (partition_of k) (k, v)) (view w'))"

definition consumer_ok :: "'w cli \<Rightarrow> pystr \<Rightarrow> ('w \<Rightarrow> topic_log) \<Rightarrow> bool" where
  "consumer_ok run topic view \<longleftrightarrow> (\<forall>n w r w'. run (KafkaConsoleConsumer topic n) None w = (r, w') \<longrightarrow> ages (view w) (view w') \<and>
     (\<forall>code out. r = Exited code out \<longrightarrow>
        (\<exists>rs. distinct rs \<and> (\<forall>(p, i) \<in> set rs. p < 3 \<and> fst (view w p) \<le> i \<and> i < end_offset (view w) p)
           \<and> out = lines (map (consumer_line (view w)) rs))))"

definition offsets_ok :: "'w cli \<Rightarrow> pystr \<Rightarrow> ('w \<Rightarrow> topic_log) \<Rightarrow> bool" where
  "offsets_ok run topic view \<longleftrightarrow> (\<forall>spec w r w'. run (KafkaGetOffsets topic spec) None w = (r, w') \<longrightarrow> ages (view w) (view w') \<and>
     (\<forall>out. r = Exited 0 out \<longrightarrow> (\<exists>f. out = lines (map (\<lambda>p. offset_line topic (p, f p)) [0..<3]) \<and>
        (\<forall>p. (spec = lit ''-2'' \<longrightarrow> fst (view w p) \<le> f p \<and> f p \<le> fst (view w' p)) \<and> (spec = lit ''-1'' \<longrightarrow> f p = end_offset (view w) p)))))"

definition kafka_ok :: "'w cli \<Rightarrow> pystr \<Rightarrow> ('w \<Rightarrow> topic_log) \<Rightarrow> (pystr \<Rightarrow> nat) \<Rightarrow> bool" where
  "kafka_ok run topic view partition_of \<longleftrightarrow> topic_name topic
     \<and> (\<forall>key. partition_of key < 3)
     \<and> (\<forall>w p. end_offset (view w) p < 2 ^ 63)
     \<and> producer_ok run topic view partition_of \<and> consumer_ok run topic view \<and> offsets_ok run topic view
     \<and> (\<forall>w r w'. run (KafkaTopicsCreate topic) None w = (r, w') \<longrightarrow> ages (view w) (view w') \<and>
          (\<forall>out. r = Exited 0 out \<longrightarrow> (\<forall>p. retained (view w) p = [])))"

lemma kafka_okD:
  assumes "kafka_ok run topic view partition_of"
  shows "topic_name topic" "partition_of k < 3" "end_offset (view w) p < 2 ^ 63"
    and "one_line k \<Longrightarrow> 124 \<notin> set k \<Longrightarrow> one_line v \<Longrightarrow>
      run (KafkaConsoleProducer topic) (Some (k @ [124] @ v @ [10])) w = (r, w') \<Longrightarrow>
      ages (view w) (view w') \<or> ages (log_append (view w) (partition_of k) (k, v)) (view w')"
    and "run (KafkaConsoleConsumer topic n) None w = (r, w') \<Longrightarrow> ages (view w) (view w') \<and> (\<forall>code out. r = Exited code out \<longrightarrow>
      (\<exists>rs. distinct rs \<and> (\<forall>(p, i) \<in> set rs. p < 3 \<and> fst (view w p) \<le> i \<and> i < end_offset (view w) p)
           \<and> out = lines (map (consumer_line (view w)) rs)))"
    and "run (KafkaGetOffsets topic spec) None w = (r, w') \<Longrightarrow> ages (view w) (view w') \<and>
      (\<forall>out. r = Exited 0 out \<longrightarrow> (\<exists>f. out = lines (map (\<lambda>p. offset_line topic (p, f p)) [0..<3]) \<and>
        (\<forall>p. (spec = lit ''-2'' \<longrightarrow> fst (view w p) \<le> f p \<and> f p \<le> fst (view w' p)) \<and> (spec = lit ''-1'' \<longrightarrow> f p = end_offset (view w) p))))"
    and "run (KafkaTopicsCreate topic) None w = (r, w') \<Longrightarrow> ages (view w) (view w') \<and> (\<forall>out. r = Exited 0 out \<longrightarrow> (\<forall>p. retained (view w) p = []))"
  using assms unfolding kafka_ok_def producer_ok_def consumer_ok_def offsets_ok_def by (elim conjE; simp)+

lemma ages_refl [simp]: "ages l l"
  unfolding ages_def by (intro allI exI [of _ 0]) simp

lemma ages_trans: "ages l1 l2 \<Longrightarrow> ages l2 l3 \<Longrightarrow> ages l1 l3"
  unfolding ages_def
proof (intro allI)
  fix p assume "\<forall>p. \<exists>n \<le> length (snd (l1 p)). l2 p = (fst (l1 p) + n, drop n (snd (l1 p)))"
    and "\<forall>p. \<exists>n \<le> length (snd (l2 p)). l3 p = (fst (l2 p) + n, drop n (snd (l2 p)))"
  then obtain n m where "n \<le> length (snd (l1 p))" "l2 p = (fst (l1 p) + n, drop n (snd (l1 p)))"
    "m \<le> length (snd (l2 p))" "l3 p = (fst (l2 p) + m, drop m (snd (l2 p)))" by meson
  then show "\<exists>k \<le> length (snd (l1 p)). l3 p = (fst (l1 p) + k, drop k (snd (l1 p)))"
    by (intro exI [of _ "n + m"]) (simp add: add.commute)
qed

lemma agesE:
  assumes "ages l l'"
  obtains n where "n \<le> length (snd (l p))" "l' p = (fst (l p) + n, drop n (snd (l p)))"
  using assms unfolding ages_def by blast

lemma ages_offsets:
  assumes "ages l l'"
  shows "end_offset l' p = end_offset l p" "fst (l p) \<le> fst (l' p)"
  by (rule agesE [OF assms, of p]; simp add: end_offset_def)+

lemma ages_suffix: "ages l l' \<Longrightarrow> suffix (retained l' p) (retained l p)"
  by (erule agesE [of _ _ p]) (simp add: retained_def suffix_drop)

lemma ages_append: "ages l l' \<Longrightarrow> ages (log_append l q r) (log_append l' q r)"
  unfolding ages_def
proof (intro allI)
  fix p assume "\<forall>p. \<exists>n \<le> length (snd (l p)). l' p = (fst (l p) + n, drop n (snd (l p)))"
  then obtain n where "n \<le> length (snd (l p))" "l' p = (fst (l p) + n, drop n (snd (l p)))" by blast
  then show "\<exists>n \<le> length (snd (log_append l q r p)). log_append l' q r p = (fst (log_append l q r p) + n, drop n (snd (log_append l q r p)))"
    by (intro exI [of _ n]) (auto simp: log_append_def)
qed

lemma retained_append [simp]: "retained (log_append l q r) = appended (retained l) q r"
  by (simp add: fun_eq_iff retained_def log_append_def appended_def)

text \<open>What is left of a sound journal is sound.\<close>

lemma partition_suffix:
  "suffix (j' p) (j p) \<Longrightarrow> suffix (partition_envelopes j' p) (partition_envelopes j p)"
  unfolding partition_envelopes_def by (rule map_mono_suffix)

lemma journal_subseq:
  assumes "\<And>p. suffix (j' p) (j p)"
  shows "subseq (journal_envelopes j') (journal_envelopes j)"
  unfolding journal_envelopes_def
  by (intro list_emb_append_mono suffix_imp_subseq partition_suffix assms)

lemma subseq_set: "subseq xs ys \<Longrightarrow> set xs \<subseteq> set ys"
  by (auto simp: subseq_conv_nths dest: in_set_nthsD)

lemma subseq_distinct_map: "subseq xs ys \<Longrightarrow> distinct (map f ys) \<Longrightarrow> distinct (map f xs)"
  by (auto simp: subseq_conv_nths nths_map [symmetric] intro: distinct_nthsI)

lemma ages_envelopes: "ages l l' \<Longrightarrow> set (journal_envelopes (retained l')) \<subseteq> set (journal_envelopes (retained l))"
  by (intro subseq_set journal_subseq ages_suffix)

lemma ages_sound:
  assumes a: "ages l l'" and j: "journal_sound (retained l)"
  shows "journal_sound (retained l')"
proof -
  note s = ages_suffix [OF a]
  have "readable_journal (retained l')"
    using j set_mono_suffix [OF s] by (auto simp: journal_sound_def readable_journal_def list_all_iff)
  moreover have "distinct (map dedup_key (journal_envelopes (retained l')))"
    using j by (intro subseq_distinct_map [OF journal_subseq [OF s]]) (simp add: journal_sound_def)
  moreover have "sorted_wrt (\<lambda>a b. order_key a = order_key b \<longrightarrow> ev_sequence a < ev_sequence b) (partition_envelopes (retained l') p)"
    if "p < 3" for p
  proof -
    have "suffix (partition_envelopes (retained l') p) (partition_envelopes (retained l) p)" by (rule partition_suffix [OF s])
    then obtain xs where "partition_envelopes (retained l) p = xs @ partition_envelopes (retained l') p" by (auto simp: suffix_def)
    with j that show ?thesis by (auto simp: journal_sound_def sorted_wrt_append dest!: spec [of _ p])
  qed
  ultimately show ?thesis by (simp add: journal_sound_def)
qed

lemma topic_name_chars: "topic_name s \<Longrightarrow> one_line s \<and> 58 \<notin> set s"
  by (auto simp: topic_name_def one_line_def list_all_iff line_break_def)

lemma read_offsets_lines:
  assumes "topic_name topic" "\<And>p. f p < 2 ^ 63"
  shows "read_offsets topic (map (\<lambda>p. offset_line topic (p, f p)) [0..<3]) [] = Inr [(0, int (f 0)), (1, int (f 1)), (2, int (f 2))]"
proof -
  have t: "58 \<notin> set topic" using topic_name_chars [OF assms(1)] by simp
  have d: "58 \<notin> set (dec_nat n)" for n using dec_nat_digit [of 58 n] by (auto simp: digit_def)
  have "split_at 58 (offset_line topic (p, n)) = [topic, dec_nat p, dec_nat n]" for p n
    by (simp add: offset_line_def split_at_Cons t d split_at_nosep)
  moreover have "py_int (dec_nat (f p)) = Inr (int (f p))" for p by (rule py_int_dec_nat [OF assms(2)])
  moreover have "py_int (dec_nat 0) = Inr 0" "py_int (dec_nat 1) = Inr 1" "py_int (dec_nat (Suc 0)) = Inr 1" "py_int (dec_nat 2) = Inr 2"
    using py_int_dec_nat [of 0] py_int_dec_nat [of 1] py_int_dec_nat [of 2] by simp_all
  ultimately show ?thesis by (simp add: upt_rec numeral_3_eq_3 eval_nat_numeral)
qed

lemma offset_lines_split:
  assumes "topic_name topic"
  shows "splitlines (lines (map (\<lambda>p. offset_line topic (p, f p)) ps)) = map (\<lambda>p. offset_line topic (p, f p)) ps"
  unfolding lines_def using topic_name_chars [OF assms]
  by (intro splitlines_lines) (auto simp: list_all_iff offset_line_def one_line_dec_nat line_break_def)

text \<open>The earliest offsets read are between the first offsets before and after, the latest ones are exact.\<close>

lemma journal_offsets_cases:
  assumes ok: "kafka_ok run topic view partition_of" and b: "bb_topic b = topic"
    and spec: "spec = lit ''-2'' \<or> spec = lit ''-1''" and o: "journal_offsets run spec b w = (r, w')"
  shows "ages (view w) (view w')"
    and "r = Inr os \<Longrightarrow> \<exists>f. os = [(0, int (f 0)), (1, int (f 1)), (2, int (f 2))] \<and>
      (\<forall>p. (spec = lit ''-2'' \<longrightarrow> fst (view w p) \<le> f p \<and> f p \<le> fst (view w' p)) \<and> (spec = lit ''-1'' \<longrightarrow> f p = end_offset (view w) p))"
proof -
  obtain x w1 where x: "run (KafkaGetOffsets topic spec) None w = (x, w1)" by force
  note k = kafka_okD(6) [OF ok x] and t = kafka_okD(1) [OF ok]
  have w1: "w' = w1" using o x by (auto simp: journal_offsets_def kafka_exec_def b split: process.splits sum.splits if_splits)
  then show a: "ages (view w) (view w')" using k by simp
  assume r: "r = Inr os"
  then obtain out where out: "x = Exited 0 out" "read_offsets topic (splitlines out) [] = Inr os"
    using o x by (auto simp: journal_offsets_def kafka_exec_def b split: process.splits sum.splits if_splits)
  then obtain f where f: "out = lines (map (\<lambda>p. offset_line topic (p, f p)) [0..<3])"
    "\<And>p. (spec = lit ''-2'' \<longrightarrow> fst (view w p) \<le> f p \<and> f p \<le> fst (view w' p)) \<and> (spec = lit ''-1'' \<longrightarrow> f p = end_offset (view w) p)"
    using k w1 by auto
  have "f p < 2 ^ 63" for p
    using f(2) [of p] spec kafka_okD(3) [OF ok, of w p] kafka_okD(3) [OF ok, of w' p] by (auto simp: end_offset_def)
  then have "os = [(0, int (f 0)), (1, int (f 1)), (2, int (f 2))]"
    using out(2) read_offsets_lines [OF t, of f] offset_lines_split [OF t, of f] by (simp add: f(1))
  with f(2) show "\<exists>f. os = [(0, int (f 0)), (1, int (f 1)), (2, int (f 2))] \<and>
      (\<forall>p. (spec = lit ''-2'' \<longrightarrow> fst (view w p) \<le> f p \<and> f p \<le> fst (view w' p)) \<and> (spec = lit ''-1'' \<longrightarrow> f p = end_offset (view w) p))"
    by blast
qed

definition positions :: "topic_log \<Rightarrow> (nat \<times> nat) set" where
  "positions l = (SIGMA p : {0..<3}. {fst (l p)..<end_offset l p})"

definition envelope_at :: "topic_log \<Rightarrow> nat \<times> nat \<Rightarrow> CanonicalIngestionEnvelope" where
  "envelope_at l = (\<lambda>(p, i). projr (record_envelope (snd (l p) ! (i - fst (l p)))))"

lemma positions_finite:
  "finite (positions l)" "card (positions l) = length (retained l 0) + length (retained l 1) + length (retained l 2)"
  by (simp_all add: positions_def end_offset_def retained_def numeral_3_eq_3 eval_nat_numeral)

lemma envelope_at_positions: "envelope_at l ` positions l = set (journal_envelopes (retained l))"
proof -
  have part: "envelope_at l ` ({p} \<times> {fst (l p)..<end_offset l p}) = set (partition_envelopes (retained l) p)" for p
  proof -
    let ?xs = "snd (l p)"
    have "(\<lambda>i. ?xs ! (i - fst (l p))) ` {fst (l p)..<end_offset l p} = (\<lambda>i. ?xs ! (i - fst (l p))) ` (+) (fst (l p)) ` {0..<length ?xs}"
      by (simp add: end_offset_def image_add_atLeastLessThan add.commute)
    also have "\<dots> = set ?xs" unfolding image_image using nth_image [of "length ?xs" ?xs] by (simp del: image_add_atLeastLessThan)
    finally have "set ?xs = (\<lambda>i. ?xs ! (i - fst (l p))) ` {fst (l p)..<end_offset l p}" by simp
    moreover have "{p} \<times> {fst (l p)..<end_offset l p} = Pair p ` {fst (l p)..<end_offset l p}" by auto
    ultimately show ?thesis by (simp add: envelope_at_def partition_envelopes_def retained_def image_image)
  qed
  have "{0..<3} = {0, 1, 2 :: nat}" by auto
  then have "positions l = ({0} \<times> {fst (l 0)..<end_offset l 0}) \<union> ({1} \<times> {fst (l 1)..<end_offset l 1}) \<union> ({2} \<times> {fst (l 2)..<end_offset l 2})"
    unfolding positions_def by auto
  then show ?thesis by (simp add: image_Un part journal_envelopes_def Un_assoc)
qed

lemma read_record_line:
  assumes j: "readable_journal (retained l)" and pn: "(p, n) \<in> positions l" and n: "end_offset l p < 2 ^ 63"
  shows "read_record (consumer_line l (p, n)) = Inr \<lparr>dr_partition = int p, dr_offset = int n, dr_envelope = envelope_at l (p, n)\<rparr>"
    and "one_line (consumer_line l (p, n))" "startswith (consumer_line l (p, n)) (lit ''Partition:'')"
proof -
  obtain k v where kv: "snd (l p) ! (n - fst (l p)) = (k, v)" by force
  have "n - fst (l p) < length (snd (l p))" "p < 3" using pn by (auto simp: positions_def end_offset_def)
  with j have "readable_record (snd (l p) ! (n - fst (l p)))" by (simp add: readable_journal_def retained_def list_all_length)
  then have rd: "readable_record (k, v)" by (simp only: kv)
  then have r: "one_line k" "124 \<notin> set k" "one_line v" and "\<exists>e. record_envelope (k, v) = Inr e" by (auto simp: readable_record_def)
  then obtain e x where e: "loads v = Inr x" "envelope_from_mapping x = Inr e" "record_envelope (k, v) = Inr e"
    by (auto simp: record_envelope_def split: sum.splits)
  have d: "124 \<notin> set (dec_nat i)" for i using dec_nat_digit [of 124 i] by (auto simp: digit_def)
  have "split_max 124 3 (consumer_line l (p, n)) = [lit ''Partition:'' @ dec_nat p, lit ''Offset:'' @ dec_nat n, k, v]"
    using split_max_record [of "lit ''Partition:'' @ dec_nat p" "lit ''Offset:'' @ dec_nat n" k v] r(2) d
    by (simp add: consumer_line_def kv lit_def)
  moreover have "py_int (dec_nat p) = Inr (int p)" "py_int (dec_nat n) = Inr (int n)"
    using py_int_dec_nat \<open>p < 3\<close> pn n by (auto simp: positions_def)
  ultimately show "read_record (consumer_line l (p, n)) = Inr \<lparr>dr_partition = int p, dr_offset = int n, dr_envelope = envelope_at l (p, n)\<rparr>"
    using e by (simp add: read_record_def removeprefix_def envelope_at_def kv)
  show "one_line (consumer_line l (p, n))" using r by (simp add: consumer_line_def kv one_line_dec_nat lit_def line_break_def)
  show "startswith (consumer_line l (p, n)) (lit ''Partition:'')" by (simp add: consumer_line_def Let_def)
qed

lemma read_record_lines:
  assumes "readable_journal (retained l)" "set rs \<subseteq> positions l" "\<And>p. end_offset l p < 2 ^ 63"
  shows "\<exists>recs. sequence_res (map read_record (filter (\<lambda>t. startswith t (lit ''Partition:'')) (splitlines (lines (map (consumer_line l) rs))))) = Inr recs
    \<and> map dr_envelope recs = map (envelope_at l) rs"
proof -
  let ?rec = "\<lambda>pi. \<lparr>dr_partition = int (fst pi), dr_offset = int (snd pi), dr_envelope = envelope_at l pi\<rparr>"
  have line: "one_line (consumer_line l pi)" "startswith (consumer_line l pi) (lit ''Partition:'')"
    "read_record (consumer_line l pi) = Inr (?rec pi)" if pi: "pi \<in> set rs" for pi
  proof -
    obtain p i where pe: "pi = (p, i)" by (cases pi)
    with pi assms(2) have "(p, i) \<in> positions l" by blast
    note rl = read_record_line [OF assms(1) this assms(3)]
    show "one_line (consumer_line l pi)" "startswith (consumer_line l pi) (lit ''Partition:'')"
      "read_record (consumer_line l pi) = Inr (?rec pi)"
      unfolding pe using rl by simp_all
  qed
  have "splitlines (lines (map (consumer_line l) rs)) = map (consumer_line l) rs"
    unfolding lines_def by (rule splitlines_lines) (simp add: list_all_iff line(1))
  moreover have "filter (\<lambda>t. startswith t (lit ''Partition:'')) (map (consumer_line l) rs) = map (consumer_line l) rs"
    using line(2) by (simp add: filter_id_conv)
  moreover have "sequence_res (map read_record (map (consumer_line l) rs)) = Inr (map ?rec rs)"
    unfolding map_map by (rule map_Inr_ok) (simp add: line(3))
  ultimately show ?thesis by (intro exI [of _ "map ?rec rs"]) simp
qed

text \<open>Consuming as many records as there can be yields each of them once.\<close>

lemma consume_all:
  assumes ok: "kafka_ok run topic view partition_of" and b: "bb_topic b = topic" and j: "readable_journal (retained (view w))"
    and c: "backbone_consume run n b w = (r, w')"
  shows "ages (view w) (view w')" and "r = Inr recs \<Longrightarrow> int (card (positions (view w))) \<le> n \<Longrightarrow>
    set (map dr_envelope recs) = set (journal_envelopes (retained (view w)))"
proof -
  obtain x w1 where x: "run (KafkaConsoleConsumer topic n) None w = (x, w1)" by force
  note k = kafka_okD(5) [OF ok x]
  show "ages (view w) (view w')"
    using c k x by (auto simp: backbone_consume_def b split: process.splits sum.splits)
  assume r: "r = Inr recs" and n: "int (card (positions (view w))) \<le> n"
  from c x r obtain code out where out: "x = Exited code out"
    "sequence_res (map read_record (filter (\<lambda>l. startswith l (lit ''Partition:'')) (splitlines out))) = Inr recs" "int (length recs) = n"
    by (auto simp: backbone_consume_def b split: process.splits sum.splits if_splits)
  from k out(1) obtain rs where rs: "distinct rs" "\<forall>(p, i) \<in> set rs. p < 3 \<and> fst (view w p) \<le> i \<and> i < end_offset (view w) p"
    "out = lines (map (consumer_line (view w)) rs)" by blast
  have sub: "set rs \<subseteq> positions (view w)" using rs(2) by (auto simp: positions_def)
  obtain recs' where "sequence_res (map read_record (filter (\<lambda>l. startswith l (lit ''Partition:'')) (splitlines out))) = Inr recs'"
    "map dr_envelope recs' = map (envelope_at (view w)) rs"
    using read_record_lines [OF j sub kafka_okD(3) [OF ok]] rs(3) by blast
  with out(2) have env: "map dr_envelope recs = map (envelope_at (view w)) rs" by simp
  then have "length recs = length rs" by (metis length_map)
  with out(3) n rs(1) have "card (positions (view w)) \<le> card (set rs)" by (simp add: distinct_card)
  with sub positions_finite(1) have "set rs = positions (view w)" by (metis card_seteq)
  with env show "set (map dr_envelope recs) = set (journal_envelopes (retained (view w)))"
    using envelope_at_positions [of "view w"] by simp
qed

section \<open>Recovery\<close>

text \<open>
  What the cache of a recovered instance knows: every key on the topic, and a mark no lower than the sequence of any record of
  the aggregate.  It may know more, since records expire and the cache does not.
\<close>

definition cache_ok :: "journal \<Rightarrow> CanonicalEventBackbone \<Rightarrow> bool" where
  "cache_ok j b \<longleftrightarrow> (\<forall>a \<in> set (journal_envelopes j). dedup_key a \<in> bb_seen_idempotency_keys b
     \<and> (\<exists>n. dict_get (bb_last_sequence b) (order_key a) = Some n \<and> ev_sequence a \<le> n))"

lemma cache_ok_mono: "cache_ok j b \<Longrightarrow> set (journal_envelopes j') \<subseteq> set (journal_envelopes j) \<Longrightarrow> cache_ok j' b"
  unfolding cache_ok_def by blast

lemma fold_advance:
  "a \<in> set es \<or> (\<exists>n. dict_get marks (order_key a) = Some n \<and> ev_sequence a \<le> n) \<Longrightarrow>
     \<exists>n. dict_get (fold advance es marks) (order_key a) = Some n \<and> ev_sequence a \<le> n"
proof (induction es arbitrary: marks)
  case (Cons e es)
  then have "a \<in> set es \<or> (\<exists>n. dict_get (advance e marks) (order_key a) = Some n \<and> ev_sequence a \<le> n)"
    by (auto simp: advance_def split: option.splits)
  from Cons.IH [OF this] show ?case by simp
qed simp

lemma recover_cases:
  assumes ok: "kafka_ok run topic view partition_of" and b: "bb_topic b = topic" and j: "journal_sound (retained (view w))"
    and rec: "recover_from_journal run b w = (r, b', w')"
  shows "ages (view w) (view w')"
    and "(\<exists>x. r = Inl x) \<and> b' = b \<or> r = Inr () \<and> bb_topic b' = topic \<and> bb_recovered b' \<and> cache_ok (retained (view w')) b'"
proof -
  let ?G = "ages (view w) (view w') \<and> ((\<exists>x. r = Inl x) \<and> b' = b
    \<or> r = Inr () \<and> bb_topic b' = topic \<and> bb_recovered b' \<and> cache_ok (retained (view w')) b')"
  obtain r1 w1 where o1: "journal_offsets run (lit ''-2'') b w = (r1, w1)" by force
  obtain r2 w2 where o2: "journal_offsets run (lit ''-1'') b w1 = (r2, w2)" by force
  note e1 = journal_offsets_cases [OF ok b disjI1 [OF refl] o1] and e2 = journal_offsets_cases [OF ok b disjI2 [OF refl] o2]
  have a2: "ages (view w) (view w2)" using e1(1) e2(1) by (rule ages_trans)
  have ?G
  proof (cases "\<exists>x. r1 = Inl x \<or> r2 = Inl x")
    case True
    with rec o1 o2 e1(1) a2 show ?thesis by (auto simp: recover_from_journal_def split: sum.splits)
  next
    case False
    then obtain a l where a: "r1 = Inr a" and l: "r2 = Inr l" by (cases r1; cases r2) auto
    let ?n = "journal_count a l"
    obtain f where f: "a = [(0, int (f 0)), (1, int (f 1)), (2, int (f 2))]" "\<And>p. f p \<le> fst (view w1 p)"
      using e1(2) [OF a] by auto
    obtain g where g: "l = [(0, int (g 0)), (1, int (g 1)), (2, int (g 2))]" "\<And>p. g p = end_offset (view w1) p"
      using e2(2) [OF l] by (auto simp: lit_def)
    have len: "int (length (retained (view w2) p)) \<le> int (g p) - int (f p)" for p
      using f(2) [of p] ages_offsets [OF e2(1), of p] by (simp add: g(2) end_offset_def retained_def)
    have n: "int (card (positions (view w2))) \<le> ?n"
      using len [of 0] len [of 1] len [of 2] by (simp add: journal_count_def positions_finite f(1) g(1))
    have keys: "set (dict_keys a) = set (dict_keys l)" using f(1) g(1) by simp
    obtain r3 w3 where c: "(if ?n = 0 then (Inr [], w2) else backbone_consume run ?n b w2) = (r3, w3)" by force
    have j2: "readable_journal (retained (view w2))" using ages_sound [OF a2 j] by (simp add: journal_sound_def)
    have w3: "ages (view w2) (view w3)"
      using c consume_all(1) [OF ok b j2, of ?n r3 w3] by (auto split: if_splits)
    have set: "set (map dr_envelope recs) = set (journal_envelopes (retained (view w2)))" if "r3 = Inr recs" for recs
    proof (cases "?n = 0")
      case True
      then have "positions (view w2) = {}" using n positions_finite(1) [of "view w2"] by simp
      then have "set (journal_envelopes (retained (view w2))) = {}" using envelope_at_positions [of "view w2"] by auto
      with c True that show ?thesis by auto
    next
      case False
      with c consume_all(2) [OF ok b j2 _ that n] show ?thesis by simp
    qed
    show ?thesis
    proof (cases r3)
      case (Inl x)
      with rec o1 o2 a l keys c w3 ages_trans [OF a2 w3] show ?thesis by (auto simp: recover_from_journal_def)
    next
      case (Inr recs)
      let ?es = "map dr_envelope recs"
      have b': "b' = b\<lparr>bb_seen_idempotency_keys := set (map dedup_key ?es), bb_last_sequence := fold advance ?es [], bb_recovered := True\<rparr>"
        "r = Inr ()" "w' = w3"
        using rec o1 o2 a l keys c Inr by (auto simp: recover_from_journal_def Let_def image_image)
      have "dedup_key e \<in> dedup_key ` set ?es \<and> (\<exists>n. dict_get (fold advance ?es []) (order_key e) = Some n \<and> ev_sequence e \<le> n)"
        if "e \<in> set ?es" for e using that fold_advance [of e ?es "[]"] by simp
      then have "cache_ok (retained (view w2)) b'"
        unfolding cache_ok_def set [OF Inr, symmetric] b'(1) by (simp add: image_image)
      then have "cache_ok (retained (view w3)) b'" by (rule cache_ok_mono [OF _ ages_envelopes [OF w3]])
      with ages_trans [OF a2 w3] b' b show ?thesis by simp
    qed
  qed
  then show "ages (view w) (view w')"
    and "(\<exists>x. r = Inl x) \<and> b' = b \<or> r = Inr () \<and> bb_topic b' = topic \<and> bb_recovered b' \<and> cache_ok (retained (view w')) b'" by auto
qed

section \<open>Publication\<close>

text \<open>One more record, of a new key and a sequence above every record of its aggregate.\<close>

definition accepts :: "journal \<Rightarrow> CanonicalIngestionEnvelope \<Rightarrow> bool" where
  "accepts j e \<longleftrightarrow> (\<forall>a \<in> set (journal_envelopes j). dedup_key a \<noteq> dedup_key e \<and> (order_key a = order_key e \<longrightarrow> ev_sequence a < ev_sequence e))"

lemma accepts_mono: "accepts j e \<Longrightarrow> set (journal_envelopes j') \<subseteq> set (journal_envelopes j) \<Longrightarrow> accepts j' e"
  unfolding accepts_def by blast

lemma accepts_stored [simp]: "accepts j (stored_envelope e) = accepts j e"
  by (simp add: accepts_def)

lemma appended_envelopes:
  assumes "q < 3" "record_envelope r = Inr e"
  shows "set (journal_envelopes (appended j q r)) = insert e (set (journal_envelopes j))"
    and "distinct (map dedup_key (journal_envelopes (appended j q r))) \<longleftrightarrow>
      distinct (map dedup_key (journal_envelopes j)) \<and> dedup_key e \<notin> dedup_key ` set (journal_envelopes j)"
    and "partition_envelopes (appended j q r) p = (if p = q then partition_envelopes j q @ [e] else partition_envelopes j p)"
proof -
  show part: "partition_envelopes (appended j q r) p = (if p = q then partition_envelopes j q @ [e] else partition_envelopes j p)" for p
    using assms(2) by (simp add: partition_envelopes_def appended_def)
  have "q = 0 \<or> q = 1 \<or> q = 2" using assms(1) by auto
  then show "set (journal_envelopes (appended j q r)) = insert e (set (journal_envelopes j))"
    "distinct (map dedup_key (journal_envelopes (appended j q r))) \<longleftrightarrow>
      distinct (map dedup_key (journal_envelopes j)) \<and> dedup_key e \<notin> dedup_key ` set (journal_envelopes j)"
    by (auto simp: journal_envelopes_def part)
qed

lemma partition_in_journal: "p < 3 \<Longrightarrow> set (partition_envelopes j p) \<subseteq> set (journal_envelopes j)"
  by (auto simp: journal_envelopes_def eval_nat_numeral less_Suc_eq)

lemma journal_sound_appended:
  assumes j: "journal_sound j" and q: "q < 3" and r: "readable_record r" "record_envelope r = Inr e" and a: "accepts j e"
  shows "journal_sound (appended j q r)"
proof -
  have "readable_journal (appended j q r)"
    using j r(1) by (auto simp: journal_sound_def readable_journal_def appended_def)
  moreover have "sorted_wrt (\<lambda>a b. order_key a = order_key b \<longrightarrow> ev_sequence a < ev_sequence b) (partition_envelopes (appended j q r) p)"
    if p: "p < 3" for p
  proof -
    have old: "order_key b = order_key e \<longrightarrow> ev_sequence b < ev_sequence e" if "b \<in> set (partition_envelopes j q)" for b
      using that a partition_in_journal [OF q] unfolding accepts_def by blast
    show ?thesis
      using j p old unfolding appended_envelopes(3) [OF q r(2)] by (auto simp: journal_sound_def sorted_wrt_append)
  qed
  moreover have "dedup_key e \<notin> dedup_key ` set (journal_envelopes j)" using a unfolding accepts_def by force
  ultimately show ?thesis
    using j by (simp add: journal_sound_def appended_envelopes(2) [OF q r(2)])
qed

text \<open>The cache after an acknowledged write knows the envelope, whether or not it reached the topic.\<close>

definition noted :: "CanonicalIngestionEnvelope \<Rightarrow> CanonicalEventBackbone \<Rightarrow> CanonicalEventBackbone" where
  "noted e b = b\<lparr>bb_last_sequence := dict_set (order_key e) (ev_sequence e) (bb_last_sequence b),
     bb_seen_idempotency_keys := insert (dedup_key e) (bb_seen_idempotency_keys b)\<rparr>"

lemma noted_sel [simp]:
  "bb_topic (noted e b) = bb_topic b" "bb_recovered (noted e b) = bb_recovered b" "bb_quarantine (noted e b) = bb_quarantine b"
  by (simp_all add: noted_def)

lemma cache_ok_noted:
  assumes "cache_ok j b" "accepts j e" "set (journal_envelopes j') \<subseteq> insert (stored_envelope e) (set (journal_envelopes j))"
  shows "cache_ok j' (noted e b)"
  unfolding cache_ok_def
proof
  fix a assume "a \<in> set (journal_envelopes j')"
  with assms(3) consider "a = stored_envelope e" | "a \<in> set (journal_envelopes j)" by blast
  then show "dedup_key a \<in> bb_seen_idempotency_keys (noted e b)
      \<and> (\<exists>n. dict_get (bb_last_sequence (noted e b)) (order_key a) = Some n \<and> ev_sequence a \<le> n)"
  proof cases
    case 1
    then show ?thesis by (simp add: noted_def)
  next
    case 2
    then have "dedup_key a \<in> bb_seen_idempotency_keys b" "\<exists>n. dict_get (bb_last_sequence b) (order_key a) = Some n \<and> ev_sequence a \<le> n"
      "order_key a = order_key e \<longrightarrow> ev_sequence a < ev_sequence e"
      using assms(1,2) by (auto simp: cache_ok_def accepts_def)
    then show ?thesis by (auto simp: noted_def)
  qed
qed

lemma record_of_envelope:
  assumes "wire_safe e" "dumps (envelope_to_mapping e) = Inr t"
  shows "ascii_printable t" "readable_record (ev_aggregate_ref e, t)" "record_envelope (ev_aggregate_ref e, t) = Inr (stored_envelope e)"
proof -
  obtain t' where t': "dumps (envelope_to_mapping e) = Inr t'" "ascii_printable t'"
    "\<exists>v. loads t' = Inr v \<and> envelope_from_mapping v = Inr (stored_envelope e)" using envelope_roundtrip [OF assms(1)] by blast
  with assms(2) have tt: "t' = t" by simp
  show p: "ascii_printable t" and r: "record_envelope (ev_aggregate_ref e, t) = Inr (stored_envelope e)"
    using t'(2,3) by (auto simp: tt record_envelope_def)
  show "readable_record (ev_aggregate_ref e, t)"
    using assms(1) r one_line_printable [OF p] by (simp add: readable_record_def wire_safe_def)
qed

text \<open>
  The topic after the envelope was written: records may have expired before and after.
\<close>

definition written_as :: "(pystr \<Rightarrow> nat) \<Rightarrow> CanonicalIngestionEnvelope \<Rightarrow> topic_log \<Rightarrow> topic_log \<Rightarrow> bool" where
  "written_as partition_of e l l' \<longleftrightarrow> (\<exists>t. dumps (envelope_to_mapping e) = Inr t
     \<and> ages (log_append l (partition_of (ev_aggregate_ref e)) (ev_aggregate_ref e, t)) l')"

lemma written_sound:
  assumes ok: "kafka_ok run topic view partition_of" and e: "wire_safe e" and j: "journal_sound (retained l)" and a: "accepts (retained l) e"
    and w: "written_as partition_of e l l'"
  shows "journal_sound (retained l')" "set (journal_envelopes (retained l')) \<subseteq> insert (stored_envelope e) (set (journal_envelopes (retained l)))"
proof -
  let ?q = "partition_of (ev_aggregate_ref e)"
  from w obtain t where t: "dumps (envelope_to_mapping e) = Inr t" "ages (log_append l ?q (ev_aggregate_ref e, t)) l'"
    by (auto simp: written_as_def)
  note r = record_of_envelope [OF e t(1)]
  note q = kafka_okD(2) [OF ok, of "ev_aggregate_ref e"]
  have "journal_sound (retained (log_append l ?q (ev_aggregate_ref e, t)))"
    unfolding retained_append using a by (intro journal_sound_appended [OF j q r(2,3)]) simp
  then show "journal_sound (retained l')" by (rule ages_sound [OF t(2)])
  show "set (journal_envelopes (retained l')) \<subseteq> insert (stored_envelope e) (set (journal_envelopes (retained l)))"
    using ages_envelopes [OF t(2)] unfolding retained_append appended_envelopes(1) [OF q r(3)] .
qed

lemma produce_cases:
  assumes ok: "kafka_ok run topic view partition_of" and e: "wire_safe e" and t: "dumps (envelope_to_mapping e) = Inr t"
    and x: "kafka_exec run (KafkaConsoleProducer topic) (Some (ev_aggregate_ref e @ [124] @ t @ [10])) w = (x, w')"
  shows "ages (view w) (view w') \<or> written_as partition_of e (view w) (view w')"
    and "(\<exists>out. x = Inr out) \<or> (\<exists>m. x = Inl (KafkaBackboneError m)) \<or> x = Inl TimeoutExpired"
proof -
  note p = record_of_envelope(1) [OF e t]
  have agg: "one_line (ev_aggregate_ref e)" "124 \<notin> set (ev_aggregate_ref e)" "text_ok (ev_aggregate_ref e)"
    using e by (auto simp: wire_safe_def envelope_strings_def)
  have "text_ok t" using p by (auto simp: ascii_printable_def text_ok_def list_all_iff is_surrogate_def)
  then have ns: "\<not> list_ex is_surrogate (ev_aggregate_ref e @ [124] @ t @ [10])"
    using agg(3) by (auto simp: text_ok_def list_all_iff list_ex_iff is_surrogate_def)
  obtain y w1 where y: "run (KafkaConsoleProducer topic) (Some (ev_aggregate_ref e @ [124] @ t @ [10])) w = (y, w1)" by force
  note k = kafka_okD(4) [OF ok agg(1,2) one_line_printable [OF p] y]
  have xy: "w' = w1" "x = (case y of Killed \<Rightarrow> Inl TimeoutExpired
      | Exited code out \<Rightarrow> if code \<noteq> 0 then Inl (KafkaBackboneError ''command failed'') else Inr out)"
    using x y ns unfolding kafka_exec_def by (auto split: process.splits)
  with k t show "ages (view w) (view w') \<or> written_as partition_of e (view w) (view w')"
    by (auto simp: written_as_def)
  show "(\<exists>out. x = Inr out) \<or> (\<exists>m. x = Inl (KafkaBackboneError m)) \<or> x = Inl TimeoutExpired"
    using xy(2) by (auto split: process.splits)
qed

definition backbone_inv :: "pystr \<Rightarrow> journal \<Rightarrow> CanonicalEventBackbone \<Rightarrow> bool" where
  "backbone_inv topic j b \<longleftrightarrow> bb_topic b = topic \<and> journal_sound j \<and> (bb_recovered b \<longrightarrow> cache_ok j b)"

lemma backbone_inv_ages: "backbone_inv topic (retained l) b \<Longrightarrow> ages l l' \<Longrightarrow> backbone_inv topic (retained l') b"
  unfolding backbone_inv_def using ages_sound cache_ok_mono [OF _ ages_envelopes] by blast

lemma quarantined_sel [simp]:
  "bb_topic (quarantined c v b) = bb_topic b" "bb_recovered (quarantined c v b) = bb_recovered b"
  "bb_seen_idempotency_keys (quarantined c v b) = bb_seen_idempotency_keys b"
  "cache_ok j (quarantined c v b) = cache_ok j b" "backbone_inv topic j (quarantined c v b) = backbone_inv topic j b"
  by (simp_all add: quarantined_def cache_ok_def backbone_inv_def)

text \<open>
  The contract of \<^verbatim>\<open>publish\<close> on a sound topic: it writes the envelope or nothing, and it writes only what the topic
  accepts at that moment.
\<close>

definition publish_contract ::
  "pystr \<Rightarrow> (pystr \<Rightarrow> nat) \<Rightarrow> CanonicalIngestionEnvelope \<Rightarrow> topic_log \<Rightarrow> unit res \<Rightarrow> CanonicalEventBackbone \<Rightarrow> topic_log \<Rightarrow> bool" where
  "publish_contract topic partition_of e l r b' l' \<longleftrightarrow>
     (ages l l' \<or> (\<exists>m. ages l m \<and> accepts (retained m) e \<and> written_as partition_of e m l'))
     \<and> (r \<noteq> Inl TimeoutExpired \<or> ages l l' \<longrightarrow> backbone_inv topic (retained l') b')"

lemma publish_recovered_contract:
  assumes ok: "kafka_ok run topic view partition_of" and e: "wire_safe e" and b: "backbone_inv topic (retained (view w)) b" "bb_recovered b"
    and pub: "publish_recovered run e b w = (r, b', w')"
  shows "publish_contract topic partition_of e (view w) r b' (view w')"
proof (cases "dedup_key e \<in> bb_seen_idempotency_keys b
    \<or> (case dict_get (bb_last_sequence b) (order_key e) of None \<Rightarrow> False | Some n \<Rightarrow> ev_sequence e \<le> n)")
  case True
  then have "w' = w" "backbone_inv topic (retained (view w)) b'"
    using pub b by (auto simp: publish_recovered_def split: if_splits)
  then show ?thesis by (simp add: publish_contract_def)
next
  case False
  have t: "bb_topic b = topic" and c: "cache_ok (retained (view w)) b" and j: "journal_sound (retained (view w))"
    using b by (auto simp: backbone_inv_def)
  have acc: "accepts (retained (view w)) e"
    using False c unfolding accepts_def cache_ok_def by (fastforce split: option.splits)
  obtain d where d: "dumps (envelope_to_mapping e) = Inr d" using envelope_roundtrip [OF e] by blast
  obtain x w1 where x: "kafka_exec run (KafkaConsoleProducer topic) (Some (ev_aggregate_ref e @ [124] @ d @ [10])) w = (x, w1)" by force
  note k = produce_cases [OF ok e d x]
  have res: "(r, b', w') = (case x of
        Inl (KafkaBackboneError m) \<Rightarrow> (Inl (KafkaBackboneError m), b\<lparr>bb_recovered := False\<rparr>, w1)
      | Inl y \<Rightarrow> (Inl y, b, w1) | Inr _ \<Rightarrow> (Inr (), noted e b, w1))"
    using pub False d x t by (simp add: publish_recovered_def noted_def split: sum.splits exn.splits)
  have w1: "w' = w1" using res k(2) by auto
  have sound: "journal_sound (retained (view w1))" and sub: "set (journal_envelopes (retained (view w1))) \<subseteq>
      insert (stored_envelope e) (set (journal_envelopes (retained (view w))))"
    using k(1) ages_sound [OF _ j] ages_envelopes [of "view w" "view w1"] written_sound [OF ok e j acc] by blast+
  have "backbone_inv topic (retained (view w1)) b'" if nt: "r \<noteq> Inl TimeoutExpired \<or> ages (view w) (view w1)"
  proof -
    from k(2) consider (ok) out where "x = Inr out" | (fail) m where "x = Inl (KafkaBackboneError m)" | (dead) "x = Inl TimeoutExpired"
      by blast
    then show ?thesis
    proof cases
      case (ok out)
      with res cache_ok_noted [OF c acc sub] sound t show ?thesis by (simp add: backbone_inv_def)
    next
      case (fail m)
      with res sound t show ?thesis by (simp add: backbone_inv_def)
    next
      case dead
      with res nt backbone_inv_ages [OF b(1)] show ?thesis by simp
    qed
  qed
  moreover have "ages (view w) (view w1) \<or> (\<exists>m. ages (view w) m \<and> accepts (retained m) e \<and> written_as partition_of e m (view w1))"
    using k(1) acc ages_refl by blast
  ultimately show ?thesis unfolding publish_contract_def w1 by blast
qed

lemma written_grows: "written_as partition_of e m l' \<Longrightarrow> ages l m \<Longrightarrow> \<not> ages l l'"
proof
  assume w: "written_as partition_of e m l'" and m: "ages l m" and l: "ages l l'"
  let ?q = "partition_of (ev_aggregate_ref e)"
  obtain t where t: "ages (log_append m ?q (ev_aggregate_ref e, t)) l'" using w by (auto simp: written_as_def)
  have "end_offset (log_append m ?q (ev_aggregate_ref e, t)) ?q = Suc (end_offset m ?q)" by (simp add: end_offset_def log_append_def)
  with ages_offsets(1) [OF t, of ?q] ages_offsets(1) [OF m, of ?q] ages_offsets(1) [OF l, of ?q] show False by simp
qed

lemma publish_contract_ages:
  assumes "ages l m" "publish_contract topic partition_of e m r b' l'"
  shows "publish_contract topic partition_of e l r b' l'"
  unfolding publish_contract_def
proof (intro conjI impI)
  show "ages l l' \<or> (\<exists>m. ages l m \<and> accepts (retained m) e \<and> written_as partition_of e m l')"
    using assms ages_trans unfolding publish_contract_def by blast
  assume r: "r \<noteq> Inl TimeoutExpired \<or> ages l l'"
  have "ages l l' \<Longrightarrow> ages m l'"
    using assms ages_trans written_grows unfolding publish_contract_def by blast
  with r assms(2) show "backbone_inv topic (retained l') b'" unfolding publish_contract_def by blast
qed

text \<open>An envelope that is not refused for its schema or its missing context.\<close>

definition admissible :: "CanonicalIngestionEnvelope \<Rightarrow> bool" where
  "admissible e \<longleftrightarrow> ev_schema_ref e \<in> REGISTERED_SCHEMAS \<and> ev_governed_context_digest e \<noteq> []"

lemma inadmissible_refused:
  assumes "\<not> admissible e"
  shows "\<exists>c. backbone_publish run e b w = (Inl (BackboneError c), quarantined c (envelope_to_mapping e) b, w)"
  using assms by (auto simp: admissible_def backbone_publish_def)

lemma publish_contract_holds:
  assumes ok: "kafka_ok run topic view partition_of" and e: "admissible e \<Longrightarrow> wire_safe e" and b: "backbone_inv topic (retained (view w)) b"
    and pub: "backbone_publish run e b w = (r, b', w')"
  shows "publish_contract topic partition_of e (view w) r b' (view w')" and "ages (view w) (view w') \<or> admissible e"
proof -
  show "ages (view w) (view w') \<or> admissible e" using pub inadmissible_refused [of e run b w] by auto
  show "publish_contract topic partition_of e (view w) r b' (view w')"
  proof (cases "admissible e")
    case False
    then show ?thesis using pub b inadmissible_refused [of e run b w] by (auto simp: publish_contract_def)
  next
    case True
    then have s: "ev_schema_ref e \<in> REGISTERED_SCHEMAS" "ev_governed_context_digest e \<noteq> []" by (simp_all add: admissible_def)
    show ?thesis
    proof (cases "bb_recovered b")
      case warm: True
      with s pub have "publish_recovered run e b w = (r, b', w')" by (simp add: backbone_publish_def)
      then show ?thesis by (rule publish_recovered_contract [OF ok e [OF True] b warm])
    next
      case cold: False
      obtain r1 b1 w1 where rec: "recover_from_journal run b w = (r1, b1, w1)" by (cases "recover_from_journal run b w")
      have t: "bb_topic b = topic" and j: "journal_sound (retained (view w))" using b by (auto simp: backbone_inv_def)
      note rc = recover_cases [OF ok t j rec]
      show ?thesis
      proof (cases r1)
        case (Inl x)
        with pub s cold rec have "r = Inl x" "b' = b1" "w' = w1" by (simp_all add: backbone_publish_def)
        then show ?thesis using rc Inl backbone_inv_ages [OF b rc(1)] by (auto simp: publish_contract_def)
      next
        case (Inr u)
        with rc have b1: "backbone_inv topic (retained (view w1)) b1" "bb_recovered b1"
          using ages_sound [OF rc(1) j] by (auto simp: backbone_inv_def)
        from pub s cold rec Inr have "publish_recovered run e b1 w1 = (r, b', w')" by (simp add: backbone_publish_def)
        from publish_contract_ages [OF rc(1) publish_recovered_contract [OF ok e [OF True] b1 this]] show ?thesis .
      qed
    qed
  qed
qed

section \<open>Histories\<close>

text \<open>
  The operations of the one active producer of a topic, with restarts and the passing of time: a restart throws the
  instance away, the broker stays.  Two things are left out.  An envelope that passes the checks of
  \<^verbatim>\<open>publish\<close> is one that can be written as a line and read back; and no record reaches the topic from a
  publication whose process was killed at its time limit.
\<close>

inductive backbone_step ::
  "'w cli \<Rightarrow> ('w \<Rightarrow> topic_log) \<Rightarrow> CanonicalEventBackbone \<times> 'w \<Rightarrow> CanonicalEventBackbone \<times> 'w \<Rightarrow> bool"
  for run view where
  published: "(admissible e \<Longrightarrow> wire_safe e) \<Longrightarrow> backbone_publish run e b w = (r, b', w') \<Longrightarrow>
    r \<noteq> Inl TimeoutExpired \<or> ages (view w) (view w') \<Longrightarrow> backbone_step run view (b, w) (b', w')"
| mapped: "(\<And>e. envelope_from_mapping (PDict raw) = Inr e \<Longrightarrow> admissible e \<Longrightarrow> wire_safe e) \<Longrightarrow>
    publish_from_mapping run raw b w = (r, b', w') \<Longrightarrow>
    r \<noteq> Inl TimeoutExpired \<or> ages (view w) (view w') \<Longrightarrow> backbone_step run view (b, w) (b', w')"
| initialized: "backbone_initialize run b w = (r, b', w') \<Longrightarrow> backbone_step run view (b, w) (b', w')"
| consumed: "backbone_consume run n b w = (r, w') \<Longrightarrow> backbone_step run view (b, w) (b, w')"
| restarted: "backbone_step run view (b, w) (new_backbone (bb_topic b), w)"
| elapsed: "ages (view w) (view w') \<Longrightarrow> backbone_step run view (b, w) (b, w')"

inductive_cases backbone_stepE: "backbone_step run view s t"

definition backbone_init ::
  "'w cli \<Rightarrow> pystr \<Rightarrow> ('w \<Rightarrow> topic_log) \<Rightarrow> (pystr \<Rightarrow> nat) \<Rightarrow> CanonicalEventBackbone \<times> 'w \<Rightarrow> bool" where
  "backbone_init run topic view partition_of s \<longleftrightarrow> kafka_ok run topic view partition_of
     \<and> fst s = new_backbone topic \<and> (\<forall>p. retained (view (snd s)) p = [])"

definition backbone_state_inv ::
  "'w cli \<Rightarrow> pystr \<Rightarrow> ('w \<Rightarrow> topic_log) \<Rightarrow> (pystr \<Rightarrow> nat) \<Rightarrow> CanonicalEventBackbone \<times> 'w \<Rightarrow> bool" where
  "backbone_state_inv run topic view partition_of s \<longleftrightarrow> kafka_ok run topic view partition_of
     \<and> backbone_inv topic (retained (view (snd s))) (fst s)"

lemma empty_journal_sound: "(\<And>p. j p = []) \<Longrightarrow> journal_sound j"
  by (simp add: journal_sound_def readable_journal_def journal_envelopes_def partition_envelopes_def)

lemma empty_cache_ok: "(\<And>p. j p = []) \<Longrightarrow> cache_ok j b"
  by (simp add: cache_ok_def journal_envelopes_def partition_envelopes_def)

lemma initialize_contract:
  assumes ok: "kafka_ok run topic view partition_of" and b: "backbone_inv topic (retained (view w)) b"
    and i: "backbone_initialize run b w = (r, b', w')"
  shows "backbone_inv topic (retained (view w')) b'"
proof -
  have t: "bb_topic b = topic" using b by (simp add: backbone_inv_def)
  obtain x w1 where x: "run (KafkaTopicsCreate topic) None w = (x, w1)" by force
  note k = kafka_okD(7) [OF ok x]
  have w: "w' = w1" using i x t by (auto simp: backbone_initialize_def kafka_exec_def split: process.splits if_splits)
  note inv = backbone_inv_ages [OF b conjunct1 [OF k]]
  show ?thesis
  proof (cases "\<exists>out. x = Exited 0 out")
    case True
    then have e: "retained (view w) p = []" for p using k by blast
    have "cache_ok (retained (view w1)) b'"
      by (rule cache_ok_mono [OF empty_cache_ok [OF e] ages_envelopes [OF conjunct1 [OF k]]])
    moreover have "bb_topic b' = topic" using True i x t by (auto simp: backbone_initialize_def kafka_exec_def)
    ultimately show ?thesis using inv w by (simp add: backbone_inv_def)
  next
    case False
    then have "b' = b" using i x t by (cases x) (auto simp: backbone_initialize_def kafka_exec_def split: if_splits)
    with inv w show ?thesis by simp
  qed
qed

lemma backbone_step_ok:
  assumes s: "backbone_state_inv run topic view partition_of s" and step: "backbone_step run view s t"
  shows "backbone_state_inv run topic view partition_of t"
proof -
  have ok: "kafka_ok run topic view partition_of" using s by (simp add: backbone_state_inv_def)
  from step s show ?thesis
  proof cases
    case (published e b w r b' w')
    with s have "publish_contract topic partition_of e (view w) r b' (view w')"
      by (intro publish_contract_holds(1) [OF ok]) (auto simp: backbone_state_inv_def)
    with published ok show ?thesis by (simp add: backbone_state_inv_def publish_contract_def)
  next
    case (mapped raw b w r b' w')
    show ?thesis
    proof (cases "envelope_from_mapping (PDict raw)")
      case (Inl x)
      then show ?thesis using mapped s
        by (auto simp: publish_from_mapping_def backbone_state_inv_def split: exn.splits)
    next
      case (Inr e)
      with mapped s have "publish_contract topic partition_of e (view w) r b' (view w')"
        by (intro publish_contract_holds(1) [OF ok]) (auto simp: backbone_state_inv_def publish_from_mapping_def)
      with mapped ok show ?thesis by (simp add: backbone_state_inv_def publish_contract_def)
    qed
  next
    case (initialized b w r b' w')
    with s initialize_contract [OF ok _ initialized(3)] ok show ?thesis by (simp add: backbone_state_inv_def)
  next
    case (consumed n b w r w')
    with s have "ages (view w) (view w')"
      by (intro consume_all(1) [OF ok]) (auto simp: backbone_state_inv_def backbone_inv_def journal_sound_def)
    with s consumed backbone_inv_ages show ?thesis by (auto simp: backbone_state_inv_def)
  next
    case (restarted b w)
    with s show ?thesis by (simp add: backbone_state_inv_def backbone_inv_def new_backbone_def)
  next
    case (elapsed w w' b)
    with s backbone_inv_ages show ?thesis by (auto simp: backbone_state_inv_def)
  qed
qed

interpretation backbone_sys: invariant_system "backbone_init run topic view partition_of" "backbone_step run view"
  "backbone_state_inv run topic view partition_of" for run topic view partition_of
proof
  show "backbone_state_inv run topic view partition_of s" if "backbone_init run topic view partition_of s" for s
    using that by (auto simp: backbone_init_def backbone_state_inv_def backbone_inv_def new_backbone_def empty_journal_sound)
  show "backbone_state_inv run topic view partition_of t"
    if "backbone_state_inv run topic view partition_of s" "backbone_step run view s t" for s t
    using that by (rule backbone_step_ok)
qed

section \<open>One instance on any broker\<close>

text \<open>
  Operations of one instance during which no write fails with a Kafka error, on whatever the command line tools do:
  any envelope, any result, any time limit.
\<close>

inductive instance_step ::
  "'w cli \<Rightarrow> CanonicalEventBackbone \<times> 'w \<Rightarrow> CanonicalEventBackbone \<times> 'w \<Rightarrow> bool"
  for run where
  published: "backbone_publish run e b w = (r, b', w') \<Longrightarrow> (\<And>m. r \<noteq> Inl (KafkaBackboneError m)) \<Longrightarrow> instance_step run (b, w) (b', w')"
| mapped: "publish_from_mapping run raw b w = (r, b', w') \<Longrightarrow> (\<And>m. r \<noteq> Inl (KafkaBackboneError m)) \<Longrightarrow> instance_step run (b, w) (b', w')"
| consumed: "backbone_consume run n b w = (r, w') \<Longrightarrow> instance_step run (b, w) (b, w')"
| elapsed: "instance_step run (b, w) (b, w')"

definition knows :: "pystr \<times> pystr \<Rightarrow> CanonicalEventBackbone \<times> 'w \<Rightarrow> bool" where
  "knows k s \<longleftrightarrow> bb_recovered (fst s) \<and> k \<in> bb_seen_idempotency_keys (fst s)"

lemma publish_recovered_knows:
  assumes "publish_recovered run e b w = (r, b', w')" "bb_recovered b" "\<And>m. r \<noteq> Inl (KafkaBackboneError m)"
  shows "bb_recovered b'" "bb_seen_idempotency_keys b \<subseteq> bb_seen_idempotency_keys b'" "r = Inr () \<Longrightarrow> dedup_key e \<in> bb_seen_idempotency_keys b'"
  using assms by (auto simp: publish_recovered_def split: if_splits sum.splits prod.splits exn.splits)

lemma publish_knows:
  assumes "backbone_publish run e b w = (r, b', w')" "\<And>m. r \<noteq> Inl (KafkaBackboneError m)" "knows k (b, w)"
  shows "knows k (b', w')"
proof (cases "admissible e")
  case True
  with assms(1,3) have "publish_recovered run e b w = (r, b', w')" by (simp add: backbone_publish_def admissible_def knows_def)
  from publish_recovered_knows [OF this _ assms(2)] assms(3) show ?thesis by (auto simp: knows_def)
next
  case False
  with assms(1,3) inadmissible_refused [of e run b w] show ?thesis by (auto simp: knows_def)
qed

lemma published_is_known: "backbone_publish run e b w = (Inr (), b', w') \<Longrightarrow> admissible e \<and> knows (dedup_key e) (b', w')"
proof -
  assume pub: "backbone_publish run e b w = (Inr (), b', w')"
  then have a: "admissible e" using inadmissible_refused [of e run b w] by auto
  show ?thesis
  proof (cases "bb_recovered b")
    case True
    with pub a have "publish_recovered run e b w = (Inr (), b', w')" by (simp add: backbone_publish_def admissible_def)
    from publish_recovered_knows [OF this True] a show ?thesis by (simp add: knows_def)
  next
    case False
    obtain r1 b1 w1 where rec: "recover_from_journal run b w = (r1, b1, w1)" by (cases "recover_from_journal run b w")
    with pub a False have r1: "\<exists>u. r1 = Inr u" and p: "publish_recovered run e b1 w1 = (Inr (), b', w')"
      by (auto simp: backbone_publish_def admissible_def split: sum.splits)
    have "bb_recovered b1" using rec r1 by (auto simp: recover_from_journal_def Let_def split: prod.splits sum.splits if_splits)
    from publish_recovered_knows [OF p this] a show ?thesis by (simp add: knows_def)
  qed
qed

interpretation instance_sys: invariant_system "knows k" "instance_step run" "knows k" for k run
proof
  show "knows k t" if "knows k s" "instance_step run s t" for s t
    using that(2,1)
  proof (induction rule: instance_step.induct)
    case (published e b w r b' w')
    show ?case by (rule publish_knows [OF published.hyps published.prems])
  next
    case (mapped raw b w r b' w')
    show ?case
    proof (cases "envelope_from_mapping (PDict raw)")
      case (Inl x)
      then show ?thesis using mapped by (cases x) (auto simp: publish_from_mapping_def knows_def)
    next
      case (Inr e)
      with mapped show ?thesis by (intro publish_knows [of run e b w r b' w']) (auto simp: publish_from_mapping_def)
    qed
  qed (simp_all add: knows_def)
qed

section \<open>A broker for examples\<close>

text \<open>
  One partition in use, and a script of faults for the next writes: an acknowledgement may be lost after or before
  the write, the write may be acknowledged and lost, and the process may hang after it.
\<close>

datatype broker_fault = LostAck | NotWritten | FalseAck | HangWritten

record log_world =
  lw_first :: nat
  lw_log :: "(pystr \<times> pystr) list"
  lw_faults :: "broker_fault list"

definition log_view :: "log_world \<Rightarrow> topic_log" where
  "log_view w = (\<lambda>p. if p = 0 \<and> lw_first w + length (lw_log w) < 2 ^ 63 then (lw_first w, lw_log w) else (0, []))"

definition log_write :: "pystr \<Rightarrow> log_world \<Rightarrow> log_world" where
  "log_write text w =
     w\<lparr>lw_log := lw_log w @ [(fst (split_once 124 text), butlast (snd (split_once 124 text)))], lw_faults := drop 1 (lw_faults w)\<rparr>"

definition log_cli :: "log_world cli" where
  "log_cli c input w =
     (case c of
        KafkaConsoleProducer t \<Rightarrow>
          (case input of None \<Rightarrow> (Exited 1 [], w)
           | Some text \<Rightarrow>
              if 2 ^ 63 \<le> Suc (lw_first w + length (lw_log w)) then (Exited 1 [], w)
              else (case lw_faults w of [] \<Rightarrow> (Exited 0 [], log_write text w)
                    | LostAck # fs \<Rightarrow> (Exited 1 [], log_write text w)
                    | NotWritten # fs \<Rightarrow> (Exited 1 [], w\<lparr>lw_faults := fs\<rparr>)
                    | FalseAck # fs \<Rightarrow> (Exited 0 [], w\<lparr>lw_faults := fs\<rparr>)
                    | HangWritten # fs \<Rightarrow> (Killed, log_write text w)))
      | KafkaConsoleConsumer t n \<Rightarrow>
          (Exited 0 (lines (map (consumer_line (log_view w)) (map (Pair 0) [fst (log_view w 0)..<end_offset (log_view w) 0]))), w)
      | KafkaGetOffsets t spec \<Rightarrow>
          (Exited 0 (lines (map (\<lambda>p. offset_line t (p, if spec = lit ''-2'' then fst (log_view w p) else end_offset (log_view w) p)) [0..<3])), w)
      | KafkaTopicsCreate t \<Rightarrow> (if lw_log w = [] then Exited 0 [] else Exited 1 [], w))"

lemma log_write_view:
  assumes "124 \<notin> set k" "Suc (lw_first w + length (lw_log w)) < 2 ^ 63"
  shows "log_view (log_write (k @ [124] @ v @ [10]) w) = log_append (log_view w) 0 (k, v)"
proof -
  have "split_once 124 (k @ 124 # v @ [10]) = (k, v @ [10])" by (rule split_once_text [OF assms(1)])
  with assms(2) show ?thesis by (auto simp: log_write_def log_view_def log_append_def fun_eq_iff)
qed

lemma log_producer: "producer_ok log_cli topic log_view (\<lambda>k. 0)"
  unfolding producer_ok_def
proof (intro allI impI, elim conjE)
  fix k v w r w'
  assume k: "124 \<notin> set k" and run: "log_cli (KafkaConsoleProducer topic) (Some (k @ [124] @ v @ [10])) w = (r, w')"
  have same: "log_view x = log_view w" if "lw_log x = lw_log w" "lw_first x = lw_first w" for x
    by (simp only: log_view_def that)
  show "ages (log_view w) (log_view w') \<or> ages (log_append (log_view w) 0 (k, v)) (log_view w')"
  proof (cases "2 ^ 63 \<le> Suc (lw_first w + length (lw_log w))")
    case True
    with run have "w' = w" by (simp add: log_cli_def)
    then show ?thesis by simp
  next
    case False
    have "w' = log_write (k @ [124] @ v @ [10]) w \<or> lw_log w' = lw_log w \<and> lw_first w' = lw_first w"
      using run False unfolding log_cli_def by (auto split: list.splits broker_fault.splits)
    then show ?thesis
    proof
      assume "w' = log_write (k @ [124] @ v @ [10]) w"
      moreover have "log_view (log_write (k @ [124] @ v @ [10]) w) = log_append (log_view w) 0 (k, v)"
        using False by (intro log_write_view [OF k]) linarith
      ultimately show ?thesis by (simp only: ages_refl simp_thms)
    next
      assume "lw_log w' = lw_log w \<and> lw_first w' = lw_first w"
      with same [of w'] show ?thesis by (simp only: ages_refl simp_thms)
    qed
  qed
qed

lemma log_consumer: "consumer_ok log_cli topic log_view"
  unfolding consumer_ok_def
proof (intro allI impI)
  fix n w r w' assume run: "log_cli (KafkaConsoleConsumer topic n) None w = (r, w')"
  let ?rs = "map (Pair 0) [fst (log_view w 0)..<end_offset (log_view w) 0]"
  have "distinct ?rs" "\<forall>(p, i) \<in> set ?rs. p < 3 \<and> fst (log_view w p) \<le> i \<and> i < end_offset (log_view w) p" by (auto simp: distinct_map inj_on_def)
  moreover have "w' = w" "r = Exited 0 (lines (map (consumer_line (log_view w)) ?rs))"
    using run unfolding log_cli_def by auto
  ultimately show "ages (log_view w) (log_view w') \<and> (\<forall>code out. r = Exited code out \<longrightarrow>
      (\<exists>rs. distinct rs \<and> (\<forall>(p, i) \<in> set rs. p < 3 \<and> fst (log_view w p) \<le> i \<and> i < end_offset (log_view w) p)
         \<and> out = lines (map (consumer_line (log_view w)) rs)))" using ages_refl by blast
qed

lemma log_offsets: "offsets_ok log_cli topic log_view"
  unfolding offsets_ok_def
proof (intro allI impI)
  fix spec w r w' assume run: "log_cli (KafkaGetOffsets topic spec) None w = (r, w')"
  let ?f = "\<lambda>p. if spec = lit ''-2'' then fst (log_view w p) else end_offset (log_view w) p"
  have "w' = w" "r = Exited 0 (lines (map (\<lambda>p. offset_line topic (p, ?f p)) [0..<3]))" using run unfolding log_cli_def by auto
  then show "ages (log_view w) (log_view w') \<and> (\<forall>out. r = Exited 0 out \<longrightarrow>
      (\<exists>f. out = lines (map (\<lambda>p. offset_line topic (p, f p)) [0..<3]) \<and>
        (\<forall>p. (spec = lit ''-2'' \<longrightarrow> fst (log_view w p) \<le> f p \<and> f p \<le> fst (log_view w' p))
          \<and> (spec = lit ''-1'' \<longrightarrow> f p = end_offset (log_view w) p))))"
    by (auto intro!: exI [of _ ?f] simp: lit_def)
qed

lemma log_cli_ok: "topic_name topic \<Longrightarrow> kafka_ok log_cli topic log_view (\<lambda>k. 0)"
  unfolding kafka_ok_def
  by (intro conjI log_producer log_consumer log_offsets) (auto simp: log_cli_def log_view_def end_offset_def retained_def split: if_splits)

section \<open>Properties\<close>

text \<open>
  C18 [backbone_journal_sound]: over every history of the one producer, with failed and falsely acknowledged writes, lost
  acknowledgements, failed commands, expired records and restarts, the records on the topic are a sound journal.  Each decodes to
  an envelope under its own aggregate, no idempotency key occurs twice in a governed context, and the sequences of an
  aggregate strictly increase in its partition.  The histories leave out envelopes that pass the checks of \<^verbatim>\<open>publish\<close> and
  cannot be written as a line and read back, and records that reach the topic from a publication killed at its time limit.
\<close>

theorem backbone_journal_sound:
  assumes "backbone_init run topic view partition_of s" and "(backbone_step run view)\<^sup>*\<^sup>* s (b, w)"
  shows "journal_sound (retained (view w))"
  using backbone_sys.reachable_invar [OF assms] by (simp add: backbone_state_inv_def backbone_inv_def)

text \<open>
  C25 [acknowledged_not_resent]: once a publication has returned, an envelope with the same idempotency key in the same governed
  context and a registered schema is not sent to the broker again: the call returns at once, runs no command and changes nothing.
  This holds on any broker and after any further operations of the instance of which no publication failed with a
  Kafka error.
\<close>

theorem acknowledged_not_resent:
  assumes "backbone_publish run e b w = (Inr (), b1, w1)" "(instance_step run)\<^sup>*\<^sup>* (b1, w1) (b2, w2)"
    and "dedup_key e' = dedup_key e" "ev_schema_ref e' \<in> REGISTERED_SCHEMAS"
  shows "backbone_publish run e' b2 w2 = (Inr (), b2, w2)"
proof -
  have "admissible e" "knows (dedup_key e) (b1, w1)" using published_is_known [OF assms(1)] by auto
  then have "knows (dedup_key e) (b2, w2)" using instance_sys.invar_steps [OF assms(2)] by blast
  with \<open>admissible e\<close> assms(3,4) show ?thesis
    by (auto simp: knows_def backbone_publish_def publish_recovered_def admissible_def dedup_key_def)
qed

definition example_topic :: pystr where
  "example_topic = lit ''events''"

definition example_envelope :: CanonicalIngestionEnvelope where
  "example_envelope = \<lparr>ev_event_id = lit ''e'', ev_event_type = lit ''t'', ev_event_version = lit ''1'',
     ev_schema_ref = lit ''urn:ocor:schema:canonical-ingestion-envelope:1'', ev_producer_principal = lit ''p'', ev_source_ref = lit ''s'',
     ev_aggregate_ref = lit ''a'', ev_correlation_id = lit ''c'', ev_causation_id = lit ''d'',
     ev_classification_marking_ref = lit ''m'', ev_governed_context_digest = lit ''g'', ev_idempotency_key = lit ''k'',
     ev_sequence = 1, ev_payload = []\<rparr>"

definition example_broker :: "broker_fault list \<Rightarrow> log_world" where
  "example_broker fs = \<lparr>lw_first = 0, lw_log = [], lw_faults = fs\<rparr>"

definition example_ready :: CanonicalEventBackbone where
  "example_ready = (new_backbone example_topic)\<lparr>bb_recovered := True\<rparr>"

lemma example_safe: "wire_safe example_envelope"
  by (simp add: wire_safe_def example_envelope_def envelope_strings_def text_ok_scalar dec_nat.simps int_digits_limit_def)
    (simp add: lit_def line_break_def)

lemma example_admissible: "admissible example_envelope"
  by (simp add: admissible_def example_envelope_def REGISTERED_SCHEMAS_def)

lemma example_topic_ok: "topic_name example_topic"
  by (simp add: topic_name_def example_topic_def lit_def)

lemma example_backbone_init: "backbone_init log_cli example_topic log_view (\<lambda>k. 0) (new_backbone example_topic, example_broker fs)"
  using log_cli_ok [OF example_topic_ok] by (simp add: backbone_init_def example_broker_def log_view_def retained_def)

lemma example_initialized:
  "backbone_initialize log_cli (new_backbone example_topic) (example_broker fs) = (Inr (), example_ready, example_broker fs)"
  by (simp add: backbone_initialize_def kafka_exec_def log_cli_def example_broker_def example_ready_def new_backbone_def)

text \<open>Publishing the example envelope where it is not known, on a broker with room for it.\<close>

lemma example_publish:
  obtains t where "dumps (envelope_to_mapping example_envelope) = Inr t"
    and "\<And>b w. dedup_key example_envelope \<notin> bb_seen_idempotency_keys b \<Longrightarrow>
      dict_get (bb_last_sequence b) (order_key example_envelope) = None \<Longrightarrow> lw_first w + length (lw_log w) < 9 \<Longrightarrow>
      publish_recovered log_cli example_envelope b w =
      (case lw_faults w of [] \<Rightarrow> (Inr (), noted example_envelope b, log_write (lit ''a'' @ [124] @ t @ [10]) w)
       | LostAck # fs \<Rightarrow> (Inl (KafkaBackboneError ''command failed''), b\<lparr>bb_recovered := False\<rparr>, log_write (lit ''a'' @ [124] @ t @ [10]) w)
       | NotWritten # fs \<Rightarrow> (Inl (KafkaBackboneError ''command failed''), b\<lparr>bb_recovered := False\<rparr>, w\<lparr>lw_faults := fs\<rparr>)
       | FalseAck # fs \<Rightarrow> (Inr (), noted example_envelope b, w\<lparr>lw_faults := fs\<rparr>)
       | HangWritten # fs \<Rightarrow> (Inl TimeoutExpired, b, log_write (lit ''a'' @ [124] @ t @ [10]) w))"
proof -
  obtain t where t: "dumps (envelope_to_mapping example_envelope) = Inr t" "ascii_printable t"
    using envelope_roundtrip [OF example_safe] by blast
  have "ev_aggregate_ref example_envelope = lit ''a''" by (simp add: example_envelope_def)
  moreover have "\<not> list_ex is_surrogate (lit ''a'' @ [124] @ t @ [10])"
    using t(2) by (auto simp: ascii_printable_def list_all_iff list_ex_iff is_surrogate_def lit_def)
  ultimately show thesis
    using that [OF t(1)] t(1)
    by (simp add: publish_recovered_def kafka_exec_def log_cli_def noted_def split: list.splits broker_fault.splits)
qed

lemma ready_publish: "bb_recovered b \<Longrightarrow> backbone_publish run example_envelope b w = publish_recovered run example_envelope b w"
  using example_admissible by (simp add: backbone_publish_def admissible_def)

text \<open>An instance that starts on a topic whose records have all expired knows nothing of them.\<close>

lemma recover_expired:
  assumes "lw_log w = []" "lw_first w < 9" "bb_topic b = example_topic"
  shows "recover_from_journal log_cli b w =
    (Inr (), b\<lparr>bb_seen_idempotency_keys := {}, bb_last_sequence := [], bb_recovered := True\<rparr>, w)"
proof -
  define f where "f = (\<lambda>p::nat. if p = 0 then lw_first w else 0)"
  have f: "f p < 2 ^ 63" for p using assms(2) by (simp add: f_def)
  have v: "fst (log_view w p) = f p" "end_offset (log_view w) p = f p" for p
    using assms(1,2) by (simp_all add: log_view_def end_offset_def f_def)
  have run: "log_cli (KafkaGetOffsets example_topic spec) None w = (Exited 0 (lines (map (\<lambda>p. offset_line example_topic (p, f p)) [0..<3])), w)" for spec
    by (simp add: log_cli_def v cong: if_cong)
  have "journal_offsets log_cli spec b w = (Inr [(0, int (f 0)), (1, int (f 1)), (2, int (f 2))], w)" for spec
    unfolding journal_offsets_def kafka_exec_def assms(3) run
    by (simp add: offset_lines_split [OF example_topic_ok] read_offsets_lines [OF example_topic_ok f] del: upt_rec_numeral)
  then show ?thesis unfolding recover_from_journal_def by (simp add: journal_count_def)
qed

text \<open>
  A history with an expiry: the envelope is published, its record expires, the instance restarts, and the
  same envelope is published and written again.
\<close>

definition example_expired :: log_world where
  "example_expired = \<lparr>lw_first = 1, lw_log = [], lw_faults = []\<rparr>"

lemma expired_history:
  obtains b t where "(backbone_step log_cli log_view)\<^sup>*\<^sup>* (new_backbone example_topic, example_broker []) (new_backbone example_topic, example_expired)"
    and "backbone_publish log_cli example_envelope (new_backbone example_topic) example_expired =
      (Inr (), b, log_write (lit ''a'' @ [124] @ t @ [10]) example_expired)"
proof -
  obtain t where t: "dumps (envelope_to_mapping example_envelope) = Inr t"
    and pub: "\<And>b w. dedup_key example_envelope \<notin> bb_seen_idempotency_keys b \<Longrightarrow>
      dict_get (bb_last_sequence b) (order_key example_envelope) = None \<Longrightarrow> lw_first w + length (lw_log w) < 9 \<Longrightarrow> lw_faults w = [] \<Longrightarrow>
      publish_recovered log_cli example_envelope b w = (Inr (), noted example_envelope b, log_write (lit ''a'' @ [124] @ t @ [10]) w)"
    by (rule example_publish) simp
  let ?w = "log_write (lit ''a'' @ [124] @ t @ [10]) (example_broker [])" and ?S = "backbone_step log_cli log_view"
  have 1: "?S (new_backbone example_topic, example_broker []) (example_ready, example_broker [])"
    using example_initialized by (rule backbone_step.initialized)
  have p: "backbone_publish log_cli example_envelope example_ready (example_broker []) = (Inr (), noted example_envelope example_ready, ?w)"
    by (subst ready_publish) (simp_all add: pub example_ready_def new_backbone_def example_broker_def)
  have 2: "?S (example_ready, example_broker []) (noted example_envelope example_ready, ?w)"
    using p by (rule backbone_step.published [rotated]) (simp_all add: example_safe)
  have "ages (log_view ?w) (log_view example_expired)"
    unfolding ages_def
    by (intro allI, rule_tac x = "length (snd (log_view ?w p))" in exI)
      (simp add: log_view_def log_write_def example_broker_def example_expired_def)
  then have 3: "?S (noted example_envelope example_ready, ?w) (noted example_envelope example_ready, example_expired)" by (rule backbone_step.elapsed)
  have 4: "?S (noted example_envelope example_ready, example_expired) (new_backbone example_topic, example_expired)"
    using backbone_step.restarted [of log_cli log_view "noted example_envelope example_ready" example_expired]
    by (simp add: example_ready_def new_backbone_def)
  have "?S\<^sup>*\<^sup>* (new_backbone example_topic, example_broker []) (new_backbone example_topic, example_expired)"
    using 1 2 3 4 by (meson rtranclp.rtrancl_into_rtrancl rtranclp.rtrancl_refl)
  moreover have "recover_from_journal log_cli (new_backbone example_topic) example_expired = (Inr (), example_ready, example_expired)"
    by (subst recover_expired) (simp_all add: example_expired_def new_backbone_def example_ready_def)
  then have "backbone_publish log_cli example_envelope (new_backbone example_topic) example_expired =
      (Inr (), noted example_envelope example_ready, log_write (lit ''a'' @ [124] @ t @ [10]) example_expired)"
    using example_admissible pub [of example_ready example_expired]
    by (simp add: backbone_publish_def admissible_def new_backbone_def example_ready_def example_expired_def)
  ultimately show thesis by (rule that)
qed

theorem backbone_journal_sound_witness:
  "\<exists>b w. (backbone_step log_cli log_view)\<^sup>*\<^sup>* (new_backbone example_topic, example_broker []) (b, w)
     \<and> lw_first w = 1 \<and> length (lw_log w) = 1 \<and> journal_sound (retained (log_view w))"
proof -
  obtain b t where run: "(backbone_step log_cli log_view)\<^sup>*\<^sup>* (new_backbone example_topic, example_broker []) (new_backbone example_topic, example_expired)"
    and pub: "backbone_publish log_cli example_envelope (new_backbone example_topic) example_expired =
      (Inr (), b, log_write (lit ''a'' @ [124] @ t @ [10]) example_expired)" by (rule expired_history)
  let ?w = "log_write (lit ''a'' @ [124] @ t @ [10]) example_expired"
  have "backbone_step log_cli log_view (new_backbone example_topic, example_expired) (b, ?w)"
    using pub by (rule backbone_step.published [rotated]) (simp_all add: example_safe)
  with run have all: "(backbone_step log_cli log_view)\<^sup>*\<^sup>* (new_backbone example_topic, example_broker []) (b, ?w)"
    by (rule rtranclp.rtrancl_into_rtrancl)
  have "lw_first ?w = 1" "length (lw_log ?w) = 1" by (simp_all add: log_write_def example_expired_def)
  with all backbone_journal_sound [OF example_backbone_init all] show ?thesis by blast
qed

theorem acknowledged_not_resent_witness:
  "\<exists>b w. fst (backbone_publish log_cli example_envelope example_ready (example_broker [FalseAck])) = Inr ()
     \<and> snd (backbone_publish log_cli example_envelope example_ready (example_broker [FalseAck])) = (b, w)
     \<and> backbone_publish log_cli (example_envelope\<lparr>ev_sequence := 2\<rparr>) b w = (Inr (), b, w)"
proof -
  obtain t where "publish_recovered log_cli example_envelope example_ready (example_broker [FalseAck]) =
      (Inr (), noted example_envelope example_ready, example_broker [])"
    by (rule example_publish) (simp add: example_ready_def new_backbone_def example_broker_def)
  then have p: "backbone_publish log_cli example_envelope example_ready (example_broker [FalseAck]) =
      (Inr (), noted example_envelope example_ready, example_broker [])"
    by (subst ready_publish) (simp_all add: example_ready_def)
  have "dedup_key (example_envelope\<lparr>ev_sequence := 2\<rparr>) = dedup_key example_envelope" "ev_schema_ref (example_envelope\<lparr>ev_sequence := 2\<rparr>) \<in> REGISTERED_SCHEMAS"
    using example_admissible by (simp_all add: dedup_key_def admissible_def)
  from acknowledged_not_resent [OF p rtranclp.rtrancl_refl this] p show ?thesis by simp
qed

lemma envelope_of_own_mapping:
  assumes "wire_safe e"
  shows "envelope_from_mapping (envelope_to_mapping e) = Inr e"
proof -
  have ne: "s \<noteq> []" if "(f, s) \<in> set (envelope_strings e)" for f s using that assms by (auto simp: wire_safe_def list_all_iff)
  let ?kvs = "map (\<lambda>(k, s). (k, PStr s)) (envelope_strings e) @ [(''sequence'', PInt (ev_sequence e)), (''payload'', PDict (ev_payload e))]"
  let ?d = "map (\<lambda>(k, v). (KStr (lit k), v)) ?kvs"
  have "map fst ?kvs = REQUIRED_FIELDS" using envelope_keys(1) [of e] by (simp add: comp_def case_prod_unfold)
  then have "dict_ok ?d" using envelope_keys(2) by (intro obj_dict_ok) (simp only:)
  then have get: "dict_get ?d (KStr (lit k)) = Some v" if "(k, v) \<in> set ?kvs" for k v
    using that by (intro map_of_is_SomeI) (auto simp: image_iff)
  have "envelope_from_mapping (PDict ?d) = Inr (e\<lparr>ev_payload := ev_payload e\<rparr>)"
  proof (rule envelope_from_get)
    show "s \<noteq> [] \<and> dict_get ?d (KStr (lit f)) = Some (PStr s)" if fs: "(f, s) \<in> set (envelope_strings e)" for f s
    proof
      have "(f, PStr s) \<in> set ?kvs" using fs by force
      then show "dict_get ?d (KStr (lit f)) = Some (PStr s)" by (rule get)
    qed (rule ne [OF fs])
    show "dict_get ?d (KStr (lit ''sequence'')) = Some (PInt (ev_sequence e))"
      "dict_get ?d (KStr (lit ''payload'')) = Some (PDict (ev_payload e))" by (intro get; simp)+
  qed (use assms in \<open>simp add: wire_safe_def\<close>)
  then show ?thesis by (simp add: envelope_to_mapping_def)
qed

text \<open>
  A write that is killed at its time limit is not treated as a write of unknown outcome: when it was durable, a retry
  through the same instance writes the event a second time.
\<close>

lemma timed_out_write_duplicates:
  "\<exists>w1 b2 w2. backbone_publish log_cli example_envelope example_ready (example_broker [HangWritten]) = (Inl TimeoutExpired, example_ready, w1)
     \<and> backbone_publish log_cli example_envelope example_ready w1 = (Inr (), b2, w2)
     \<and> \<not> distinct (map dedup_key (journal_envelopes (retained (log_view w2))))"
proof -
  obtain t where t: "dumps (envelope_to_mapping example_envelope) = Inr t"
    and pub: "\<And>w. lw_first w + length (lw_log w) < 9 \<Longrightarrow> backbone_publish log_cli example_envelope example_ready w =
      (case lw_faults w of [] \<Rightarrow> (Inr (), noted example_envelope example_ready, log_write (lit ''a'' @ [124] @ t @ [10]) w)
       | HangWritten # fs \<Rightarrow> (Inl TimeoutExpired, example_ready, log_write (lit ''a'' @ [124] @ t @ [10]) w)
       | f # fs \<Rightarrow> publish_recovered log_cli example_envelope example_ready w)"
    by (rule example_publish) (simp add: ready_publish example_ready_def new_backbone_def split: list.splits broker_fault.splits)
  let ?line = "lit ''a'' @ [124] @ t @ [10]"
  let ?w1 = "log_write ?line (example_broker [HangWritten])"
  let ?w2 = "log_write ?line ?w1"
  have agg: "ev_aggregate_ref example_envelope = lit ''a''" by (simp add: example_envelope_def)
  have "split_once 124 (lit ''a'' @ 124 # t @ [10]) = (lit ''a'', t @ [10])" by (rule split_once_text) (simp add: lit_def)
  then have "partition_envelopes (retained (log_view ?w2)) 0 = [stored_envelope example_envelope, stored_envelope example_envelope]"
    using record_of_envelope(3) [OF example_safe t, unfolded agg]
    by (simp add: log_write_def example_broker_def log_view_def retained_def partition_envelopes_def)
  then have "\<not> distinct (map dedup_key (journal_envelopes (retained (log_view ?w2))))" by (simp add: journal_envelopes_def)
  moreover have "backbone_publish log_cli example_envelope example_ready (example_broker [HangWritten]) = (Inl TimeoutExpired, example_ready, ?w1)"
    "backbone_publish log_cli example_envelope example_ready ?w1 = (Inr (), noted example_envelope example_ready, ?w2)"
    by (simp_all add: pub example_broker_def log_write_def)
  ultimately show ?thesis by blast
qed

end
