(* ===== verification/C5_Operations.thy ===== *)
theory C5_Operations
  imports C5_Backbone
begin

text \<open>
  The operations coordinator of \<^verbatim>\<open>c5/operations.py\<close> over the event backbone: a bounded number of publications
  in flight per tenant, dead letters, the poison quarantine with its operator gate, and replay.  The calls of
  several threads are interleaved at the coordinator's lock and at the calls of the backbone, which has a lock of
  its own.
\<close>

section \<open>The coordinator\<close>

definition POISON_THRESHOLD :: int where
  "POISON_THRESHOLD = 3"

record DeadLetter =
  dl_event_id :: pystr
  dl_envelope_raw :: pyval
  dl_reason_code :: string
  dl_failure_class :: string
  dl_recorded_at :: datetime
  dl_attempts :: int

record ReplayReceipt =
  rr_event_id :: pystr
  rr_window_reason :: pystr

record EventOperationsCoordinator =
  eo_backbone :: CanonicalEventBackbone
  eo_max_in_flight_per_tenant :: int
  eo_in_flight_by_tenant :: "(pystr, int) dict"
  eo_dead_letters :: "DeadLetter list"
  eo_poisoned_event_ids :: "pystr set"
  eo_operator_released_event_ids :: "pystr set"
  eo_attempts_by_event_id :: "(pystr, int) dict"

definition new_coordinator :: "CanonicalEventBackbone \<Rightarrow> int \<Rightarrow> EventOperationsCoordinator" where
  "new_coordinator b n = \<lparr>eo_backbone = b, eo_max_in_flight_per_tenant = n, eo_in_flight_by_tenant = [], eo_dead_letters = [],
     eo_poisoned_event_ids = {}, eo_operator_released_event_ids = {}, eo_attempts_by_event_id = []\<rparr>"

definition is_poisoned :: "pystr \<Rightarrow> EventOperationsCoordinator \<Rightarrow> bool" where
  "is_poisoned event_id c \<longleftrightarrow> event_id \<in> eo_poisoned_event_ids c"

definition counter :: "(pystr, int) dict \<Rightarrow> pystr \<Rightarrow> int" where
  "counter d k = (case dict_get d k of None \<Rightarrow> 0 | Some n \<Rightarrow> n)"

text \<open>The sections of \<^verbatim>\<open>publish_with_backpressure\<close> and \<^verbatim>\<open>_publish_and_record\<close> that run as a unit.\<close>

definition admit :: "pystr \<Rightarrow> EventOperationsCoordinator \<Rightarrow> unit res \<times> EventOperationsCoordinator" where
  "admit tenant c =
     (let in_flight = counter (eo_in_flight_by_tenant c) tenant in
      if eo_max_in_flight_per_tenant c \<le> in_flight then (Inl (OperationsError ''BACKPRESSURE_EXCEEDED''), c)
      else (Inr (), c\<lparr>eo_in_flight_by_tenant := dict_set tenant (in_flight + 1) (eo_in_flight_by_tenant c)\<rparr>))"

definition count_attempt :: "CanonicalIngestionEnvelope \<Rightarrow> EventOperationsCoordinator \<Rightarrow> int \<times> EventOperationsCoordinator" where
  "count_attempt e c =
     (let attempts = counter (eo_attempts_by_event_id c) (ev_event_id e) + 1 in
      (attempts, c\<lparr>eo_attempts_by_event_id := dict_set (ev_event_id e) attempts (eo_attempts_by_event_id c)\<rparr>))"

definition call_backbone ::
  "'w cli \<Rightarrow> CanonicalIngestionEnvelope \<Rightarrow> EventOperationsCoordinator \<Rightarrow> 'w \<Rightarrow> unit res \<times> EventOperationsCoordinator \<times> 'w" where
  "call_backbone run e c w =
     (case backbone_publish run e (eo_backbone c) w of (r, b', w') \<Rightarrow> (r, c\<lparr>eo_backbone := b'\<rparr>, w'))"

definition failure_class :: "int \<Rightarrow> string" where
  "failure_class attempts = (if POISON_THRESHOLD \<le> attempts then ''POISON'' else ''PERMANENT'')"

definition append_dead_letter ::
  "CanonicalIngestionEnvelope \<Rightarrow> int \<Rightarrow> string \<Rightarrow> datetime \<Rightarrow> EventOperationsCoordinator \<Rightarrow> EventOperationsCoordinator" where
  "append_dead_letter e attempts code now c =
     c\<lparr>eo_dead_letters := eo_dead_letters c @ [\<lparr>dl_event_id = ev_event_id e, dl_envelope_raw = envelope_to_mapping e,
        dl_reason_code = code, dl_failure_class = failure_class attempts, dl_recorded_at = now, dl_attempts = attempts\<rparr>]\<rparr>"

definition mark_poison :: "CanonicalIngestionEnvelope \<Rightarrow> int \<Rightarrow> EventOperationsCoordinator \<Rightarrow> EventOperationsCoordinator" where
  "mark_poison e attempts c =
     (if failure_class attempts = ''POISON''
      then c\<lparr>eo_poisoned_event_ids := insert (ev_event_id e) (eo_poisoned_event_ids c)\<rparr> else c)"

definition leave :: "pystr \<Rightarrow> EventOperationsCoordinator \<Rightarrow> unit res \<times> EventOperationsCoordinator" where
  "leave tenant c =
     (case dict_get (eo_in_flight_by_tenant c) tenant of None \<Rightarrow> (Inl (KeyError tenant), c)
      | Some n \<Rightarrow> (Inr (), c\<lparr>eo_in_flight_by_tenant := dict_set tenant (n - 1) (eo_in_flight_by_tenant c)\<rparr>))"

definition publish_and_record ::
  "'w cli \<Rightarrow> CanonicalIngestionEnvelope \<Rightarrow> datetime \<Rightarrow> EventOperationsCoordinator \<Rightarrow> 'w
     \<Rightarrow> unit res \<times> EventOperationsCoordinator \<times> 'w" where
  "publish_and_record run e now c w =
     (case count_attempt e c of (attempts, c1) \<Rightarrow>
      (case call_backbone run e c1 w of
         (Inl (BackboneError code), c2, w') \<Rightarrow>
           (Inl (BackboneError code), mark_poison e attempts (append_dead_letter e attempts code now c2), w')
       | (r, c2, w') \<Rightarrow> (r, c2, w')))"

definition publish_with_backpressure ::
  "'w cli \<Rightarrow> CanonicalIngestionEnvelope \<Rightarrow> pystr \<Rightarrow> datetime \<Rightarrow> EventOperationsCoordinator \<Rightarrow> 'w
     \<Rightarrow> unit res \<times> EventOperationsCoordinator \<times> 'w" where
  "publish_with_backpressure run e tenant now c w =
     (case admit tenant c of (Inl x, c1) \<Rightarrow> (Inl x, c1, w)
      | (Inr _, c1) \<Rightarrow>
         (case publish_and_record run e now c1 w of (r, c2, w') \<Rightarrow>
          (case leave tenant c2 of (Inl x, c3) \<Rightarrow> (Inl x, c3, w') | (Inr _, c3) \<Rightarrow> (r, c3, w'))))"

definition release_for_operator_replay :: "pystr \<Rightarrow> EventOperationsCoordinator \<Rightarrow> unit res \<times> EventOperationsCoordinator" where
  "release_for_operator_replay event_id c =
     (if event_id \<notin> eo_poisoned_event_ids c then (Inl (OperationsError ''NOT_POISONED''), c)
      else (Inr (), c\<lparr>eo_operator_released_event_ids := insert event_id (eo_operator_released_event_ids c)\<rparr>))"

definition gate_closed :: "DeadLetter \<Rightarrow> EventOperationsCoordinator \<Rightarrow> bool" where
  "gate_closed d c \<longleftrightarrow> dl_failure_class d = ''POISON'' \<and> dl_event_id d \<notin> eo_operator_released_event_ids c"

definition replay ::
  "'w cli \<Rightarrow> DeadLetter \<Rightarrow> pystr \<Rightarrow> EventOperationsCoordinator \<Rightarrow> 'w
     \<Rightarrow> ReplayReceipt res \<times> EventOperationsCoordinator \<times> 'w" where
  "replay run d window_reason c w =
     (if gate_closed d c then (Inl (OperationsError ''OPERATOR_GATE_CLOSED''), c, w)
      else case envelope_from_mapping (dl_envelope_raw d) of Inl x \<Rightarrow> (Inl x, c, w)
      | Inr e \<Rightarrow>
         (case call_backbone run e c w of
            (Inl x, c', w') \<Rightarrow> (Inl x, c', w')
          | (Inr _, c', w') \<Rightarrow> (Inr \<lparr>rr_event_id = dl_event_id d, rr_window_reason = window_reason\<rparr>, c', w')))"

section \<open>Threads\<close>

text \<open>
  Where a thread stands in a call of \<^verbatim>\<open>publish_with_backpressure\<close>: admitted, its attempt counted, the backbone refused,
  the dead letter appended, and in the \<^verbatim>\<open>finally\<close> block.
\<close>

datatype publisher =
    Idle
  | Admitted CanonicalIngestionEnvelope pystr
  | Counted CanonicalIngestionEnvelope pystr int
  | Refused CanonicalIngestionEnvelope pystr int string
  | Recorded CanonicalIngestionEnvelope pystr int string
  | Leaving pystr "unit res"

definition after_call :: "CanonicalIngestionEnvelope \<Rightarrow> pystr \<Rightarrow> int \<Rightarrow> unit res \<Rightarrow> publisher" where
  "after_call e t n r = (case r of Inl (BackboneError code) \<Rightarrow> Refused e t n code | _ \<Rightarrow> Leaving t r)"

text \<open>
  One atomic section of one thread, with any envelope and any result of the backbone, a replay or a release by an
  operator, or whatever other users of the backbone and the broker do to them.
\<close>

inductive operations_step ::
  "'w cli \<Rightarrow> EventOperationsCoordinator \<times> publisher list \<times> 'w \<Rightarrow> EventOperationsCoordinator \<times> publisher list \<times> 'w \<Rightarrow> bool"
  for run where
  spawned: "operations_step run (c, ts, w) (c, ts @ [Idle], w)"
| admitted: "admit t c = (Inr (), c') \<Longrightarrow>
    operations_step run (c, us @ Idle # vs, w) (c', us @ Admitted e t # vs, w)"
| counted: "count_attempt e c = (n, c') \<Longrightarrow>
    operations_step run (c, us @ Admitted e t # vs, w) (c', us @ Counted e t n # vs, w)"
| called: "call_backbone run e c w = (r, c', w') \<Longrightarrow>
    operations_step run (c, us @ Counted e t n # vs, w) (c', us @ after_call e t n r # vs, w')"
| recorded: "operations_step run (c, us @ Refused e t n code # vs, w)
    (append_dead_letter e n code now c, us @ Recorded e t n code # vs, w)"
| marked: "operations_step run (c, us @ Recorded e t n code # vs, w)
    (mark_poison e n c, us @ Leaving t (Inl (BackboneError code)) # vs, w)"
| left: "leave t c = (x, c') \<Longrightarrow> operations_step run (c, us @ Leaving t r # vs, w) (c', us @ Idle # vs, w)"
| released: "release_for_operator_replay event_id c = (x, c') \<Longrightarrow> operations_step run (c, ts, w) (c', ts, w)"
| replayed: "replay run d reason c w = (x, c', w') \<Longrightarrow> operations_step run (c, ts, w) (c', ts, w')"
| shared: "operations_step run (c, ts, w) (c\<lparr>eo_backbone := b'\<rparr>, ts, w')"

inductive_cases operations_stepE: "operations_step run s t"

definition operations_init :: "EventOperationsCoordinator \<times> publisher list \<times> 'w \<Rightarrow> bool" where
  "operations_init s \<longleftrightarrow> (case s of (c, ts, w) \<Rightarrow> (\<exists>b n. c = new_coordinator b n \<and> 0 \<le> n \<and> ts = []))"

text \<open>A call of one thread that no other thread interrupts is a run of these steps.\<close>

lemma call_is_run:
  assumes "publish_with_backpressure run e t now c w = (r, c', w')"
  shows "(operations_step run)\<^sup>*\<^sup>* (c, us @ Idle # vs, w) (c', us @ Idle # vs, w')"
proof (cases "admit t c")
  case (Pair x c1)
  show ?thesis
  proof (cases x)
    case (Inl y)
    with Pair assms show ?thesis by (auto simp: publish_with_backpressure_def admit_def Let_def split: if_splits)
  next
    case (Inr u)
    then have adm: "admit t c = (Inr (), c1)" using Pair by simp
    obtain n c2 where cnt: "count_attempt e c1 = (n, c2)" by force
    obtain r1 c3 w1 where call: "call_backbone run e c2 w = (r1, c3, w1)" by (rule prod_cases3)
    define c4 where "c4 = (case r1 of Inl (BackboneError code) \<Rightarrow> mark_poison e n (append_dead_letter e n code now c3) | _ \<Rightarrow> c3)"
    obtain y c5 where lv: "leave t c4 = (y, c5)" by force
    have pr: "publish_and_record run e now c1 w = (r1, c4, w1)"
      using cnt call by (simp add: publish_and_record_def c4_def split: sum.splits exn.splits)
    have fin: "c' = c5" "w' = w1" "(\<exists>k. y = Inl (KeyError k) \<and> r = y) \<or> r = r1"
      using assms adm pr lv by (auto simp: publish_with_backpressure_def leave_def split: sum.splits option.splits if_splits)
    have slot: "dict_get (eo_in_flight_by_tenant c4) t \<noteq> None"
      using adm cnt call
      by (auto simp: c4_def admit_def count_attempt_def call_backbone_def mark_poison_def append_dead_letter_def Let_def
          split: if_splits prod.splits sum.splits exn.splits)
    with lv have "y = Inr ()" by (auto simp: leave_def)
    with fin(3) have r: "r = r1" by auto
    let ?R = "(operations_step run)\<^sup>*\<^sup>*"
    have "?R (c, us @ Idle # vs, w) (c1, us @ Admitted e t # vs, w)"
      by (intro r_into_rtranclp operations_step.admitted [OF adm])
    also have "?R (c1, us @ Admitted e t # vs, w) (c2, us @ Counted e t n # vs, w)"
      by (intro r_into_rtranclp operations_step.counted [OF cnt])
    also have "?R (c2, us @ Counted e t n # vs, w) (c3, us @ after_call e t n r1 # vs, w1)"
      by (intro r_into_rtranclp operations_step.called [OF call])
    also have "?R (c3, us @ after_call e t n r1 # vs, w1) (c4, us @ Leaving t r1 # vs, w1)"
    proof (cases "\<exists>code. r1 = Inl (BackboneError code)")
      case True
      then obtain code where code: "r1 = Inl (BackboneError code)" by blast
      have "?R (c3, us @ Refused e t n code # vs, w1) (append_dead_letter e n code now c3, us @ Recorded e t n code # vs, w1)"
        by (intro r_into_rtranclp operations_step.recorded)
      also have "?R \<dots> (mark_poison e n (append_dead_letter e n code now c3), us @ Leaving t (Inl (BackboneError code)) # vs, w1)"
        by (intro r_into_rtranclp operations_step.marked)
      finally show ?thesis by (simp add: code after_call_def c4_def)
    next
      case False
      then have "after_call e t n r1 = Leaving t r1" "c4 = c3"
        by (auto simp: after_call_def c4_def split: sum.splits exn.splits)
      then show ?thesis by simp
    qed
    also have "?R (c4, us @ Leaving t r1 # vs, w1) (c', us @ Idle # vs, w')"
      unfolding fin(1,2) by (intro r_into_rtranclp operations_step.left [OF lv])
    finally show ?thesis .
  qed
qed

section \<open>The quota\<close>

fun slot :: "publisher \<Rightarrow> pystr option" where
  "slot Idle = None"
| "slot (Admitted e t) = Some t"
| "slot (Counted e t n) = Some t"
| "slot (Refused e t n code) = Some t"
| "slot (Recorded e t n code) = Some t"
| "slot (Leaving t r) = Some t"

definition in_flight :: "publisher list \<Rightarrow> pystr \<Rightarrow> int" where
  "in_flight ts t = int (length (filter (\<lambda>p. slot p = Some t) ts))"

lemma in_flight_simps [simp]:
  "in_flight [] t = 0" "in_flight (p # ts) t = in_flight ts t + (if slot p = Some t then 1 else 0)"
  "in_flight (us @ vs) t = in_flight us t + in_flight vs t"
  by (simp_all add: in_flight_def)

lemma slot_after_call [simp]: "slot (after_call e t n r) = Some t"
  by (simp add: after_call_def split: sum.splits exn.splits)

lemma in_flight_nonneg: "0 \<le> in_flight ts t"
  by (simp add: in_flight_def)

definition quota_inv :: "EventOperationsCoordinator \<times> publisher list \<times> 'w \<Rightarrow> bool" where
  "quota_inv s \<longleftrightarrow> (case s of (c, ts, w) \<Rightarrow> 0 \<le> eo_max_in_flight_per_tenant c
     \<and> (\<forall>t. counter (eo_in_flight_by_tenant c) t = in_flight ts t \<and> in_flight ts t \<le> eo_max_in_flight_per_tenant c))"

text \<open>The fields a step leaves alone.\<close>

lemma coordinator_frames:
  "count_attempt e c = (n, c') \<Longrightarrow> eo_in_flight_by_tenant c' = eo_in_flight_by_tenant c \<and> eo_max_in_flight_per_tenant c' = eo_max_in_flight_per_tenant c"
  "call_backbone run e c w = (r, c', w') \<Longrightarrow> \<exists>b. c' = c\<lparr>eo_backbone := b\<rparr>"
  "replay run d reason c w = (y, c', w') \<Longrightarrow> \<exists>b. c' = c\<lparr>eo_backbone := b\<rparr>"
  "release_for_operator_replay i c = (x, c') \<Longrightarrow> eo_in_flight_by_tenant c' = eo_in_flight_by_tenant c \<and> eo_max_in_flight_per_tenant c' = eo_max_in_flight_per_tenant c"
proof -
  show call: "\<exists>b. c' = c\<lparr>eo_backbone := b\<rparr>" if "call_backbone run e c w = (r, c', w')" for e c w r c' w'
    using that by (auto simp: call_backbone_def split: prod.splits)
  have self: "\<exists>b. c = c\<lparr>eo_backbone := b\<rparr>" by (rule exI [of _ "eo_backbone c"]) simp
  show "\<exists>b. c' = c\<lparr>eo_backbone := b\<rparr>" if "replay run d reason c w = (y, c', w')"
  proof (cases "\<exists>e. \<not> gate_closed d c \<and> envelope_from_mapping (dl_envelope_raw d) = Inr e")
    case True
    then obtain e where e: "\<not> gate_closed d c" "envelope_from_mapping (dl_envelope_raw d) = Inr e" by blast
    obtain r c2 w2 where k: "call_backbone run e c w = (r, c2, w2)" by (rule prod_cases3)
    with that e have "c' = c2" by (simp add: replay_def split: sum.splits)
    with call [OF k] show ?thesis by simp
  next
    case False
    with that have "c' = c" by (auto simp: replay_def split: if_splits sum.splits)
    with self show ?thesis by simp
  qed
qed (auto simp: count_attempt_def release_for_operator_replay_def Let_def split: if_splits)

lemma quota_inv_cong:
  "eo_in_flight_by_tenant c' = eo_in_flight_by_tenant c \<Longrightarrow> eo_max_in_flight_per_tenant c' = eo_max_in_flight_per_tenant c \<Longrightarrow>
   (\<And>t. in_flight ts' t = in_flight ts t) \<Longrightarrow> quota_inv (c', ts', w') = quota_inv (c, ts, w)"
  by (simp add: quota_inv_def)

lemma quota_step: "operations_step run s t \<Longrightarrow> quota_inv s \<Longrightarrow> quota_inv t"
proof (induction rule: operations_step.induct)
  case (admitted t c c' us vs w e)
  then show ?case by (auto simp: quota_inv_def admit_def Let_def counter_def split: if_splits)
next
  case (counted e c n c' us t vs w)
  show ?case by (rule quota_inv_cong [THEN iffD2, OF _ _ _ counted.prems]) (use coordinator_frames(1) [OF counted.hyps] in simp_all)
next
  case (called e c w r c' w' us t n vs)
  from coordinator_frames(2) [OF called.hyps] obtain b where "c' = c\<lparr>eo_backbone := b\<rparr>" by blast
  then show ?case by (intro quota_inv_cong [THEN iffD2, OF _ _ _ called.prems]) simp_all
next
  case (left t c x c' us r vs w)
  have "counter (eo_in_flight_by_tenant c) t = in_flight us t + in_flight vs t + 1" using left.prems by (simp add: quota_inv_def)
  then obtain n where n: "dict_get (eo_in_flight_by_tenant c) t = Some n"
    using in_flight_nonneg [of us t] in_flight_nonneg [of vs t] by (auto simp: counter_def split: option.splits)
  with left.hyps have c': "c' = c\<lparr>eo_in_flight_by_tenant := dict_set t (n - 1) (eo_in_flight_by_tenant c)\<rparr>" by (simp add: leave_def)
  have "counter (eo_in_flight_by_tenant c') u = in_flight (us @ Idle # vs) u \<and> in_flight (us @ Idle # vs) u \<le> eo_max_in_flight_per_tenant c'" for u
    using left.prems n by (auto simp: quota_inv_def c' counter_def dest!: spec [of _ u])
  with left.prems show ?case by (simp add: quota_inv_def c')
next
  case (released event_id c x c' ts w)
  show ?case by (rule quota_inv_cong [THEN iffD2, OF _ _ _ released.prems]) (use coordinator_frames(4) [OF released.hyps] in simp_all)
next
  case (replayed d reason c w x c' w' ts)
  from coordinator_frames(3) [OF replayed.hyps] obtain b where "c' = c\<lparr>eo_backbone := b\<rparr>" by blast
  then show ?case by (intro quota_inv_cong [THEN iffD2, OF _ _ _ replayed.prems]) simp_all
qed (simp_all add: quota_inv_def append_dead_letter_def mark_poison_def)

section \<open>Dead letters and the poison quarantine\<close>

text \<open>
  An attempt of an event is its number under the lock.  The attempts that have ended in a dead letter or may
  still do so are distinct and at most the event's counter.
\<close>

definition letter_attempt :: "DeadLetter \<Rightarrow> pystr \<times> int" where
  "letter_attempt d = (dl_event_id d, dl_attempts d)"

fun open_attempt :: "publisher \<Rightarrow> (pystr \<times> int) list" where
  "open_attempt (Counted e t n) = [(ev_event_id e, n)]"
| "open_attempt (Refused e t n code) = [(ev_event_id e, n)]"
| "open_attempt _ = []"

definition known_attempts :: "EventOperationsCoordinator \<Rightarrow> publisher list \<Rightarrow> (pystr \<times> int) list" where
  "known_attempts c ts = map letter_attempt (eo_dead_letters c) @ concat (map open_attempt ts)"

definition poison_ids :: "EventOperationsCoordinator \<Rightarrow> pystr set" where
  "poison_ids c = dl_event_id ` set (filter (\<lambda>d. POISON_THRESHOLD \<le> dl_attempts d) (eo_dead_letters c))"

text \<open>A thread between the dead letter and the mark.\<close>

fun unmarked :: "publisher \<Rightarrow> pystr set" where
  "unmarked (Recorded e t n code) = (if POISON_THRESHOLD \<le> n then {ev_event_id e} else {})"
| "unmarked _ = {}"

abbreviation all_unmarked :: "publisher list \<Rightarrow> pystr set" where
  "all_unmarked ts \<equiv> \<Union> (unmarked ` set ts)"

definition letters_inv :: "EventOperationsCoordinator \<times> publisher list \<times> 'w \<Rightarrow> bool" where
  "letters_inv s \<longleftrightarrow> (case s of (c, ts, w) \<Rightarrow>
     distinct (known_attempts c ts)
     \<and> (\<forall>x. 0 \<le> counter (eo_attempts_by_event_id c) x)
     \<and> (\<forall>(x, n) \<in> set (known_attempts c ts). 1 \<le> n \<and> n \<le> counter (eo_attempts_by_event_id c) x)
     \<and> (\<forall>d \<in> set (eo_dead_letters c). dl_failure_class d = failure_class (dl_attempts d))
     \<and> eo_poisoned_event_ids c \<union> all_unmarked ts = poison_ids c
     \<and> eo_operator_released_event_ids c \<subseteq> eo_poisoned_event_ids c)"

lemma letters_inv_keep:
  assumes "eo_dead_letters c' = eo_dead_letters c" "eo_poisoned_event_ids c' = eo_poisoned_event_ids c"
    "eo_operator_released_event_ids c' \<subseteq> eo_operator_released_event_ids c \<union> eo_poisoned_event_ids c"
    "eo_attempts_by_event_id c' = eo_attempts_by_event_id c"
    "subseq (concat (map open_attempt ts')) (concat (map open_attempt ts))" "all_unmarked ts' = all_unmarked ts"
    and inv: "letters_inv (c, ts, w)"
  shows "letters_inv (c', ts', w')"
proof -
  have "subseq (known_attempts c' ts') (known_attempts c ts)"
    using assms(5) unfolding known_attempts_def assms(1) by (intro list_emb_append_mono) simp_all
  then have sub: "set (known_attempts c' ts') \<subseteq> set (known_attempts c ts)"
    "distinct (known_attempts c ts) \<Longrightarrow> distinct (known_attempts c' ts')"
    by (auto simp: subseq_conv_nths dest: in_set_nthsD)
  have ids: "poison_ids c' = poison_ids c" by (simp add: poison_ids_def assms(1))
  have rel: "eo_operator_released_event_ids c' \<subseteq> eo_poisoned_event_ids c" using assms(3) inv by (auto simp: letters_inv_def)
  show ?thesis
    unfolding letters_inv_def prod.case ids assms(1,2,4,6)
  proof (intro conjI)
    show "\<forall>(x, n) \<in> set (known_attempts c' ts'). 1 \<le> n \<and> n \<le> counter (eo_attempts_by_event_id c) x"
    proof (rule ballI)
      fix a assume "a \<in> set (known_attempts c' ts')"
      then have "a \<in> set (known_attempts c ts)" using sub(1) by (rule rev_subsetD)
      with inv show "case a of (x, n) \<Rightarrow> 1 \<le> n \<and> n \<le> counter (eo_attempts_by_event_id c) x"
        unfolding letters_inv_def prod.case by simp
    qed
  qed (use inv sub(2) rel in \<open>simp_all add: letters_inv_def\<close>)
qed

lemma after_call_unmarked: "unmarked (after_call e t n r) = {}"
  by (auto simp: after_call_def split: sum.splits exn.splits)

lemma letters_counted:
  assumes "count_attempt e c = (n, c')" "letters_inv (c, us @ Admitted e t # vs, w)"
  shows "letters_inv (c', us @ Counted e t n # vs, w)"
proof -
  let ?x = "ev_event_id e"
  let ?old = "known_attempts c (us @ Admitted e t # vs)"
  have n: "n = counter (eo_attempts_by_event_id c) ?x + 1"
    and c': "c' = c\<lparr>eo_attempts_by_event_id := dict_set ?x n (eo_attempts_by_event_id c)\<rparr>"
    using assms(1) by (auto simp: count_attempt_def Let_def)
  have new: "set (known_attempts c' (us @ Counted e t n # vs)) = insert (?x, n) (set ?old)"
    by (auto simp: known_attempts_def c')
  have old: "distinct ?old" "\<And>x m. (x, m) \<in> set ?old \<Longrightarrow> 1 \<le> m \<and> m \<le> counter (eo_attempts_by_event_id c) x"
    using assms(2) by (auto simp: letters_inv_def)
  then have fresh: "(?x, n) \<notin> set ?old" using n by fastforce
  then have dist: "distinct (known_attempts c' (us @ Counted e t n # vs))"
    using old(1) by (auto simp: known_attempts_def c')
  have cnt: "counter (eo_attempts_by_event_id c') x = (if x = ?x then n else counter (eo_attempts_by_event_id c) x)" for x
    by (simp add: c' counter_def)
  have "1 \<le> m \<and> m \<le> counter (eo_attempts_by_event_id c') x" if "(x, m) \<in> insert (?x, n) (set ?old)" for x m
    using that old(2) [of x m] n cnt assms(2) by (fastforce simp: letters_inv_def)
  then have b: "\<forall>(x, m) \<in> set (known_attempts c' (us @ Counted e t n # vs)). 1 \<le> m \<and> m \<le> counter (eo_attempts_by_event_id c') x"
    unfolding new by blast
  have z: "\<forall>x. 0 \<le> counter (eo_attempts_by_event_id c') x" using assms(2) n by (simp add: letters_inv_def cnt)
  show ?thesis
    using assms(2) dist b z unfolding letters_inv_def prod.case by (simp add: c' poison_ids_def)
qed

lemma letters_called:
  assumes "c' = c\<lparr>eo_backbone := b\<rparr>" "letters_inv (c, us @ Counted e t n # vs, w)"
  shows "letters_inv (c', us @ after_call e t n r # vs, w')"
proof (cases "\<exists>code. r = Inl (BackboneError code)")
  case True
  then show ?thesis
    by (intro letters_inv_keep [OF _ _ _ _ _ _ assms(2)]) (auto simp: assms(1) after_call_def)
next
  case False
  then have "open_attempt (after_call e t n r) = []" by (auto simp: after_call_def split: sum.splits exn.splits)
  then have "subseq (concat (map open_attempt (us @ after_call e t n r # vs))) (concat (map open_attempt (us @ Counted e t n # vs)))"
    by (simp add: list_emb_Cons list_emb_append_mono)
  then show ?thesis
    by (intro letters_inv_keep [OF _ _ _ _ _ _ assms(2)]) (simp_all add: assms(1) after_call_unmarked)
qed

lemma letters_recorded:
  assumes "letters_inv (c, us @ Refused e t n code # vs, w)"
  shows "letters_inv (append_dead_letter e n code now c, us @ Recorded e t n code # vs, w)"
proof -
  let ?c = "append_dead_letter e n code now c"
  have same: "set (known_attempts ?c (us @ Recorded e t n code # vs)) = set (known_attempts c (us @ Refused e t n code # vs))"
    and dist: "distinct (known_attempts c (us @ Refused e t n code # vs)) \<Longrightarrow> distinct (known_attempts ?c (us @ Recorded e t n code # vs))"
    by (auto simp: known_attempts_def append_dead_letter_def letter_attempt_def)
  have ids: "poison_ids ?c = poison_ids c \<union> (if POISON_THRESHOLD \<le> n then {ev_event_id e} else {})"
    by (auto simp: poison_ids_def append_dead_letter_def)
  have rest: "eo_attempts_by_event_id ?c = eo_attempts_by_event_id c" "eo_poisoned_event_ids ?c = eo_poisoned_event_ids c"
    "eo_operator_released_event_ids ?c = eo_operator_released_event_ids c"
    "\<And>d. d \<in> set (eo_dead_letters ?c) \<Longrightarrow> d \<in> set (eo_dead_letters c) \<or> dl_failure_class d = failure_class (dl_attempts d)"
    by (auto simp: append_dead_letter_def)
  show ?thesis
    using assms dist rest(4) unfolding letters_inv_def prod.case same ids rest(1-3) by auto
qed

lemma letters_marked:
  assumes "letters_inv (c, us @ Recorded e t n code # vs, w)"
  shows "letters_inv (mark_poison e n c, us @ Leaving t r # vs, w)"
proof -
  have ids: "eo_poisoned_event_ids (mark_poison e n c) = eo_poisoned_event_ids c \<union> (if POISON_THRESHOLD \<le> n then {ev_event_id e} else {})"
    by (simp add: mark_poison_def failure_class_def)
  have rest: "eo_attempts_by_event_id (mark_poison e n c) = eo_attempts_by_event_id c" "eo_dead_letters (mark_poison e n c) = eo_dead_letters c"
    "eo_operator_released_event_ids (mark_poison e n c) = eo_operator_released_event_ids c"
    by (simp_all add: mark_poison_def)
  have "known_attempts (mark_poison e n c) (us @ Leaving t r # vs) = known_attempts c (us @ Recorded e t n code # vs)"
    "poison_ids (mark_poison e n c) = poison_ids c"
    by (simp_all add: known_attempts_def poison_ids_def rest)
  with assms show ?thesis unfolding letters_inv_def prod.case ids rest by auto
qed

lemma letters_step: "operations_step run s t \<Longrightarrow> letters_inv s \<Longrightarrow> letters_inv t"
proof (induction rule: operations_step.induct)
  case (spawned c ts w)
  show ?case by (rule letters_inv_keep [OF _ _ _ _ _ _ spawned]) simp_all
next
  case (admitted t c c' us vs w e)
  then have "c' = c\<lparr>eo_in_flight_by_tenant := eo_in_flight_by_tenant c'\<rparr>" by (auto simp: admit_def Let_def split: if_splits)
  then obtain d where "c' = c\<lparr>eo_in_flight_by_tenant := d\<rparr>" by blast
  then show ?case by (intro letters_inv_keep [OF _ _ _ _ _ _ admitted.prems]) simp_all
next
  case (counted e c n c' us t vs w)
  then show ?case by (rule letters_counted)
next
  case (called e c w r c' w' us t n vs)
  from coordinator_frames(2) [OF called.hyps] obtain b where "c' = c\<lparr>eo_backbone := b\<rparr>" by blast
  then show ?case using called.prems by (rule letters_called)
next
  case (recorded c us e t n code vs w now)
  then show ?case by (rule letters_recorded)
next
  case (marked c us e t n code vs w)
  then show ?case by (rule letters_marked)
next
  case (left t c x c' us r vs w)
  then have "c' = c \<or> c' = c\<lparr>eo_in_flight_by_tenant := eo_in_flight_by_tenant c'\<rparr>" by (auto simp: leave_def split: option.splits)
  then obtain d where "c' = c\<lparr>eo_in_flight_by_tenant := d\<rparr>" by (metis EventOperationsCoordinator.surjective EventOperationsCoordinator.update_convs(3))
  then show ?case by (intro letters_inv_keep [OF _ _ _ _ _ _ left.prems]) simp_all
next
  case (released event_id c x c' ts w)
  then have "c' = c \<or> event_id \<in> eo_poisoned_event_ids c
      \<and> c' = c\<lparr>eo_operator_released_event_ids := insert event_id (eo_operator_released_event_ids c)\<rparr>"
    by (auto simp: release_for_operator_replay_def split: if_splits)
  then show ?case by (intro letters_inv_keep [OF _ _ _ _ _ _ released.prems]) auto
next
  case (replayed d reason c w x c' w' ts)
  from coordinator_frames(3) [OF replayed.hyps] obtain b where "c' = c\<lparr>eo_backbone := b\<rparr>" by blast
  then show ?case by (intro letters_inv_keep [OF _ _ _ _ _ _ replayed.prems]) simp_all
next
  case (shared c ts w b' w')
  show ?case by (rule letters_inv_keep [OF _ _ _ _ _ _ shared.prems]) simp_all
qed

definition operations_inv :: "EventOperationsCoordinator \<times> publisher list \<times> 'w \<Rightarrow> bool" where
  "operations_inv s \<longleftrightarrow> quota_inv s \<and> letters_inv s"

interpretation operations_sys: invariant_system operations_init "operations_step run" operations_inv for run
proof
  show "operations_inv s" if "operations_init s" for s
    using that by (auto simp: operations_init_def operations_inv_def new_coordinator_def quota_inv_def letters_inv_def counter_def
        known_attempts_def poison_ids_def)
  show "operations_inv t" if "operations_inv s" "operations_step run s t" for s t
    using that by (auto simp: operations_inv_def intro: quota_step letters_step)
qed

section \<open>Properties\<close>

text \<open>
  C19 [in_flight_bounded]: under every interleaving of threads, operators and other users of the backbone, whatever the broker does
  and with a quota that is not negative, the count the coordinator keeps for a tenant is the number of its publications in flight, and is
  between zero and the quota.
\<close>

theorem in_flight_bounded:
  assumes "operations_init s" "(operations_step run)\<^sup>*\<^sup>* s (c, ts, w)"
  shows "counter (eo_in_flight_by_tenant c) tenant = int (length (filter (\<lambda>p. slot p = Some tenant) ts))
    \<and> 0 \<le> counter (eo_in_flight_by_tenant c) tenant
    \<and> counter (eo_in_flight_by_tenant c) tenant \<le> eo_max_in_flight_per_tenant c"
  using operations_sys.reachable_invar [OF assms] by (simp add: operations_inv_def quota_inv_def in_flight_def)

lemma few_permanent_letters:
  assumes "letters_inv (c, ts, w)"
  shows "length (filter (\<lambda>d. dl_event_id d = x \<and> dl_failure_class d = ''PERMANENT'') (eo_dead_letters c)) \<le> 2"
proof -
  let ?ds = "filter (\<lambda>d. dl_event_id d = x \<and> dl_failure_class d = ''PERMANENT'') (eo_dead_letters c)"
  have "distinct (map letter_attempt (eo_dead_letters c))" using assms by (simp add: letters_inv_def known_attempts_def)
  then have la: "distinct (map letter_attempt ?ds)" by (rule distinct_map_filter)
  have "map letter_attempt ?ds = map (Pair x) (map dl_attempts ?ds)" by (simp add: letter_attempt_def)
  with la have d: "distinct (map dl_attempts ?ds)" by (simp only: distinct_map [of "Pair x"])
  have "dl_attempts a \<in> {1, 2}" if "a \<in> set ?ds" for a
  proof -
    have a: "a \<in> set (eo_dead_letters c)" using that by simp
    then have "letter_attempt a \<in> set (known_attempts c ts)" by (simp add: known_attempts_def)
    then have "1 \<le> dl_attempts a" using assms by (auto simp: letters_inv_def letter_attempt_def dest!: bspec)
    moreover have "dl_failure_class a = failure_class (dl_attempts a)" using assms a by (simp add: letters_inv_def)
    ultimately show ?thesis using that by (auto simp: failure_class_def POISON_THRESHOLD_def split: if_splits)
  qed
  then have "set (map dl_attempts ?ds) \<subseteq> {1, 2}" by auto
  then have "card (set (map dl_attempts ?ds)) \<le> card {1, 2 :: int}" by (intro card_mono) simp_all
  then show ?thesis using distinct_card [OF d] by simp
qed

lemma third_letter_is_poison:
  assumes inv: "letters_inv (c, ts, w)" and three: "3 \<le> length (filter (\<lambda>d. dl_event_id d = x) (eo_dead_letters c))"
  shows "x \<in> poison_ids c"
proof (rule ccontr)
  assume no: "x \<notin> poison_ids c"
  have "dl_failure_class d = ''PERMANENT''" if "d \<in> set (eo_dead_letters c)" "dl_event_id d = x" for d
    using that no inv by (auto simp: letters_inv_def poison_ids_def failure_class_def)
  then have "filter (\<lambda>d. dl_event_id d = x \<and> dl_failure_class d = ''PERMANENT'') (eo_dead_letters c) = filter (\<lambda>d. dl_event_id d = x) (eo_dead_letters c)"
    by (intro filter_cong) auto
  with few_permanent_letters [OF inv, of x] three show False by simp
qed

text \<open>
  C20 [poison_quarantine_sound]: an event has at most two dead letters that are not poison, so the third one puts it in
  the quarantine before the call that failed returns; what is in the quarantine has a poison dead letter; only what is
  in the quarantine is ever released; and the poison dead letters of an event that is not released are not replayed.
  This holds under every interleaving, for any envelopes and whatever the broker does.
\<close>

theorem poison_quarantine_sound:
  assumes "operations_init s" "(operations_step run)\<^sup>*\<^sup>* s (c, ts, w)"
  shows "length (filter (\<lambda>d. dl_event_id d = x \<and> dl_failure_class d = ''PERMANENT'') (eo_dead_letters c)) \<le> 2
    \<and> (3 \<le> length (filter (\<lambda>d. dl_event_id d = x) (eo_dead_letters c)) \<longrightarrow> is_poisoned x c \<or> (\<exists>p \<in> set ts. x \<in> unmarked p))
    \<and> (is_poisoned x c \<longrightarrow> (\<exists>d \<in> set (eo_dead_letters c). dl_event_id d = x \<and> dl_failure_class d = ''POISON'' \<and> 3 \<le> dl_attempts d))
    \<and> (x \<in> eo_operator_released_event_ids c \<longrightarrow> is_poisoned x c)
    \<and> (\<forall>d reason. dl_event_id d = x \<and> dl_failure_class d = ''POISON'' \<and> x \<notin> eo_operator_released_event_ids c \<longrightarrow>
         replay run d reason c w = (Inl (OperationsError ''OPERATOR_GATE_CLOSED''), c, w))"
proof -
  have inv: "letters_inv (c, ts, w)" using operations_sys.reachable_invar [OF assms] by (simp add: operations_inv_def)
  then have ids: "eo_poisoned_event_ids c \<union> all_unmarked ts = poison_ids c"
    and rel: "eo_operator_released_event_ids c \<subseteq> eo_poisoned_event_ids c"
    and cls: "\<And>d. d \<in> set (eo_dead_letters c) \<Longrightarrow> dl_failure_class d = failure_class (dl_attempts d)"
    by (auto simp: letters_inv_def)
  have 1: "is_poisoned x c \<or> (\<exists>p \<in> set ts. x \<in> unmarked p)" if "3 \<le> length (filter (\<lambda>d. dl_event_id d = x) (eo_dead_letters c))"
    using third_letter_is_poison [OF inv that] unfolding ids [symmetric] by (auto simp: is_poisoned_def)
  have 2: "\<exists>d \<in> set (eo_dead_letters c). dl_event_id d = x \<and> dl_failure_class d = ''POISON'' \<and> 3 \<le> dl_attempts d" if "is_poisoned x c"
  proof -
    from that have "x \<in> poison_ids c" unfolding ids [symmetric] by (simp add: is_poisoned_def)
    then show ?thesis using cls by (auto simp: poison_ids_def failure_class_def POISON_THRESHOLD_def)
  qed
  have 3: "is_poisoned x c" if "x \<in> eo_operator_released_event_ids c" using that rel by (auto simp: is_poisoned_def)
  show ?thesis using few_permanent_letters [OF inv] 1 2 3 by (auto simp: replay_def gate_closed_def)
qed

text \<open>
  C26 [replay_revalidates]: a replay never writes past the checks of a fresh publication.  On a backbone with any history, when a
  replay of a dead letter puts a record on the topic, the operator gate is open for the letter, the letter's envelope has a
  registered schema and a governed context, and at that moment the topic holds neither its idempotency key nor a record
  of its aggregate with the same or a later sequence; the record is that envelope.  The letter's envelope is one that can be
  written as a line and read back, and the history is one of those of the backbone.
\<close>

theorem replay_revalidates:
  assumes "backbone_init run topic view partition_of s" "(backbone_step run view)\<^sup>*\<^sup>* s (eo_backbone c, w)"
    and "envelope_from_mapping (dl_envelope_raw d) = Inr e" "wire_safe e"
    and "replay run d reason c w = (x, c', w')" "\<not> ages (view w) (view w')"
  shows "(dl_failure_class d = ''POISON'' \<longrightarrow> dl_event_id d \<in> eo_operator_released_event_ids c)
    \<and> ev_schema_ref e \<in> REGISTERED_SCHEMAS \<and> ev_governed_context_digest e \<noteq> []
    \<and> (\<exists>l. ages (view w) l \<and> written_as partition_of e l (view w')
        \<and> (\<forall>a \<in> set (journal_envelopes (retained l)). dedup_key a \<noteq> dedup_key e
             \<and> (order_key a = order_key e \<longrightarrow> ev_sequence a < ev_sequence e)))"
proof -
  have inv: "kafka_ok run topic view partition_of" "backbone_inv topic (retained (view w)) (eo_backbone c)"
    using backbone_sys.reachable_invar [OF assms(1,2)] by (simp_all add: backbone_state_inv_def)
  obtain r b w2 where pub: "backbone_publish run e (eo_backbone c) w = (r, b, w2)" by (rule prod_cases3)
  have gate: "\<not> gate_closed d c" using assms(5,6) by (auto simp: replay_def)
  then have w2: "w2 = w'" using assms(3,5) pub by (auto simp: replay_def call_backbone_def split: sum.splits)
  note k = publish_contract_holds [OF inv(1) assms(4) inv(2) pub]
  then have "admissible e" "\<exists>l. ages (view w) l \<and> accepts (retained l) e \<and> written_as partition_of e l (view w')"
    using assms(6) by (auto simp: publish_contract_def w2)
  with gate show ?thesis unfolding gate_closed_def admissible_def accepts_def by blast
qed

section \<open>An event that is refused three times\<close>

definition bad_envelope :: CanonicalIngestionEnvelope where
  "bad_envelope = example_envelope\<lparr>ev_schema_ref := lit ''x''\<rparr>"

definition example_instant :: datetime where
  "example_instant = \<lparr>dt_wall = 0, dt_tz = Offset 0\<rparr>"

definition example_coordinator :: EventOperationsCoordinator where
  "example_coordinator = new_coordinator (new_backbone example_topic) 50"

definition bad_call :: "EventOperationsCoordinator \<Rightarrow> EventOperationsCoordinator" where
  "bad_call c = fst (snd (publish_with_backpressure log_cli bad_envelope (lit ''t'') example_instant c (example_broker [])))"

definition poisoned_coordinator :: EventOperationsCoordinator where
  "poisoned_coordinator = bad_call (bad_call (bad_call example_coordinator))"

abbreviation example_ops :: "EventOperationsCoordinator \<times> publisher list \<times> log_world" where
  "example_ops \<equiv> (example_coordinator, [], example_broker [])"

lemma bad_safe: "wire_safe bad_envelope"
  using example_safe by (simp add: wire_safe_def bad_envelope_def envelope_strings_def text_ok_scalar)

lemma bad_publish: "backbone_publish run bad_envelope b w =
    (Inl (BackboneError ''UNKNOWN_SCHEMA''), quarantined ''UNKNOWN_SCHEMA'' (envelope_to_mapping bad_envelope) b, w)"
  by (simp add: backbone_publish_def bad_envelope_def REGISTERED_SCHEMAS_def)

lemma example_ops_init: "operations_init example_ops"
  unfolding operations_init_def example_coordinator_def prod.case by (intro exI conjI, rule refl, simp, rule refl)

lemma bad_call_run:
  "(operations_step log_cli)\<^sup>*\<^sup>* (c, [Idle], example_broker []) (bad_call c, [Idle], example_broker [])"
proof -
  obtain r c' w' where p: "publish_with_backpressure log_cli bad_envelope (lit ''t'') example_instant c (example_broker []) = (r, c', w')"
    by (rule prod_cases3)
  have "w' = example_broker []"
    using p by (auto simp: publish_with_backpressure_def publish_and_record_def call_backbone_def bad_publish
        split: prod.splits sum.splits)
  with call_is_run [OF p, of "[]" "[]"] p show ?thesis by (simp add: bad_call_def)
qed

lemma poisoned_run: "(operations_step log_cli)\<^sup>*\<^sup>* example_ops (poisoned_coordinator, [Idle], example_broker [])"
proof -
  have "(operations_step log_cli)\<^sup>*\<^sup>* example_ops (example_coordinator, [] @ [Idle], example_broker [])"
    by (intro r_into_rtranclp operations_step.spawned)
  then show ?thesis
    unfolding poisoned_coordinator_def append_Nil by (blast intro: rtranclp_trans bad_call_run)
qed

lemma poisoned_state:
  "map dl_failure_class (eo_dead_letters poisoned_coordinator) = [''PERMANENT'', ''PERMANENT'', ''POISON'']"
  "map dl_event_id (eo_dead_letters poisoned_coordinator) = [lit ''e'', lit ''e'', lit ''e'']"
  "map dl_envelope_raw (eo_dead_letters poisoned_coordinator) = replicate 3 (envelope_to_mapping bad_envelope)"
  "eo_poisoned_event_ids poisoned_coordinator = {lit ''e''}" "eo_operator_released_event_ids poisoned_coordinator = {}"
proof -
  have "ev_event_id bad_envelope = lit ''e''" by (simp add: bad_envelope_def example_envelope_def)
  then show "map dl_failure_class (eo_dead_letters poisoned_coordinator) = [''PERMANENT'', ''PERMANENT'', ''POISON'']"
    "map dl_event_id (eo_dead_letters poisoned_coordinator) = [lit ''e'', lit ''e'', lit ''e'']"
    "map dl_envelope_raw (eo_dead_letters poisoned_coordinator) = replicate 3 (envelope_to_mapping bad_envelope)"
    "eo_poisoned_event_ids poisoned_coordinator = {lit ''e''}" "eo_operator_released_event_ids poisoned_coordinator = {}"
    by (simp_all add: poisoned_coordinator_def example_coordinator_def new_coordinator_def bad_call_def publish_with_backpressure_def
        admit_def counter_def publish_and_record_def count_attempt_def call_backbone_def bad_publish append_dead_letter_def
        mark_poison_def failure_class_def POISON_THRESHOLD_def leave_def numeral_eq_Suc)
qed

theorem in_flight_bounded_witness:
  "\<exists>c ts. (operations_step log_cli)\<^sup>*\<^sup>* example_ops (c, ts, example_broker [])
     \<and> counter (eo_in_flight_by_tenant c) (lit ''t'') = 1 \<and> counter (eo_in_flight_by_tenant c) (lit ''t'') \<le> eo_max_in_flight_per_tenant c"
proof -
  let ?c = "snd (admit (lit ''t'') example_coordinator)"
  have "(operations_step log_cli)\<^sup>*\<^sup>* example_ops (example_coordinator, [] @ [Idle], example_broker [])"
    by (intro r_into_rtranclp operations_step.spawned)
  also have "(operations_step log_cli)\<^sup>*\<^sup>* \<dots> (?c, [] @ [Admitted bad_envelope (lit ''t'')], example_broker [])"
    by (intro r_into_rtranclp operations_step.admitted)
      (simp add: admit_def example_coordinator_def new_coordinator_def counter_def)
  finally have run: "(operations_step log_cli)\<^sup>*\<^sup>* example_ops (?c, [Admitted bad_envelope (lit ''t'')], example_broker [])" by simp
  from in_flight_bounded [OF example_ops_init run, of "lit ''t''"] run show ?thesis by auto
qed

theorem poison_quarantine_sound_witness:
  "length (filter (\<lambda>d. dl_event_id d = lit ''e'') (eo_dead_letters poisoned_coordinator)) = 3 \<and> is_poisoned (lit ''e'') poisoned_coordinator"
proof -
  have "filter (\<lambda>d. dl_event_id d = lit ''e'') (eo_dead_letters poisoned_coordinator) = eo_dead_letters poisoned_coordinator"
    using poisoned_state(2) by (auto simp: filter_id_conv map_eq_Cons_conv)
  moreover have "length (eo_dead_letters poisoned_coordinator) = 3" using arg_cong [OF poisoned_state(2), of length] by simp
  ultimately show ?thesis
    using poison_quarantine_sound [OF example_ops_init poisoned_run, of "lit ''e''"] by simp
qed

text \<open>
  A replay that writes: the event was refused as out of order, the records of its aggregate have expired and the
  instance was restarted, so nothing on the topic speaks against it any more.
\<close>

definition late_letter :: DeadLetter where
  "late_letter = \<lparr>dl_event_id = lit ''e'', dl_envelope_raw = envelope_to_mapping example_envelope, dl_reason_code = ''OUT_OF_ORDER'',
     dl_failure_class = ''PERMANENT'', dl_recorded_at = example_instant, dl_attempts = 1\<rparr>"

theorem replay_revalidates_witness:
  "\<exists>x c' w' l. replay log_cli late_letter (lit ''r'') example_coordinator example_expired = (x, c', w')
     \<and> ages (log_view example_expired) l \<and> written_as (\<lambda>k. 0) example_envelope l (log_view w')"
proof -
  obtain b t where run: "(backbone_step log_cli log_view)\<^sup>*\<^sup>* (new_backbone example_topic, example_broker []) (new_backbone example_topic, example_expired)"
    and pub: "backbone_publish log_cli example_envelope (new_backbone example_topic) example_expired =
      (Inr (), b, log_write (lit ''a'' @ [124] @ t @ [10]) example_expired)" by (rule expired_history)
  let ?w = "log_write (lit ''a'' @ [124] @ t @ [10]) example_expired"
  have bb: "eo_backbone example_coordinator = new_backbone example_topic" by (simp add: example_coordinator_def new_coordinator_def)
  have raw: "envelope_from_mapping (dl_envelope_raw late_letter) = Inr example_envelope"
    by (simp add: late_letter_def envelope_of_own_mapping [OF example_safe])
  have "fst (snd (replay log_cli late_letter (lit ''r'') example_coordinator example_expired)) = example_coordinator\<lparr>eo_backbone := b\<rparr>"
    "snd (snd (replay log_cli late_letter (lit ''r'') example_coordinator example_expired)) = ?w"
    using raw by (simp_all add: replay_def gate_closed_def call_backbone_def bb pub) (simp_all add: late_letter_def)
  then obtain x where r: "replay log_cli late_letter (lit ''r'') example_coordinator example_expired = (x, example_coordinator\<lparr>eo_backbone := b\<rparr>, ?w)"
    by (metis prod.collapse)
  have grown: "\<not> ages (log_view example_expired) (log_view ?w)"
    using ages_offsets(1) [of "log_view example_expired" "log_view ?w" 0]
    by (auto simp: end_offset_def log_view_def log_write_def example_expired_def)
  have "(backbone_step log_cli log_view)\<^sup>*\<^sup>* (new_backbone example_topic, example_broker []) (eo_backbone example_coordinator, example_expired)"
    unfolding bb by (rule run)
  from replay_revalidates [OF example_backbone_init this raw example_safe r grown] r show ?thesis by blast
qed

text \<open>
  The operator gate looks at the class of the dead letter it is given, not at the quarantine: an earlier dead
  letter of an event in the quarantine passes it although no operator has released the event.
\<close>

theorem earlier_letter_passes_gate:
  "\<exists>c w d. (operations_step log_cli)\<^sup>*\<^sup>* example_ops (c, [Idle], w) \<and> d \<in> set (eo_dead_letters c)
     \<and> is_poisoned (dl_event_id d) c \<and> dl_event_id d \<notin> eo_operator_released_event_ids c
     \<and> fst (replay log_cli d (lit ''r'') c w) = Inl (BackboneError ''UNKNOWN_SCHEMA'')"
proof -
  obtain d ds where ds: "eo_dead_letters poisoned_coordinator = d # ds" using poisoned_state(2) by (auto simp: map_eq_Cons_conv)
  then have d: "dl_failure_class d = ''PERMANENT''" "dl_event_id d = lit ''e''" "dl_envelope_raw d = envelope_to_mapping bad_envelope"
    using poisoned_state(1-3) by (simp_all add: numeral_eq_Suc)
  then have "fst (replay log_cli d (lit ''r'') poisoned_coordinator (example_broker [])) = Inl (BackboneError ''UNKNOWN_SCHEMA'')"
    by (simp add: replay_def gate_closed_def envelope_of_own_mapping [OF bad_safe] call_backbone_def bad_publish)
  moreover have "is_poisoned (dl_event_id d) poisoned_coordinator" "dl_event_id d \<notin> eo_operator_released_event_ids poisoned_coordinator"
    using poisoned_state(4,5) d(2) by (simp_all add: is_poisoned_def)
  moreover have "d \<in> set (eo_dead_letters poisoned_coordinator)" by (simp add: ds)
  ultimately show ?thesis using poisoned_run by blast
qed

end
