(* ===== verification/C8_Sandbox.thy ===== *)
theory C8_Sandbox
  imports C2_Identity Canonical
begin

text \<open>
  The expression sandbox of \<^verbatim>\<open>c8_agent.py\<close>: registered tools, size limits and the evaluator of a whitelist of Python's
  expression syntax.  An expression is the tree \<^verbatim>\<open>ast.parse\<close> gives, so the parser is a parameter, as are printf-style
  formatting (\<^verbatim>\<open>text % value\<close>) and the \<^verbatim>\<open>pow\<close> of the C library.  A tool is a function of its arguments and of a
  state of the world, and may fail.  Bindings hold data: \<^verbatim>\<open>None\<close>, numbers other than NaN, text, bytes, lists, tuples and
  mappings with text keys.  An operator returns \<open>None\<close> where Python raises, since every exception an
  operator raises becomes the same \<^verbatim>\<open>SandboxViolation\<close>.
\<close>

section \<open>Python's operators\<close>

subsection \<open>Numbers\<close>

definition int_of :: "pyval \<Rightarrow> int option" where
  "int_of v = (case v of PBool b \<Rightarrow> Some (if b then 1 else 0) | PInt i \<Rightarrow> Some i | _ \<Rightarrow> None)"

definition float_of :: "pyval \<Rightarrow> pyfloat option" where
  "float_of v =
     (case v of PFloat f \<Rightarrow> Some f
      | _ \<Rightarrow> (case int_of v of None \<Rightarrow> None
              | Some i \<Rightarrow> (case round64 (of_int i) of FFin x \<Rightarrow> Some (FFin x) | _ \<Rightarrow> None)))"

definition float_add :: "pyfloat \<Rightarrow> pyfloat \<Rightarrow> pyfloat" where
  "float_add x y = float_sub x (float_neg y)"

fun float_mult :: "pyfloat \<Rightarrow> pyfloat \<Rightarrow> pyfloat" where
  "float_mult (FFin x) (FFin y) = round64 (x * y)"
| "float_mult (FInf n) (FFin y) = (if y = 0 then FNan else FInf (n \<noteq> (y < 0)))"
| "float_mult (FFin x) (FInf m) = (if x = 0 then FNan else FInf (m \<noteq> (x < 0)))"
| "float_mult (FInf n) (FInf m) = FInf (n \<noteq> m)"
| "float_mult _ _ = FNan"

text \<open>Division by a float that is not zero; the quotient of two integers is rounded once.\<close>

fun float_quot :: "pyfloat \<Rightarrow> pyfloat \<Rightarrow> pyfloat" where
  "float_quot (FFin x) (FFin y) = round64 (x / y)"
| "float_quot (FInf n) (FFin y) = FInf (n \<noteq> (y < 0))"
| "float_quot (FFin x) (FInf m) = FFin 0"
| "float_quot _ _ = FNan"

definition int_quot :: "int \<Rightarrow> int \<Rightarrow> pyval option" where
  "int_quot i j =
     (if j = 0 then None else case round64 (of_int i / of_int j) of FFin x \<Rightarrow> Some (PFloat (FFin x)) | _ \<Rightarrow> None)"

fun float_fmod :: "pyfloat \<Rightarrow> pyfloat \<Rightarrow> pyfloat" where
  "float_fmod (FFin x) (FFin y) = FFin (x - y * of_int (if 0 \<le> x / y then \<lfloor>x / y\<rfloor> else \<lceil>x / y\<rceil>))"
| "float_fmod (FFin x) (FInf m) = FFin x"
| "float_fmod _ _ = FNan"

fun float_floor :: "pyfloat \<Rightarrow> pyfloat" where
  "float_floor (FFin x) = FFin (of_int \<lfloor>x\<rfloor>)"
| "float_floor x = x"

definition float_divmod :: "pyfloat \<Rightarrow> pyfloat \<Rightarrow> pyfloat \<times> pyfloat" where
  "float_divmod x y =
     (let m = float_fmod x y; d = float_quot (float_sub x m) y;
          (m', d') = (if m \<noteq> float_0 \<and> float_lt y float_0 \<noteq> float_lt m float_0
                      then (float_add m y, float_sub d float_1) else (m, d));
          q = (if d' = float_0 then float_0
               else let f = float_floor d' in
                    if float_lt (FFin (1 / 2)) (float_sub d' f) then float_add f float_1 else f)
      in (q, m'))"

text \<open>An operator on two numbers: on integers when both are (a boolean is one), on floats otherwise.\<close>

definition numeric ::
  "(int \<Rightarrow> int \<Rightarrow> pyval option) \<Rightarrow> (pyfloat \<Rightarrow> pyfloat \<Rightarrow> pyval option) \<Rightarrow> pyval \<Rightarrow> pyval \<Rightarrow> pyval option" where
  "numeric fi ff a b =
     (case (int_of a, int_of b) of (Some i, Some j) \<Rightarrow> fi i j
      | _ \<Rightarrow> (case (float_of a, float_of b) of (Some x, Some y) \<Rightarrow> ff x y | _ \<Rightarrow> None))"

definition unless_zero :: "(pyfloat \<Rightarrow> pyfloat \<Rightarrow> pyfloat) \<Rightarrow> pyfloat \<Rightarrow> pyfloat \<Rightarrow> pyval option" where
  "unless_zero f x y = (if y = float_0 then None else Some (PFloat (f x y)))"

subsection \<open>Binary operators\<close>

datatype binop = Add | Sub | Mult | Div | FloorDiv | Mod | Pow | OtherBinop string

text \<open>The parameters: \<^verbatim>\<open>text % value\<close> and \<^verbatim>\<open>pow\<close>; \<open>None\<close> is an exception.\<close>

record runtime_ops =
  ro_percent :: "pystr \<Rightarrow> pyval \<Rightarrow> pystr option"
  ro_pow :: "pyfloat \<Rightarrow> pyfloat \<Rightarrow> pyfloat option"

definition repeated :: "'a list \<Rightarrow> int \<Rightarrow> 'a list" where
  "repeated xs n = concat (replicate (nat n) xs)"

definition repeat_seq :: "pyval \<Rightarrow> int \<Rightarrow> pyval option" where
  "repeat_seq v n =
     (case v of PStr s \<Rightarrow> Some (PStr (repeated s n)) | PBytes s \<Rightarrow> Some (PBytes (repeated s n))
      | PList xs \<Rightarrow> Some (PList (repeated xs n)) | PTuple xs \<Rightarrow> Some (PTuple (repeated xs n)) | _ \<Rightarrow> None)"

definition py_add :: "pyval \<Rightarrow> pyval \<Rightarrow> pyval option" where
  "py_add a b =
     (case (a, b) of
        (PStr s, PStr t) \<Rightarrow> Some (PStr (s @ t)) | (PBytes s, PBytes t) \<Rightarrow> Some (PBytes (s @ t))
      | (PList xs, PList ys) \<Rightarrow> Some (PList (xs @ ys)) | (PTuple xs, PTuple ys) \<Rightarrow> Some (PTuple (xs @ ys))
      | _ \<Rightarrow> numeric (\<lambda>i j. Some (PInt (i + j))) (\<lambda>x y. Some (PFloat (float_add x y))) a b)"

definition py_mult :: "pyval \<Rightarrow> pyval \<Rightarrow> pyval option" where
  "py_mult a b =
     (case (repeat_seq a 0, int_of b) of (Some _, Some n) \<Rightarrow> repeat_seq a n
      | _ \<Rightarrow> (case (int_of a, repeat_seq b 0) of (Some n, Some _) \<Rightarrow> repeat_seq b n
              | _ \<Rightarrow> numeric (\<lambda>i j. Some (PInt (i * j))) (\<lambda>x y. Some (PFloat (float_mult x y))) a b))"

definition py_mod :: "runtime_ops \<Rightarrow> pyval \<Rightarrow> pyval \<Rightarrow> pyval option" where
  "py_mod ops a b =
     (case a of PStr s \<Rightarrow> map_option PStr (ro_percent ops s b)
      | _ \<Rightarrow> numeric (\<lambda>i j. if j = 0 then None else Some (PInt (i mod j))) (unless_zero (\<lambda>x y. snd (float_divmod x y))) a b)"

definition py_pow :: "runtime_ops \<Rightarrow> pyval \<Rightarrow> int \<Rightarrow> pyval option" where
  "py_pow ops a n =
     (let by_float = (\<lambda>x. case round64 (of_int n) of FFin y \<Rightarrow>
            if x = float_0 \<and> n < 0 then None else map_option PFloat (ro_pow ops x (FFin y)) | _ \<Rightarrow> None) in
      case int_of a of
        Some i \<Rightarrow> if 0 \<le> n then Some (PInt (i ^ nat n)) else (case float_of a of None \<Rightarrow> None | Some x \<Rightarrow> by_float x)
      | None \<Rightarrow> (case a of PFloat x \<Rightarrow> by_float x | _ \<Rightarrow> None))"

definition apply_binop :: "runtime_ops \<Rightarrow> binop \<Rightarrow> pyval \<Rightarrow> pyval \<Rightarrow> pyval option" where
  "apply_binop ops op a b =
     (case op of
        Add \<Rightarrow> py_add a b
      | Sub \<Rightarrow> numeric (\<lambda>i j. Some (PInt (i - j))) (\<lambda>x y. Some (PFloat (float_sub x y))) a b
      | Mult \<Rightarrow> py_mult a b
      | Div \<Rightarrow> numeric int_quot (unless_zero float_quot) a b
      | FloorDiv \<Rightarrow> numeric (\<lambda>i j. if j = 0 then None else Some (PInt (i div j))) (unless_zero (\<lambda>x y. fst (float_divmod x y))) a b
      | Mod \<Rightarrow> py_mod ops a b
      | Pow \<Rightarrow> (case int_of b of None \<Rightarrow> None | Some n \<Rightarrow> py_pow ops a n)
      | OtherBinop _ \<Rightarrow> None)"

subsection \<open>Comparisons and truth\<close>

datatype cmpop = Eq | NotEq | Lt | LtE | Gt | GtE | In | NotIn | OtherCmpop string

definition exact_of :: "pyval \<Rightarrow> pyfloat option" where
  "exact_of v = (case v of PFloat f \<Rightarrow> Some f | _ \<Rightarrow> map_option (\<lambda>i. FFin (of_int i)) (int_of v))"

definition cmp_ord :: "cmpop \<Rightarrow> 'a :: linorder \<Rightarrow> 'a \<Rightarrow> bool" where
  "cmp_ord op a b = (case op of Lt \<Rightarrow> a < b | LtE \<Rightarrow> a \<le> b | Gt \<Rightarrow> b < a | _ \<Rightarrow> b \<le> a)"

definition cmp_float :: "cmpop \<Rightarrow> pyfloat \<Rightarrow> pyfloat \<Rightarrow> bool" where
  "cmp_float op x y = (case op of Lt \<Rightarrow> float_lt x y | LtE \<Rightarrow> float_le x y | Gt \<Rightarrow> float_lt y x | _ \<Rightarrow> float_le y x)"

text \<open>\<^verbatim>\<open><\<close>, \<^verbatim>\<open><=\<close>, \<^verbatim>\<open>>\<close> and \<^verbatim>\<open>>=\<close>: sequences compare at their first difference.\<close>

lemma find_zip_left: "find P (zip xs ys) = Some (x, y) \<Longrightarrow> x \<in> set xs"
  by (auto simp: find_Some_iff set_zip)

function py_order :: "cmpop \<Rightarrow> pyval \<Rightarrow> pyval \<Rightarrow> bool option" where
  "py_order op a b =
     (case (a, b) of
        (PStr s, PStr t) \<Rightarrow> Some (cmp_ord op s t) | (PBytes s, PBytes t) \<Rightarrow> Some (cmp_ord op s t)
      | (PList xs, PList ys) \<Rightarrow>
          (case find (\<lambda>(x, y). \<not> py_eq x y) (zip xs ys) of None \<Rightarrow> Some (cmp_ord op (length xs) (length ys))
           | Some (x, y) \<Rightarrow> py_order op x y)
      | (PTuple xs, PTuple ys) \<Rightarrow>
          (case find (\<lambda>(x, y). \<not> py_eq x y) (zip xs ys) of None \<Rightarrow> Some (cmp_ord op (length xs) (length ys))
           | Some (x, y) \<Rightarrow> py_order op x y)
      | _ \<Rightarrow> (case (exact_of a, exact_of b) of (Some x, Some y) \<Rightarrow> Some (cmp_float op x y) | _ \<Rightarrow> None))"
  by pat_completeness auto

termination
  by (relation "measure (\<lambda>(op, a, b). size a)")
    (auto simp: less_Suc_eq_le dest!: find_zip_left intro: size_list_estimation')

declare py_order.simps [simp del]

fun key_hashable :: "pyval \<Rightarrow> bool" where
  "key_hashable (PList _) = False"
| "key_hashable (PDict _) = False"
| "key_hashable (PTuple xs) = list_all key_hashable xs"
| "key_hashable _ = True"

definition py_in :: "pyval \<Rightarrow> pyval \<Rightarrow> bool option" where
  "py_in a b =
     (case b of PList xs \<Rightarrow> Some (list_ex (\<lambda>x. py_eq x a) xs) | PTuple xs \<Rightarrow> Some (list_ex (\<lambda>x. py_eq x a) xs)
      | PStr t \<Rightarrow> (case a of PStr s \<Rightarrow> Some (sublist s t) | _ \<Rightarrow> None)
      | PBytes t \<Rightarrow> (case a of PBytes s \<Rightarrow> Some (sublist s t)
                     | _ \<Rightarrow> (case int_of a of Some i \<Rightarrow> if 0 \<le> i \<and> i < 256 then Some (nat i \<in> set t) else None | None \<Rightarrow> None))
      | PDict kvs \<Rightarrow> if \<not> key_hashable a then None else Some (case a of PStr s \<Rightarrow> dict_get kvs (KStr s) \<noteq> None | _ \<Rightarrow> False)
      | _ \<Rightarrow> None)"

definition apply_cmpop :: "cmpop \<Rightarrow> pyval \<Rightarrow> pyval \<Rightarrow> bool option" where
  "apply_cmpop op a b =
     (case op of Eq \<Rightarrow> Some (py_eq a b) | NotEq \<Rightarrow> Some (\<not> py_eq a b)
      | In \<Rightarrow> py_in a b | NotIn \<Rightarrow> map_option Not (py_in a b) | OtherCmpop _ \<Rightarrow> None
      | _ \<Rightarrow> py_order op a b)"

definition truthy :: "pyval \<Rightarrow> bool" where
  "truthy v =
     (case v of PNone \<Rightarrow> False | PBool b \<Rightarrow> b | PInt i \<Rightarrow> i \<noteq> 0 | PFloat f \<Rightarrow> f \<noteq> float_0 | PStr s \<Rightarrow> s \<noteq> []
      | PBytes s \<Rightarrow> s \<noteq> [] | PList xs \<Rightarrow> xs \<noteq> [] | PTuple xs \<Rightarrow> xs \<noteq> [] | PDict kvs \<Rightarrow> kvs \<noteq> [] | PObject _ \<Rightarrow> True)"

subsection \<open>Subscripts\<close>

definition index_of :: "'a list \<Rightarrow> int \<Rightarrow> 'a option" where
  "index_of xs i =
     (let k = (if i < 0 then i + int (length xs) else i) in
      if 0 \<le> k \<and> k < int (length xs) then Some (xs ! nat k) else None)"

text \<open>\<^verbatim>\<open>slice.indices\<close>: both bounds are moved into the range the direction of the step allows.\<close>

definition clip :: "int \<Rightarrow> int \<Rightarrow> int \<Rightarrow> int \<Rightarrow> int" where
  "clip n lo hi i = (if i < 0 then max (i + n) lo else min i hi)"

definition slice_indices :: "nat \<Rightarrow> int option \<Rightarrow> int option \<Rightarrow> int \<Rightarrow> int list" where
  "slice_indices len lower upper step =
     (let n = int len;
          lo = (if step < 0 then - 1 else 0); hi = (if step < 0 then n - 1 else n);
          start = (case lower of None \<Rightarrow> if step < 0 then hi else lo | Some i \<Rightarrow> clip n lo hi i);
          stop = (case upper of None \<Rightarrow> if step < 0 then lo else hi | Some i \<Rightarrow> clip n lo hi i);
          number = (if step < 0 then (if stop < start then (start - stop - 1) div (- step) + 1 else 0)
                    else (if start < stop then (stop - start - 1) div step + 1 else 0))
      in map (\<lambda>k. start + step * int k) [0..<nat number])"

definition slice_of :: "'a list \<Rightarrow> int option \<Rightarrow> int option \<Rightarrow> int option \<Rightarrow> 'a list option" where
  "slice_of xs lower upper step =
     (if step = Some 0 then None
      else Some (map (\<lambda>i. xs ! nat i)
             (slice_indices (length xs) lower upper (case step of None \<Rightarrow> 1 | Some s \<Rightarrow> s))))"

text \<open>A component of a slice: \<^verbatim>\<open>None\<close>, or an integer, or an error.\<close>

definition slice_part :: "pyval \<Rightarrow> int option option" where
  "slice_part v = (case v of PNone \<Rightarrow> Some None | _ \<Rightarrow> map_option Some (int_of v))"

datatype subscript_key = Item pyval | Range pyval pyval pyval

definition get_item :: "pyval \<Rightarrow> subscript_key \<Rightarrow> pyval option" where
  "get_item v key =
     (case key of
        Item k \<Rightarrow>
          (case v of PDict kvs \<Rightarrow> (case k of PStr s \<Rightarrow> dict_get kvs (KStr s) | _ \<Rightarrow> None)
           | _ \<Rightarrow> (case int_of k of None \<Rightarrow> None
              | Some i \<Rightarrow>
                 (case v of PStr s \<Rightarrow> map_option (\<lambda>c. PStr [c]) (index_of s i) | PBytes s \<Rightarrow> map_option (\<lambda>c. PInt (int c)) (index_of s i)
                  | PList xs \<Rightarrow> index_of xs i | PTuple xs \<Rightarrow> index_of xs i | _ \<Rightarrow> None)))
      | Range l u s \<Rightarrow>
          (case (slice_part l, slice_part u, slice_part s) of (Some lo, Some hi, Some st) \<Rightarrow>
             (case v of PStr t \<Rightarrow> map_option PStr (slice_of t lo hi st) | PBytes t \<Rightarrow> map_option PBytes (slice_of t lo hi st)
              | PList xs \<Rightarrow> map_option PList (slice_of xs lo hi st) | PTuple xs \<Rightarrow> map_option PTuple (slice_of xs lo hi st) | _ \<Rightarrow> None)
           | _ \<Rightarrow> None))"

section \<open>Expressions\<close>

text \<open>
  The nodes of Python's expression syntax the evaluator knows, and one constructor for all others with the number of
  nodes below them.  A constant that is neither text, number, boolean nor \<^verbatim>\<open>None\<close> is \<open>PBytes\<close> or \<open>PObject\<close>.  The names and the
  values of keyword arguments, and the operators and operands of a comparison, are parallel lists.  A subscript whose
  index is a slice has a constructor of its own; a slice elsewhere is one of the other nodes.
\<close>

datatype unaryop = NotOp | UAdd | USub | OtherUnaryop string

datatype boolop = And | Or

datatype expr =
    Constant pyval
  | Name pystr
  | ListExpr "expr list"
  | TupleExpr "expr list"
  | DictExpr "expr option list" "expr list"
  | UnaryOp unaryop expr
  | BinOp expr binop expr
  | BoolOp boolop "expr list"
  | Compare expr "cmpop list" "expr list"
  | IfExp expr expr expr
  | Subscript expr expr
  | SliceSubscript expr "expr option" "expr option" "expr option"
  | Call expr "expr list" "pystr option list" "expr list"
  | Starred expr
  | OtherExpr string nat

text \<open>
  \<^verbatim>\<open>sum(1 for _ in ast.walk(node))\<close>: the operators and the context of a name, a sequence, a subscript or a starred expression
  are nodes of their own, and so is a keyword.
\<close>

fun ast_nodes :: "expr \<Rightarrow> nat" where
  "ast_nodes (Constant v) = 1"
| "ast_nodes (Name x) = 2"
| "ast_nodes (ListExpr es) = 2 + sum_list (map ast_nodes es)"
| "ast_nodes (TupleExpr es) = 2 + sum_list (map ast_nodes es)"
| "ast_nodes (DictExpr ks vs) = 1 + sum_list (map (\<lambda>k. case k of None \<Rightarrow> 0 | Some e \<Rightarrow> ast_nodes e) ks) + sum_list (map ast_nodes vs)"
| "ast_nodes (UnaryOp op e) = 2 + ast_nodes e"
| "ast_nodes (BinOp a op b) = 2 + ast_nodes a + ast_nodes b"
| "ast_nodes (BoolOp op es) = 2 + sum_list (map ast_nodes es)"
| "ast_nodes (Compare e ops es) = 1 + length ops + ast_nodes e + sum_list (map ast_nodes es)"
| "ast_nodes (IfExp t a b) = 1 + ast_nodes t + ast_nodes a + ast_nodes b"
| "ast_nodes (Subscript e k) = 2 + ast_nodes e + ast_nodes k"
| "ast_nodes (SliceSubscript e l u s) = 3 + ast_nodes e + (case l of None \<Rightarrow> 0 | Some e \<Rightarrow> ast_nodes e) + (case u of None \<Rightarrow> 0 | Some e \<Rightarrow> ast_nodes e)
     + (case s of None \<Rightarrow> 0 | Some e \<Rightarrow> ast_nodes e)"
| "ast_nodes (Call f es ks vs) = 1 + ast_nodes f + sum_list (map ast_nodes es) + length ks + sum_list (map ast_nodes vs)"
| "ast_nodes (Starred e) = 2 + ast_nodes e"
| "ast_nodes (OtherExpr name n) = 1 + n"

section \<open>The evaluator\<close>

type_synonym 'w tool = "pyval list \<Rightarrow> (pystr \<times> pyval) list \<Rightarrow> 'w \<Rightarrow> pyval res \<times> 'w"

type_synonym 'w dispatch = "pystr \<Rightarrow> ('w \<Rightarrow> pyval res \<times> 'w) \<Rightarrow> 'w \<Rightarrow> pyval res \<times> 'w"

record 'w ExpressionEvaluator =
  ee_bindings :: "(pystr, pyval) dict"
  ee_tools :: "(pystr, 'w tool) dict"
  ee_max_result_characters :: int
  ee_dispatch :: "'w dispatch option"
  ee_runtime :: runtime_ops

abbreviation violation :: "string \<Rightarrow> 'a res" where
  "violation m \<equiv> Inl (SandboxViolation m)"

definition bounded :: "int \<Rightarrow> pyval \<Rightarrow> pyval res" where
  "bounded limit v =
     (case canonicalize_json v of Inl _ \<Rightarrow> violation ''sandbox result is not safe I-JSON''
      | Inr rendered \<Rightarrow> if limit < int (length rendered) then violation ''sandbox result-size limit exceeded'' else Inr v)"

definition literal_ok :: "pyval \<Rightarrow> bool" where
  "literal_ok v = (case v of PBytes _ \<Rightarrow> False | PList _ \<Rightarrow> False | PTuple _ \<Rightarrow> False | PDict _ \<Rightarrow> False | PObject _ \<Rightarrow> False | _ \<Rightarrow> True)"

definition apply_unaryop :: "int \<Rightarrow> unaryop \<Rightarrow> pyval \<Rightarrow> pyval res" where
  "apply_unaryop limit op v =
     (case op of NotOp \<Rightarrow> Inr (PBool (\<not> truthy v))
      | UAdd \<Rightarrow> (case int_of v of Some i \<Rightarrow> bounded limit (PInt i)
                 | None \<Rightarrow> (case v of PFloat f \<Rightarrow> bounded limit (PFloat f) | _ \<Rightarrow> violation ''unsupported unary operation''))
      | USub \<Rightarrow> (case int_of v of Some i \<Rightarrow> bounded limit (PInt (- i))
                 | None \<Rightarrow> (case v of PFloat f \<Rightarrow> bounded limit (PFloat (float_neg f)) | _ \<Rightarrow> violation ''unsupported unary operation''))
      | OtherUnaryop _ \<Rightarrow> violation ''unsupported unary operation'')"

definition supported_binop :: "binop \<Rightarrow> bool" where
  "supported_binop op = (case op of OtherBinop _ \<Rightarrow> False | _ \<Rightarrow> True)"

definition supported_cmpop :: "cmpop \<Rightarrow> bool" where
  "supported_cmpop op = (case op of OtherCmpop _ \<Rightarrow> False | _ \<Rightarrow> True)"

definition evaluate_binop :: "runtime_ops \<Rightarrow> int \<Rightarrow> binop \<Rightarrow> pyval \<Rightarrow> pyval \<Rightarrow> pyval res" where
  "evaluate_binop ops limit op a b =
     (if op = Pow \<and> (case int_of b of None \<Rightarrow> True | Some n \<Rightarrow> 16 < \<bar>n\<bar>) then violation ''unsafe exponent''
      else case apply_binop ops op a b of None \<Rightarrow> violation ''binary operation failed'' | Some v \<Rightarrow> bounded limit v)"

definition evaluate_subscript :: "int \<Rightarrow> pyval \<Rightarrow> subscript_key \<Rightarrow> pyval res" where
  "evaluate_subscript limit v key =
     (case get_item v key of None \<Rightarrow> violation ''subscript failed''
      | Some x \<Rightarrow> (case bounded limit x of Inl _ \<Rightarrow> violation ''subscript failed'' | Inr y \<Rightarrow> Inr y))"

definition dict_display :: "int \<Rightarrow> pyval list \<Rightarrow> pyval list \<Rightarrow> pyval res" where
  "dict_display limit ks vs = bounded limit (PDict (map (\<lambda>(k, v). case k of PStr s \<Rightarrow> (KStr s, v)) (zip ks vs)))"

definition dict_keys_ok :: "pyval list \<Rightarrow> unit res" where
  "dict_keys_ok ks =
     (if \<not> list_all (\<lambda>k. case k of PStr _ \<Rightarrow> True | _ \<Rightarrow> False) ks then violation ''sandbox dictionary keys must be strings''
      else if \<not> distinct ks then violation ''duplicate sandbox dictionary key'' else Inr ())"

definition call_tool :: "'w tool \<Rightarrow> pyval list \<Rightarrow> (pystr \<times> pyval) list \<Rightarrow> 'w \<Rightarrow> pyval res \<times> 'w" where
  "call_tool tool args kwargs w =
     (case tool args kwargs w of (Inl _, w') \<Rightarrow> (violation ''sandbox tool failed'', w') | (Inr v, w') \<Rightarrow> (Inr v, w'))"

definition run_tool ::
  "'w ExpressionEvaluator \<Rightarrow> pystr \<Rightarrow> 'w tool \<Rightarrow> pyval list \<Rightarrow> (pystr \<times> pyval) list \<Rightarrow> 'w \<Rightarrow> pyval res \<times> 'w" where
  "run_tool E name tool args kwargs w =
     (case (case ee_dispatch E of None \<Rightarrow> call_tool tool args kwargs w | Some d \<Rightarrow> d name (call_tool tool args kwargs) w) of
        (Inl x, w') \<Rightarrow> (Inl x, w')
      | (Inr v, w') \<Rightarrow> (bounded (ee_max_result_characters E) v, w'))"

definition callee :: "'w ExpressionEvaluator \<Rightarrow> expr \<Rightarrow> (pystr \<times> 'w tool) option" where
  "callee E f = (case f of Name x \<Rightarrow> map_option (Pair x) (dict_get (ee_tools E) x) | _ \<Rightarrow> None)"

definition is_starred :: "expr \<Rightarrow> bool" where
  "is_starred e = (case e of Starred _ \<Rightarrow> True | _ \<Rightarrow> False)"

type_synonym ('a, 'w) evaluation = "'a res \<times> int \<times> 'w"

text \<open>
  The remaining operations and the world are threaded through the evaluation.  \<open>spend\<close> is \<^verbatim>\<open>_spend\<close>; \<open>and_then\<close>
  goes on with the value, or stops at an exception.
\<close>

definition spend :: "int \<Rightarrow> 'w \<Rightarrow> (int \<Rightarrow> ('a, 'w) evaluation) \<Rightarrow> ('a, 'w) evaluation" where
  "spend n w k = (if n - 1 < 0 then (violation ''sandbox operation budget exceeded'', n - 1, w) else k (n - 1))"

definition and_then :: "('a, 'w) evaluation \<Rightarrow> ('a \<Rightarrow> int \<Rightarrow> 'w \<Rightarrow> ('b, 'w) evaluation) \<Rightarrow> ('b, 'w) evaluation" where
  "and_then x k = (case x of (Inl e, n, w) \<Rightarrow> (Inl e, n, w) | (Inr v, n, w) \<Rightarrow> k v n w)"

lemma and_then_cong [fundef_cong]:
  "x = y \<Longrightarrow> (\<And>v n w. y = (Inr v, n, w) \<Longrightarrow> k v n w = l v n w) \<Longrightarrow> and_then x k = and_then y l"
  by (auto simp: and_then_def split: sum.splits prod.splits)

lemma spend_cong [fundef_cong]:
  "n = m \<Longrightarrow> w = v \<Longrightarrow> (\<And>i. k i = l i) \<Longrightarrow> spend n w k = spend m v l"
  by (simp add: spend_def)

function (sequential) evaluate :: "'w ExpressionEvaluator \<Rightarrow> expr \<Rightarrow> int \<Rightarrow> 'w \<Rightarrow> (pyval, 'w) evaluation"
  and evaluate_list :: "'w ExpressionEvaluator \<Rightarrow> expr list \<Rightarrow> int \<Rightarrow> 'w \<Rightarrow> (pyval list, 'w) evaluation"
  and evaluate_keys :: "'w ExpressionEvaluator \<Rightarrow> expr option list \<Rightarrow> int \<Rightarrow> 'w \<Rightarrow> (pyval list, 'w) evaluation"
  and evaluate_opt :: "'w ExpressionEvaluator \<Rightarrow> expr option \<Rightarrow> int \<Rightarrow> 'w \<Rightarrow> (pyval, 'w) evaluation"
  and evaluate_bool :: "'w ExpressionEvaluator \<Rightarrow> bool \<Rightarrow> pyval \<Rightarrow> expr list \<Rightarrow> int \<Rightarrow> 'w \<Rightarrow> (pyval, 'w) evaluation"
  and evaluate_compare :: "'w ExpressionEvaluator \<Rightarrow> pyval \<Rightarrow> cmpop list \<Rightarrow> expr list \<Rightarrow> int \<Rightarrow> 'w \<Rightarrow> (pyval, 'w) evaluation" where
  "evaluate E (Constant v) n w = spend n w (\<lambda>n.
     (if literal_ok v then bounded (ee_max_result_characters E) v else violation ''unsupported literal type'', n, w))"
| "evaluate E (Name x) n w = spend n w (\<lambda>n.
     (case dict_get (ee_bindings E) x of None \<Rightarrow> violation ''unknown sandbox binding'' | Some v \<Rightarrow> Inr v, n, w))"
| "evaluate E (ListExpr es) n w = spend n w (\<lambda>n. and_then (evaluate_list E es n w) (\<lambda>vs n w.
     (bounded (ee_max_result_characters E) (PList vs), n, w)))"
| "evaluate E (TupleExpr es) n w = spend n w (\<lambda>n. and_then (evaluate_list E es n w) (\<lambda>vs n w.
     (bounded (ee_max_result_characters E) (PList vs), n, w)))"
| "evaluate E (DictExpr ks es) n w = spend n w (\<lambda>n.
     if None \<in> set ks then (violation ''dictionary unpacking is forbidden'', n, w)
     else and_then (evaluate_keys E ks n w) (\<lambda>kvs n w.
       and_then (dict_keys_ok kvs, n, w) (\<lambda>_ n w. and_then (evaluate_list E es n w) (\<lambda>vs n w.
         (dict_display (ee_max_result_characters E) kvs vs, n, w)))))"
| "evaluate E (UnaryOp op e) n w = spend n w (\<lambda>n. and_then (evaluate E e n w) (\<lambda>v n w.
     (apply_unaryop (ee_max_result_characters E) op v, n, w)))"
| "evaluate E (BinOp a op b) n w = spend n w (\<lambda>n.
     if \<not> supported_binop op then (violation ''unsupported binary operation'', n, w)
     else and_then (evaluate E a n w) (\<lambda>x n w. and_then (evaluate E b n w) (\<lambda>y n w.
       (evaluate_binop (ee_runtime E) (ee_max_result_characters E) op x y, n, w))))"
| "evaluate E (BoolOp op es) n w = spend n w (\<lambda>n. evaluate_bool E (op = And) (PBool (op = And)) es n w)"
| "evaluate E (Compare e ops es) n w = spend n w (\<lambda>n. and_then (evaluate E e n w) (\<lambda>v n w. evaluate_compare E v ops es n w))"
| "evaluate E (IfExp t a b) n w = spend n w (\<lambda>n. and_then (evaluate E t n w) (\<lambda>v n w.
     if truthy v then evaluate E a n w else evaluate E b n w))"
| "evaluate E (Subscript e k) n w = spend n w (\<lambda>n. and_then (evaluate E e n w) (\<lambda>v n w.
     and_then (evaluate E k n w) (\<lambda>key n w. (evaluate_subscript (ee_max_result_characters E) v (Item key), n, w))))"
| "evaluate E (SliceSubscript e l u s) n w = spend n w (\<lambda>n. and_then (evaluate E e n w) (\<lambda>v n w.
     and_then (evaluate_opt E l n w) (\<lambda>lo n w. and_then (evaluate_opt E u n w) (\<lambda>hi n w. and_then (evaluate_opt E s n w) (\<lambda>st n w.
       (evaluate_subscript (ee_max_result_characters E) v (Range lo hi st), n, w))))))"
| "evaluate E (Call f es ks vs) n w = spend n w (\<lambda>n.
     case callee E f of None \<Rightarrow> (violation ''only registered tool calls are allowed'', n, w)
     | Some (name, tool) \<Rightarrow>
        if list_ex is_starred es then (violation ''argument unpacking is forbidden'', n, w)
        else if None \<in> set ks then (violation ''keyword unpacking is forbidden'', n, w)
        else and_then (evaluate_list E es n w) (\<lambda>args n w. and_then (evaluate_list E vs n w) (\<lambda>kws n w.
          (case run_tool E name tool args (zip (map the ks) kws) w of (r, w') \<Rightarrow> (r, n, w')))))"
| "evaluate E (Starred e) n w = spend n w (\<lambda>n. (violation ''forbidden syntax'', n, w))"
| "evaluate E (OtherExpr name k) n w = spend n w (\<lambda>n. (violation ''forbidden syntax'', n, w))"
| "evaluate_list E [] n w = (Inr [], n, w)"
| "evaluate_list E (e # es) n w = and_then (evaluate E e n w) (\<lambda>v n w. and_then (evaluate_list E es n w) (\<lambda>vs n w. (Inr (v # vs), n, w)))"
| "evaluate_keys E [] n w = (Inr [], n, w)"
| "evaluate_keys E (None # ks) n w = evaluate_keys E ks n w"
| "evaluate_keys E (Some e # ks) n w = and_then (evaluate E e n w) (\<lambda>v n w. and_then (evaluate_keys E ks n w) (\<lambda>vs n w. (Inr (v # vs), n, w)))"
| "evaluate_opt E None n w = (Inr PNone, n, w)"
| "evaluate_opt E (Some e) n w = evaluate E e n w"
| "evaluate_bool E is_and result [] n w = (Inr result, n, w)"
| "evaluate_bool E is_and result (e # es) n w = and_then (evaluate E e n w) (\<lambda>v n w.
     if truthy v = is_and then evaluate_bool E is_and v es n w else (Inr v, n, w))"
| "evaluate_compare E left (op # ops) (e # es) n w =
     (if \<not> supported_cmpop op then (violation ''unsupported comparison'', n, w)
      else and_then (evaluate E e n w) (\<lambda>right n w.
        case apply_cmpop op left right of None \<Rightarrow> (violation ''comparison failed'', n, w)
        | Some holds \<Rightarrow> if holds then evaluate_compare E right ops es n w else (Inr (PBool False), n, w)))"
| "evaluate_compare E left _ _ n w = (Inr (PBool True), n, w)"
  by pat_completeness auto

termination
  by (relation "measure (\<lambda>x. case x of
      Inl (Inl (E, e, n, w)) \<Rightarrow> size e
    | Inl (Inr (Inl (E, es, n, w))) \<Rightarrow> size_list size es
    | Inl (Inr (Inr (E, ks, n, w))) \<Rightarrow> size_list (size_option size) ks
    | Inr (Inl (E, k, n, w)) \<Rightarrow> size_option size k
    | Inr (Inr (Inl (E, c, v, es, n, w))) \<Rightarrow> size_list size es
    | Inr (Inr (Inr (E, v, ops, es, n, w))) \<Rightarrow> size_list size es)") simp_all

section \<open>The sandbox\<close>

record 'w StrictSandbox =
  ss_tools :: "(pystr, 'w tool) dict"
  ss_max_source_characters :: int
  ss_max_ast_nodes :: int
  ss_max_operations :: int
  ss_max_result_characters :: int

definition FORBIDDEN_TOOL_NAMES :: "pystr set" where
  "FORBIDDEN_TOOL_NAMES = lit ` {''breakpoint'', ''compile'', ''eval'', ''exec'', ''globals'', ''help'', ''input'', ''locals'',
     ''open'', ''vars'', ''__import__''}"

definition ascii_letter :: "nat \<Rightarrow> bool" where
  "ascii_letter c \<longleftrightarrow> 65 \<le> c \<and> c \<le> 90 \<or> 97 \<le> c \<and> c \<le> 122"

text \<open>\<^verbatim>\<open>[A-Za-z][A-Za-z0-9_]{0,63}\<close>\<close>

definition SAFE_NAME :: "pystr \<Rightarrow> bool" where
  "SAFE_NAME s \<longleftrightarrow> s \<noteq> [] \<and> ascii_letter (hd s) \<and> length s \<le> 64
     \<and> list_all (\<lambda>c. ascii_letter c \<or> 48 \<le> c \<and> c \<le> 57 \<or> c = 95) (tl s)"

text \<open>A tool that is not callable is \<open>None\<close>.\<close>

definition register_tool :: "pystr \<Rightarrow> 'w tool option \<Rightarrow> 'w StrictSandbox \<Rightarrow> unit res \<times> 'w StrictSandbox" where
  "register_tool name tool b =
     (if \<not> SAFE_NAME name \<or> name \<in> FORBIDDEN_TOOL_NAMES \<or> startswith name (lit ''_'')
      then (violation ''unsafe tool name'', b)
      else case tool of None \<Rightarrow> (Inl (TypeError ''sandbox tools must be callable''), b)
      | Some t \<Rightarrow>
         if dict_get (ss_tools b) name \<noteq> None then (violation ''sandbox tool is already registered'', b)
         else (Inr (), b\<lparr>ss_tools := dict_set name t (ss_tools b)\<rparr>))"

fun register_tools :: "(pystr \<times> 'w tool option) list \<Rightarrow> 'w StrictSandbox \<Rightarrow> 'w StrictSandbox res" where
  "register_tools [] b = Inr b"
| "register_tools ((name, tool) # ts) b =
     (case register_tool name tool b of (Inl x, _) \<Rightarrow> Inl x | (Inr _, b') \<Rightarrow> register_tools ts b')"

definition new_sandbox ::
  "(pystr \<times> 'w tool option) list \<Rightarrow> int \<Rightarrow> int \<Rightarrow> int \<Rightarrow> int \<Rightarrow> 'w StrictSandbox res" where
  "new_sandbox tools max_source max_nodes max_ops max_result =
     (if min (min max_source max_nodes) (min max_ops max_result) \<le> 0 then Inl (ValueError ''sandbox limits must be positive'')
      else register_tools tools \<lparr>ss_tools = [], ss_max_source_characters = max_source, ss_max_ast_nodes = max_nodes,
             ss_max_operations = max_ops, ss_max_result_characters = max_result\<rparr>)"

definition tool_names :: "'w StrictSandbox \<Rightarrow> pystr list" where
  "tool_names b = sort (dict_keys (ss_tools b))"

definition evaluator :: "runtime_ops \<Rightarrow> 'w dispatch option \<Rightarrow> (pystr, pyval) dict \<Rightarrow> 'w StrictSandbox \<Rightarrow> 'w ExpressionEvaluator" where
  "evaluator ops dispatch bindings b = \<lparr>ee_bindings = bindings, ee_tools = ss_tools b,
     ee_max_result_characters = ss_max_result_characters b, ee_dispatch = dispatch, ee_runtime = ops\<rparr>"

text \<open>
  \<open>parse\<close> is \<^verbatim>\<open>ast.parse(expression, mode="eval").body\<close> or the exception it raises, of which the code handles \<^verbatim>\<open>SyntaxError\<close> only
  (a lone surrogate raises \<^verbatim>\<open>UnicodeEncodeError\<close>); the root of the tree is one more node.
\<close>

definition sandbox_execute ::
  "(pystr \<Rightarrow> expr res) \<Rightarrow> runtime_ops \<Rightarrow> pystr \<Rightarrow> (pystr, pyval) dict \<Rightarrow> 'w dispatch option \<Rightarrow> 'w StrictSandbox \<Rightarrow> 'w
     \<Rightarrow> pyval res \<times> 'w" where
  "sandbox_execute parse ops expression bindings dispatch b w =
     (if strip expression = [] then (violation ''sandbox input must be a non-empty expression'', w)
      else if ss_max_source_characters b < int (length expression) then (violation ''sandbox source-size limit exceeded'', w)
      else case parse expression of
        Inl SyntaxError \<Rightarrow> (violation ''sandbox accepts expressions only'', w)
      | Inl x \<Rightarrow> (Inl x, w)
      | Inr body \<Rightarrow>
         if ss_max_ast_nodes b < int (ast_nodes body) + 1 then (violation ''sandbox AST-size limit exceeded'', w)
         else if list_ex (\<lambda>name. \<not> SAFE_NAME name \<or> startswith name (lit ''_'')) (dict_keys bindings)
         then (violation ''unsafe binding name'', w)
         else (case evaluate (evaluator ops dispatch bindings b) body (ss_max_operations b) w of (r, _, w') \<Rightarrow> (r, w')))"

section \<open>Containment\<close>








text \<open>No operation on values raises for want of operations.\<close>

definition plain_error :: "'a res \<Rightarrow> bool" where
  "plain_error r \<longleftrightarrow> (\<forall>e. r = Inl e \<longrightarrow> (\<exists>m. e = SandboxViolation m \<and> m \<noteq> ''sandbox operation budget exceeded''))"


lemma plain_error_simps [simp]:
  "plain_error (Inr v)" "plain_error (violation m) \<longleftrightarrow> m \<noteq> ''sandbox operation budget exceeded''"
  by (simp_all add: plain_error_def)

lemma plain_errors [simp]:
  "plain_error (bounded l v)" "plain_error (apply_unaryop l op v)" "plain_error (evaluate_binop ops l bop v u)"
  "plain_error (evaluate_subscript l v key)" "plain_error (dict_display l ks vs)" "plain_error (dict_keys_ok ks)"
proof -
  show b: "plain_error (bounded l v)" for l v by (simp add: bounded_def split: sum.splits)
  show "plain_error (apply_unaryop l op v)"
    by (simp add: apply_unaryop_def b split: unaryop.splits option.splits pyval.splits)
  show "plain_error (evaluate_binop ops l bop v u)" by (simp add: evaluate_binop_def b split: option.splits)
  show "plain_error (evaluate_subscript l v key)" by (simp add: evaluate_subscript_def split: option.splits sum.splits)
  show "plain_error (dict_display l ks vs)" by (simp add: dict_display_def b)
  show "plain_error (dict_keys_ok ks)" by (simp add: dict_keys_ok_def)
qed






section \<open>The size of results\<close>

definition fits_limit :: "int \<Rightarrow> pyval \<Rightarrow> bool" where
  "fits_limit limit v \<longleftrightarrow> (\<exists>t. canonicalize_json v = Inr t \<and> int (length t) \<le> limit)"

lemma bounded_fits: "bounded limit v = Inr u \<Longrightarrow> u = v \<and> fits_limit (max 5 limit) v"
  by (auto simp: bounded_def fits_limit_def split: sum.splits if_splits)

lemma fits_atoms: "fits_limit (max 5 limit) (PBool b)" "fits_limit (max 5 limit) PNone"
  by (simp_all add: fits_limit_def canonicalize_json_def le_max_iff_disj)

lemma and_then_Inr:
  "and_then x f = (Inr v, n, w) \<longleftrightarrow> (\<exists>u i z. x = (Inr u, i, z) \<and> f u i z = (Inr v, n, w))"
  by (cases x) (auto simp: and_then_def split: sum.splits)

lemma spend_Inr: "spend n w f = (Inr v, i, z) \<longleftrightarrow> 1 \<le> n \<and> f (n - 1) = (Inr v, i, z)"
  by (auto simp: spend_def)

lemma unaryop_fits: "apply_unaryop limit op v = Inr u \<Longrightarrow> fits_limit (max 5 limit) u"
  by (auto simp: apply_unaryop_def fits_atoms dest: bounded_fits split: unaryop.splits option.splits pyval.splits)

lemma binop_fits: "evaluate_binop ops limit op a b = Inr u \<Longrightarrow> fits_limit (max 5 limit) u"
  by (auto simp: evaluate_binop_def dest: bounded_fits split: option.splits if_splits)

lemma subscript_fits: "evaluate_subscript limit v key = Inr u \<Longrightarrow> fits_limit (max 5 limit) u"
  by (auto simp: evaluate_subscript_def dest: bounded_fits split: option.splits sum.splits)

lemma run_tool_fits: "fst (run_tool E name tool args kwargs w) = Inr u \<Longrightarrow> fits_limit (max 5 (ee_max_result_characters E)) u"
  by (auto simp: run_tool_def dest: bounded_fits split: option.splits sum.splits prod.splits)

definition bindings_fit :: "'w ExpressionEvaluator \<Rightarrow> bool" where
  "bindings_fit E \<longleftrightarrow>
     (\<forall>x v. dict_get (ee_bindings E) x = Some v \<longrightarrow> fits_limit (max 5 (ee_max_result_characters E)) v)"

lemmas result_simps = spend_Inr and_then_Inr

lemma evaluate_fits:
  fixes E :: "'w ExpressionEvaluator"
  shows "bindings_fit E \<Longrightarrow> evaluate E e n w = (Inr r, n', w') \<Longrightarrow> fits_limit (max 5 (ee_max_result_characters E)) r"
    and "bindings_fit E \<Longrightarrow> evaluate_list E es n w = (Inr rs, n', w') \<Longrightarrow> list_all (fits_limit (max 5 (ee_max_result_characters E))) rs"
    and "bindings_fit E \<Longrightarrow> evaluate_keys E ks n w = (Inr rs, n', w') \<Longrightarrow> list_all (fits_limit (max 5 (ee_max_result_characters E))) rs"
    and "bindings_fit E \<Longrightarrow> evaluate_opt E k n w = (Inr r, n', w') \<Longrightarrow> fits_limit (max 5 (ee_max_result_characters E)) r"
    and "bindings_fit E \<Longrightarrow> fits_limit (max 5 (ee_max_result_characters E)) v \<Longrightarrow> evaluate_bool E is_and v es n w = (Inr r, n', w') \<Longrightarrow>
      fits_limit (max 5 (ee_max_result_characters E)) r"
    and "bindings_fit E \<Longrightarrow> evaluate_compare E v ops es n w = (Inr r, n', w') \<Longrightarrow> fits_limit (max 5 (ee_max_result_characters E)) r"
proof (induction E e n w and E es n w and E ks n w and E k n w and E is_and v es n w and E v ops es n w
    arbitrary: r n' w' and rs n' w' and rs n' w' and r n' w' and r n' w' and r n' w'
    rule: evaluate_evaluate_list_evaluate_keys_evaluate_opt_evaluate_bool_evaluate_compare.induct)
  case (3 E es n w)
  from 3(3) show ?case by (auto simp: result_simps dest: bounded_fits)
next
  case (4 E es n w)
  from 4(3) show ?case by (auto simp: result_simps dest: bounded_fits)
next
  case (6 E op e n w)
  from 6(2,3) show ?case by (auto simp: result_simps bindings_fit_def dest: unaryop_fits)
next
  case (7 E a op b n w)
  from 7(4) show ?case by (auto simp: result_simps dest: binop_fits split: if_split_asm)
next
  case (8 E op es n w)
  have "fits_limit (max 5 (ee_max_result_characters E)) (PBool (op = And))" using 8(2) by (simp add: bindings_fit_def fits_atoms)
  with 8(1) [OF 8(2), of "n - 1"] 8(3) show ?case by (auto simp: result_simps)
next
  case (9 E e ops es n w)
  from 9(4) obtain v i z where v: "evaluate E e (n - 1) w = (Inr v, i, z)" "evaluate_compare E v ops es i z = (Inr r, n', w')"
    by (auto simp: result_simps)
  then show ?case using 9(2) [OF v(1) 9(3) v(2)] by simp
next
  case (11 E e k n w)
  from 11(4) show ?case by (auto simp: result_simps dest: subscript_fits)
next
  case (12 E e l u s n w)
  from 12(6) show ?case by (auto simp: result_simps dest: subscript_fits)
next
  case (5 E ks es n w)
  from 5(4) show ?case
    by (auto simp: result_simps dict_display_def dest: bounded_fits split: if_splits)
next
  case (10 E t a b n w)
  from 10(5) obtain v i z where v: "evaluate E t (n - 1) w = (Inr v, i, z)"
    and k: "(if truthy v then evaluate E a i z else evaluate E b i z) = (Inr r, n', w')" by (auto simp: result_simps)
  then show ?case using 10(2) [OF v _ 10(4)] 10(3) [OF v _ 10(4)] by (cases "truthy v") auto
next
  case (13 E f es ks vs n w)
  from 13(4) show ?case
    by (auto simp: result_simps case_prod_unfold dest: run_tool_fits split: if_split_asm option.split_asm)
next
  case (17 E e es n w)
  from 17(4) obtain v i z vs where v: "evaluate E e n w = (Inr v, i, z)" and vs: "evaluate_list E es i z = (Inr vs, n', w')" "rs = v # vs"
    by (auto simp: result_simps)
  then show ?case using 17(1) [OF 17(3) v] 17(2) [OF v 17(3) vs(1)] by simp
next
  case (20 E e ks n w)
  from 20(4) obtain v i z vs where v: "evaluate E e n w = (Inr v, i, z)" and vs: "evaluate_keys E ks i z = (Inr vs, n', w')" "rs = v # vs"
    by (auto simp: result_simps)
  then show ?case using 20(1) [OF 20(3) v] 20(2) [OF v 20(3) vs(1)] by simp
next
  case (24 E is_and result e es n w)
  from 24(5) obtain v i z where v: "evaluate E e n w = (Inr v, i, z)"
    and k: "(if truthy v = is_and then evaluate_bool E is_and v es i z else (Inr v, i, z)) = (Inr r, n', w')" by (auto simp: result_simps)
  note fv = 24(1) [OF 24(3) v]
  show ?case using 24(2) [OF v _ 24(3) fv] k fv by (cases "truthy v = is_and") auto
next
  case (25 E left op ops e es n w)
  show ?case
  proof (cases "supported_cmpop op")
    case True
    with 25(4) obtain u i z h where u: "evaluate E e n w = (Inr u, i, z)" "apply_cmpop op left u = Some h"
      and k: "(if h then evaluate_compare E u ops es i z else (Inr (PBool False), i, z)) = (Inr r, n', w')"
      by (auto simp: result_simps split: option.splits)
    from True 25(3) have "\<not> \<not> supported_cmpop op" "fits_limit (max 5 (ee_max_result_characters E)) (PBool False)"
      by (simp_all add: fits_atoms bindings_fit_def)
    then show ?thesis using 25(2) [OF _ u _ 25(3)] k by (cases h) auto
  next
    case False
    with 25(4) show ?thesis by simp
  qed
qed (auto simp: spend_Inr fits_atoms bindings_fit_def dest: bounded_fits split: if_split_asm option.split_asm)

section \<open>Slices\<close>

text \<open>Every index a slice takes is an index of the sequence.\<close>

lemma steps_below:
  assumes "0 < d" "0 < m" "k \<le> (m - 1) div d" "0 \<le> (k :: int)"
  shows "d * k < m"
proof -
  have "d * k \<le> d * ((m - 1) div d)" using assms(1,3) by (intro mult_left_mono) simp_all
  also have "\<dots> \<le> m - 1" using pos_mod_sign [OF assms(1), of "m - 1"] by (simp add: minus_mod_eq_mult_div [symmetric])
  finally show ?thesis by simp
qed

lemma slice_indices_in_range:
  assumes "step \<noteq> 0" "i \<in> set (slice_indices len lower upper step)"
  shows "0 \<le> i \<and> i < int len"
proof (cases "step < 0")
  case True
  define start where "start = (case lower of None \<Rightarrow> int len - 1 | Some i \<Rightarrow> clip (int len) (- 1) (int len - 1) i)"
  define stop where "stop = (case upper of None \<Rightarrow> - 1 | Some i \<Rightarrow> clip (int len) (- 1) (int len - 1) i)"
  from True assms(2) obtain k where i: "i = start + step * int k" and k: "k < nat (if stop < start then (start - stop - 1) div (- step) + 1 else 0)"
    unfolding slice_indices_def Let_def if_P [OF True] start_def [symmetric] stop_def [symmetric] set_map by (elim imageE) (rule that, assumption, simp)
  then have lt: "stop < start" by (simp split: if_splits)
  with k have "int k \<le> (start - stop - 1) div (- step)" by simp
  then have "- step * int k < start - stop" using True lt by (intro steps_below) simp_all
  moreover have "- 1 \<le> stop" "start \<le> int len - 1" by (auto simp: start_def stop_def clip_def split: option.splits)
  moreover have "step * int k \<le> 0" using True by (simp add: mult_nonpos_nonneg)
  ultimately show ?thesis using i by auto
next
  case False
  define start where "start = (case lower of None \<Rightarrow> 0 | Some i \<Rightarrow> clip (int len) 0 (int len) i)"
  define stop where "stop = (case upper of None \<Rightarrow> int len | Some i \<Rightarrow> clip (int len) 0 (int len) i)"
  from False assms(2) obtain k where i: "i = start + step * int k" and k: "k < nat (if start < stop then (stop - start - 1) div step + 1 else 0)"
    unfolding slice_indices_def Let_def if_not_P [OF False] start_def [symmetric] stop_def [symmetric] set_map by (elim imageE) (rule that, assumption, simp)
  then have lt: "start < stop" by (simp split: if_splits)
  with k have "int k \<le> (stop - start - 1) div step" by simp
  then have "step * int k < stop - start" using False assms(1) lt by (intro steps_below) simp_all
  moreover have "0 \<le> start" "stop \<le> int len" by (auto simp: start_def stop_def clip_def split: option.splits)
  moreover have "0 \<le> step * int k" using False by simp
  ultimately show ?thesis using i by auto
qed

section \<open>Properties\<close>

lemma sandbox_cases [consumes 1, case_names refused unparsed evaluated]:
  assumes "sandbox_execute parse ops expression bindings dispatch b w = (r, w')"
  obtains m where "r = violation m" "w' = w" "m \<noteq> ''sandbox operation budget exceeded''"
  | x where "r = Inl x" "w' = w" "parse expression = Inl x" "x \<noteq> SyntaxError"
  | body n' where "parse expression = Inr body" "int (ast_nodes body) < ss_max_ast_nodes b"
      "evaluate (evaluator ops dispatch bindings b) body (ss_max_operations b) w = (r, n', w')"
proof (cases "parse expression")
  case (Inl x)
  then show thesis
    using assms that(1,2) by (cases "x = SyntaxError") (auto simp: sandbox_execute_def split: if_split_asm exn.split_asm)
next
  case (Inr body)
  then show thesis
    using assms that(1,3) by (auto simp: sandbox_execute_def split: if_split_asm prod.split_asm)
qed


text \<open>
  C23 [sandbox_result_bounded]: when the bindings are I-JSON values whose canonical text has at most the size limit or
  five characters, so is every result, whatever the tools return and whatever the dispatch hook does.  The five
  characters are those of \<^verbatim>\<open>false\<close>: truth values are returned without the size check, so a limit below five does not
  hold for them.
\<close>

theorem sandbox_result_bounded:
  assumes "sandbox_execute parse ops expression bindings dispatch b w = (Inr v, w')"
    and "\<And>x u. dict_get bindings x = Some u \<Longrightarrow> \<exists>t. canonicalize_json u = Inr t \<and> int (length t) \<le> max 5 (ss_max_result_characters b)"
  shows "\<exists>t. canonicalize_json v = Inr t \<and> int (length t) \<le> max 5 (ss_max_result_characters b)"
  using assms(1)
proof (cases rule: sandbox_cases)
  case (evaluated body n')
  have "bindings_fit (evaluator ops dispatch bindings b)" using assms(2) by (auto simp: bindings_fit_def evaluator_def fits_limit_def)
  from evaluate_fits(1) [OF this evaluated(3)] show ?thesis by (simp add: fits_limit_def evaluator_def)
qed simp_all

lemma digit_text: "0 \<le> i \<Longrightarrow> i < 10 \<Longrightarrow> canonicalize_json (PInt i) = Inr [48 + nat i]"
  by (simp add: canonicalize_json_def serialize_integer_def MAX_SAFE_INTEGER_def dec_nat.simps dec_int_def)

text \<open>With a limit of three the expression \<^verbatim>\<open>not 1\<close> returns \<^verbatim>\<open>False\<close>, whose text has five characters.\<close>

lemma short_limit_exceeded:
  "sandbox_execute (\<lambda>_. Inr (UnaryOp NotOp (Constant (PInt 1)))) ops (lit ''not 1'') [] None
     \<lparr>ss_tools = [], ss_max_source_characters = 4096, ss_max_ast_nodes = 256, ss_max_operations = 1024, ss_max_result_characters = 3\<rparr> w
   = (Inr (PBool False), w) \<and> canonicalize_json (PBool False) = Inr (lit ''false'')"
  by (simp add: sandbox_execute_def evaluator_def spend_def and_then_def bounded_def digit_text literal_ok_def apply_unaryop_def truthy_def
      strip_def is_space_def lit_def canonicalize_json_def serialize_integer_def MAX_SAFE_INTEGER_def dec_int_def dec_nat.simps)

section \<open>An example\<close>

text \<open>A tool that adds one to its argument and counts its calls; the expression \<^verbatim>\<open>inc(x) + 1 if x else x\<close>.\<close>

definition inc_tool :: "nat tool" where
  "inc_tool args kwargs w = (case args of [PInt i] \<Rightarrow> (Inr (PInt (i + 1)), Suc w) | _ \<Rightarrow> (Inl (TypeError ''inc''), w))"

definition example_sandbox :: "nat StrictSandbox" where
  "example_sandbox = \<lparr>ss_tools = [(lit ''inc'', inc_tool)], ss_max_source_characters = 4096, ss_max_ast_nodes = 256,
     ss_max_operations = 1024, ss_max_result_characters = 65536\<rparr>"

definition example_expr :: expr where
  "example_expr = IfExp (Name (lit ''x'')) (BinOp (Call (Name (lit ''inc'')) [Name (lit ''x'')] [] []) Add (Constant (PInt 1))) (Name (lit ''x''))"

definition example_runtime :: runtime_ops where
  "example_runtime = \<lparr>ro_percent = (\<lambda>s v. None), ro_pow = (\<lambda>x y. None)\<rparr>"

lemma example_execution:
  "sandbox_execute (\<lambda>_. Inr example_expr) example_runtime (lit ''inc(x) + 1 if x else x'') [(lit ''x'', PInt 5)] None example_sandbox 0 = (Inr (PInt 7), 1)"
  by (simp add: sandbox_execute_def example_expr_def example_sandbox_def evaluator_def spend_def and_then_def callee_def bounded_def
      digit_text run_tool_def call_tool_def inc_tool_def is_starred_def supported_binop_def evaluate_binop_def apply_binop_def py_add_def
      numeric_def int_of_def truthy_def literal_ok_def SAFE_NAME_def ascii_letter_def strip_def is_space_def lit_def)


theorem sandbox_result_bounded_witness:
  "\<exists>t. canonicalize_json (PInt 7) = Inr t \<and> int (length t) \<le> max 5 (ss_max_result_characters example_sandbox)"
proof (rule sandbox_result_bounded [OF example_execution])
  show "\<exists>t. canonicalize_json u = Inr t \<and> int (length t) \<le> max 5 (ss_max_result_characters example_sandbox)"
    if "dict_get [(lit ''x'', PInt 5)] x = Some u" for x u
  proof -
    from that have "u = PInt 5" by (simp split: if_splits)
    then show ?thesis by (simp add: example_sandbox_def digit_text)
  qed
qed

end
