(* ===== verification/C8_Agent.thy ===== *)
theory C8_Agent
  imports C8_Sandbox C6_Capabilities
begin

text \<open>
  Token budgets and the agent kernel of \<^verbatim>\<open>c8_agent.py\<close>: charges and reservations against a limit, structured
  responses, identify-or-abstain, governed sandbox execution and the invocation of a model.  The model is a function of the
  prompt, the output limit and a state of the world; the tokenizer is a field of the budget; the identifier of a
  reservation is an argument, as \<^verbatim>\<open>uuid4\<close> draws it.
\<close>

section \<open>Token budgets\<close>

text \<open>
  \<^verbatim>\<open>\w+|[^\w\s]\<close>: a run of word characters, or one other character that is no white space.  Which characters are word
  characters is a parameter.
\<close>

lemma dropWhile_shorter: "length (dropWhile P r) < Suc (length r)"
  by (simp add: le_imp_less_Suc length_dropWhile_le)

function deterministic_token_count :: "(nat \<Rightarrow> bool) \<Rightarrow> pystr \<Rightarrow> int" where
  "deterministic_token_count word [] = 0"
| "deterministic_token_count word (c # r) =
     (if word c then 1 + deterministic_token_count word (dropWhile word r)
      else if is_space c then deterministic_token_count word r else 1 + deterministic_token_count word r)"
  by pat_completeness auto

termination
  by (relation "measure (length \<circ> snd)") (simp_all add: dropWhile_shorter)

record TokenCharge =
  tc_category :: pystr
  tc_tokens :: int

record BudgetReservation =
  br_reservation_id :: pystr
  br_category :: pystr
  br_tokens :: int

record TokenBudget =
  tb_limit :: int
  tb_tokenizer :: "pystr \<Rightarrow> pyval res"
  tb_used :: int
  tb_reservations :: "(pystr, BudgetReservation) dict"
  tb_charges :: "TokenCharge list"

text \<open>\<^verbatim>\<open>isinstance(n, int) and not isinstance(n, bool) and n >= 0\<close>\<close>

definition natural :: "pyval \<Rightarrow> int option" where
  "natural v = (case v of PInt i \<Rightarrow> if i < 0 then None else Some i | _ \<Rightarrow> None)"

definition new_budget :: "pyval \<Rightarrow> (pystr \<Rightarrow> pyval res) \<Rightarrow> TokenBudget res" where
  "new_budget limit tokenizer =
     (case natural limit of None \<Rightarrow> Inl (ValueError ''token limit must be a non-negative integer'')
      | Some n \<Rightarrow> Inr \<lparr>tb_limit = n, tb_tokenizer = tokenizer, tb_used = 0, tb_reservations = [], tb_charges = []\<rparr>)"

definition reserved :: "TokenBudget \<Rightarrow> int" where
  "reserved b = sum_list (map br_tokens (dict_values (tb_reservations b)))"

definition remaining :: "TokenBudget \<Rightarrow> int" where
  "remaining b = tb_limit b - tb_used b - reserved b"

definition budget_count :: "pystr \<Rightarrow> TokenBudget \<Rightarrow> int res" where
  "budget_count text b =
     (case tb_tokenizer b text of Inl x \<Rightarrow> Inl x
      | Inr v \<Rightarrow> (case natural v of None \<Rightarrow> Inl (ValueError ''tokenizer must return a non-negative integer'') | Some n \<Rightarrow> Inr n))"

definition charged :: "TokenCharge \<Rightarrow> TokenBudget \<Rightarrow> TokenBudget" where
  "charged c b = b\<lparr>tb_used := tb_used b + tc_tokens c, tb_charges := tb_charges b @ [c]\<rparr>"

definition budget_consume :: "pyval \<Rightarrow> pystr \<Rightarrow> TokenBudget \<Rightarrow> TokenCharge res \<times> TokenBudget" where
  "budget_consume tokens category b =
     (case natural tokens of None \<Rightarrow> (Inl (ValueError ''token charge must be a non-negative integer''), b)
      | Some n \<Rightarrow>
         if category = [] then (Inl (ValueError ''token category must be non-empty''), b)
         else if remaining b < n then (Inl (TokenBudgetExceeded ''tokens remain''), b)
         else let c = \<lparr>tc_category = category, tc_tokens = n\<rparr> in (Inr c, charged c b))"

definition budget_consume_text :: "pystr \<Rightarrow> pystr \<Rightarrow> TokenBudget \<Rightarrow> TokenCharge res \<times> TokenBudget" where
  "budget_consume_text text category b =
     (case budget_count text b of Inl x \<Rightarrow> (Inl x, b) | Inr n \<Rightarrow> budget_consume (PInt n) category b)"

definition budget_reserve :: "pystr \<Rightarrow> pyval \<Rightarrow> pystr \<Rightarrow> TokenBudget \<Rightarrow> BudgetReservation res \<times> TokenBudget" where
  "budget_reserve rid tokens category b =
     (case natural tokens of None \<Rightarrow> (Inl (ValueError ''reservation must be a non-negative integer''), b)
      | Some n \<Rightarrow>
         if remaining b < n then (Inl (TokenBudgetExceeded ''tokens remain''), b)
         else let v = \<lparr>br_reservation_id = rid, br_category = category, br_tokens = n\<rparr>
              in (Inr v, b\<lparr>tb_reservations := dict_set rid v (tb_reservations b)\<rparr>))"

definition budget_commit :: "BudgetReservation \<Rightarrow> pyval \<Rightarrow> TokenBudget \<Rightarrow> TokenCharge res \<times> TokenBudget" where
  "budget_commit v used b =
     (case natural used of None \<Rightarrow> (Inl (ValueError ''used token count must be a non-negative integer''), b)
      | Some n \<Rightarrow>
         if dict_get (tb_reservations b) (br_reservation_id v) \<noteq> Some v
         then (Inl (ValueError ''token reservation is unknown or already closed''), b)
         else if br_tokens v < n then (Inl (TokenBudgetExceeded ''model used tokens beyond its reservation''), b)
         else let c = \<lparr>tc_category = br_category v, tc_tokens = n\<rparr>
              in (Inr c, charged c (b\<lparr>tb_reservations := dict_del (br_reservation_id v) (tb_reservations b)\<rparr>)))"

definition budget_cancel :: "BudgetReservation \<Rightarrow> TokenBudget \<Rightarrow> TokenBudget" where
  "budget_cancel v b = b\<lparr>tb_reservations := dict_del (br_reservation_id v) (tb_reservations b)\<rparr>"

section \<open>Responses\<close>

datatype AgentDecision = Identify | Abstain

definition decision_value :: "AgentDecision \<Rightarrow> string" where
  "decision_value d = (case d of Identify \<Rightarrow> ''IDENTIFY'' | Abstain \<Rightarrow> ''ABSTAIN'')"

record AgentResponse =
  ar_decision :: AgentDecision
  ar_identity_id :: pyval
  ar_confidence :: pyfloat
  ar_reason :: pystr
  ar_content :: pyval

definition response_post_init :: "AgentResponse \<Rightarrow> AgentResponse res" where
  "response_post_init a =
     (if \<not> (float_le float_0 (ar_confidence a) \<and> float_le (ar_confidence a) float_1)
      then Inl (ValueError ''agent confidence must be between zero and one'')
      else if ar_reason a = [] then Inl (ValueError ''agent reason must be non-empty'')
      else if ar_decision a = Identify \<and> \<not> truthy (ar_identity_id a) then Inl (ValueError ''IDENTIFY requires identity_id'')
      else if ar_decision a = Abstain \<and> ar_identity_id a \<noteq> PNone then Inl (ValueError ''ABSTAIN cannot assert an identity'')
      else Inr a)"

text \<open>What a model returns as its response: an \<^verbatim>\<open>AgentResponse\<close>, or another value.\<close>

datatype model_response = Structured AgentResponse | Unstructured pyval

record ModelResult =
  mr_response :: model_response
  mr_output_tokens :: pyval

datatype model_output = Wrapped ModelResult | Bare model_response

text \<open>The parameters of \<^verbatim>\<open>float(text)\<close> and of \<^verbatim>\<open>str(value)\<close> for a value that is no text.\<close>

record text_ops =
  to_float_text :: "pystr \<Rightarrow> pyfloat option"
  to_str_value :: "pyval \<Rightarrow> pystr"

definition py_float :: "text_ops \<Rightarrow> pyval \<Rightarrow> pyfloat res" where
  "py_float ops v =
     (case v of PFloat f \<Rightarrow> Inr f
      | PStr s \<Rightarrow> (case to_float_text ops s of None \<Rightarrow> Inl (ValueError ''could not convert string to float'') | Some f \<Rightarrow> Inr f)
      | PBytes s \<Rightarrow> (case to_float_text ops s of None \<Rightarrow> Inl (ValueError ''could not convert string to float'') | Some f \<Rightarrow> Inr f)
      | _ \<Rightarrow> (case int_of v of None \<Rightarrow> Inl (TypeError ''float() argument must be a string or a real number'')
              | Some i \<Rightarrow> (case round64 (of_int i) of FFin x \<Rightarrow> Inr (FFin x) | _ \<Rightarrow> Inl OverflowError)))"

definition py_str :: "text_ops \<Rightarrow> pyval \<Rightarrow> pystr" where
  "py_str ops v = (case v of PStr s \<Rightarrow> s | _ \<Rightarrow> to_str_value ops v)"

definition coerce_decision :: "pystr \<Rightarrow> AgentDecision res" where
  "coerce_decision s =
     (if s = lit ''IDENTIFY'' then Inr Identify else if s = lit ''ABSTAIN'' then Inr Abstain
      else Inl (ValueError ''not a valid AgentDecision''))"

abbreviation item :: "(dkey \<times> pyval) list \<Rightarrow> string \<Rightarrow> pyval res" where
  "item kvs k \<equiv> (case dict_get kvs (KStr (lit k)) of None \<Rightarrow> Inl (KeyError (lit k)) | Some v \<Rightarrow> Inr v)"

definition structured_response :: "text_ops \<Rightarrow> (dkey \<times> pyval) list \<Rightarrow> AgentResponse res" where
  "structured_response ops kvs =
     (case item kvs ''decision'' of Inl x \<Rightarrow> Inl x
      | Inr d \<Rightarrow> (case coerce_decision (py_str ops d) of Inl x \<Rightarrow> Inl x
      | Inr decision \<Rightarrow>
         let identity = (case dict_get kvs (KStr (lit ''identityId'')) of Some v \<Rightarrow> v
                         | None \<Rightarrow> (case dict_get kvs (KStr (lit ''identity_id'')) of Some v \<Rightarrow> v | None \<Rightarrow> PNone)) in
        (case item kvs ''confidence'' of Inl x \<Rightarrow> Inl x
         | Inr c \<Rightarrow> (case py_float ops c of Inl x \<Rightarrow> Inl x
         | Inr confidence \<Rightarrow> (case item kvs ''reason'' of Inl x \<Rightarrow> Inl x
         | Inr reason \<Rightarrow> response_post_init \<lparr>ar_decision = decision, ar_identity_id = identity, ar_confidence = confidence,
             ar_reason = py_str ops reason,
             ar_content = (case dict_get kvs (KStr (lit ''content'')) of Some v \<Rightarrow> v | None \<Rightarrow> PNone)\<rparr>)))))"

definition coerce_response :: "text_ops \<Rightarrow> model_response \<Rightarrow> AgentResponse res" where
  "coerce_response ops m =
     (case m of Structured a \<Rightarrow> Inr a
      | Unstructured (PDict kvs) \<Rightarrow>
          (case structured_response ops kvs of
             Inl (KeyError _) \<Rightarrow> violation ''invalid structured agent response''
           | Inl (TypeError _) \<Rightarrow> violation ''invalid structured agent response''
           | Inl (ValueError _) \<Rightarrow> violation ''invalid structured agent response''
           | r \<Rightarrow> r)
      | Unstructured _ \<Rightarrow> violation ''agent model must return a structured response'')"

definition rendered_response :: "AgentResponse \<Rightarrow> pystr res" where
  "rendered_response a =
     canonicalize_json (obj [(''decision'', PStr (lit (decision_value (ar_decision a)))), (''identityId'', ar_identity_id a),
       (''confidence'', PFloat (ar_confidence a)), (''reason'', PStr (ar_reason a)), (''content'', ar_content a)])"

section \<open>The kernel\<close>

record 'w AgentKernel =
  ak_identity_registry :: IdentityRegistry
  ak_sandbox :: "'w StrictSandbox"
  ak_capability_authority :: "CapabilityAuthority option"
  ak_subject :: pystr

text \<open>\<^verbatim>\<open>outcome.reason\<close> is a literal of the registry; \<^verbatim>\<open>nfkc\<close> is the parameter of identifier normalization.\<close>

definition agent_identify_or_abstain ::
  "(pystr \<Rightarrow> pystr) \<Rightarrow> pystr \<Rightarrow> TokenBudget option \<Rightarrow> (pystr, pyfloat) dict option \<Rightarrow> pyfloat \<Rightarrow> pyfloat \<Rightarrow> 'w AgentKernel
     \<Rightarrow> AgentResponse res \<times> TokenBudget option" where
  "agent_identify_or_abstain nfkc identifier budget evidence minimum_confidence minimum_margin k =
     (case (case budget of None \<Rightarrow> (Inr (), None)
            | Some b \<Rightarrow> (case budget_consume_text identifier (lit ''identity-input'') b of (Inl x, b') \<Rightarrow> (Inl x, Some b') | (Inr _, b') \<Rightarrow> (Inr (), Some b'))) of
        (Inl x, budget') \<Rightarrow> (Inl x, budget')
      | (Inr _, budget') \<Rightarrow>
         (case resolve nfkc identifier evidence minimum_confidence minimum_margin (ak_identity_registry k) of Inl x \<Rightarrow> (Inl x, budget')
          | Inr outcome \<Rightarrow>
             (if ro_status outcome = IDENTIFIED
              then response_post_init \<lparr>ar_decision = Identify, ar_identity_id = (case ro_canonical_id outcome of None \<Rightarrow> PNone | Some i \<Rightarrow> PStr i),
                ar_confidence = ro_confidence outcome, ar_reason = lit (ro_reason outcome), ar_content = PNone\<rparr>
              else response_post_init \<lparr>ar_decision = Abstain, ar_identity_id = PNone, ar_confidence = ro_confidence outcome,
                ar_reason = lit (ro_reason outcome), ar_content = obj [(''candidates'', PList (map PStr (ro_candidates outcome)))]\<rparr>,
              budget')))"

text \<open>
  The capability check of \<^verbatim>\<open>execute_sandboxed\<close> and \<^verbatim>\<open>invoke\<close>: with no authority there is none; with one, a lease, named by its
  identifier, and a time are required, and one use of the lease is consumed.
\<close>

definition agent_gate ::
  "stop_heap \<Rightarrow> string \<Rightarrow> string \<Rightarrow> pystr option \<Rightarrow> datetime option \<Rightarrow> 'w AgentKernel \<Rightarrow> unit res \<times> 'w AgentKernel" where
  "agent_gate h capability complaint lease at_time k =
     (case ak_capability_authority k of None \<Rightarrow> (Inr (), k)
      | Some a \<Rightarrow>
         (case (lease, at_time) of
            (Some l, Some t) \<Rightarrow>
              (case require_aware ''at'' t of Inl x \<Rightarrow> (Inl x, k)
               | Inr instant \<Rightarrow>
                  (case authorize h l (lit capability) (ak_subject k) instant (Some (ak_subject k)) True a of
                     (Inl x, a') \<Rightarrow> (Inl x, k\<lparr>ak_capability_authority := Some a'\<rparr>)
                   | (Inr _, a') \<Rightarrow> (Inr (), k\<lparr>ak_capability_authority := Some a'\<rparr>)))
          | _ \<Rightarrow> (Inl (AuthorizationError complaint), k)))"

definition execute_sandboxed ::
  "stop_heap \<Rightarrow> (pystr \<Rightarrow> expr res) \<Rightarrow> runtime_ops \<Rightarrow> pystr \<Rightarrow> (pystr, pyval) dict \<Rightarrow> pystr option \<Rightarrow> datetime option
     \<Rightarrow> 'w AgentKernel \<Rightarrow> 'w \<Rightarrow> pyval res \<times> 'w AgentKernel \<times> 'w" where
  "execute_sandboxed h parse ops expression bindings lease at_time k w =
     (case agent_gate h ''agent:sandbox'' ''sandbox execution requires a capability lease and time'' lease at_time k of
        (Inl x, k') \<Rightarrow> (Inl x, k', w)
      | (Inr _, k') \<Rightarrow>
         (case sandbox_execute parse ops expression bindings None (ak_sandbox k') w of (r, w') \<Rightarrow> (r, k', w')))"

type_synonym 'w agent_model = "pystr \<Rightarrow> int \<Rightarrow> 'w \<Rightarrow> model_output res \<times> 'w"

text \<open>\<^verbatim>\<open>max(measured, declared or 0)\<close>, with an exception where a declared count cannot be compared.\<close>

definition output_usage :: "int \<Rightarrow> pyval \<Rightarrow> pyval res" where
  "output_usage measured declared =
     (if declared = PNone then Inr (PInt measured)
      else case py_order Lt declared (PInt measured) of None \<Rightarrow> Inl (TypeError ''not supported between instances'')
      | Some below \<Rightarrow>
         if below then Inl (TokenBudgetExceeded ''model-reported output usage is lower than deterministic measurement'')
         else if truthy declared \<and> py_order Gt declared (PInt measured) = Some True then Inr declared else Inr (PInt measured))"

definition model_result :: "model_output \<Rightarrow> ModelResult" where
  "model_result m = (case m of Wrapped r \<Rightarrow> r | Bare r \<Rightarrow> \<lparr>mr_response = r, mr_output_tokens = PNone\<rparr>)"

text \<open>What follows the model call in the \<^verbatim>\<open>try\<close> block: the response is coerced, rendered, measured and charged.\<close>

definition settle ::
  "text_ops \<Rightarrow> BudgetReservation \<Rightarrow> ModelResult \<Rightarrow> TokenBudget \<Rightarrow> AgentResponse res \<times> TokenBudget" where
  "settle ops v m b =
     (case coerce_response ops (mr_response m) of Inl x \<Rightarrow> (Inl x, b)
      | Inr response \<Rightarrow>
      (case rendered_response response of Inl x \<Rightarrow> (Inl x, b)
       | Inr rendered \<Rightarrow>
       (case budget_count rendered b of Inl x \<Rightarrow> (Inl x, b)
        | Inr measured \<Rightarrow>
        (case output_usage measured (mr_output_tokens m) of Inl x \<Rightarrow> (Inl x, b)
         | Inr used \<Rightarrow> (case budget_commit v used b of (Inl x, b') \<Rightarrow> (Inl x, b') | (Inr _, b') \<Rightarrow> (Inr response, b'))))))"

definition guarded_call ::
  "stop_heap \<Rightarrow> text_ops \<Rightarrow> 'w agent_model \<Rightarrow> pystr \<Rightarrow> int \<Rightarrow> pystr option \<Rightarrow> datetime option \<Rightarrow> BudgetReservation
     \<Rightarrow> 'w AgentKernel \<Rightarrow> TokenBudget \<Rightarrow> 'w \<Rightarrow> AgentResponse res \<times> 'w AgentKernel \<times> TokenBudget \<times> 'w" where
  "guarded_call h ops model prompt max_output_tokens lease at_time v k b w =
     (case agent_gate h ''agent:invoke'' ''agent invocation requires a capability lease and time'' lease at_time k of
        (Inl x, k') \<Rightarrow> (Inl x, k', b, w)
      | (Inr _, k') \<Rightarrow>
         (case model prompt max_output_tokens w of
            (Inl x, w') \<Rightarrow> (Inl x, k', b, w')
          | (Inr m, w') \<Rightarrow> (case settle ops v (model_result m) b of (r, b') \<Rightarrow> (r, k', b', w'))))"

definition invoke ::
  "stop_heap \<Rightarrow> text_ops \<Rightarrow> pystr \<Rightarrow> pystr \<Rightarrow> 'w agent_model \<Rightarrow> int \<Rightarrow> pystr option \<Rightarrow> datetime option
     \<Rightarrow> 'w AgentKernel \<Rightarrow> TokenBudget \<Rightarrow> 'w \<Rightarrow> AgentResponse res \<times> 'w AgentKernel \<times> TokenBudget \<times> 'w" where
  "invoke h ops rid prompt model max_output_tokens lease at_time k b w =
     (if max_output_tokens \<le> 0 then (Inl (ValueError ''max_output_tokens must be positive''), k, b, w)
      else case budget_consume_text prompt (lit ''model-input'') b of (Inl x, b1) \<Rightarrow> (Inl x, k, b1, w)
      | (Inr _, b1) \<Rightarrow>
         (case budget_reserve rid (PInt max_output_tokens) (lit ''model-output'') b1 of (Inl x, b2) \<Rightarrow> (Inl x, k, b2, w)
          | (Inr v, b2) \<Rightarrow>
             (case guarded_call h ops model prompt max_output_tokens lease at_time v k b2 w of
                (Inl x, k', b3, w') \<Rightarrow> (Inl x, k', budget_cancel v b3, w')
              | (Inr response, k', b3, w') \<Rightarrow> (Inr response, k', b3, w'))))"

section \<open>The budget invariant\<close>

definition budget_inv :: "TokenBudget \<Rightarrow> bool" where
  "budget_inv b \<longleftrightarrow> 0 \<le> tb_used b \<and> tb_used b + reserved b \<le> tb_limit b
     \<and> tb_used b = sum_list (map tc_tokens (tb_charges b)) \<and> list_all (\<lambda>c. 0 \<le> tc_tokens c) (tb_charges b)
     \<and> dict_ok (tb_reservations b) \<and> list_all (\<lambda>v. 0 \<le> br_tokens v) (dict_values (tb_reservations b))"

lemma sum_dict_set:
  "dict_ok d \<Longrightarrow> sum_list (map f (dict_values (dict_set k v d))) =
     sum_list (map f (dict_values d)) + f v - (case dict_get d k of None \<Rightarrow> 0 | Some u \<Rightarrow> (f u :: int))"
  by (induction d) (auto simp: AList.update.simps)

lemma sum_dict_del:
  "dict_ok d \<Longrightarrow> sum_list (map f (dict_values (dict_del k d))) =
     sum_list (map f (dict_values d)) - (case dict_get d k of None \<Rightarrow> 0 | Some u \<Rightarrow> (f u :: int))"
proof (induction d)
  case (Cons p d)
  moreover have "dict_get d (fst p) = None" using Cons.prems by (simp add: map_of_eq_None_iff)
  ultimately show ?case by (auto simp: AList.delete_simps)
qed simp

inductive budget_step :: "TokenBudget \<Rightarrow> TokenBudget \<Rightarrow> bool" where
  consumed: "budget_consume tokens category b = (r, b') \<Longrightarrow> budget_step b b'"
| text_consumed: "budget_consume_text text category b = (r, b') \<Longrightarrow> budget_step b b'"
| reserved: "budget_reserve rid tokens category b = (r, b') \<Longrightarrow> budget_step b b'"
| committed: "budget_commit v used b = (r, b') \<Longrightarrow> budget_step b b'"
| cancelled: "budget_step b (budget_cancel v b)"

lemma dict_get_value: "dict_get d k = Some v \<Longrightarrow> v \<in> set (dict_values d)"
  by (induction d) (auto split: if_splits)

lemma values_dict_set: "set (dict_values (dict_set k v d)) \<subseteq> insert v (set (dict_values d))"
  by (induction d) (auto simp: AList.update.simps)

lemma values_dict_del: "set (dict_values (dict_del k d)) \<subseteq> set (dict_values d)"
  by (auto simp: AList.delete_eq)

lemma natural_nonneg: "natural v = Some n \<Longrightarrow> 0 \<le> n"
  by (auto simp: natural_def split: pyval.splits if_splits)

text \<open>An operation leaves the budget as it is, or has passed all of its checks.\<close>

lemma consume_cases:
  assumes "budget_consume tokens category b = (r, b')"
  obtains (same) "b' = b" "\<exists>x. r = Inl x"
  | (new) n where "natural tokens = Some n" "0 \<le> n" "n \<le> remaining b" "b' = charged \<lparr>tc_category = category, tc_tokens = n\<rparr> b"
      "\<exists>c. r = Inr c"
proof (cases "\<exists>n. natural tokens = Some n \<and> category \<noteq> [] \<and> n \<le> remaining b")
  case True
  then obtain n where n: "natural tokens = Some n" "category \<noteq> []" "n \<le> remaining b" by blast
  then have "(\<exists>c. r = Inr c) \<and> b' = charged \<lparr>tc_category = category, tc_tokens = n\<rparr> b"
    using assms by (auto simp: budget_consume_def Let_def)
  then show thesis using new [OF n(1) natural_nonneg [OF n(1)] n(3)] by simp
next
  case False
  then have "b' = b \<and> (\<exists>x. r = Inl x)" using assms by (auto simp: budget_consume_def Let_def split: option.split_asm if_split_asm)
  then show thesis using same by simp
qed

lemma reserve_cases:
  assumes "budget_reserve rid tokens category b = (r, b')"
  obtains (same) "b' = b" "\<exists>x. r = Inl x"
  | (new) n where "natural tokens = Some n" "0 \<le> n" "n \<le> remaining b" "r = Inr \<lparr>br_reservation_id = rid, br_category = category, br_tokens = n\<rparr>"
      "b' = b\<lparr>tb_reservations := dict_set rid \<lparr>br_reservation_id = rid, br_category = category, br_tokens = n\<rparr> (tb_reservations b)\<rparr>"
proof (cases "\<exists>n. natural tokens = Some n \<and> n \<le> remaining b")
  case True
  then obtain n where n: "natural tokens = Some n" "n \<le> remaining b" by blast
  then show thesis using new [OF n(1) natural_nonneg [OF n(1)] n(2)] assms by (simp add: budget_reserve_def Let_def)
next
  case False
  then have "b' = b \<and> (\<exists>x. r = Inl x)" using assms by (auto simp: budget_reserve_def Let_def split: option.split_asm if_split_asm)
  then show thesis using same by simp
qed

lemma commit_cases:
  assumes "budget_commit v used b = (r, b')"
  obtains (same) "b' = b" "\<exists>x. r = Inl x"
  | (new) n where "natural used = Some n" "0 \<le> n" "n \<le> br_tokens v" "dict_get (tb_reservations b) (br_reservation_id v) = Some v"
      "b' = charged \<lparr>tc_category = br_category v, tc_tokens = n\<rparr> (b\<lparr>tb_reservations := dict_del (br_reservation_id v) (tb_reservations b)\<rparr>)"
proof (cases "\<exists>n. natural used = Some n \<and> n \<le> br_tokens v \<and> dict_get (tb_reservations b) (br_reservation_id v) = Some v")
  case True
  then obtain n where n: "natural used = Some n" "n \<le> br_tokens v" "dict_get (tb_reservations b) (br_reservation_id v) = Some v" by blast
  then show thesis using new [OF n(1) natural_nonneg [OF n(1)] n(2,3)] assms by (simp add: budget_commit_def Let_def)
next
  case False
  then have "b' = b \<and> (\<exists>x. r = Inl x)" using assms by (auto simp: budget_commit_def Let_def split: option.split_asm if_split_asm)
  then show thesis using same by simp
qed

lemma consume_inv:
  assumes "budget_inv b" "budget_consume tokens category b = (r, b')"
  shows "budget_inv b'" "tb_reservations b' = tb_reservations b"
  by (rule consume_cases [OF assms(2)]; use assms(1) in \<open>simp add: budget_inv_def charged_def remaining_def reserved_def\<close>)+

lemma consume_text_inv:
  assumes "budget_inv b" "budget_consume_text text category b = (r, b')"
  shows "budget_inv b'" "tb_reservations b' = tb_reservations b"
  using assms(2) consume_inv [OF assms(1)] assms(1) by (auto simp: budget_consume_text_def split: sum.splits)

lemma reserve_inv:
  assumes "budget_inv b" "budget_reserve rid tokens category b = (r, b')"
  shows "budget_inv b'"
proof (rule reserve_cases [OF assms(2)])
  fix n assume n: "0 \<le> n" "n \<le> remaining b"
    and b': "b' = b\<lparr>tb_reservations := dict_set rid \<lparr>br_reservation_id = rid, br_category = category, br_tokens = n\<rparr> (tb_reservations b)\<rparr>"
  let ?v = "\<lparr>br_reservation_id = rid, br_category = category, br_tokens = n\<rparr>"
  have tokens: "0 \<le> br_tokens u" if "u \<in> set (dict_values (tb_reservations b))" for u
    using assms(1) that unfolding budget_inv_def list_all_iff by blast
  then have "0 \<le> (case dict_get (tb_reservations b) rid of None \<Rightarrow> 0 | Some u \<Rightarrow> br_tokens u)"
    using dict_get_value [of "tb_reservations b" rid] by (simp split: option.splits)
  then have "reserved b' \<le> reserved b + n"
    using assms(1) by (simp add: b' reserved_def sum_dict_set budget_inv_def del: map_map)
  moreover have "list_all (\<lambda>v. 0 \<le> br_tokens v) (dict_values (tb_reservations b'))"
    unfolding list_all_iff
  proof
    fix u assume "u \<in> set (dict_values (tb_reservations b'))"
    then have "u \<in> insert ?v (set (dict_values (tb_reservations b)))"
      using values_dict_set [of rid ?v "tb_reservations b"] by (simp only: b') auto
    then show "0 \<le> br_tokens u" using tokens n(1) by auto
  qed
  ultimately show ?thesis using assms(1) n by (simp add: b' budget_inv_def remaining_def)
qed (use assms(1) in simp)

lemma release_inv:
  assumes "budget_inv b" "b' = b\<lparr>tb_reservations := dict_del rid (tb_reservations b)\<rparr>"
  shows "budget_inv b'" "reserved b' = reserved b - (case dict_get (tb_reservations b) rid of None \<Rightarrow> 0 | Some u \<Rightarrow> br_tokens u)"
proof -
  show r: "reserved b' = reserved b - (case dict_get (tb_reservations b) rid of None \<Rightarrow> 0 | Some u \<Rightarrow> br_tokens u)"
    using assms by (simp add: reserved_def sum_dict_del budget_inv_def del: map_map)
  have tokens: "0 \<le> br_tokens u" if "u \<in> set (dict_values (tb_reservations b))" for u
    using assms(1) that unfolding budget_inv_def list_all_iff by blast
  then have "0 \<le> (case dict_get (tb_reservations b) rid of None \<Rightarrow> 0 | Some u \<Rightarrow> br_tokens u)"
    using dict_get_value [of "tb_reservations b" rid] by (simp split: option.splits)
  moreover have "list_all (\<lambda>v. 0 \<le> br_tokens v) (dict_values (tb_reservations b'))"
    unfolding list_all_iff
  proof
    fix u assume "u \<in> set (dict_values (tb_reservations b'))"
    then have "u \<in> set (dict_values (tb_reservations b))" using values_dict_del [of rid "tb_reservations b"] by (simp only: assms(2)) auto
    then show "0 \<le> br_tokens u" by (rule tokens)
  qed
  ultimately show "budget_inv b'" using assms r by (simp add: budget_inv_def)
qed

lemma commit_inv:
  assumes "budget_inv b" "budget_commit v used b = (r, b')"
  shows "budget_inv b'"
proof (rule commit_cases [OF assms(2)])
  let ?d = "b\<lparr>tb_reservations := dict_del (br_reservation_id v) (tb_reservations b)\<rparr>"
  fix n assume n: "0 \<le> n" "n \<le> br_tokens v" "dict_get (tb_reservations b) (br_reservation_id v) = Some v"
    and b': "b' = charged \<lparr>tc_category = br_category v, tc_tokens = n\<rparr> ?d"
  note rel = release_inv [OF assms(1) refl, of "br_reservation_id v"]
  have "reserved ?d = reserved b - br_tokens v" using rel(2) n(3) by simp
  then have "reserved b' = reserved b - br_tokens v" by (simp add: b' charged_def reserved_def)
  then show ?thesis using rel(1) n(1,2) assms(1) by (simp add: b' budget_inv_def charged_def)
qed (use assms(1) in simp)

definition budget_init :: "TokenBudget \<Rightarrow> bool" where
  "budget_init b \<longleftrightarrow> (\<exists>limit tokenizer. new_budget limit tokenizer = Inr b)"

interpretation budget_sys: invariant_system budget_init budget_step budget_inv
proof
  show "budget_inv b" if "budget_init b" for b
    using that natural_nonneg by (fastforce simp: budget_init_def new_budget_def budget_inv_def reserved_def split: option.splits)
  show "budget_inv t" if "budget_inv s" "budget_step s t" for s t
    using that(2,1)
  proof cases
    case (consumed tokens category r)
    then show ?thesis using consume_inv(1) [OF that(1)] by simp
  next
    case (text_consumed tx category r)
    then show ?thesis using consume_text_inv(1) [OF that(1)] by simp
  next
    case (reserved rid tokens category r)
    then show ?thesis using reserve_inv [OF that(1)] by simp
  next
    case (committed v used r)
    then show ?thesis using commit_inv [OF that(1)] by simp
  next
    case (cancelled v)
    then show ?thesis using release_inv(1) [OF that(1) refl, of "br_reservation_id v"] by (simp add: budget_cancel_def)
  qed
qed

text \<open>
  C24 [budget_never_overspent]: over any history of charges, reservations, commitments and cancellations, from any number of
  threads, what is used and what is reserved stay within the limit, the remaining tokens are never negative, and the
  charges on record add up to the tokens used.
\<close>

theorem budget_never_overspent:
  assumes "new_budget limit tokenizer = Inr b0" "budget_step\<^sup>*\<^sup>* b0 b"
  shows "0 \<le> tb_used b \<and> 0 \<le> remaining b \<and> tb_used b \<le> tb_limit b \<and> tb_used b = sum_list (map tc_tokens (tb_charges b))"
proof -
  have "budget_init b0" using assms(1) by (auto simp: budget_init_def)
  from budget_sys.reachable_invar [OF this assms(2)] have inv: "budget_inv b" .
  then have "0 \<le> reserved b" unfolding reserved_def by (intro sum_list_nonneg) (auto simp: budget_inv_def list_all_iff)
  with inv show ?thesis by (auto simp: budget_inv_def remaining_def)
qed

section \<open>Invocations\<close>

lemma charged_sel [simp]:
  "tb_used (charged c b) = tb_used b + tc_tokens c" "tb_reservations (charged c b) = tb_reservations b"
  "tb_limit (charged c b) = tb_limit b" "tb_tokenizer (charged c b) = tb_tokenizer b"
  by (simp_all add: charged_def)

lemma count_cong: "tb_tokenizer b' = tb_tokenizer b \<Longrightarrow> budget_count t b' = budget_count t b"
  by (simp add: budget_count_def)

lemma consume_text_cases:
  assumes "budget_consume_text t category b = (r, b')"
  obtains (same) "b' = b" "\<exists>x. r = Inl x"
  | (new) n where "budget_count t b = Inr n" "b' = charged \<lparr>tc_category = category, tc_tokens = n\<rparr> b" "\<exists>c. r = Inr c"
proof (cases "budget_count t b")
  case (Inl x)
  then have "b' = b \<and> r = Inl x" using assms by (simp add: budget_consume_text_def)
  then show thesis using same by blast
next
  case (Inr m)
  then have "budget_consume (PInt m) category b = (r, b')" using assms by (simp add: budget_consume_text_def)
  then show thesis
  proof (cases rule: consume_cases)
    case (new n)
    then have "n = m" by (simp add: natural_def split: if_splits)
    then show thesis using that(2) [OF Inr] new(4,5) by simp
  qed (use same in simp)
qed

text \<open>A response the code accepts has passed the checks of its constructor.\<close>

lemma post_init_id: "response_post_init a = Inr c \<Longrightarrow> c = a \<and> response_post_init a = Inr a"
  by (auto simp: response_post_init_def split: if_splits)

lemma structured_response_ok: "structured_response ops kvs = Inr a \<Longrightarrow> response_post_init a = Inr a"
  by (auto simp: structured_response_def Let_def dest: post_init_id split: option.split_asm sum.split_asm)

lemma coerce_response_ok:
  assumes "coerce_response ops m = Inr a" "\<And>c. m = Structured c \<Longrightarrow> response_post_init c = Inr c"
  shows "response_post_init a = Inr a"
proof (cases m)
  case (Structured c)
  with assms show ?thesis by (simp add: coerce_response_def)
next
  case (Unstructured v)
  with assms(1) obtain kvs where "v = PDict kvs" "structured_response ops kvs = Inr a"
    by (auto simp: coerce_response_def split: pyval.split_asm sum.split_asm exn.split_asm)
  then show ?thesis using structured_response_ok by simp
qed

lemma output_usage_le:
  assumes "output_usage measured declared = Inr u" "natural u = Some n"
  shows "measured \<le> n"
proof (cases "u = PInt measured")
  case True
  with assms(2) show ?thesis by (simp add: natural_def split: if_splits)
next
  case False
  with assms(1) have "py_order Gt u (PInt measured) = Some True"
    by (auto simp: output_usage_def split: if_splits option.splits)
  moreover have "u = PInt n" using assms(2) by (auto simp: natural_def split: pyval.splits if_splits)
  ultimately show ?thesis by (simp add: py_order.simps exact_of_def int_of_def cmp_float_def)
qed

lemma settle_cases:
  assumes "settle ops v m b = (r, b')"
  obtains (failed) x where "r = Inl x" "b' = b"
  | (settled) a t measured n where "r = Inr a" "coerce_response ops (mr_response m) = Inr a" "rendered_response a = Inr t"
      "budget_count t b = Inr measured" "measured \<le> n" "n \<le> br_tokens v" "dict_get (tb_reservations b) (br_reservation_id v) = Some v"
      "b' = charged \<lparr>tc_category = br_category v, tc_tokens = n\<rparr> (b\<lparr>tb_reservations := dict_del (br_reservation_id v) (tb_reservations b)\<rparr>)"
proof (cases "\<exists>a t measured u. coerce_response ops (mr_response m) = Inr a \<and> rendered_response a = Inr t
    \<and> budget_count t b = Inr measured \<and> output_usage measured (mr_output_tokens m) = Inr u")
  case True
  then obtain a t measured u where s: "coerce_response ops (mr_response m) = Inr a" "rendered_response a = Inr t"
    "budget_count t b = Inr measured" "output_usage measured (mr_output_tokens m) = Inr u" by blast
  obtain c b2 where c: "budget_commit v u b = (c, b2)" by force
  from c show thesis
  proof (cases rule: commit_cases)
    case same
    then obtain x where "c = Inl x" by blast
    with same s c assms have "r = Inl x" "b' = b" by (simp_all add: settle_def)
    then show thesis by (rule failed)
  next
    case (new n)
    then obtain d where "c = Inr d" using c by (auto simp: budget_commit_def Let_def)
    then have "r = Inr a" "b' = b2" using assms s c by (simp_all add: settle_def)
    then show thesis using settled [OF _ s(1-3) output_usage_le [OF s(4) new(1)] new(3,4)] new(5) by simp
  qed
next
  case False
  have "(\<exists>x. r = Inl x) \<and> b' = b"
  proof (cases "coerce_response ops (mr_response m)")
    case (Inl x)
    then have "settle ops v m b = (Inl x, b)" by (simp add: settle_def)
    with assms show ?thesis by auto
  next
    case (Inr a)
    with False assms show ?thesis
      by (cases "rendered_response a") (auto simp: settle_def split: sum.split_asm)
  qed
  then show thesis using failed by blast
qed

lemma settle_inv: "budget_inv b \<Longrightarrow> settle ops v m b = (r, b') \<Longrightarrow> budget_inv b'"
  by (auto simp: settle_def dest: commit_inv split: sum.split_asm prod.split_asm)

text \<open>The state of the budget around a guarded call: the reservation is closed whatever happened.\<close>

lemma guarded_call_cases:
  assumes "guarded_call h ops model prompt mx lease at_time v k b w = (r, k', b', w')"
  defines "gate \<equiv> agent_gate h ''agent:invoke'' ''agent invocation requires a capability lease and time'' lease at_time k"
  obtains (refused) x where "gate = (Inl x, k')" "r = Inl x" "b' = b" "w' = w"
  | (failed) x where "gate = (Inr (), k')" "r = Inl x" "b' = b"
  | (settled) m where "gate = (Inr (), k')" "model prompt mx w = (Inr m, w')" "settle ops v (model_result m) b = (r, b')"
proof -
  obtain g k1 where g: "gate = (g, k1)" by force
  show thesis
  proof (cases g)
    case (Inl x)
    then show thesis using refused [of x] assms(1) g by (simp add: guarded_call_def gate_def)
  next
    case (Inr u)
    then have g1: "gate = (Inr (), k1)" using g by simp
    obtain y w1 where y: "model prompt mx w = (y, w1)" by force
    show thesis
    proof (cases y)
      case (Inl x)
      then show thesis using failed [of x] assms(1) g1 y by (simp add: guarded_call_def gate_def)
    next
      case (Inr m)
      obtain r2 b2 where st: "settle ops v (model_result m) b = (r2, b2)" by force
      then show thesis using settled [of m] assms(1) g1 y Inr by (simp add: guarded_call_def gate_def)
    qed
  qed
qed

definition gate_of :: "stop_heap \<Rightarrow> pystr option \<Rightarrow> datetime option \<Rightarrow> 'w AgentKernel \<Rightarrow> unit res" where
  "gate_of h lease at_time k =
     fst (agent_gate h ''agent:invoke'' ''agent invocation requires a capability lease and time'' lease at_time k)"

text \<open>What an invocation did to the budget: it charged nothing or the prompt when it failed, the prompt and the response when not.\<close>

definition settled_invocation :: "pystr \<Rightarrow> int \<Rightarrow> TokenBudget \<Rightarrow> AgentResponse res \<Rightarrow> TokenBudget \<Rightarrow> bool" where
  "settled_invocation prompt mx b r b' \<longleftrightarrow>
     (case r of
        Inl _ \<Rightarrow> tb_used b' = tb_used b \<or> (\<exists>n. budget_count prompt b = Inr n \<and> tb_used b' = tb_used b + n)
      | Inr a \<Rightarrow> (\<exists>n t measured u. budget_count prompt b = Inr n \<and> rendered_response a = Inr t \<and> budget_count t b = Inr measured
          \<and> measured \<le> u \<and> u \<le> mx \<and> tb_used b' = tb_used b + n + u))"

lemma closed_reservation:
  assumes "budget_inv b2" "b2 = b1\<lparr>tb_reservations := dict_set rid v (tb_reservations b1)\<rparr>" "dict_get (tb_reservations b1) rid = None"
  shows "budget_inv (b2\<lparr>tb_reservations := dict_del rid (tb_reservations b2)\<rparr>)"
    and "dict_get (dict_del rid (tb_reservations b2)) = dict_get (tb_reservations b1)"
  using release_inv(1) [OF assms(1) refl, of rid] assms(3) by (simp_all add: assms(2) fun_eq_iff)

lemma guarded_call_sound:
  assumes b2: "budget_inv b2" "b2 = b1\<lparr>tb_reservations := dict_set rid v (tb_reservations b1)\<rparr>"
    and fresh: "dict_get (tb_reservations b1) rid = None" and v: "br_reservation_id v = rid"
    and call: "guarded_call h ops model prompt mx lease at_time v k b2 w = (r, k', b3, w')"
  defines "b' \<equiv> (case r of Inl _ \<Rightarrow> budget_cancel v b3 | Inr _ \<Rightarrow> b3)"
  shows "budget_inv b' \<and> dict_get (tb_reservations b') = dict_get (tb_reservations b1)
    \<and> ((\<exists>x. r = Inl x) \<and> tb_used b' = tb_used b1 \<or>
       (\<exists>a m t measured u w1. r = Inr a \<and> model prompt mx w = (Inr m, w1) \<and> coerce_response ops (mr_response (model_result m)) = Inr a
          \<and> rendered_response a = Inr t \<and> budget_count t b1 = Inr measured \<and> measured \<le> u \<and> u \<le> br_tokens v \<and> tb_used b' = tb_used b1 + u))
    \<and> (gate_of h lease at_time k \<noteq> Inr () \<longrightarrow> w' = w \<and> (\<exists>x. r = Inl x))"
proof -
  note closed = closed_reservation [OF b2 fresh]
  have cancelled: "budget_inv (budget_cancel v b2)" "dict_get (tb_reservations (budget_cancel v b2)) = dict_get (tb_reservations b1)"
    "tb_used (budget_cancel v b2) = tb_used b1"
    using closed by (simp_all add: budget_cancel_def v) (simp add: b2(2))
  from call show ?thesis
  proof (cases rule: guarded_call_cases)
    case (refused x)
    then show ?thesis using cancelled by (simp add: b'_def)
  next
    case (failed x)
    then show ?thesis using cancelled by (simp add: b'_def gate_of_def)
  next
    case (settled m)
    note gate = settled(1) and called = settled(2)
    from settled(3) show ?thesis
    proof (cases rule: settle_cases)
      case (failed x)
      then show ?thesis using cancelled gate by (simp add: b'_def gate_of_def)
    next
      case (settled a t measured n)
      have "budget_inv b3" using b2(1) \<open>settle ops v (model_result m) b2 = (r, b3)\<close> by (rule settle_inv)
      moreover have "dict_get (tb_reservations b3) = dict_get (tb_reservations b1)" "tb_used b3 = tb_used b1 + n"
        using closed(2) by (simp_all add: settled(8) v) (simp add: b2(2))
      moreover have "budget_count t b1 = Inr measured" using settled(4) by (simp add: b2(2) budget_count_def)
      moreover have "gate_of h lease at_time k = Inr ()" using gate by (simp add: gate_of_def)
      ultimately show ?thesis using settled(1,2,3,5,6) called by (simp add: b'_def)
    qed
  qed
qed

text \<open>
  When a kernel may call its model: it has no authority, or a lease and an aware time were given and the authority grants one use
  of \<^verbatim>\<open>agent:invoke\<close> on the kernel's subject to this subject.
\<close>

definition invoke_allowed :: "stop_heap \<Rightarrow> pystr option \<Rightarrow> datetime option \<Rightarrow> 'w AgentKernel \<Rightarrow> bool" where
  "invoke_allowed h lease at_time k \<longleftrightarrow>
     (\<forall>a. ak_capability_authority k = Some a \<longrightarrow>
        (\<exists>l t granted a'. lease = Some l \<and> at_time = Some t \<and> dt_aware t
           \<and> authorize h l (lit ''agent:invoke'') (ak_subject k) t (Some (ak_subject k)) True a = (Inr granted, a')))"

lemma gate_of_iff: "gate_of h lease at_time k = Inr () \<longleftrightarrow> invoke_allowed h lease at_time k"
proof (cases "\<exists>a l t. ak_capability_authority k = Some a \<and> lease = Some l \<and> at_time = Some t \<and> dt_aware t")
  case True
  then obtain a l t where alt: "ak_capability_authority k = Some a" "lease = Some l" "at_time = Some t" "dt_aware t" by blast
  obtain r a' where "authorize h l (lit ''agent:invoke'') (ak_subject k) t (Some (ak_subject k)) True a = (r, a')" by force
  with alt show ?thesis by (cases r) (auto simp: gate_of_def agent_gate_def invoke_allowed_def)
next
  case False
  show ?thesis
  proof (cases "\<exists>a l t. ak_capability_authority k = Some a \<and> lease = Some l \<and> at_time = Some t")
    case True
    then obtain a l t where alt: "ak_capability_authority k = Some a" "lease = Some l" "at_time = Some t" by blast
    with False have "\<not> dt_aware t" by blast
    then obtain e where "require_aware ''at'' t = Inl e" by (cases "require_aware ''at'' t") auto
    with alt \<open>\<not> dt_aware t\<close> show ?thesis by (simp add: gate_of_def agent_gate_def invoke_allowed_def)
  next
    case False
    then show ?thesis by (auto simp: gate_of_def agent_gate_def invoke_allowed_def split: option.splits)
  qed
qed

lemma invoke_gated:
  assumes b: "budget_inv b" and fresh: "dict_get (tb_reservations b) rid = None"
    and model: "\<And>m w1 w2 a. model prompt mx w1 = (Inr m, w2) \<Longrightarrow> mr_response (model_result m) = Structured a \<Longrightarrow> response_post_init a = Inr a"
    and inv: "invoke h ops rid prompt model mx lease at_time k b w = (r, k', b', w')"
  shows "budget_inv b' \<and> dict_get (tb_reservations b') = dict_get (tb_reservations b) \<and> settled_invocation prompt mx b r b'
    \<and> (\<forall>a. r = Inr a \<longrightarrow> response_post_init a = Inr a) \<and> (gate_of h lease at_time k \<noteq> Inr () \<longrightarrow> w' = w \<and> (\<exists>x. r = Inl x))"
proof (cases "mx \<le> 0")
  case True
  with inv b show ?thesis by (auto simp: invoke_def settled_invocation_def)
next
  case pos: False
  obtain c b1 where c: "budget_consume_text prompt (lit ''model-input'') b = (c, b1)" by force
  note b1 = consume_text_inv [OF b c]
  from c show ?thesis
  proof (cases rule: consume_text_cases)
    case same
    then obtain x where "c = Inl x" by blast
    with inv pos c same b show ?thesis by (auto simp: invoke_def settled_invocation_def)
  next
    case (new n)
    note prompt = new(1)
    obtain d where d: "c = Inr d" using new(3) by blast
    have used1: "tb_used b1 = tb_used b + n" "tb_tokenizer b1 = tb_tokenizer b" by (simp_all add: new(2))
    obtain y b2 where rv: "budget_reserve rid (PInt mx) (lit ''model-output'') b1 = (y, b2)" by force
    have b2: "budget_inv b2" using b1(1) rv by (rule reserve_inv)
    from rv show ?thesis
    proof (cases rule: reserve_cases)
      case same
      then obtain x where "y = Inl x" by blast
      with inv pos c d rv same b1 used1 prompt show ?thesis by (auto simp: invoke_def settled_invocation_def)
    next
      case (new m)
      let ?v = "\<lparr>br_reservation_id = rid, br_category = lit ''model-output'', br_tokens = m\<rparr>"
      have m: "m = mx" using new(1) by (simp add: natural_def split: if_splits)
      obtain r3 k3 b3 w3 where g: "guarded_call h ops model prompt mx lease at_time ?v k b2 w = (r3, k3, b3, w3)" by (rule prod_cases4)
      then have res: "r = r3" "w' = w3" "b' = (case r3 of Inl _ \<Rightarrow> budget_cancel ?v b3 | Inr _ \<Rightarrow> b3)"
        using inv pos c d rv new(4) by (auto simp: invoke_def split: sum.split_asm)
      have fresh1: "dict_get (tb_reservations b1) rid = None" using fresh b1(2) by simp
      have "br_reservation_id ?v = rid" by simp
      note s = guarded_call_sound [OF b2 new(5) fresh1 this g, folded res(3), folded res(1,2)]
      from s have "settled_invocation prompt mx b r b'"
        using prompt used1 m by (auto simp: settled_invocation_def budget_count_def)
      moreover have "response_post_init a = Inr a" if "r = Inr a" for a
        using s that model coerce_response_ok by blast
      ultimately show ?thesis using s b1(2) by simp
    qed
  qed
qed

text \<open>
  C22 [invoke_sound]: an invocation of a model leaves no reservation behind and keeps the budget's invariant, whatever the model
  does; the model is called only when the kernel has no authority or its authority granted one use of
  \<^verbatim>\<open>agent:invoke\<close> on the lease and at the time given; a response is returned only when it has passed the
  checks of its constructor, and then the prompt and at least the measured size of the response, at most the reserved
  tokens, have been charged; a failure charges at most the prompt.
\<close>

theorem invoke_sound:
  assumes b: "budget_inv b" and fresh: "dict_get (tb_reservations b) rid = None"
    and model: "\<And>m w1 w2 a. model prompt mx w1 = (Inr m, w2) \<Longrightarrow> mr_response (model_result m) = Structured a \<Longrightarrow> response_post_init a = Inr a"
    and inv: "invoke h ops rid prompt model mx lease at_time k b w = (r, k', b', w')"
  shows "budget_inv b' \<and> dict_get (tb_reservations b') = dict_get (tb_reservations b) \<and> settled_invocation prompt mx b r b'
    \<and> (\<forall>a. r = Inr a \<longrightarrow> response_post_init a = Inr a) \<and> (\<not> invoke_allowed h lease at_time k \<longrightarrow> w' = w \<and> (\<exists>x. r = Inl x))"
  unfolding gate_of_iff [symmetric] by (rule invoke_gated [OF b fresh _ inv]) (rule model)

section \<open>An example\<close>

text \<open>A model that abstains, with a tokenizer that counts three tokens for every text, and no capability authority.\<close>

definition example_tokenizer :: "pystr \<Rightarrow> pyval res" where
  "example_tokenizer t = Inr (PInt 3)"

definition example_budget :: TokenBudget where
  "example_budget = \<lparr>tb_limit = 500, tb_tokenizer = example_tokenizer, tb_used = 0, tb_reservations = [], tb_charges = []\<rparr>"

definition abstention :: AgentResponse where
  "abstention = \<lparr>ar_decision = Abstain, ar_identity_id = PNone, ar_confidence = float_0, ar_reason = lit ''r'', ar_content = PNone\<rparr>"

definition example_model :: "nat agent_model" where
  "example_model prompt mx w = (Inr (Bare (Structured abstention)), Suc w)"

definition example_kernel :: "nat AgentKernel" where
  "example_kernel = \<lparr>ak_identity_registry = example_registry, ak_sandbox = example_sandbox, ak_capability_authority = None,
     ak_subject = lit ''agent''\<rparr>"

definition agent_heap :: stop_heap where
  "agent_heap n = \<lparr>sea_epoch = 0, sea_history = [], sea_guard_dispatch = (\<lambda>_. Inr ())\<rparr>"

definition example_text_ops :: text_ops where
  "example_text_ops = \<lparr>to_float_text = (\<lambda>s. None), to_str_value = (\<lambda>v. [])\<rparr>"

lemma example_new_budget: "new_budget (PInt 500) example_tokenizer = Inr example_budget"
  by (simp add: new_budget_def natural_def example_budget_def)

theorem budget_never_overspent_witness:
  "\<exists>b. budget_step\<^sup>*\<^sup>* example_budget b \<and> tb_used b = 7 \<and> 0 \<le> remaining b"
proof -
  let ?b = "charged \<lparr>tc_category = lit ''c'', tc_tokens = 7\<rparr> example_budget"
  have "budget_consume (PInt 7) (lit ''c'') example_budget = (Inr \<lparr>tc_category = lit ''c'', tc_tokens = 7\<rparr>, ?b)"
    by (simp add: budget_consume_def natural_def remaining_def reserved_def example_budget_def Let_def)
  then have run: "budget_step\<^sup>*\<^sup>* example_budget ?b" by (intro r_into_rtranclp budget_step.consumed)
  with budget_never_overspent [OF example_new_budget run] show ?thesis by (auto simp: example_budget_def)
qed

lemma example_rendered: "\<exists>t. rendered_response abstention = Inr t"
  by (simp add: rendered_response_def canonicalize_json_iff abstention_def decision_value_def)

lemma example_invoke:
  "\<exists>b'. invoke agent_heap example_text_ops (lit ''i'') (lit ''hello'') example_model 100 None None example_kernel example_budget 0 =
     (Inr abstention, example_kernel, b', 1)"
proof -
  obtain t where "rendered_response abstention = Inr t" using example_rendered by blast
  then show ?thesis
    by (simp add: invoke_def budget_consume_text_def budget_count_def example_budget_def example_tokenizer_def natural_def budget_consume_def
        remaining_def reserved_def charged_def Let_def budget_reserve_def guarded_call_def agent_gate_def example_kernel_def example_model_def
        settle_def model_result_def coerce_response_def output_usage_def budget_commit_def)
qed

theorem invoke_sound_witness:
  "\<exists>b'. invoke agent_heap example_text_ops (lit ''i'') (lit ''hello'') example_model 100 None None example_kernel example_budget 0 =
       (Inr abstention, example_kernel, b', 1)
     \<and> budget_inv b' \<and> settled_invocation (lit ''hello'') 100 example_budget (Inr abstention) b'"
proof -
  have inv: "budget_inv example_budget" by (simp add: budget_inv_def example_budget_def reserved_def)
  have fresh: "dict_get (tb_reservations example_budget) (lit ''i'') = None" by (simp add: example_budget_def)
  have model: "response_post_init a = Inr a"
    if "example_model (lit ''hello'') 100 w1 = (Inr m, w2)" "mr_response (model_result m) = Structured a" for m w1 w2 a
  proof -
    from that have "a = abstention" by (auto simp: example_model_def model_result_def)
    then show ?thesis by (simp add: response_post_init_def abstention_def float_le_def)
  qed
  obtain b' where i: "invoke agent_heap example_text_ops (lit ''i'') (lit ''hello'') example_model 100 None None example_kernel example_budget 0 =
      (Inr abstention, example_kernel, b', 1)" using example_invoke by blast
  from invoke_sound [OF inv fresh _ i] model i show ?thesis by blast
qed

end
