(* ===== verification/Spec2Isabelle.thy ===== *)
theory Spec2Isabelle
  imports C3_Store C4_Marking C5_Actions C6_Capabilities C2_Identity C7_Emission C6_HumanGate Kernel_Canonical Kernel_Context Kernel_Governance C6_Safety C6_Engine Json_Depth C5_Backbone C5_Operations C8_Sandbox C8_Agent
begin

text \<open>
  A verification development of the OCOR reference runtime, \<^verbatim>\<open>src/ocor-runtime/src/ocor_runtime\<close>.

  \<^bold>\<open>The program.\<close>  OCOR is a runtime for governed actions.  Callers are identified against a registry (C2), their
  authority is a ledger of delegable capability leases (C6), data carries markings ordered by lattices (C4), an
  action moves through an audited state machine (C5), its result is written with its event in one transaction
  (C3) and leaves through an emission fence (C7).  Events travel on a Kafka topic with quotas, dead letters and
  replay around it (C5), and an agent kernel runs models and sandboxed expressions within token budgets (C8).  A
  human gate, an emergency stop, break-glass grants and the reconciliation of ambiguous outcomes guard the path
  (C6), and a kernel fixes canonical JSON, digests, timestamps, governed contexts, authorities and one-shot leases
  for all of them.  The components call one another: the fence reads the store and the authority, the authority
  asks the emergency stop, the engine calls authority, store and fence.

  \<^bold>\<open>Foundations.\<close>
  \<^item> \<open>Prelude\<close>: text as code points, dictionaries as association lists in insertion order, results as sums; the
    locales \<open>invariant_system\<close> (what initial states have and steps keep) and \<open>monotone_system\<close> (relations that only
    grow along a run), which the components interpret on their step relations.
  \<^item> \<open>Errors\<close> (\<^verbatim>\<open>errors.py\<close>): every exception as a constructor, with the subclass tests handlers use.
  \<^item> \<open>PyTime\<close>, \<open>PyValue\<close>, \<open>Sha256\<close>: \<^verbatim>\<open>datetime\<close> as microseconds and zone, Python values with \<^verbatim>\<open>==\<close>, binary64 rounding and
    shortest decimals, and SHA-256 on 32-bit words; all executable.

  \<^bold>\<open>Components, one theory each.\<close>
  \<^item> \<open>Canonical\<close> (\<^verbatim>\<open>canonical.py\<close>): RFC 8785 serialization.  It succeeds exactly on I-JSON and does not depend on member
    order.
  \<^item> \<open>Json_Text\<close>, \<open>Json_Float\<close>, \<open>Json_Codec\<close>, \<open>Json_Bytes\<close>, \<open>Json_Depth\<close> (\<^verbatim>\<open>load_i_json\<close> of \<^verbatim>\<open>canonical.py\<close> and the \<^verbatim>\<open>json\<close> module it calls): the
    scanner with its hooks, \<^verbatim>\<open>loads\<close> and \<^verbatim>\<open>dumps\<close>, encodings.  The strict parser always returns a canonicalizable value or
    \<^verbatim>\<open>CanonicalizationError\<close>, or \<^verbatim>\<open>RecursionError\<close> on a document nested deeper than the stack allows (\<open>Json_Depth\<close>); two values with
    one digest are the same JSON document or exhibit a SHA-256 collision; canonical text is read back with the same digest, which rests on the theorem that a
    shortest decimal of at most 17 digits reads back as the same float.
  \<^item> \<open>C3_Store\<close> (\<^verbatim>\<open>c3_store.py\<close>): the aggregate store and outbox.  A write is all or nothing in every crash window, its
    retry replays, reachable stores are atomic and append-only, the outbox is in version order.
  \<^item> \<open>C4_Marking\<close> (\<^verbatim>\<open>c4_marking.py\<close>): marking schemes.  The closure loop ends with the reflexive-transitive closure or an
    error, join and meet are bounds, joins never downgrade, disclosure needs clearance.
  \<^item> \<open>C5_Actions\<close> (\<^verbatim>\<open>c5_actions.py\<close>): the action state machine and its hash-chained history.  Reachable histories verify
    and are legal, equal head hashes mean equal histories or a collision, every action can finish.
  \<^item> \<open>C5_Backbone\<close> (\<^verbatim>\<open>c5/backbone.py\<close>): the event topic.  With any broker that behaves as \<open>kafka_ok\<close> says, on which records
    expire and an exit code proves nothing about a write, what is on the topic stays readable, keys unique and sequences increasing
    over restarts, refusals and lost acknowledgements; an instance does not send an acknowledged event again.  Left out of the
    histories are envelopes that cannot be written as one line and read back, and writes killed at their time limit that reach
    the topic, which can be repeated (\<open>timed_out_write_duplicates\<close>).
  \<^item> \<open>C5_Operations\<close> (\<^verbatim>\<open>c5/operations.py\<close>): quota, dead letters, poison quarantine and replay, with the threads' sections
    interleaved, on any backbone.  The quota and the quarantine hold in every interleaving; a replay writes only what passes the
    checks of a fresh publication.
  \<^item> \<open>C6_Capabilities\<close> (\<^verbatim>\<open>c6_capabilities.py\<close>): capability leases.  A use is within every ancestor, usage limits hold,
    revocation is final.
  \<^item> \<open>C2_Identity\<close> (\<^verbatim>\<open>c2_identity.py\<close>): the registry and the identify-or-abstain resolver.
  \<^item> \<open>C7_Emission\<close> (\<^verbatim>\<open>c7_emission.py\<close>): the fence.  Deliveries are once and in order, through all gates, and a drain
    empties the outbox.
  \<^item> \<open>C6_HumanGate\<close> (\<^verbatim>\<open>c6/human_gate.py\<close>): the gate decides exactly its policy; the augmenting-path search ends and
    finds a system of distinct signers whenever there is one.
  \<^item> \<open>Kernel_Canonical\<close>, \<open>Kernel_Context\<close>, \<open>Kernel_Governance\<close> (\<^verbatim>\<open>kernel/\<close>): digests, canonical sets, UTC timestamps with their
    round trip; governed contexts with codecs, read back from their own bytes, and admission; typed faults, Authority evaluation, leases of at
    most five seconds, consumption once over any lease-state port (locale \<open>lease_state_port\<close>, interpreted on the
    in-memory state), evidence and provenance.
  \<^item> \<open>C6_Safety\<close> (\<^verbatim>\<open>c6/safety.py\<close>): the emergency stop refines a counter; it provides the protocol
    of locale \<open>stop_epoch_port\<close> on which a capability authority relies, so a lease fenced to an earlier epoch stays dead
    after a reset; break-glass uses are sound and final; ambiguous outcomes are never retried on their own.
  \<^item> \<open>C6_Engine\<close> (\<^verbatim>\<open>c6/engine.py\<close>): execution through authority, human gate, decision, commit and fence; one effect for
    one action over any history.
  \<^item> \<open>C8_Sandbox\<close>, \<open>C8_Agent\<close> (\<^verbatim>\<open>c8_agent.py\<close>): the expression evaluator with Python's operators, token budgets and the agent
    kernel.  An execution is confined to registered tools and its budget, results are bounded I-JSON; a budget is
    never overspent; a model is called behind its gate and settled within its reservation.

  \<^bold>\<open>Conventions.\<close>  A method of a stateful class is a function from its arguments and state to a result and the state
  after it, and every raise is a branch.  An operation is one step, as if it held its lock throughout; this also goes for calls that take a lock several times, such as
  \<^verbatim>\<open>issue\<close> of \<^verbatim>\<open>c6_capabilities.py\<close>.  Only \<open>C5_Operations\<close> splits its calls into their sections.  Values the code draws from its
  environment (clocks, \<^verbatim>\<open>uuid4\<close>, the sink, the audit store, the stop controller an authority is bound to) are
  arguments.  Parameters stand for code outside the sources: NFKC normalization and the iteration order of sets
  (\<open>C2_Identity\<close>), the Kafka command line tools with the broker behind them (\<open>C5_Backbone\<close>), the syntax parser, printf-style
  formatting and the C library's \<^verbatim>\<open>pow\<close> (\<open>C8_Sandbox\<close>; the parser may also raise), models, tools and tokenizers (\<open>C8_Agent\<close>).  Messages keep their literal part only.

  \<^bold>\<open>Bounds and fuel.\<close>  Loops are structural, have a \<open>termination\<close> proof, or run on fuel that is shown to be enough: the closure
  rounds of a marking scheme, the recursion of the role assignment and the JSON scanner, which has twice the length of
  its text and two, give a proper answer, never the value \<open>NoReturn\<close>.  Digests are treated as collision resistant
  only where a statement says so: theorems about identity exhibit the colliding inputs, and histories of stores
  and engines exclude a collision of event identifiers.  The limits of the interpreter, recursion depth and memory, are modelled in
  \<open>Json_Depth\<close> only; elsewhere calls are taken to fit.  A time zone is a fixed offset from UTC, and \<^verbatim>\<open>strftime\<close> pads \<^verbatim>\<open>%Y\<close> to four digits
  as documented.

  \<^bold>\<open>Not modelled.\<close>  Schema validation (a library); the adapters to databases, workflow engines and triple stores, whose
  behaviour is in those services, and the provisioning of test brokers; the memory and security packages, the C1
  compiler, the tool runtime and orchestrator of C8, and the service layers of C2 to C4 and C7; deployment,
  scripts, spikes and the SDK.  The manifest lists each of them.
\<close>

end
